(* ===== verification/Rx_Prelude.thy ===== *)
theory Rx_Prelude
  imports Main "HOL-Library.Word"
begin

text \<open>
  Shared vocabulary of the development: the machine-level types of the engine (UTF-16 code
  units, code points, slot vectors), the saturating operations the Rust code uses, and the
  generic list lemmas the component theories rely on.

  Code units (\<open>u16\<close>), code points (\<open>u32\<close>) and offsets (\<open>usize\<close>) are natural
  numbers. Wherever the source relies on the width of a type (saturating and checked
  arithmetic, the 128-bit bitmap, the step counter) the width is written out.
\<close>

type_synonym code_unit = nat
type_synonym code_point = nat
type_synonym slots = "nat option list"

definition u32_max :: nat where
  "u32_max = 4294967295"

definition saturating_add_u32 :: "nat \<Rightarrow> nat \<Rightarrow> nat" where
  "saturating_add_u32 a b = min (a + b) u32_max"

text \<open>The largest code point, \<open>MAX_CP\<close> of \<open>classes.rs\<close>.\<close>

definition MAX_CP :: nat where
  "MAX_CP = 0x10FFFF"

named_theorems cps_laws \<open>membership laws of code-point sets\<close>
named_theorems inv_intros \<open>invariant preservation\<close>

text \<open>Rust's checked indexing: \<open>None\<close> when the index is out of range.\<close>

definition get_at :: "'a list \<Rightarrow> nat \<Rightarrow> 'a option" where
  "get_at xs i = (if i < length xs then Some (xs ! i) else None)"

lemma get_at_Some_iff [simp]: "get_at xs i = Some x \<longleftrightarrow> i < length xs \<and> xs ! i = x"
  by (auto simp: get_at_def)

lemma get_at_None_iff [simp]: "get_at xs i = None \<longleftrightarrow> length xs \<le> i"
  by (auto simp: get_at_def)

text \<open>The surrogate ranges, and the combination of a surrogate pair.\<close>

definition is_high_surrogate :: "nat \<Rightarrow> bool" where
  "is_high_surrogate u \<longleftrightarrow> 0xD800 \<le> u \<and> u \<le> 0xDBFF"

definition is_low_surrogate :: "nat \<Rightarrow> bool" where
  "is_low_surrogate u \<longleftrightarrow> 0xDC00 \<le> u \<and> u \<le> 0xDFFF"

definition combine_surrogates :: "nat \<Rightarrow> nat \<Rightarrow> nat" where
  "combine_surrogates hi lo = 0x10000 + (hi - 0xD800) * 1024 + (lo - 0xDC00)"

lemma combine_surrogates_bounds:
  assumes "is_high_surrogate hi" and "is_low_surrogate lo"
  shows "0x10000 \<le> combine_surrogates hi lo" and "combine_surrogates hi lo \<le> MAX_CP"
  using assms
  by (auto simp: is_high_surrogate_def is_low_surrogate_def combine_surrogates_def MAX_CP_def)

text \<open>A \<open>char\<close> of Rust is a Unicode scalar value; \<open>char::from_u32\<close> rejects the rest.\<close>

definition is_scalar_value :: "nat \<Rightarrow> bool" where
  "is_scalar_value cp \<longleftrightarrow> cp < 0xD800 \<or> (0xDFFF < cp \<and> cp \<le> MAX_CP)"

text \<open>A subject or pattern is a list of 16-bit units.\<close>

definition utf16 :: "code_unit list \<Rightarrow> bool" where
  "utf16 us \<longleftrightarrow> list_all (\<lambda>u. u < 0x10000) us"

lemma utf16_nth: "utf16 us \<Longrightarrow> i < length us \<Longrightarrow> us ! i < 0x10000"
  by (simp add: utf16_def list_all_length)

lemma utf16_get_at: "utf16 us \<Longrightarrow> get_at us i = Some u \<Longrightarrow> u < 0x10000"
  by (auto simp: utf16_nth)

text \<open>Generic facts on lists.\<close>

lemma last_conv_snoc: "xs \<noteq> [] \<Longrightarrow> butlast xs @ [last xs] = xs"
  by simp

lemma concat_map_singleton [simp]: "concat (map (\<lambda>x. [f x]) xs) = map f xs"
  by (induction xs) auto

lemma concat_map_if_Nil: "concat (map (\<lambda>x. if P x then [] else f x) xs)
    = concat (map f (filter (\<lambda>x. \<not> P x) xs))"
  by (induction xs) auto

lemma concat_map_concat: "concat (map f (concat xss)) = concat (map (\<lambda>xs. concat (map f xs)) xss)"
  by (induction xss) auto

end
