(* ===== verification/Rx_Casefold.thy ===== *)
theory Rx_Casefold
  imports Rx_Prelude
begin

text \<open>
  The flag record of \<open>flags.rs\<close> and the case-folding functions of \<open>casefold.rs\<close>.
  Unicode Simple Case Folding lives in the ICU4X crate; it is the parameter
  \<open>simple_fold\<close> of the definitions that use it. The locale states what a client of a
  fold relies on; it is interpreted by the ASCII fold of the crate.
\<close>

record flags =
  ignore_case :: bool
  multiline :: bool
  dot_all :: bool
  unicode :: bool
  unicode_sets :: bool

definition default_flags :: flags where
  "default_flags =
    \<lparr>ignore_case = False, multiline = False, dot_all = False, unicode = False, unicode_sets = False\<rparr>"

definition is_unicode_mode :: "flags \<Rightarrow> bool" where
  "is_unicode_mode f \<longleftrightarrow> unicode f \<or> unicode_sets f"

definition set_flag_char :: "flags \<Rightarrow> char \<Rightarrow> flags" where
  "set_flag_char f c =
    (if c = CHR ''i'' then f\<lparr>ignore_case := True\<rparr>
     else if c = CHR ''m'' then f\<lparr>multiline := True\<rparr>
     else if c = CHR ''s'' then f\<lparr>dot_all := True\<rparr>
     else if c = CHR ''u'' then f\<lparr>unicode := True\<rparr>
     else if c = CHR ''v'' then f\<lparr>unicode_sets := True\<rparr>
     else f)"

definition from_str_lossy :: "string \<Rightarrow> flags" where
  "from_str_lossy s = foldl set_flag_char default_flags s"

text \<open>ASCII fold: upper-case letters become lower-case.\<close>

definition canonicalize :: "code_point \<Rightarrow> code_point" where
  "canonicalize cp = (if 0x41 \<le> cp \<and> cp \<le> 0x5A then cp + 0x20 else cp)"

text \<open>Unicode fold: non-scalar values fold to themselves, the rest is ICU's simple fold.\<close>

definition fold_unicode :: "(code_point \<Rightarrow> code_point) \<Rightarrow> code_point \<Rightarrow> code_point" where
  "fold_unicode simple_fold cp = (if is_scalar_value cp then simple_fold cp else cp)"

definition ascii_other_case :: "code_point \<Rightarrow> code_point" where
  "ascii_other_case cp =
    (if 0x41 \<le> cp \<and> cp \<le> 0x5A then cp + 0x20
     else if 0x61 \<le> cp \<and> cp \<le> 0x7A then cp - 0x20
     else cp)"

text \<open>What a matcher relies on: folding twice is folding once.\<close>

locale case_fold =
  fixes canon :: "code_point \<Rightarrow> code_point"
  assumes canon_idem: "canon (canon c) = canon c"
begin

definition eq_fold :: "code_point \<Rightarrow> code_point \<Rightarrow> bool" where
  "eq_fold a b \<longleftrightarrow> canon a = canon b"

lemma eq_fold_refl: "eq_fold a a"
  by (simp add: eq_fold_def)

lemma eq_fold_trans: "eq_fold a b \<Longrightarrow> eq_fold b c \<Longrightarrow> eq_fold a c"
  by (simp add: eq_fold_def)

lemma eq_fold_canon: "eq_fold a (canon a)"
  by (simp add: eq_fold_def canon_idem)

lemma canon_mem_image: "c \<in> S \<Longrightarrow> eq_fold c d \<Longrightarrow> canon d \<in> canon ` S"
  by (metis eq_fold_def imageI)

end

interpretation ascii_fold: case_fold canonicalize
  by unfold_locales (auto simp: canonicalize_def)

lemma ascii_other_case_invol [simp]: "ascii_other_case (ascii_other_case c) = c"
  by (auto simp: ascii_other_case_def)

lemma ascii_other_case_ascii [simp]: "ascii_other_case c < 128 \<longleftrightarrow> c < 128"
  by (auto simp: ascii_other_case_def)

text \<open>Two code points have the same ASCII fold exactly when they are equal or the two cases of
  one letter: the bridge between the fold the matcher uses for literals and the opposite-case
  probe it uses for classes.\<close>

lemma canonicalize_eq_iff: "canonicalize a = canonicalize b \<longleftrightarrow> a = b \<or> a = ascii_other_case b"
  by (auto simp: canonicalize_def ascii_other_case_def)

lemma canonicalize_other_case [simp]: "canonicalize (ascii_other_case c) = canonicalize c"
  by (simp add: canonicalize_eq_iff)

end
