(* ===== verification/Rx_Classes.thy ===== *)
theory Rx_Classes
  imports Rx_Casefold
begin

unbundle bit_operations_syntax

text \<open>
  \<open>classes.rs\<close>: \<open>CodePointSet\<close>, a sorted list of disjoint inclusive ranges, and
  \<open>ClassSet\<close>, which adds the multi-code-point strings of \<open>v\<close>-mode classes and the
  ASCII bitmap. The abstract value of a \<open>CodePointSet\<close> is a set of code points; every
  operation is shown to keep the representation invariant and to compute the set operation
  it is named after. The locale \<open>cps_algebra\<close> is the interface the rest of the engine uses.
\<close>

section \<open>CodePointSet\<close>

type_synonym cp_range = "code_point \<times> code_point"

record code_point_set =
  ranges :: "cp_range list"

definition cps_new :: code_point_set where
  "cps_new = \<lparr>ranges = []\<rparr>"

definition cps_is_empty :: "code_point_set \<Rightarrow> bool" where
  "cps_is_empty s \<longleftrightarrow> ranges s = []"

text \<open>The merge loop of \<open>normalize\<close>: \<open>merged\<close> is the output vector, its last element
  is the range that the next one may extend.\<close>

fun merge_loop :: "cp_range list \<Rightarrow> cp_range list \<Rightarrow> cp_range list" where
  "merge_loop merged [] = merged"
| "merge_loop merged (r # rs) =
    (if merged \<noteq> [] \<and> fst r \<le> saturating_add_u32 (snd (last merged)) 1
     then (if snd (last merged) < snd r
           then merge_loop (butlast merged @ [(fst (last merged), snd r)]) rs
           else merge_loop merged rs)
     else merge_loop (merged @ [r]) rs)"

definition normalize :: "code_point_set \<Rightarrow> code_point_set" where
  "normalize s =
    (if length (ranges s) < 2 then s
     else \<lparr>ranges = merge_loop [] (sort_key fst (ranges s))\<rparr>)"

definition from_ranges :: "cp_range list \<Rightarrow> code_point_set" where
  "from_ranges rs = normalize \<lparr>ranges = rs\<rparr>"

definition insert_range :: "code_point \<Rightarrow> code_point \<Rightarrow> code_point_set \<Rightarrow> code_point_set" where
  "insert_range lo hi s =
    (if lo > hi then s else normalize \<lparr>ranges = ranges s @ [(lo, hi)]\<rparr>)"

definition cps_insert :: "code_point \<Rightarrow> code_point_set \<Rightarrow> code_point_set" where
  "cps_insert cp s = insert_range cp cp s"

text \<open>\<open>slice::binary_search_by\<close> with the three-way comparison of \<open>contains\<close>.\<close>

function bsearch :: "cp_range list \<Rightarrow> code_point \<Rightarrow> nat \<Rightarrow> nat \<Rightarrow> bool" where
  "bsearch rs cp lo hi =
    (if lo < hi then
       (let mid = lo + (hi - lo) div 2; r = rs ! mid in
        if cp < fst r then bsearch rs cp lo mid
        else if cp > snd r then bsearch rs cp (mid + 1) hi
        else True)
     else False)"
  by pat_completeness auto
termination
  by (relation "measure (\<lambda>(rs, cp, lo, hi). hi - lo)") auto

declare bsearch.simps [simp del]

definition contains :: "code_point_set \<Rightarrow> code_point \<Rightarrow> bool" where
  "contains s cp = bsearch (ranges s) cp 0 (length (ranges s))"

definition cps_union :: "code_point_set \<Rightarrow> code_point_set \<Rightarrow> code_point_set" where
  "cps_union s t = normalize \<lparr>ranges = ranges s @ ranges t\<rparr>"

fun negate_loop :: "cp_range list \<Rightarrow> code_point \<Rightarrow> cp_range list \<Rightarrow> cp_range list" where
  "negate_loop out nxt [] = (if nxt \<le> MAX_CP then out @ [(nxt, MAX_CP)] else out)"
| "negate_loop out nxt ((lo, hi) # rs) =
    (let out' = (if lo > nxt then out @ [(nxt, lo - 1)] else out) in
     if hi \<ge> MAX_CP then out' else negate_loop out' (hi + 1) rs)"

definition cps_negate :: "code_point_set \<Rightarrow> code_point_set" where
  "cps_negate s = \<lparr>ranges = negate_loop [] 0 (ranges s)\<rparr>"

fun inter_loop :: "cp_range list \<Rightarrow> cp_range list \<Rightarrow> cp_range list \<Rightarrow> cp_range list" where
  "inter_loop out (a # as) (b # bs) =
    (let lo = max (fst a) (fst b); hi = min (snd a) (snd b);
         out' = (if lo \<le> hi then out @ [(lo, hi)] else out) in
     if snd a < snd b then inter_loop out' as (b # bs) else inter_loop out' (a # as) bs)"
| "inter_loop out _ _ = out"

definition cps_intersection :: "code_point_set \<Rightarrow> code_point_set \<Rightarrow> code_point_set" where
  "cps_intersection s t = \<lparr>ranges = inter_loop [] (ranges s) (ranges t)\<rparr>"

definition cps_difference :: "code_point_set \<Rightarrow> code_point_set \<Rightarrow> code_point_set" where
  "cps_difference s t = cps_intersection s (cps_negate t)"

section \<open>Representation invariant and abstraction\<close>

definition range_set :: "cp_range list \<Rightarrow> code_point set" where
  "range_set rs = (\<Union>r \<in> set rs. {fst r..snd r})"

definition cps_set :: "code_point_set \<Rightarrow> code_point set" where
  "cps_set s = range_set (ranges s)"

text \<open>Ranges are non-empty, inside the code space, ascending, and separated by a gap.\<close>

definition valid_range :: "cp_range \<Rightarrow> bool" where
  "valid_range r \<longleftrightarrow> fst r \<le> snd r \<and> snd r \<le> MAX_CP"

definition gap :: "cp_range \<Rightarrow> cp_range \<Rightarrow> bool" where
  "gap r r' \<longleftrightarrow> snd r + 1 < fst r'"

definition separated :: "cp_range list \<Rightarrow> bool" where
  "separated rs \<longleftrightarrow> sorted_wrt gap rs \<and> list_all valid_range rs"

definition cps_inv :: "code_point_set \<Rightarrow> bool" where
  "cps_inv s \<longleftrightarrow> separated (ranges s)"

lemma range_set_simps [simp]:
  "range_set [] = {}"
  "range_set (r # rs) = {fst r..snd r} \<union> range_set rs"
  "range_set (rs @ rs') = range_set rs \<union> range_set rs'"
  by (auto simp: range_set_def)

lemma separated_simps [simp]:
  "separated []"
  "separated (r # rs) \<longleftrightarrow> valid_range r \<and> list_all (gap r) rs \<and> separated rs"
  "separated (rs @ [r]) \<longleftrightarrow> separated rs \<and> list_all (\<lambda>q. gap q r) rs \<and> valid_range r"
  by (auto simp: separated_def sorted_wrt_append list_all_iff)

lemma saturating_add_valid: "valid_range r \<Longrightarrow> saturating_add_u32 (snd r) 1 = snd r + 1"
  by (simp add: saturating_add_u32_def u32_max_def valid_range_def MAX_CP_def)

lemma gap_trans: "gap p q \<Longrightarrow> valid_range q \<Longrightarrow> gap q r \<Longrightarrow> gap p r"
  by (auto simp: gap_def valid_range_def)

lemma separated_butlast_extend:
  assumes "separated (ms @ [l])" and "valid_range (fst l, h)"
  shows "separated (ms @ [(fst l, h)])"
  using assms by (auto simp: gap_def list_all_iff)

lemma merge_loop_correct:
  assumes "separated merged" and "list_all valid_range rs" and "sorted (map fst rs)"
    and "merged \<noteq> [] \<Longrightarrow> rs \<noteq> [] \<Longrightarrow> fst (last merged) \<le> fst (hd rs)"
  shows "separated (merge_loop merged rs)
    \<and> range_set (merge_loop merged rs) = range_set merged \<union> range_set rs"
  using assms
proof (induction rs arbitrary: merged)
  case Nil
  then show ?case by simp
next
  case (Cons r rs)
  have r: "valid_range r" "list_all valid_range rs" "sorted (map fst rs)"
    and le: "rs \<noteq> [] \<Longrightarrow> fst r \<le> fst (hd rs)"
    using Cons.prems(2,3) by (auto simp: neq_Nil_conv)
  show ?case
  proof (cases "merged = []")
    case True
    then show ?thesis using Cons.IH [of "[r]"] r le by simp
  next
    case False
    then obtain ms l where m: "merged = ms @ [l]" by (metis append_butlast_last_id)
    have l: "valid_range l" and lr: "fst l \<le> fst r" and ms: "list_all (\<lambda>q. gap q l) ms" "separated ms"
      using Cons.prems(1,4) m by auto
    have sat: "saturating_add_u32 (snd (last merged)) 1 = snd l + 1"
      using m saturating_add_valid [OF l] by simp
    consider (extend) "fst r \<le> snd l + 1" "snd l < snd r"
      | (inside) "fst r \<le> snd l + 1" "snd r \<le> snd l"
      | (fresh) "snd l + 1 < fst r" by linarith
    then show ?thesis
    proof cases
      case extend
      let ?m = "ms @ [(fst l, snd r)]"
      have "separated ?m"
        using Cons.prems(1) m r(1) lr l
        by (intro separated_butlast_extend) (auto simp: valid_range_def)
      moreover have "merge_loop merged (r # rs) = merge_loop ?m rs"
        using extend m sat by simp
      moreover have "range_set ?m = range_set merged \<union> {fst r..snd r}"
        using extend m lr l by (auto simp: valid_range_def)
      ultimately show ?thesis
        using Cons.IH [of ?m] r le lr by (auto intro: order_trans)
    next
      case inside
      have "merge_loop merged (r # rs) = merge_loop merged rs"
        using inside m sat by simp
      moreover have "range_set merged = range_set merged \<union> {fst r..snd r}"
        using inside m lr by auto
      ultimately show ?thesis
        using Cons.IH [of merged] r le lr m Cons.prems(1) by (auto intro: order_trans)
    next
      case fresh
      have "separated (merged @ [r])"
        unfolding separated_simps(3) using Cons.prems(1) r(1) fresh m l ms
        by (auto simp: gap_def list_all_iff valid_range_def)
      moreover have "merge_loop merged (r # rs) = merge_loop (merged @ [r]) rs"
        using fresh sat by simp
      ultimately show ?thesis
        using Cons.IH [of "merged @ [r]"] r le by (simp add: Un_assoc)
    qed
  qed
qed

lemma normalize_correct:
  assumes "list_all valid_range (ranges s)"
  shows "cps_inv (normalize s)" and "cps_set (normalize s) = cps_set s"
proof -
  let ?rs = "sort_key fst (ranges s)"
  have v: "list_all valid_range ?rs" using assms by (simp add: list_all_iff)
  have "separated (merge_loop [] ?rs) \<and> range_set (merge_loop [] ?rs) = range_set ?rs"
    using merge_loop_correct [of "[]" ?rs] v by simp
  moreover have "range_set ?rs = range_set (ranges s)" by (simp add: range_set_def)
  moreover have "separated (ranges s)" if "length (ranges s) < 2"
    using that assms by (cases "ranges s") (auto simp: separated_def)
  ultimately show "cps_inv (normalize s)" "cps_set (normalize s) = cps_set s"
    by (auto simp: normalize_def cps_inv_def cps_set_def)
qed

lemma cps_inv_valid: "cps_inv s \<Longrightarrow> list_all valid_range (ranges s)"
  by (simp add: cps_inv_def separated_def)

lemma separated_nth_less:
  assumes "separated rs" and "i < j" and "j < length rs"
  shows "snd (rs ! i) < fst (rs ! j)"
proof -
  have "gap (rs ! i) (rs ! j)"
    using assms by (auto simp: separated_def sorted_wrt_iff_nth_less)
  then show ?thesis by (simp add: gap_def)
qed

lemma separated_nth_valid: "separated rs \<Longrightarrow> i < length rs \<Longrightarrow> valid_range (rs ! i)"
  by (simp add: separated_def list_all_length)

lemma bsearch_correct:
  assumes "separated rs" and "hi \<le> length rs"
  shows "bsearch rs cp lo hi \<longleftrightarrow> (\<exists>i. lo \<le> i \<and> i < hi \<and> fst (rs ! i) \<le> cp \<and> cp \<le> snd (rs ! i))"
  using assms
proof (induction rs cp lo hi rule: bsearch.induct)
  case (1 rs cp lo hi)
  show ?case
  proof (cases "lo < hi")
    case False
    then show ?thesis by (simp add: bsearch.simps [of rs cp lo hi])
  next
    case True
    define mid where "mid = lo + (hi - lo) div 2"
    have mid: "lo \<le> mid" "mid < hi" using True by (auto simp: mid_def)
    consider (left) "cp < fst (rs ! mid)" | (right) "snd (rs ! mid) < cp" "fst (rs ! mid) \<le> cp"
      | (here) "fst (rs ! mid) \<le> cp" "cp \<le> snd (rs ! mid)" by linarith
    then show ?thesis
    proof cases
      case left
      have "i < mid" if "i < hi" "fst (rs ! i) \<le> cp" for i
      proof (rule ccontr)
        assume "\<not> i < mid"
        moreover from this have "i \<noteq> mid" using left that by auto
        ultimately have "snd (rs ! mid) < fst (rs ! i)"
          using separated_nth_less [OF "1.prems"(1), of mid i] that "1.prems"(2) by simp
        then show False
          using left that separated_nth_valid [OF "1.prems"(1), of mid] mid "1.prems"(2)
          by (simp add: valid_range_def)
      qed
      then show ?thesis
        using True left mid "1.IH"(1) [OF True, of mid "rs ! mid"] "1.prems"
        by (simp add: bsearch.simps [of rs cp lo hi] Let_def flip: mid_def) (meson less_trans)
    next
      case right
      have "mid < i" if "i < hi" "cp \<le> snd (rs ! i)" for i
      proof (rule ccontr)
        assume "\<not> mid < i"
        moreover from this have "i \<noteq> mid" using right that by auto
        ultimately have "snd (rs ! i) < fst (rs ! mid)"
          using separated_nth_less [OF "1.prems"(1), of i mid] mid "1.prems"(2) by simp
        then show False using right that by simp
      qed
      then show ?thesis
        using True right mid "1.IH"(2) [OF True, of mid "rs ! mid"] "1.prems"
        by (simp add: bsearch.simps [of rs cp lo hi] Let_def flip: mid_def)
          (metis Suc_leI Suc_le_lessD le_trans less_imp_le_nat)
    next
      case here
      then show ?thesis
        using True mid by (auto simp: bsearch.simps [of rs cp lo hi] Let_def simp flip: mid_def)
    qed
  qed
qed

lemma range_set_nth: "x \<in> range_set rs \<longleftrightarrow> (\<exists>i<length rs. fst (rs ! i) \<le> x \<and> x \<le> snd (rs ! i))"
  by (simp add: range_set_def) (metis in_set_conv_nth)

lemma contains_correct: "cps_inv s \<Longrightarrow> contains s cp \<longleftrightarrow> cp \<in> cps_set s"
  by (simp add: contains_def bsearch_correct cps_inv_def cps_set_def range_set_nth)

section \<open>The set operations\<close>

lemma cps_new_correct [inv_intros, simp]: "cps_inv cps_new" "cps_set cps_new = {}"
  by (simp_all add: cps_inv_def cps_set_def cps_new_def)

lemma from_ranges_correct:
  assumes "list_all valid_range rs"
  shows "cps_inv (from_ranges rs)" and "cps_set (from_ranges rs) = range_set rs"
  using normalize_correct [of "\<lparr>ranges = rs\<rparr>"] assms by (auto simp: from_ranges_def cps_set_def)

lemma insert_range_correct:
  assumes "cps_inv s" and "hi \<le> MAX_CP"
  shows "cps_inv (insert_range lo hi s)" and "cps_set (insert_range lo hi s) = cps_set s \<union> {lo..hi}"
  using normalize_correct [of "\<lparr>ranges = ranges s @ [(lo, hi)]\<rparr>"] cps_inv_valid [OF assms(1)] assms
  by (auto simp: insert_range_def valid_range_def cps_set_def)

lemma cps_union_correct:
  assumes "cps_inv s" and "cps_inv t"
  shows "cps_inv (cps_union s t)" and "cps_set (cps_union s t) = cps_set s \<union> cps_set t"
  using normalize_correct [of "\<lparr>ranges = ranges s @ ranges t\<rparr>"] assms [THEN cps_inv_valid]
  by (auto simp: cps_union_def cps_set_def)

lemma negate_loop_append: "negate_loop out nxt rs = out @ negate_loop [] nxt rs"
proof (induction rs arbitrary: out nxt)
  case Nil
  then show ?case by simp
next
  case (Cons r rs)
  obtain lo hi where r: "r = (lo, hi)" by force
  show ?case
    using Cons.IH [of "out @ [(nxt, lo - 1)]" "hi + 1"] Cons.IH [of "[(nxt, lo - 1)]" "hi + 1"]
      Cons.IH [of out "hi + 1"]
    by (simp add: r Let_def)
qed

text \<open>The complement of a separated list whose ranges start at or after \<open>nxt\<close>. The first output
  range starts at \<open>nxt\<close> or later.\<close>

lemma negate_loop_correct:
  assumes "separated rs" and "\<And>r. r \<in> set rs \<Longrightarrow> nxt \<le> fst r" and "nxt \<le> MAX_CP"
  shows "separated (negate_loop [] nxt rs)" (is ?sep)
    and "\<And>r. r \<in> set (negate_loop [] nxt rs) \<Longrightarrow> nxt \<le> fst r" (is "PROP ?lo")
    and "range_set (negate_loop [] nxt rs) = {nxt..MAX_CP} - range_set rs" (is ?set)
proof -
  have "separated (negate_loop [] nxt rs) \<and> (\<forall>r \<in> set (negate_loop [] nxt rs). nxt \<le> fst r)
    \<and> range_set (negate_loop [] nxt rs) = {nxt..MAX_CP} - range_set rs"
    using assms
  proof (induction rs arbitrary: nxt)
    case Nil
    then show ?case by (simp add: valid_range_def)
  next
    case (Cons r rs)
    obtain lo hi where r: "r = (lo, hi)" by force
    define pre where "pre = (if lo > nxt then [(nxt, lo - 1)] else [])"
    have v: "lo \<le> hi" "hi \<le> MAX_CP" "nxt \<le> lo" and rs: "separated rs"
      and above: "\<And>q. q \<in> set rs \<Longrightarrow> hi + 1 < fst q"
      using Cons.prems(1) Cons.prems(2) [of r] by (auto simp: r valid_range_def gap_def list_all_iff)
    have rs_above: "range_set rs \<subseteq> {hi<..}"
      using above by (force simp: range_set_def)
    have pre: "separated pre" "range_set pre = {nxt..<lo}" "\<forall>q \<in> set pre. nxt \<le> fst q \<and> snd q < lo"
      using v by (auto simp: pre_def valid_range_def)
    have eq: "negate_loop [] nxt (r # rs) = pre @ (if hi \<ge> MAX_CP then [] else negate_loop [] (hi + 1) rs)"
      using negate_loop_append [of "[(nxt, lo - 1)]" "hi + 1" rs] by (simp add: r pre_def Let_def)
    show ?case
    proof (cases "hi \<ge> MAX_CP")
      case True
      then show ?thesis unfolding eq using pre v rs_above by (auto simp: r)
    next
      case False
      let ?t = "negate_loop [] (hi + 1) rs"
      have t: "separated ?t" "\<forall>q \<in> set ?t. hi + 1 \<le> fst q" "range_set ?t = {hi + 1..MAX_CP} - range_set rs"
        using Cons.IH [OF rs, of "hi + 1"] above False by (auto simp: less_imp_le)
      have "separated (pre @ ?t)"
        using pre t v by (auto simp: pre_def gap_def list_all_iff)
      moreover have "range_set pre \<union> range_set ?t = {nxt..MAX_CP} - range_set (r # rs)"
        using pre(2) t(3) v rs_above by (auto simp: r)
      moreover have "\<forall>q \<in> set (pre @ ?t). nxt \<le> fst q"
        using pre(3) t(2) v by fastforce
      ultimately show ?thesis unfolding eq using False by simp
    qed
  qed
  then show ?sep "PROP ?lo" ?set by auto
qed

lemma cps_negate_correct:
  assumes "cps_inv s"
  shows "cps_inv (cps_negate s)" and "cps_set (cps_negate s) = {0..MAX_CP} - cps_set s"
  using negate_loop_correct [of "ranges s" 0] assms
  by (auto simp: cps_inv_def cps_set_def cps_negate_def)

fun inter_ranges :: "cp_range list \<Rightarrow> cp_range list \<Rightarrow> cp_range list" where
  "inter_ranges (a # as) (b # bs) =
    (if max (fst a) (fst b) \<le> min (snd a) (snd b)
     then [(max (fst a) (fst b), min (snd a) (snd b))] else []) @
    (if snd a < snd b then inter_ranges as (b # bs) else inter_ranges (a # as) bs)"
| "inter_ranges _ _ = []"

lemma inter_loop_eq: "inter_loop out as bs = out @ inter_ranges as bs"
  by (induction out as bs rule: inter_loop.induct) (auto simp: Let_def)

lemma inter_ranges_set:
  assumes "separated as" and "separated bs"
  shows "range_set (inter_ranges as bs) = range_set as \<inter> range_set bs"
  using assms
proof (induction as bs rule: inter_ranges.induct)
  case (1 a as b bs)
  have as: "range_set as \<subseteq> {snd a<..}" and bs: "range_set bs \<subseteq> {snd b<..}"
    using "1.prems" by (force simp: range_set_def gap_def list_all_iff)+
  show ?case
  proof (cases "snd a < snd b")
    case True
    have "range_set (inter_ranges as (b # bs)) = range_set as \<inter> range_set (b # bs)"
      using "1.IH"(1) [OF True] "1.prems" by simp
    then show ?thesis using True bs by auto
  next
    case False
    have "range_set (inter_ranges (a # as) bs) = range_set (a # as) \<inter> range_set bs"
      using "1.IH"(2) [OF False] "1.prems" by simp
    then show ?thesis using False as by auto
  qed
qed auto

lemma inter_ranges_lower:
  assumes "separated as" and "separated bs" and "r \<in> set (inter_ranges as bs)"
  shows "valid_range r \<and> (\<exists>a \<in> set as. fst a \<le> fst r) \<and> (\<exists>b \<in> set bs. fst b \<le> fst r)"
  using assms
  by (induction as bs rule: inter_ranges.induct)
    (auto simp: valid_range_def split: if_splits)

lemma inter_ranges_separated:
  assumes "separated as" and "separated bs"
  shows "separated (inter_ranges as bs)"
  using assms
proof (induction as bs rule: inter_ranges.induct)
  case (1 a as b bs)
  let ?r = "(max (fst a) (fst b), min (snd a) (snd b))"
  have v: "valid_range a" "valid_range b" "separated as" "separated bs"
    "list_all (gap a) as" "list_all (gap b) bs" using "1.prems" by auto
  show ?case
  proof (cases "snd a < snd b")
    case True
    have "gap ?r q" if "q \<in> set (inter_ranges as (b # bs))" for q
      using inter_ranges_lower [OF v(3) "1.prems"(2) that] v(5) True
      by (fastforce simp: gap_def list_all_iff)
    then show ?thesis
      using True "1.IH"(1) "1.prems" v by (auto simp: list_all_iff valid_range_def)
  next
    case False
    have "gap ?r q" if "q \<in> set (inter_ranges (a # as) bs)" for q
      using inter_ranges_lower [OF "1.prems"(1) v(4) that] v(6) False
      by (fastforce simp: gap_def list_all_iff)
    then show ?thesis
      using False "1.IH"(2) "1.prems" v by (auto simp: list_all_iff valid_range_def)
  qed
qed auto

lemma cps_intersection_correct:
  assumes "cps_inv s" and "cps_inv t"
  shows "cps_inv (cps_intersection s t)" and "cps_set (cps_intersection s t) = cps_set s \<inter> cps_set t"
  using assms inter_ranges_separated inter_ranges_set
  by (auto simp: cps_inv_def cps_set_def cps_intersection_def inter_loop_eq)

lemma cps_set_bounded: "cps_inv s \<Longrightarrow> cps_set s \<subseteq> {0..MAX_CP}"
  by (fastforce simp: cps_inv_def separated_def cps_set_def range_set_def list_all_iff valid_range_def)

lemma cps_difference_correct:
  assumes "cps_inv s" and "cps_inv t"
  shows "cps_inv (cps_difference s t)" and "cps_set (cps_difference s t) = cps_set s - cps_set t"
  using cps_intersection_correct [OF assms(1) cps_negate_correct(1) [OF assms(2)]]
    cps_negate_correct(2) [OF assms(2)] cps_set_bounded [OF assms(1)]
  by (auto simp: cps_difference_def)

section \<open>The interface of code-point sets\<close>

text \<open>What the class algebra, the parser and the lowering rely on.\<close>

locale cps_algebra =
  fixes inv :: "'s \<Rightarrow> bool" and elems :: "'s \<Rightarrow> code_point set"
    and empty :: 's and ins :: "code_point \<Rightarrow> code_point \<Rightarrow> 's \<Rightarrow> 's"
    and mem :: "'s \<Rightarrow> code_point \<Rightarrow> bool" and uni :: "'s \<Rightarrow> 's \<Rightarrow> 's"
    and inter :: "'s \<Rightarrow> 's \<Rightarrow> 's" and diff :: "'s \<Rightarrow> 's \<Rightarrow> 's" and neg :: "'s \<Rightarrow> 's"
  assumes inv_empty: "inv empty" and elems_empty: "elems empty = {}"
    and bounded: "inv s \<Longrightarrow> elems s \<subseteq> {0..MAX_CP}"
    and mem: "inv s \<Longrightarrow> mem s c \<longleftrightarrow> c \<in> elems s"
    and ins: "inv s \<Longrightarrow> hi \<le> MAX_CP \<Longrightarrow> inv (ins lo hi s) \<and> elems (ins lo hi s) = elems s \<union> {lo..hi}"
    and uni: "inv s \<Longrightarrow> inv t \<Longrightarrow> inv (uni s t) \<and> elems (uni s t) = elems s \<union> elems t"
    and inter: "inv s \<Longrightarrow> inv t \<Longrightarrow> inv (inter s t) \<and> elems (inter s t) = elems s \<inter> elems t"
    and diff: "inv s \<Longrightarrow> inv t \<Longrightarrow> inv (diff s t) \<and> elems (diff s t) = elems s - elems t"
    and neg: "inv s \<Longrightarrow> inv (neg s) \<and> elems (neg s) = {0..MAX_CP} - elems s"
begin

lemma ins_all:
  assumes "inv s" and "\<And>c. c \<in> set cs \<Longrightarrow> c \<le> MAX_CP"
  shows "inv (foldl (\<lambda>s c. ins c c s) s cs) \<and> elems (foldl (\<lambda>s c. ins c c s) s cs) = elems s \<union> set cs"
  using assms
proof (induction cs arbitrary: s)
  case (Cons c cs)
  have "inv (ins c c s)" "elems (ins c c s) = elems s \<union> {c}"
    using ins [of s c c] Cons.prems by auto
  then show ?case using Cons.IH [of "ins c c s"] Cons.prems by auto
qed simp

lemma ins_ranges:
  assumes "inv s" and "\<And>r. r \<in> set rs \<Longrightarrow> snd r \<le> MAX_CP"
  shows "inv (foldl (\<lambda>s r. ins (fst r) (snd r) s) s rs)
    \<and> elems (foldl (\<lambda>s r. ins (fst r) (snd r) s) s rs) = elems s \<union> (\<Union>r \<in> set rs. {fst r..snd r})"
  using assms
proof (induction rs arbitrary: s)
  case (Cons r rs)
  have "inv (ins (fst r) (snd r) s)" "elems (ins (fst r) (snd r) s) = elems s \<union> {fst r..snd r}"
    using ins [of s "snd r" "fst r"] Cons.prems by auto
  then show ?case using Cons.IH [of "ins (fst r) (snd r) s"] Cons.prems by auto
qed simp

lemma neg_neg: "inv s \<Longrightarrow> elems (neg (neg s)) = elems s"
  using neg [of s] neg [of "neg s"] bounded [of s] by auto

lemma mem_neg: "inv s \<Longrightarrow> c \<le> MAX_CP \<Longrightarrow> mem (neg s) c \<longleftrightarrow> \<not> mem s c"
  using neg [of s] mem [of s] mem [of "neg s"] by auto

lemma diff_via_neg: "inv s \<Longrightarrow> inv t \<Longrightarrow> elems (diff s t) = elems (inter s (neg t))"
  using neg [of t] inter [of s "neg t"] diff [of s t] bounded [of s] by auto

end

interpretation cps: cps_algebra cps_inv cps_set cps_new insert_range contains
  cps_union cps_intersection cps_difference cps_negate
  by unfold_locales
    (simp_all add: cps_set_bounded contains_correct insert_range_correct cps_union_correct
      cps_intersection_correct cps_difference_correct cps_negate_correct)

lemma cps_insert_correct:
  "cps_inv s \<Longrightarrow> cp \<le> MAX_CP \<Longrightarrow> cps_inv (cps_insert cp s) \<and> cps_set (cps_insert cp s) = insert cp (cps_set s)"
  using cps.ins [of s cp cp] by (auto simp: cps_insert_def)

lemma cps_is_empty_correct: "cps_inv s \<Longrightarrow> cps_is_empty s \<longleftrightarrow> cps_set s = {}"
  by (cases "ranges s")
    (auto simp: cps_is_empty_def cps_set_def cps_inv_def valid_range_def)

section \<open>ClassSet\<close>

record class_set =
  code_points :: code_point_set
  strings :: "code_point list list"
  ascii_lo :: "128 word"

definition class_default :: class_set where
  "class_default = \<lparr>code_points = cps_new, strings = [], ascii_lo = 0\<rparr>"

definition from_code_points :: "code_point_set \<Rightarrow> class_set" where
  "from_code_points cps = \<lparr>code_points = cps, strings = [], ascii_lo = 0\<rparr>"

definition may_contain_strings :: "class_set \<Rightarrow> bool" where
  "may_contain_strings c \<longleftrightarrow> strings c \<noteq> []"

definition push_string :: "code_point list list \<Rightarrow> code_point list \<Rightarrow> code_point list list" where
  "push_string ss s = (if s \<in> set ss then ss else ss @ [s])"

definition add_alternative :: "code_point list \<Rightarrow> class_set \<Rightarrow> class_set" where
  "add_alternative alt c =
    (if length alt = 1 then c\<lparr>code_points := cps_insert (alt ! 0) (code_points c)\<rparr>
     else c\<lparr>strings := push_string (strings c) alt\<rparr>)"

definition class_union :: "class_set \<Rightarrow> class_set \<Rightarrow> class_set" where
  "class_union c d =
    c\<lparr>code_points := cps_union (code_points c) (code_points d),
      strings := foldl push_string (strings c) (strings d)\<rparr>"

definition class_intersection :: "class_set \<Rightarrow> class_set \<Rightarrow> class_set" where
  "class_intersection c d =
    \<lparr>code_points = cps_intersection (code_points c) (code_points d),
     strings = filter (\<lambda>s. s \<in> set (strings d)) (strings c), ascii_lo = 0\<rparr>"

definition class_difference :: "class_set \<Rightarrow> class_set \<Rightarrow> class_set" where
  "class_difference c d =
    \<lparr>code_points = cps_difference (code_points c) (code_points d),
     strings = filter (\<lambda>s. s \<notin> set (strings d)) (strings c), ascii_lo = 0\<rparr>"

definition negate_code_points :: "class_set \<Rightarrow> class_set" where
  "negate_code_points c = \<lparr>code_points = cps_negate (code_points c), strings = [], ascii_lo = 0\<rparr>"

text \<open>The code points below 128 of a range, in order: the inner loop shared by
  \<open>fold_ascii_case\<close> and \<open>finalize_ascii\<close>.\<close>

definition ascii_part :: "cp_range \<Rightarrow> code_point list" where
  "ascii_part r = (if fst r \<ge> 128 then [] else [fst r..<Suc (min (snd r) 127)])"

definition fold_ascii_case :: "class_set \<Rightarrow> class_set" where
  "fold_ascii_case c =
    (let adds = concat (map (\<lambda>r. map ascii_other_case
                   (filter (\<lambda>cp. ascii_other_case cp \<noteq> cp) (ascii_part r))) (ranges (code_points c)))
     in c\<lparr>code_points := foldl (\<lambda>s cp. cps_insert cp s) (code_points c) adds\<rparr>)"

definition code_point_count :: "class_set \<Rightarrow> nat" where
  "code_point_count c =
    foldl (\<lambda>n r. saturating_add_u32 n (saturating_add_u32 (snd r - fst r) 1)) 0 (ranges (code_points c))"

text \<open>\<open>case_closure\<close> is ICU's \<open>add_case_closure_to\<close>: the single-character members of the
  simple-case closure of a scalar value.\<close>

definition fold_unicode_case :: "(code_point \<Rightarrow> code_point list) \<Rightarrow> class_set \<Rightarrow> class_set" where
  "fold_unicode_case case_closure c =
    (let adds = concat (map (\<lambda>r. concat (map case_closure
                   (filter is_scalar_value [fst r..<Suc (snd r)]))) (ranges (code_points c)))
     in c\<lparr>code_points := foldl (\<lambda>s cp. cps_insert cp s) (code_points c) adds\<rparr>)"

definition finalize_ascii :: "class_set \<Rightarrow> class_set" where
  "finalize_ascii c =
    c\<lparr>ascii_lo := foldl (\<lambda>bits r. foldl (\<lambda>b cp. b OR push_bit cp 1) bits (ascii_part r)) 0
       (ranges (code_points c))\<rparr>"

definition ascii_contains :: "class_set \<Rightarrow> code_point \<Rightarrow> bool" where
  "ascii_contains c cp \<longleftrightarrow> drop_bit cp (ascii_lo c) AND 1 = 1"

section \<open>Laws of ClassSet\<close>

definition class_inv :: "class_set \<Rightarrow> bool" where
  "class_inv c \<longleftrightarrow> cps_inv (code_points c) \<and> distinct (strings c)
    \<and> list_all (\<lambda>s. length s \<noteq> 1 \<and> list_all (\<lambda>cp. cp \<le> MAX_CP) s) (strings c)"

abbreviation class_cps :: "class_set \<Rightarrow> code_point set" where
  "class_cps c \<equiv> cps_set (code_points c)"

text \<open>The strings a class denotes: its code points as one-element strings, and its alternatives.\<close>

definition class_lang :: "class_set \<Rightarrow> code_point list set" where
  "class_lang c = (\<lambda>cp. [cp]) ` class_cps c \<union> set (strings c)"

lemma push_string_set [simp]: "set (push_string ss s) = insert s (set ss)"
  by (auto simp: push_string_def)

lemma push_string_distinct: "distinct ss \<Longrightarrow> distinct (push_string ss s)"
  by (simp add: push_string_def)

lemma push_strings:
  "distinct ss \<Longrightarrow> distinct (foldl push_string ss ts) \<and> set (foldl push_string ss ts) = set ss \<union> set ts"
  by (induction ts arbitrary: ss) (simp_all add: push_string_distinct)

lemma class_lang_singleton: "class_inv c \<Longrightarrow> [cp] \<in> class_lang c \<longleftrightarrow> cp \<in> class_cps c"
  by (auto simp: class_lang_def class_inv_def list_all_iff)

lemma ascii_part_set [simp]: "set (ascii_part r) = {fst r..snd r} \<inter> {..<128}"
  by (auto simp: ascii_part_def)

lemma fold_ascii_case_correct:
  assumes "cps_inv (code_points c)"
  shows "cps_inv (code_points (fold_ascii_case c))"
    and "class_cps (fold_ascii_case c) = class_cps c \<union> ascii_other_case ` class_cps c"
    and "strings (fold_ascii_case c) = strings c"
proof -
  define adds where "adds = concat (map (\<lambda>r. map ascii_other_case
    (filter (\<lambda>cp. ascii_other_case cp \<noteq> cp) (ascii_part r))) (ranges (code_points c)))"
  have set_adds: "set adds = ascii_other_case ` {cp \<in> class_cps c. cp < 128 \<and> ascii_other_case cp \<noteq> cp}"
    by (auto simp: adds_def cps_set_def range_set_def)
  have "cp \<le> MAX_CP" if "cp \<in> set adds" for cp
    using that by (auto simp: set_adds ascii_other_case_def MAX_CP_def)
  then have "cps_inv (foldl (\<lambda>s c. insert_range c c s) (code_points c) adds)"
    "cps_set (foldl (\<lambda>s c. insert_range c c s) (code_points c) adds) = class_cps c \<union> set adds"
    using cps.ins_all [OF assms, of adds] by auto
  moreover have "class_cps c \<union> set adds = class_cps c \<union> ascii_other_case ` class_cps c"
    by (auto simp: set_adds ascii_other_case_def split: if_splits)
  ultimately show "cps_inv (code_points (fold_ascii_case c))"
    "class_cps (fold_ascii_case c) = class_cps c \<union> ascii_other_case ` class_cps c"
    by (auto simp: fold_ascii_case_def Let_def cps_insert_def simp flip: adds_def)
  show "strings (fold_ascii_case c) = strings c"
    by (simp add: fold_ascii_case_def Let_def)
qed

lemma fold_unicode_case_correct:
  assumes "cps_inv (code_points c)"
    and closure: "\<And>cp d. d \<in> set (case_closure cp) \<Longrightarrow> d \<le> MAX_CP"
  shows "cps_inv (code_points (fold_unicode_case case_closure c))"
    and "class_cps (fold_unicode_case case_closure c)
      = class_cps c \<union> (\<Union>cp \<in> {cp \<in> class_cps c. is_scalar_value cp}. set (case_closure cp))"
proof -
  define adds where "adds = concat (map (\<lambda>r. concat (map case_closure
    (filter is_scalar_value [fst r..<Suc (snd r)]))) (ranges (code_points c)))"
  have set_adds: "set adds = (\<Union>cp \<in> {cp \<in> class_cps c. is_scalar_value cp}. set (case_closure cp))"
    by (auto simp: adds_def cps_set_def range_set_def less_Suc_eq_le simp del: upt_Suc)
  have "\<And>d. d \<in> set adds \<Longrightarrow> d \<le> MAX_CP" using closure by (auto simp: set_adds)
  note ins = cps.ins_all [OF assms(1), of adds, OF this]
  have eq: "code_points (fold_unicode_case case_closure c)
      = foldl (\<lambda>s c. insert_range c c s) (code_points c) adds"
    by (simp add: fold_unicode_case_def Let_def cps_insert_def adds_def del: upt_Suc)
  show "cps_inv (code_points (fold_unicode_case case_closure c))"
    "class_cps (fold_unicode_case case_closure c)
      = class_cps c \<union> (\<Union>cp \<in> {cp \<in> class_cps c. is_scalar_value cp}. set (case_closure cp))"
    using ins by (simp_all only: eq set_adds)
qed

lemma bit_or_single: "bit ((w :: 128 word) OR push_bit cp 1) n \<longleftrightarrow> bit w n \<or> (n < 128 \<and> n = cp)"
  by (auto simp: bit_or_iff bit_exp_iff)
lemma bit_foldl_or:
  "bit (foldl (\<lambda>b cp. b OR push_bit cp 1) (w :: 128 word) cps) n \<longleftrightarrow> bit w n \<or> (n < 128 \<and> n \<in> set cps)"
proof (induction cps arbitrary: w)
  case (Cons c cps)
  show ?case by (simp only: foldl.simps Cons.IH bit_or_single list.set) blast
qed simp

lemma finalize_ascii_bit:
  "bit (ascii_lo (finalize_ascii c)) n \<longleftrightarrow> n < 128 \<and> n \<in> class_cps c"
proof -
  have "bit (foldl (\<lambda>bits r. foldl (\<lambda>b cp. b OR push_bit cp 1) bits (ascii_part r)) (w :: 128 word) rs) n
    \<longleftrightarrow> bit w n \<or> (n < 128 \<and> n \<in> range_set rs)" for w rs
  proof (induction rs arbitrary: w)
    case (Cons r rs)
    show ?case by (simp only: foldl.simps Cons.IH bit_foldl_or range_set_simps ascii_part_set) auto
  qed simp
  then show ?thesis by (simp add: finalize_ascii_def cps_set_def)
qed

lemma ascii_contains_bit: "ascii_contains c cp \<longleftrightarrow> bit (ascii_lo c) cp"
  by (simp add: ascii_contains_def bit_iff_odd_drop_bit and_one_eq odd_iff_mod_2_eq_one)

lemma finalize_ascii_correct:
  "cp < 128 \<Longrightarrow> ascii_contains (finalize_ascii c) cp \<longleftrightarrow> cp \<in> class_cps c"
  "code_points (finalize_ascii c) = code_points c"
  "strings (finalize_ascii c) = strings c"
  by (simp_all add: ascii_contains_bit finalize_ascii_bit) (simp_all add: finalize_ascii_def)

end
