(* ===== verification/Rx_Program.thy ===== *)
theory Rx_Program
  imports Rx_Classes
begin

text \<open>
  The data the compiler works on: the pattern tree of \<open>parser/ast.rs\<close>, and the instruction
  vector, the program record and the scan prefilter of \<open>program.rs\<close>. Constructors of
  \<open>Node\<close> carry the prefix N, those of \<open>Insn\<close> the prefix I.
\<close>

section \<open>Pattern tree\<close>

record quantifier =
  q_min :: nat
  q_max :: "nat option"
  q_greedy :: bool

datatype assertion =
    StartOfLine bool
  | EndOfLine bool
  | WordBoundary bool bool

datatype group_kind =
    Capturing nat "code_point list option"
  | NonCapturing
  | Lookahead bool
  | Lookbehind bool

datatype node =
    NEmpty
  | NChar code_point bool
  | NAnyChar bool
  | NClass class_set bool bool
  | NAssert assertion
  | NBackRef "nat list" bool
  | NConcat "node list"
  | NAlternate "node list"
  | NRepeat node quantifier
  | NGroup group_kind node

section \<open>Instructions and programs\<close>

datatype repeat_atom =
    AtomChar code_point bool
  | AtomClass nat bool bool
  | AtomAny bool

datatype insn =
    IChar code_point bool
  | IClass nat bool bool
  | ICharSeq "code_unit list"
  | IAnyChar bool
  | IRepeat repeat_atom nat bool bool
  | IFail
  | IJump nat
  | ISplit nat nat
  | ISave nat
  | IClearCapture nat
  | ISetMark nat
  | ICheckProgress nat
  | IBackRef "nat list" bool
  | IAssertStart bool
  | IAssertEnd bool
  | IWordBoundary bool bool
  | ILook bool bool nat
  | ILookMatch
  | IMatch

text \<open>\<open>Prefilter\<close>: the table covers code units below 256, \<open>single\<close> is the one-literal fast
  path, \<open>canon\<close> tells how the scan folds a code point before it looks it up.\<close>

record prefilter =
  pf_table :: "bool list"
  pf_has_high :: bool
  pf_high :: code_point_set
  pf_single :: "code_unit option"
  pf_canon :: "bool option"

record program =
  p_insns :: "insn list"
  p_classes :: "class_set list"
  p_group_count :: nat
  p_names :: "code_point list list"
  p_unicode :: bool
  p_loop_marks :: nat
  p_prefilter :: "prefilter option"
  p_lead_possessive_run :: bool

definition TABLE :: nat where
  "TABLE = 256"

definition mark_range :: "cp_range \<Rightarrow> bool list \<Rightarrow> bool list" where
  "mark_range r t = foldl (\<lambda>t cp. t[cp := True]) t [fst r..<Suc (min (snd r) (TABLE - 1))]"

definition prefilter_build :: "code_point_set \<Rightarrow> bool option \<Rightarrow> prefilter" where
  "prefilter_build s canon =
    \<lparr>pf_table = foldl (\<lambda>t r. mark_range r t) (replicate TABLE False) (ranges s),
     pf_has_high = list_ex (\<lambda>r. snd r \<ge> TABLE) (ranges s),
     pf_high = s,
     pf_single =
       (case (canon, ranges s) of
          (None, [r]) \<Rightarrow>
            (if fst r = snd r \<and> fst r < 0x10000 \<and> \<not> (0xD800 \<le> fst r \<and> fst r \<le> 0xDFFF)
             then Some (fst r) else None)
        | _ \<Rightarrow> None),
     pf_canon = canon\<rparr>"

definition prefilter_from_set :: "code_point_set \<Rightarrow> prefilter" where
  "prefilter_from_set s = prefilter_build s None"

definition prefilter_from_set_canon :: "code_point_set \<Rightarrow> bool \<Rightarrow> prefilter" where
  "prefilter_from_set_canon s uni = prefilter_build s (Some uni)"

definition cp_may_start :: "(code_point \<Rightarrow> code_point) \<Rightarrow> prefilter \<Rightarrow> code_point \<Rightarrow> bool" where
  "cp_may_start simple_fold pf cp =
    (let cp = (case pf_canon pf of
                 Some True \<Rightarrow> fold_unicode simple_fold cp
               | Some False \<Rightarrow> canonicalize cp
               | None \<Rightarrow> cp)
     in if cp < TABLE then pf_table pf ! cp else pf_has_high pf \<and> contains (pf_high pf) cp)"

definition slot_count :: "program \<Rightarrow> nat" where
  "slot_count p = 2 * (p_group_count p + 1) + p_loop_marks p"

section \<open>The prefilter is membership in its set\<close>

lemma mark_range_nth:
  "length (mark_range r t) = length t"
  "i < length t \<Longrightarrow> mark_range r t ! i \<longleftrightarrow> t ! i \<or> (i < TABLE \<and> fst r \<le> i \<and> i \<le> snd r)"
proof -
  have upd: "i < length t \<Longrightarrow> t[a := True] ! i = (t ! i \<or> i = a)" for t :: "bool list" and a i
    by (cases "i = a") auto
  have "length (foldl (\<lambda>t cp. t[cp := True]) t cs) = length t
    \<and> (i < length t \<longrightarrow> foldl (\<lambda>t cp. t[cp := True]) t cs ! i = (t ! i \<or> i \<in> set cs))" for cs i
    by (induction cs arbitrary: t) (auto simp: upd)
  then show "length (mark_range r t) = length t"
    "i < length t \<Longrightarrow> mark_range r t ! i \<longleftrightarrow> t ! i \<or> (i < TABLE \<and> fst r \<le> i \<and> i \<le> snd r)"
    by (auto simp: mark_range_def TABLE_def simp del: upt_Suc)
qed

lemma prefilter_table_nth:
  assumes "i < TABLE"
  shows "pf_table (prefilter_build s c) ! i \<longleftrightarrow> i \<in> cps_set s"
proof -
  have "length t = TABLE \<Longrightarrow> foldl (\<lambda>t r. mark_range r t) t rs ! i \<longleftrightarrow> t ! i \<or> i \<in> range_set rs" for t rs
    using assms by (induction rs arbitrary: t) (auto simp: mark_range_nth)
  then show ?thesis using assms by (simp add: prefilter_build_def cps_set_def)
qed

definition prefilter_fold :: "(code_point \<Rightarrow> code_point) \<Rightarrow> bool option \<Rightarrow> code_point \<Rightarrow> code_point" where
  "prefilter_fold simple_fold c cp =
    (case c of Some True \<Rightarrow> fold_unicode simple_fold cp | Some False \<Rightarrow> canonicalize cp | None \<Rightarrow> cp)"

lemma cp_may_start_correct:
  assumes "cps_inv s"
  shows "cp_may_start sf (prefilter_build s c) cp \<longleftrightarrow> prefilter_fold sf c cp \<in> cps_set s"
proof -
  let ?cp = "prefilter_fold sf c cp"
  have "?cp \<in> cps_set s \<longrightarrow> TABLE \<le> ?cp \<longrightarrow> list_ex (\<lambda>r. snd r \<ge> TABLE) (ranges s)"
    by (simp add: cps_set_def range_set_def list_ex_iff) (meson order_trans)
  then show ?thesis
    using prefilter_table_nth [of ?cp s c] contains_correct [OF assms]
    by (auto simp: cp_may_start_def Let_def prefilter_fold_def [symmetric] prefilter_build_def)
qed

lemma prefilter_single_correct:
  assumes "pf_single (prefilter_build s c) = Some u"
  shows "c = None" and "cps_set s = {u}" and "u < 0x10000"
    and "\<not> is_high_surrogate u" and "\<not> is_low_surrogate u"
  using assms
  by (auto simp: prefilter_build_def cps_set_def is_high_surrogate_def is_low_surrogate_def
      split: option.splits list.splits if_splits)

end
