(* ===== verification/Rx_Exec.thy ===== *)
theory Rx_Exec
  imports Rx_Program
begin

unbundle bit_operations_syntax

text \<open>
  The backtracking matcher of \<open>exec/backtrack.rs\<close> over the subject of \<open>cursor.rs\<close>. The
  backtrack stack and the undo log are lists whose head is the top (the last element of the
  Rust vector). Every index the code takes without a bounds check is checked here: an
  out-of-range index, or an unsigned subtraction below zero, is the value \<open>RunPanic\<close>.
  The matching loop may in principle run forever, so it is a \<^theory_text>\<open>partial_function\<close>
  into \<open>option\<close> whose value \<open>None\<close> is non-termination.
\<close>

section \<open>Subject and character tests\<close>

record input =
  units :: "code_unit list"
  code_point_mode :: bool

text \<open>A value that may be a panic.\<close>

type_synonym 'a checked = "'a option"

record matcher =
  cx_fold :: "code_point \<Rightarrow> code_point"
  cx_program :: program
  cx_input :: input
  cx_limit :: "64 word"

definition step :: "nat \<Rightarrow> nat \<Rightarrow> bool \<Rightarrow> nat checked" where
  "step pos width backward =
    (if backward then (if width \<le> pos then Some (pos - width) else None) else Some (pos + width))"

definition is_line_terminator :: "code_point \<Rightarrow> bool" where
  "is_line_terminator cp \<longleftrightarrow> cp = 0x0A \<or> cp = 0x0D \<or> cp = 0x2028 \<or> cp = 0x2029"

definition is_word :: "code_point \<Rightarrow> bool" where
  "is_word cp \<longleftrightarrow> (0x30 \<le> cp \<and> cp \<le> 0x39) \<or> (0x41 \<le> cp \<and> cp \<le> 0x5A)
    \<or> (0x61 \<le> cp \<and> cp \<le> 0x7A) \<or> cp = 0x5F"

definition decode :: "input \<Rightarrow> nat \<Rightarrow> (code_point \<times> nat) option" where
  "decode inp pos =
    (case get_at (units inp) pos of
       None \<Rightarrow> None
     | Some hi \<Rightarrow>
        (if code_point_mode inp \<and> is_high_surrogate hi then
           (case get_at (units inp) (pos + 1) of
              Some lo \<Rightarrow> (if is_low_surrogate lo then Some (combine_surrogates hi lo, 2) else Some (hi, 1))
            | None \<Rightarrow> Some (hi, 1))
         else Some (hi, 1)))"

definition prev_codepoint :: "input \<Rightarrow> nat \<Rightarrow> code_point option checked" where
  "prev_codepoint inp pos =
    (if pos = 0 then Some None
     else case get_at (units inp) (pos - 1) of
       None \<Rightarrow> None
     | Some lo \<Rightarrow>
        (if code_point_mode inp \<and> is_low_surrogate lo \<and> pos \<ge> 2 \<and> is_high_surrogate (units inp ! (pos - 2))
         then Some (Some (combine_surrogates (units inp ! (pos - 2)) lo))
         else Some (Some lo)))"

definition decode_back :: "input \<Rightarrow> nat \<Rightarrow> (code_point \<times> nat) option checked" where
  "decode_back inp pos =
    map_option (map_option (\<lambda>cp. (cp, if cp > 0xFFFF then 2 else 1))) (prev_codepoint inp pos)"

definition decode_dir :: "input \<Rightarrow> nat \<Rightarrow> bool \<Rightarrow> (code_point \<times> nat) option checked" where
  "decode_dir inp pos backward = (if backward then decode_back inp pos else Some (decode inp pos))"

definition canon :: "matcher \<Rightarrow> code_point \<Rightarrow> code_point" where
  "canon cx cp = (if p_unicode (cx_program cx) then fold_unicode (cx_fold cx) cp else canonicalize cp)"

definition char_eq :: "matcher \<Rightarrow> code_point \<Rightarrow> code_point \<Rightarrow> bool \<Rightarrow> bool" where
  "char_eq cx target cp ic \<longleftrightarrow> cp = target \<or> (ic \<and> canon cx cp = canon cx target)"

definition class_member :: "matcher \<Rightarrow> class_set \<Rightarrow> bool \<Rightarrow> code_point \<Rightarrow> bool \<Rightarrow> bool" where
  "class_member cx cs negate cp ic =
    (let inside =
       (if cp < 128 then ascii_contains cs cp \<or> (ic \<and> ascii_contains cs (ascii_other_case cp))
        else contains (code_points cs) cp
          \<or> (ic \<and> (contains (code_points cs) (ascii_other_case cp)
              \<or> (p_unicode (cx_program cx) \<and> contains (code_points cs) (fold_unicode (cx_fold cx) cp)))))
     in inside \<noteq> negate)"

definition at_start :: "matcher \<Rightarrow> nat \<Rightarrow> bool \<Rightarrow> bool checked" where
  "at_start cx pos ml =
    (if pos = 0 then Some True
     else if ml then map_option (\<lambda>c. case c of Some cp \<Rightarrow> is_line_terminator cp | None \<Rightarrow> False)
                       (prev_codepoint (cx_input cx) pos)
     else Some False)"

definition at_end :: "matcher \<Rightarrow> nat \<Rightarrow> bool \<Rightarrow> bool" where
  "at_end cx pos ml =
    (if pos \<ge> length (units (cx_input cx)) then True
     else ml \<and> (case decode (cx_input cx) pos of Some (cp, _) \<Rightarrow> is_line_terminator cp | None \<Rightarrow> False))"

definition is_word_in :: "matcher \<Rightarrow> bool \<Rightarrow> code_point \<Rightarrow> bool" where
  "is_word_in cx ic cp \<longleftrightarrow>
    is_word cp \<or> (ic \<and> p_unicode (cx_program cx) \<and> (cp = 0x017F \<or> cp = 0x212A))"

definition word_boundary :: "matcher \<Rightarrow> nat \<Rightarrow> bool \<Rightarrow> bool checked" where
  "word_boundary cx pos ic =
    map_option
      (\<lambda>prev.
        let before = (case prev of Some cp \<Rightarrow> is_word_in cx ic cp | None \<Rightarrow> False);
            after = (case decode (cx_input cx) pos of Some (cp, _) \<Rightarrow> is_word_in cx ic cp | None \<Rightarrow> False)
        in before \<noteq> after)
      (prev_codepoint (cx_input cx) pos)"

section \<open>Backreferences\<close>

definition group_span :: "slots \<Rightarrow> nat \<Rightarrow> (nat \<times> nat) option" where
  "group_span caps g =
    (case (get_at caps (2 * g), get_at caps (2 * g + 1)) of
       (Some (Some s), Some (Some e)) \<Rightarrow> Some (s, e)
     | _ \<Rightarrow> None)"

fun find_span :: "slots \<Rightarrow> nat list \<Rightarrow> (nat \<times> nat) option" where
  "find_span caps [] = None"
| "find_span caps (g # gs) =
    (case group_span caps g of Some se \<Rightarrow> Some se | None \<Rightarrow> find_span caps gs)"

text \<open>The comparison loop: \<open>Some False\<close> at the first pair of units that differ.\<close>

fun backref_loop :: "matcher \<Rightarrow> bool \<Rightarrow> nat \<Rightarrow> nat \<Rightarrow> nat \<Rightarrow> bool checked" where
  "backref_loop cx ic start at 0 = Some True"
| "backref_loop cx ic start at (Suc n) =
    (case (get_at (units (cx_input cx)) start, get_at (units (cx_input cx)) at) of
       (Some a, Some b) \<Rightarrow>
         (if a = b \<or> (ic \<and> canon cx a = canon cx b)
          then backref_loop cx ic (Suc start) (Suc at) n else Some False)
     | _ \<Rightarrow> None)"

definition match_backref :: "matcher \<Rightarrow> nat list \<Rightarrow> nat \<Rightarrow> slots \<Rightarrow> bool \<Rightarrow> bool \<Rightarrow> nat option checked" where
  "match_backref cx groups pos caps ic backward =
    (case find_span caps groups of
       None \<Rightarrow> Some (Some pos)
     | Some (start, e) \<Rightarrow>
        (let len = e - start in
         if len = 0 then Some (Some pos)
         else if backward \<and> pos < len then Some None
         else
          (let at = (if backward then pos - len else pos) in
           if at + len > length (units (cx_input cx)) then Some None
           else map_option (\<lambda>eq. if eq then Some (if backward then at else at + len) else None)
                  (backref_loop cx ic start at len))))"

section \<open>The fused repeat\<close>

text \<open>The specialised scan loops: consume units while the test holds.\<close>

function repeat_scan :: "(code_unit \<Rightarrow> bool) \<Rightarrow> code_unit list \<Rightarrow> bool \<Rightarrow> nat \<Rightarrow> nat checked" where
  "repeat_scan test us backward e =
    (if (if backward then e > 0 else e < length us) then
       (let i = (if backward then e - 1 else e) in
        if i < length us then
          (if test (us ! i) then repeat_scan test us backward (if backward then e - 1 else e + 1)
           else Some e)
        else None)
     else Some e)"
  by pat_completeness auto
termination
  by (relation "measure (\<lambda>(test, us, backward, e). if backward then e else length us - e)")
    (auto split: if_splits)

declare repeat_scan.simps [simp del]

text \<open>The per-unit test, chosen once per instruction. The case-sensitive class test splits the
  bitmap into two 64-bit halves.\<close>

definition atom_test :: "matcher \<Rightarrow> repeat_atom \<Rightarrow> (code_unit \<Rightarrow> bool) checked" where
  "atom_test cx atom =
    (case atom of
       AtomChar cp ic \<Rightarrow> Some (\<lambda>u. char_eq cx cp u ic)
     | AtomAny da \<Rightarrow> Some (\<lambda>u. da \<or> \<not> is_line_terminator u)
     | AtomClass k negate ic \<Rightarrow>
        map_option
          (\<lambda>set.
            if ic then (\<lambda>u. class_member cx set negate u True)
            else
              (let lo = (ucast (ascii_lo set) :: 64 word);
                   hi = (ucast (drop_bit 64 (ascii_lo set)) :: 64 word)
               in (\<lambda>u. (if u < 64 then drop_bit u lo AND 1 \<noteq> 0
                        else if u < 128 then drop_bit (u - 64) hi AND 1 \<noteq> 0
                        else contains (code_points set) u) \<noteq> negate)))
          (get_at (p_classes (cx_program cx)) k))"

section \<open>Machine state\<close>

datatype resume = At | RepeatGreedy nat | RepeatLazy nat

record frame =
  fr_pc :: nat
  fr_pos :: nat
  fr_log_mark :: nat
  fr_resume :: resume

type_synonym undo_log = "(nat \<times> nat option) list"

record thread =
  t_pc :: nat
  t_pos :: nat
  t_caps :: slots
  t_stack :: "frame list"
  t_log :: undo_log

datatype exec_error = StepLimitExceeded

datatype run_result =
    RunOk "(nat \<times> slots) option"
  | RunErr exec_error
  | RunPanic

text \<open>One iteration of the inner loop: go on, leave the loop with the value of \<open>accepted\<close>,
  evaluate a lookaround first, or panic.\<close>

datatype insn_result =
    Continue thread
  | Break "nat option" thread
  | CallLook bool bool nat
  | Panicked

definition fail :: "thread \<Rightarrow> insn_result" where
  "fail th = Break None th"

definition advance :: "thread \<Rightarrow> nat \<Rightarrow> thread" where
  "advance th pos = th\<lparr>t_pc := t_pc th + 1, t_pos := pos\<rparr>"

text \<open>The shape shared by the single-character instructions: decode, test, move.\<close>

definition consume :: "matcher \<Rightarrow> bool \<Rightarrow> (code_point \<Rightarrow> bool) \<Rightarrow> thread \<Rightarrow> insn_result" where
  "consume cx backward test th =
    (case decode_dir (cx_input cx) (t_pos th) backward of
       None \<Rightarrow> Panicked
     | Some None \<Rightarrow> fail th
     | Some (Some (cp, w)) \<Rightarrow>
        (if test cp then
           (case step (t_pos th) w backward of None \<Rightarrow> Panicked | Some p \<Rightarrow> Continue (advance th p))
         else fail th))"

definition exec_char_seq :: "matcher \<Rightarrow> bool \<Rightarrow> code_unit list \<Rightarrow> thread \<Rightarrow> insn_result" where
  "exec_char_seq cx backward seq th =
    (let us = units (cx_input cx); pos = t_pos th in
     if backward \<and> pos < length seq then fail th
     else
      (let lo = (if backward then pos - length seq else pos);
           hi = (if backward then pos else pos + length seq) in
       if hi \<le> length us \<and> take (hi - lo) (drop lo us) = seq
       then Continue (advance th (if backward then lo else hi))
       else fail th))"

definition push_frame :: "nat \<Rightarrow> nat \<Rightarrow> resume \<Rightarrow> thread \<Rightarrow> thread" where
  "push_frame pc pos r th =
    th\<lparr>t_stack := \<lparr>fr_pc = pc, fr_pos = pos, fr_log_mark = length (t_log th), fr_resume = r\<rparr> # t_stack th\<rparr>"

definition abs_diff :: "nat \<Rightarrow> nat \<Rightarrow> nat" where
  "abs_diff a b = (if a \<le> b then b - a else a - b)"

definition exec_repeat ::
  "matcher \<Rightarrow> bool \<Rightarrow> repeat_atom \<Rightarrow> nat \<Rightarrow> bool \<Rightarrow> bool \<Rightarrow> thread \<Rightarrow> insn_result" where
  "exec_repeat cx backward atom mn greedy possessive th =
    (case Option.bind (atom_test cx atom)
            (\<lambda>test. repeat_scan test (units (cx_input cx)) backward (t_pos th)) of
       None \<Rightarrow> Panicked
     | Some e \<Rightarrow>
        (if abs_diff (t_pos th) e < mn then fail th
         else case step (t_pos th) mn backward of
           None \<Rightarrow> Panicked
         | Some low \<Rightarrow>
            (if greedy then
               (if \<not> possessive \<and> e \<noteq> low then
                  (case step e 1 (\<not> backward) of
                     None \<Rightarrow> Panicked
                   | Some p \<Rightarrow> Continue (advance (push_frame (t_pc th + 1) p (RepeatGreedy low) th) e))
                else Continue (advance th e))
             else
               (if e \<noteq> low then
                  (case step low 1 backward of
                     None \<Rightarrow> Panicked
                   | Some p \<Rightarrow> Continue (advance (push_frame (t_pc th + 1) p (RepeatLazy e) th) low))
                else Continue (advance th low)))))"

text \<open>Writing a slot: the old value goes to the undo log unless \<open>logged\<close> is false.\<close>

definition write_slot :: "bool \<Rightarrow> nat \<Rightarrow> nat option \<Rightarrow> thread \<Rightarrow> thread checked" where
  "write_slot logged slot v th =
    (case get_at (t_caps th) slot of
       None \<Rightarrow> None
     | Some old \<Rightarrow>
        Some (th\<lparr>t_log := (if logged then (slot, old) # t_log th else t_log th),
                 t_caps := (t_caps th)[slot := v]\<rparr>))"

definition next_insn :: "thread checked \<Rightarrow> insn_result" where
  "next_insn r = (case r of None \<Rightarrow> Panicked | Some th \<Rightarrow> Continue (advance th (t_pos th)))"

definition test_insn :: "bool checked \<Rightarrow> thread \<Rightarrow> insn_result" where
  "test_insn r th =
    (case r of
       None \<Rightarrow> Panicked
     | Some ok \<Rightarrow> (if ok then Continue (advance th (t_pos th)) else fail th))"

text \<open>One iteration of the inner loop of \<open>Matcher::run\<close>.\<close>

definition exec_insn :: "matcher \<Rightarrow> bool \<Rightarrow> thread \<Rightarrow> insn_result" where
  "exec_insn cx backward th =
    (case get_at (p_insns (cx_program cx)) (t_pc th) of
       None \<Rightarrow> Panicked
     | Some i \<Rightarrow>
        (case i of
           IMatch \<Rightarrow>
             (case write_slot False 1 (Some (t_pos th)) th of
                None \<Rightarrow> Panicked | Some th' \<Rightarrow> Break (Some (t_pos th)) th')
         | ILookMatch \<Rightarrow> Break (Some (t_pos th)) th
         | IChar c ic \<Rightarrow> consume cx backward (\<lambda>cp. char_eq cx c cp ic) th
         | ICharSeq seq \<Rightarrow> exec_char_seq cx backward seq th
         | IAnyChar da \<Rightarrow> consume cx backward (\<lambda>cp. da \<or> \<not> is_line_terminator cp) th
         | IRepeat atom mn greedy possessive \<Rightarrow> exec_repeat cx backward atom mn greedy possessive th
         | IClass k negate ic \<Rightarrow>
             (case decode_dir (cx_input cx) (t_pos th) backward of
                None \<Rightarrow> Panicked
              | Some None \<Rightarrow> fail th
              | Some (Some _) \<Rightarrow>
                 (case get_at (p_classes (cx_program cx)) k of
                    None \<Rightarrow> Panicked
                  | Some cs \<Rightarrow> consume cx backward (\<lambda>cp. class_member cx cs negate cp ic) th))
         | IFail \<Rightarrow> fail th
         | IJump t \<Rightarrow> Continue (th\<lparr>t_pc := t\<rparr>)
         | ISplit a b \<Rightarrow> Continue ((push_frame b (t_pos th) At th)\<lparr>t_pc := a\<rparr>)
         | ISave slot \<Rightarrow> next_insn (write_slot (slot > 1) slot (Some (t_pos th)) th)
         | ISetMark slot \<Rightarrow> next_insn (write_slot True slot (Some (t_pos th)) th)
         | IClearCapture g \<Rightarrow>
             next_insn (Option.bind (write_slot True (2 * g) None th) (write_slot True (2 * g + 1) None))
         | ICheckProgress slot \<Rightarrow>
             test_insn (map_option (\<lambda>m. m \<noteq> Some (t_pos th)) (get_at (t_caps th) slot)) th
         | IAssertStart ml \<Rightarrow> test_insn (at_start cx (t_pos th) ml) th
         | IAssertEnd ml \<Rightarrow> test_insn (Some (at_end cx (t_pos th) ml)) th
         | IWordBoundary invert ic \<Rightarrow>
             test_insn (map_option (\<lambda>b. b \<noteq> invert) (word_boundary cx (t_pos th) ic)) th
         | IBackRef gs ic \<Rightarrow>
             (case match_backref cx gs (t_pos th) (t_caps th) ic backward of
                None \<Rightarrow> Panicked
              | Some None \<Rightarrow> fail th
              | Some (Some p) \<Rightarrow> Continue (advance th p))
         | ILook negate behind entry \<Rightarrow> CallLook negate behind entry))"

section \<open>The outer loop\<close>

text \<open>Roll the slots back to a mark of the undo log.\<close>

fun undo :: "nat \<Rightarrow> undo_log \<Rightarrow> slots \<Rightarrow> undo_log \<times> slots" where
  "undo mark [] caps = ([], caps)"
| "undo mark ((slot, old) # log) caps =
    (if length ((slot, old) # log) > mark then undo mark log (caps[slot := old])
     else ((slot, old) # log, caps))"

text \<open>Resuming a popped frame: undo, chain the next length of a fused repeat, start the thread.\<close>

definition chain_frame :: "bool \<Rightarrow> frame \<Rightarrow> frame list checked" where
  "chain_frame backward fr =
    (case fr_resume fr of
       At \<Rightarrow> Some []
     | RepeatGreedy low \<Rightarrow>
        (if fr_pos fr \<noteq> low
         then map_option (\<lambda>p. [fr\<lparr>fr_pos := p\<rparr>]) (step (fr_pos fr) 1 (\<not> backward)) else Some [])
     | RepeatLazy high \<Rightarrow>
        (if fr_pos fr \<noteq> high
         then map_option (\<lambda>p. [fr\<lparr>fr_pos := p\<rparr>]) (step (fr_pos fr) 1 backward) else Some []))"

definition resume_frame :: "bool \<Rightarrow> frame \<Rightarrow> frame list \<Rightarrow> undo_log \<Rightarrow> slots \<Rightarrow> thread checked" where
  "resume_frame backward fr stack log caps =
    (let (log', caps') = undo (fr_log_mark fr) log caps in
     map_option
       (\<lambda>chained. \<lparr>t_pc = fr_pc fr, t_pos = fr_pos fr, t_caps = caps',
                   t_stack = chained @ stack, t_log = log'\<rparr>)
       (chain_frame backward fr))"

text \<open>\<open>eval_look\<close> after its sub-run: the slots to go on with, if the assertion holds.\<close>

definition look_verdict :: "bool \<Rightarrow> slots \<Rightarrow> (nat \<times> slots) option \<Rightarrow> slots option" where
  "look_verdict negate caps found =
    (case (negate, found) of
       (False, Some (_, updated)) \<Rightarrow> Some updated
     | (False, None) \<Rightarrow> None
     | (True, Some _) \<Rightarrow> None
     | (True, None) \<Rightarrow> Some caps)"

text \<open>Apply the slots a lookaround returned, logging every slot that changes.\<close>

fun apply_look :: "nat list \<Rightarrow> slots \<Rightarrow> thread \<Rightarrow> thread checked" where
  "apply_look [] updated th = Some th"
| "apply_look (i # is) updated th =
    (case (get_at (t_caps th) i, get_at updated i) of
       (Some old, Some v) \<Rightarrow>
         (if old \<noteq> v
          then Option.bind (write_slot True i v th) (apply_look is updated)
          else apply_look is updated th)
     | _ \<Rightarrow> None)"

datatype machine =
    Popping "frame list" undo_log slots
  | Running thread

definition first_frame :: "nat \<Rightarrow> nat \<Rightarrow> frame" where
  "first_frame entry start = \<lparr>fr_pc = entry, fr_pos = start, fr_log_mark = 0, fr_resume = At\<rparr>"

text \<open>\<open>Matcher::run\<close> with \<open>eval_look\<close> inlined: the outer loop pops a frame and counts a step,
  the inner loop executes instructions. The step counter is shared by nested runs and wraps
  at 64 bits.\<close>

partial_function (option) run_loop ::
  "matcher \<Rightarrow> bool \<Rightarrow> machine \<Rightarrow> 64 word \<Rightarrow> (run_result \<times> 64 word) option" where
  "run_loop cx backward m steps =
    (case m of
       Popping stack log caps \<Rightarrow>
         (case stack of
            [] \<Rightarrow> Some (RunOk None, steps)
          | fr # stack' \<Rightarrow>
             (if steps + 1 > cx_limit cx then Some (RunErr StepLimitExceeded, steps + 1)
              else case resume_frame backward fr stack' log caps of
                None \<Rightarrow> Some (RunPanic, steps + 1)
              | Some th \<Rightarrow> run_loop cx backward (Running th) (steps + 1)))
     | Running th \<Rightarrow>
         (case exec_insn cx backward th of
            Continue th' \<Rightarrow> run_loop cx backward (Running th') steps
          | Break None th' \<Rightarrow> run_loop cx backward (Popping (t_stack th') (t_log th') (t_caps th')) steps
          | Break (Some p) th' \<Rightarrow> Some (RunOk (Some (p, t_caps th')), steps)
          | Panicked \<Rightarrow> Some (RunPanic, steps)
          | CallLook negate behind entry \<Rightarrow>
              Option.bind (run_loop cx behind (Popping [first_frame entry (t_pos th)] [] (t_caps th)) steps)
                (\<lambda>(r, steps').
                  case r of
                    RunOk found \<Rightarrow>
                      (case look_verdict negate (t_caps th) found of
                         None \<Rightarrow> run_loop cx backward (Popping (t_stack th) (t_log th) (t_caps th)) steps'
                       | Some updated \<Rightarrow>
                          (case apply_look [0..<length (t_caps th)] updated th of
                             None \<Rightarrow> Some (RunPanic, steps')
                           | Some th' \<Rightarrow> run_loop cx backward (Running (advance th' (t_pos th'))) steps'))
                  | RunErr e \<Rightarrow> Some (RunErr e, steps')
                  | RunPanic \<Rightarrow> Some (RunPanic, steps'))))"

record exec_config =
  step_limit :: "64 word option"

definition attempt ::
  "(code_point \<Rightarrow> code_point) \<Rightarrow> program \<Rightarrow> input \<Rightarrow> nat \<Rightarrow> exec_config \<Rightarrow> run_result option" where
  "attempt simple_fold prog inp at config =
    (let cx = \<lparr>cx_fold = simple_fold, cx_program = prog, cx_input = inp,
               cx_limit = (case step_limit config of None \<Rightarrow> - 1 | Some l \<Rightarrow> l)\<rparr>;
         caps = (replicate (slot_count prog) None)[0 := Some at]
     in map_option fst (run_loop cx False (Popping [first_frame 0 at] [] caps) 0))"

end
