(* ===== verification/Rx_Lower.thy ===== *)
theory Rx_Lower
  imports Rx_Exec
begin

text \<open>
  The lowering of \<open>ir.rs\<close>: the emitter, the passes over the emitted instructions (case
  folding of classes, auto-possessification, the first-set analysis) and \<open>lower\<close> itself.
  An emission routine is a function on the emitter record; the body of a repeat, group or
  lookaround is passed as the routine that emits it.
\<close>

section \<open>Emitter\<close>

definition MAX_REPEAT :: nat where
  "MAX_REPEAT = 100000"

record emitter =
  e_insns :: "insn list"
  e_classes :: "class_set list"
  e_next_mark :: nat
  e_unicode :: bool
  e_backward :: bool

type_synonym emit_fn = "emitter \<Rightarrow> emitter"

definition emit :: "insn \<Rightarrow> emit_fn" where
  "emit i e = e\<lparr>e_insns := e_insns e @ [i]\<rparr>"

definition here :: "emitter \<Rightarrow> nat" where
  "here e = length (e_insns e)"

definition patch :: "nat \<Rightarrow> insn \<Rightarrow> emit_fn" where
  "patch at i e = e\<lparr>e_insns := (e_insns e)[at := i]\<rparr>"

definition flush_char_run :: "code_unit list \<Rightarrow> emit_fn" where
  "flush_char_run run e =
    (let run = (if e_backward e then rev run else run) in
     case run of
       [] \<Rightarrow> e
     | [u] \<Rightarrow> emit (IChar u False) e
     | _ \<Rightarrow> emit (ICharSeq run) e)"

definition intern_class :: "class_set \<Rightarrow> emitter \<Rightarrow> nat \<times> emitter" where
  "intern_class cs e = (length (e_classes e), e\<lparr>e_classes := e_classes e @ [cs]\<rparr>)"

definition new_mark :: "emitter \<Rightarrow> nat \<times> emitter" where
  "new_mark e = (e_next_mark e, e\<lparr>e_next_mark := e_next_mark e + 1\<rparr>)"

definition clear_captures :: "nat list \<Rightarrow> emit_fn" where
  "clear_captures captures e = foldl (\<lambda>e g. emit (IClearCapture g) e) e captures"

section \<open>Static facts about nodes\<close>

fun capture_indices :: "node \<Rightarrow> nat list" where
  "capture_indices (NGroup kind body) =
    (case kind of Capturing index _ \<Rightarrow> [index] | _ \<Rightarrow> []) @ capture_indices body"
| "capture_indices (NConcat nodes) = concat (map capture_indices nodes)"
| "capture_indices (NAlternate nodes) = concat (map capture_indices nodes)"
| "capture_indices (NRepeat n _) = capture_indices n"
| "capture_indices _ = []"

fun consumes_input :: "node \<Rightarrow> bool" where
  "consumes_input (NChar _ _) = True"
| "consumes_input (NAnyChar _) = True"
| "consumes_input (NClass cs _ _) = (strings cs = [])"
| "consumes_input (NGroup kind body) =
    (case kind of
       Capturing _ _ \<Rightarrow> consumes_input body
     | NonCapturing \<Rightarrow> consumes_input body
     | Lookahead _ \<Rightarrow> False
     | Lookbehind _ \<Rightarrow> False)"
| "consumes_input (NConcat nodes) = list_ex consumes_input nodes"
| "consumes_input (NAlternate nodes) = (nodes \<noteq> [] \<and> list_all consumes_input nodes)"
| "consumes_input (NRepeat n quant) = (q_min quant \<ge> 1 \<and> consumes_input n)"
| "consumes_input NEmpty = False"
| "consumes_input (NAssert _) = False"
| "consumes_input (NBackRef _ _) = False"

section \<open>Emission of the compound nodes\<close>

text \<open>A literal that may join a fused run: case-sensitive, BMP, not a surrogate.\<close>

fun fusible_literal :: "node \<Rightarrow> code_unit option" where
  "fusible_literal (NChar cp ic) =
    (if \<not> ic \<and> cp < 0x10000 \<and> \<not> (0xD800 \<le> cp \<and> cp \<le> 0xDFFF) then Some cp else None)"
| "fusible_literal _ = None"

text \<open>The loop of the \<open>Concat\<close> arm; each element comes with the routine that emits it.\<close>

fun concat_loop :: "(node \<times> emit_fn) list \<Rightarrow> code_unit list \<Rightarrow> emit_fn" where
  "concat_loop [] run e = flush_char_run run e"
| "concat_loop ((n, cmp) # ns) run e =
    (case fusible_literal n of
       Some u \<Rightarrow> concat_loop ns (run @ [u]) e
     | None \<Rightarrow> concat_loop ns [] (cmp (flush_char_run run e)))"

definition compile_concat :: "(node \<times> emit_fn) list \<Rightarrow> emit_fn" where
  "compile_concat ns e = concat_loop (if e_backward e then rev ns else ns) [] e"

text \<open>\<open>compile_alternation\<close>: the loop collects the exit jumps, which are patched at the end.\<close>

fun alternation_loop :: "emit_fn list \<Rightarrow> nat list \<Rightarrow> emitter \<Rightarrow> nat list \<times> emitter" where
  "alternation_loop [] exits e = (exits, e)"
| "alternation_loop [alt] exits e = (exits, alt e)"
| "alternation_loop (alt # alts) exits e =
    (let split = here e;
         e1 = emit (ISplit 0 0) e;
         a_start = here e1;
         e2 = alt e1;
         jump = here e2;
         e3 = emit (IJump 0) e2;
         b_start = here e3;
         e4 = patch split (ISplit a_start b_start) e3
     in alternation_loop alts (exits @ [jump]) e4)"

definition compile_alternation :: "emit_fn list \<Rightarrow> emit_fn" where
  "compile_alternation alts e =
    (case alts of
       [alt] \<Rightarrow> alt e
     | _ \<Rightarrow>
        (let (exits, e1) = alternation_loop alts [] e; end' = here e1
         in foldl (\<lambda>e j. patch j (IJump end') e) e1 exits))"

text \<open>The alternatives a string-carrying class is lowered to: longest string first.\<close>

definition class_alternatives :: "class_set \<Rightarrow> bool \<Rightarrow> node list" where
  "class_alternatives cs ic =
    map (\<lambda>s. if s = [] then NEmpty else NConcat (map (\<lambda>cp. NChar cp ic) s))
      (sort_key (\<lambda>s. - int (length s)) (strings cs))
    @ (if cps_is_empty (code_points cs) then []
       else [NClass (from_code_points (code_points cs)) False ic])"

definition split_pref :: "bool \<Rightarrow> nat \<Rightarrow> nat \<Rightarrow> insn" where
  "split_pref greedy body out = (if greedy then ISplit body out else ISplit out body)"

definition compile_star :: "emit_fn \<Rightarrow> bool \<Rightarrow> bool \<Rightarrow> nat list \<Rightarrow> emit_fn" where
  "compile_star cmp consumes greedy captures e =
    (if consumes then
       (let entry = here e;
            e1 = emit (ISplit 0 0) e;
            body = here e1;
            e2 = cmp (clear_captures captures e1);
            back = here e2;
            e3 = emit (ISplit 0 0) e2;
            out = here e3
        in patch back (split_pref greedy body out) (patch entry (split_pref greedy body out) e3))
     else
       (let (mark, e0) = new_mark e;
            head = here e0;
            e1 = emit (ISetMark mark) e0;
            split = here e1;
            e2 = emit (ISplit 0 0) e1;
            body = here e2;
            e3 = cmp (clear_captures captures e2);
            e4 = emit (IJump head) (emit (ICheckProgress mark) e3);
            out = here e4
        in patch split (split_pref greedy body out) e4))"

fun bounded_loop :: "emit_fn \<Rightarrow> bool \<Rightarrow> nat list \<Rightarrow> nat \<Rightarrow> nat list \<Rightarrow> emitter \<Rightarrow> nat list \<times> emitter" where
  "bounded_loop cmp guard_empty captures 0 splits e = (splits, e)"
| "bounded_loop cmp guard_empty captures (Suc n) splits e =
    (let split = here e;
         e1 = emit (ISplit 0 0) e
     in if guard_empty then
          (let (mark, e2) = new_mark e1;
               e3 = cmp (clear_captures captures (emit (ISetMark mark) e2))
           in bounded_loop cmp guard_empty captures n (splits @ [split]) (emit (ICheckProgress mark) e3))
        else bounded_loop cmp guard_empty captures n (splits @ [split]) (cmp (clear_captures captures e1)))"

definition compile_bounded :: "emit_fn \<Rightarrow> bool \<Rightarrow> nat \<Rightarrow> bool \<Rightarrow> nat list \<Rightarrow> emit_fn" where
  "compile_bounded cmp consumes count greedy captures e =
    (let (splits, e1) = bounded_loop cmp (\<not> consumes) captures count [] e;
         end' = here e1
     in foldl (\<lambda>e s. patch s (split_pref greedy (s + 1) end') e) e1 splits)"

definition fuseable_atom :: "node \<Rightarrow> emitter \<Rightarrow> (repeat_atom \<times> emitter) option" where
  "fuseable_atom n e =
    (case n of
       NChar cp ic \<Rightarrow> Some (AtomChar cp ic, e)
     | NAnyChar da \<Rightarrow> Some (AtomAny da, e)
     | NClass cs negate ic \<Rightarrow>
        (if strings cs = [] then
           (let (k, e') = intern_class cs e in Some (AtomClass k negate ic, e'))
         else None)
     | _ \<Rightarrow> None)"

definition compile_repeat :: "node \<Rightarrow> emit_fn \<Rightarrow> quantifier \<Rightarrow> emit_fn" where
  "compile_repeat n cmp quant e =
    (let mx = (case q_max quant of Some m \<Rightarrow> (if m \<le> MAX_REPEAT then Some m else None) | None \<Rightarrow> None)
     in if q_min quant > MAX_REPEAT \<and> consumes_input n then emit IFail e
     else
       (let mn = min (q_min quant) MAX_REPEAT;
            fused = (if mx = None \<and> \<not> e_unicode e then fuseable_atom n e else None)
        in case fused of
             Some (atom, e') \<Rightarrow> emit (IRepeat atom mn (q_greedy quant) False) e'
           | None \<Rightarrow>
              (let captures = capture_indices n;
                   e1 = ((\<lambda>e. cmp (clear_captures captures e)) ^^ mn) e
               in case mx of
                    None \<Rightarrow> compile_star cmp (consumes_input n) (q_greedy quant) captures e1
                  | Some m \<Rightarrow> compile_bounded cmp (consumes_input n) (m - mn) (q_greedy quant) captures e1)))"

definition compile_look :: "bool \<Rightarrow> bool \<Rightarrow> emit_fn \<Rightarrow> emit_fn" where
  "compile_look behind negate cmp e =
    (let look = here e;
         e1 = emit (ILook negate behind 0) e;
         jump = here e1;
         e2 = emit (IJump 0) e1;
         entry = here e2;
         outer = e_backward e2;
         e3 = cmp (e2\<lparr>e_backward := behind\<rparr>);
         e4 = emit ILookMatch (e3\<lparr>e_backward := outer\<rparr>);
         after = here e4
     in patch jump (IJump after) (patch look (ILook negate behind entry) e4))"

definition compile_group :: "group_kind \<Rightarrow> emit_fn \<Rightarrow> emit_fn" where
  "compile_group kind cmp e =
    (case kind of
       Capturing index _ \<Rightarrow>
         (let slot = 2 * index;
              (first, last') = (if e_backward e then (slot + 1, slot) else (slot, slot + 1))
          in emit (ISave last') (cmp (emit (ISave first) e)))
     | NonCapturing \<Rightarrow> cmp e
     | Lookahead negate \<Rightarrow> compile_look False negate cmp e
     | Lookbehind negate \<Rightarrow> compile_look True negate cmp e)"

definition compile_assertion :: "assertion \<Rightarrow> insn" where
  "compile_assertion a =
    (case a of
       StartOfLine ml \<Rightarrow> IAssertStart ml
     | EndOfLine ml \<Rightarrow> IAssertEnd ml
     | WordBoundary invert ic \<Rightarrow> IWordBoundary invert ic)"

text \<open>A class with strings is lowered through nodes that are not subterms of it, so the recursion
  is justified by a weight that counts the strings.\<close>

fun node_weight :: "node \<Rightarrow> nat" where
  "node_weight (NClass cs _ _) =
    (if strings cs = [] then 1 else 4 + sum_list (map (\<lambda>s. 3 + length s) (strings cs)))"
| "node_weight (NConcat ns) = Suc (sum_list (map node_weight ns))"
| "node_weight (NAlternate ns) = Suc (sum_list (map node_weight ns))"
| "node_weight (NRepeat n _) = Suc (node_weight n)"
| "node_weight (NGroup _ n) = Suc (node_weight n)"
| "node_weight _ = 1"

lemma class_alternatives_weight:
  assumes "strings cs \<noteq> []" and "alt \<in> set (class_alternatives cs ic)"
  shows "node_weight alt < node_weight (NClass cs neg ic')"
proof -
  have le: "3 + length s \<le> sum_list (map (\<lambda>s. 3 + length s) (strings cs))" if "s \<in> set (strings cs)" for s
    using member_le_sum_list [of "3 + length s" "map (\<lambda>s. 3 + length s) (strings cs)"] that by auto
  from assms show ?thesis
    by (auto simp: class_alternatives_def from_code_points_def comp_def sum_list_triv split: if_splits
        dest!: le)
qed

lemma node_weight_mem: "n \<in> set ns \<Longrightarrow> node_weight n < Suc (sum_list (map node_weight ns))"
  using member_le_sum_list [of "node_weight n" "map node_weight ns"] by auto

function compile :: "node \<Rightarrow> emit_fn" where
  "compile NEmpty = (\<lambda>e. e)"
| "compile (NChar cp ic) = emit (IChar cp ic)"
| "compile (NAnyChar da) = emit (IAnyChar da)"
| "compile (NClass cs negate ic) =
    (if strings cs = [] then
       (\<lambda>e. let (k, e') = intern_class cs e in emit (IClass k negate ic) e')
     else compile_alternation (map compile (class_alternatives cs ic)))"
| "compile (NAssert a) = emit (compile_assertion a)"
| "compile (NBackRef indices ic) = emit (IBackRef indices ic)"
| "compile (NConcat nodes) = compile_concat (map (\<lambda>n. (n, compile n)) nodes)"
| "compile (NAlternate alts) = compile_alternation (map compile alts)"
| "compile (NRepeat n quant) = compile_repeat n (compile n) quant"
| "compile (NGroup kind body) = compile_group kind (compile body)"
  by pat_completeness auto
termination
  by (relation "measure node_weight")
    (auto simp: node_weight_mem class_alternatives_weight simp del: node_weight.simps(1))

section \<open>Case folding of classes\<close>

definition UNICODE_FOLD_CLASS_LIMIT :: nat where
  "UNICODE_FOLD_CLASS_LIMIT = 1024"

text \<open>The class operand of an instruction and its \<open>ignore_case\<close> flag.\<close>

fun class_operand :: "insn \<Rightarrow> (nat \<times> bool) option" where
  "class_operand (IClass k _ ic) = Some (k, ic)"
| "class_operand (IRepeat (AtomClass k _ ic) _ _ _) = Some (k, ic)"
| "class_operand _ = None"

fun clear_ignore_case :: "insn \<Rightarrow> insn" where
  "clear_ignore_case (IClass k negate _) = IClass k negate False"
| "clear_ignore_case (IRepeat (AtomClass k negate _) mn greedy possessive) =
    IRepeat (AtomClass k negate False) mn greedy possessive"
| "clear_ignore_case i = i"

text \<open>One pass over the instructions: \<open>widen\<close> folds the class, \<open>eligible\<close> is the size test of the
  Unicode branch.\<close>

fun fold_classes ::
  "(class_set \<Rightarrow> class_set) \<Rightarrow> (class_set \<Rightarrow> bool) \<Rightarrow> insn list \<Rightarrow> class_set list \<Rightarrow> insn list \<times> class_set list" where
  "fold_classes widen eligible [] classes = ([], classes)"
| "fold_classes widen eligible (i # is) classes =
    (case class_operand i of
       Some (k, True) \<Rightarrow>
         (if eligible (classes ! k) then
            (let (is', classes') = fold_classes widen eligible is (classes[k := widen (classes ! k)])
             in (clear_ignore_case i # is', classes'))
          else
            (let (is', classes') = fold_classes widen eligible is classes in (i # is', classes')))
     | _ \<Rightarrow> (let (is', classes') = fold_classes widen eligible is classes in (i # is', classes')))"

section \<open>Auto-possessification\<close>

definition REP_CAP :: nat where
  "REP_CAP = 2048"

definition repeat_atom_set :: "repeat_atom \<Rightarrow> class_set list \<Rightarrow> code_point_set option" where
  "repeat_atom_set atom classes =
    (case atom of
       AtomChar cp ic \<Rightarrow> (if ic then None else Some (cps_insert cp cps_new))
     | AtomClass k negate ic \<Rightarrow>
        (if ic then None
         else (let cps = code_points (classes ! k) in Some (if negate then cps_negate cps else cps)))
     | AtomAny _ \<Rightarrow> None)"

fun members_within :: "nat \<Rightarrow> nat \<Rightarrow> cp_range list \<Rightarrow> bool" where
  "members_within cap acc [] = True"
| "members_within cap acc (r # rs) =
    (let acc' = acc + (snd r - fst r + 1) in acc' \<le> cap \<and> members_within cap acc' rs)"

definition bounded_members :: "code_point_set \<Rightarrow> nat \<Rightarrow> code_point list option" where
  "bounded_members s cap =
    (if members_within cap 0 (ranges s)
     then Some (concat (map (\<lambda>r. [fst r..<Suc (snd r)]) (ranges s))) else None)"

text \<open>\<open>follower_pc\<close>: the loop runs at most \<open>length insns + 1\<close> times, which is its first argument.\<close>

fun follower_loop :: "nat \<Rightarrow> insn list \<Rightarrow> nat \<Rightarrow> nat option" where
  "follower_loop 0 insns pc = None"
| "follower_loop (Suc n) insns pc =
    (case get_at insns pc of
       None \<Rightarrow> None
     | Some i \<Rightarrow>
        (case i of
           ISave _ \<Rightarrow> follower_loop n insns (pc + 1)
         | IClearCapture _ \<Rightarrow> follower_loop n insns (pc + 1)
         | ISetMark _ \<Rightarrow> follower_loop n insns (pc + 1)
         | ICheckProgress _ \<Rightarrow> follower_loop n insns (pc + 1)
         | IJump t \<Rightarrow> follower_loop n insns t
         | IChar _ _ \<Rightarrow> Some pc
         | ICharSeq _ \<Rightarrow> Some pc
         | IClass _ _ _ \<Rightarrow> Some pc
         | IAnyChar _ \<Rightarrow> Some pc
         | IRepeat _ mn _ _ \<Rightarrow> (if mn \<ge> 1 then Some pc else None)
         | _ \<Rightarrow> None))"

definition follower_pc :: "insn list \<Rightarrow> nat \<Rightarrow> nat option" where
  "follower_pc insns start = follower_loop (length insns + 1) insns start"

definition fold_cp :: "(code_point \<Rightarrow> code_point) \<Rightarrow> bool \<Rightarrow> code_point \<Rightarrow> code_point" where
  "fold_cp simple_fold uni cp = (if uni then fold_unicode simple_fold cp else canonicalize cp)"

definition char_matches ::
  "(code_point \<Rightarrow> code_point) \<Rightarrow> code_point \<Rightarrow> code_point \<Rightarrow> bool \<Rightarrow> bool \<Rightarrow> bool" where
  "char_matches simple_fold target c ic uni \<longleftrightarrow>
    c = target \<or> (ic \<and> fold_cp simple_fold uni c = fold_cp simple_fold uni target)"

definition class_matches ::
  "(code_point \<Rightarrow> code_point) \<Rightarrow> class_set \<Rightarrow> bool \<Rightarrow> code_point \<Rightarrow> bool \<Rightarrow> bool \<Rightarrow> bool" where
  "class_matches simple_fold cs negate c ic uni =
    ((contains (code_points cs) c
      \<or> (ic \<and> (contains (code_points cs) (ascii_other_case c)
          \<or> (uni \<and> contains (code_points cs) (fold_unicode simple_fold c))))) \<noteq> negate)"

definition atom_matches ::
  "(code_point \<Rightarrow> code_point) \<Rightarrow> repeat_atom \<Rightarrow> class_set list \<Rightarrow> code_point \<Rightarrow> bool \<Rightarrow> bool" where
  "atom_matches simple_fold atom classes c uni =
    (case atom of
       AtomChar cp ic \<Rightarrow> char_matches simple_fold cp c ic uni
     | AtomClass k negate ic \<Rightarrow> class_matches simple_fold (classes ! k) negate c ic uni
     | AtomAny da \<Rightarrow> da \<or> \<not> is_line_terminator c)"

definition follower_matches ::
  "(code_point \<Rightarrow> code_point) \<Rightarrow> insn \<Rightarrow> class_set list \<Rightarrow> code_point \<Rightarrow> bool \<Rightarrow> bool" where
  "follower_matches simple_fold i classes c uni =
    (case i of
       IChar cp ic \<Rightarrow> char_matches simple_fold cp c ic uni
     | ICharSeq seq \<Rightarrow> c = seq ! 0
     | IClass k negate ic \<Rightarrow> class_matches simple_fold (classes ! k) negate c ic uni
     | IAnyChar da \<Rightarrow> da \<or> \<not> is_line_terminator c
     | IRepeat atom _ _ _ \<Rightarrow> atom_matches simple_fold atom classes c uni
     | _ \<Rightarrow> True)"

definition possessifiable ::
  "(code_point \<Rightarrow> code_point) \<Rightarrow> insn list \<Rightarrow> class_set list \<Rightarrow> bool \<Rightarrow> nat \<Rightarrow> bool" where
  "possessifiable simple_fold insns classes uni i =
    (case insns ! i of
       IRepeat atom _ True False \<Rightarrow>
         (case Option.bind (repeat_atom_set atom classes) (\<lambda>rep. bounded_members rep REP_CAP) of
            None \<Rightarrow> False
          | Some chars \<Rightarrow>
             (case follower_pc insns (i + 1) of
                None \<Rightarrow> False
              | Some fpc \<Rightarrow> list_all (\<lambda>c. \<not> follower_matches simple_fold (insns ! fpc) classes c uni) chars))
     | _ \<Rightarrow> False)"

fun set_possessive :: "insn \<Rightarrow> insn" where
  "set_possessive (IRepeat atom mn greedy _) = IRepeat atom mn greedy True"
| "set_possessive i = i"

definition mark_possessive ::
  "(code_point \<Rightarrow> code_point) \<Rightarrow> insn list \<Rightarrow> class_set list \<Rightarrow> bool \<Rightarrow> insn list" where
  "mark_possessive simple_fold insns classes uni =
    (let marks = filter (possessifiable simple_fold insns classes uni) [0..<length insns]
     in foldl (\<lambda>is i. is[i := set_possessive (is ! i)]) insns marks)"

fun lead_loop :: "nat \<Rightarrow> insn list \<Rightarrow> nat \<Rightarrow> bool" where
  "lead_loop 0 insns pc = False"
| "lead_loop (Suc n) insns pc =
    (case get_at insns pc of
       None \<Rightarrow> False
     | Some i \<Rightarrow>
        (case i of
           ISave _ \<Rightarrow> lead_loop n insns (pc + 1)
         | IClearCapture _ \<Rightarrow> lead_loop n insns (pc + 1)
         | ISetMark _ \<Rightarrow> lead_loop n insns (pc + 1)
         | ICheckProgress _ \<Rightarrow> lead_loop n insns (pc + 1)
         | IJump t \<Rightarrow> lead_loop n insns t
         | IRepeat _ mn greedy possessive \<Rightarrow> greedy \<and> possessive \<and> mn \<ge> 1
         | _ \<Rightarrow> False))"

definition lead_possessive_run :: "insn list \<Rightarrow> bool" where
  "lead_possessive_run insns = lead_loop (length insns + 1) insns 0"

section \<open>First-set analysis\<close>

text \<open>What one instruction contributes to the first set: the members it adds, whether it forces
  canonicalization, and the instructions to visit next (the head is visited first).\<close>

definition class_start :: "class_set list \<Rightarrow> nat \<Rightarrow> bool \<Rightarrow> code_point_set \<Rightarrow> code_point_set" where
  "class_start classes k negate out =
    (let cps = code_points (classes ! k) in cps_union out (if negate then cps_negate cps else cps))"

definition atom_start ::
  "class_set list \<Rightarrow> repeat_atom \<Rightarrow> ((code_point_set \<Rightarrow> code_point_set) \<times> bool) option" where
  "atom_start classes atom =
    (case atom of
       AtomChar cp ic \<Rightarrow> Some (cps_insert cp, ic)
     | AtomClass k negate ic \<Rightarrow>
        (if strings (classes ! k) = [] then Some (class_start classes k negate, ic) else None)
     | AtomAny _ \<Rightarrow> None)"

definition first_step ::
  "class_set list \<Rightarrow> nat \<Rightarrow> insn \<Rightarrow> ((code_point_set \<Rightarrow> code_point_set) \<times> bool \<times> nat list) option" where
  "first_step classes pc i =
    (case i of
       ISave _ \<Rightarrow> Some (id, False, [pc + 1])
     | IClearCapture _ \<Rightarrow> Some (id, False, [pc + 1])
     | ISetMark _ \<Rightarrow> Some (id, False, [pc + 1])
     | ICheckProgress _ \<Rightarrow> Some (id, False, [pc + 1])
     | IAssertStart _ \<Rightarrow> Some (id, False, [pc + 1])
     | IAssertEnd _ \<Rightarrow> Some (id, False, [pc + 1])
     | IWordBoundary _ _ \<Rightarrow> Some (id, False, [pc + 1])
     | IJump t \<Rightarrow> Some (id, False, [t])
     | ISplit a b \<Rightarrow> Some (id, False, [b, a])
     | IChar cp ic \<Rightarrow> Some (cps_insert cp, ic, [])
     | ICharSeq seq \<Rightarrow> Some (cps_insert (seq ! 0), False, [])
     | IClass k negate ic \<Rightarrow>
        (if strings (classes ! k) = [] then Some (class_start classes k negate, ic, []) else None)
     | IRepeat atom mn _ _ \<Rightarrow>
        (case atom_start classes atom of
           None \<Rightarrow> None
         | Some (add, ic) \<Rightarrow> Some (add, ic, if mn = 0 then [pc + 1] else []))
     | _ \<Rightarrow> None)"

lemma count_visited_less:
  "pc < length v \<Longrightarrow> \<not> v ! pc \<Longrightarrow> count_list (v[pc := True]) False < count_list v False"
proof (induction v arbitrary: pc)
  case (Cons b v)
  then show ?case by (cases pc) auto
qed simp

function first_set_loop ::
  "insn list \<Rightarrow> class_set list \<Rightarrow> bool list \<Rightarrow> nat list \<Rightarrow> code_point_set \<Rightarrow> bool
    \<Rightarrow> (code_point_set \<times> bool) option" where
  "first_set_loop insns classes visited [] out needs_canon = Some (out, needs_canon)"
| "first_set_loop insns classes visited (pc # work) out needs_canon =
    (if pc \<ge> length insns \<or> pc \<ge> length visited \<or> visited ! pc
     then first_set_loop insns classes visited work out needs_canon
     else case first_step classes pc (insns ! pc) of
       None \<Rightarrow> None
     | Some (add, ic, succs) \<Rightarrow>
        first_set_loop insns classes (visited[pc := True]) (succs @ work) (add out) (needs_canon \<or> ic))"
  by pat_completeness auto
termination
  by (relation "measures [\<lambda>(_, _, v, _, _, _). count_list v False, \<lambda>(_, _, _, w, _, _). length w]")
    (auto simp: count_visited_less)

definition MAX_FOLD :: nat where
  "MAX_FOLD = 4096"

definition canonicalize_set ::
  "(code_point \<Rightarrow> code_point) \<Rightarrow> code_point_set \<Rightarrow> bool \<Rightarrow> code_point_set option" where
  "canonicalize_set simple_fold s uni =
    (case bounded_members s MAX_FOLD of
       None \<Rightarrow> None
     | Some cps \<Rightarrow> Some (foldl (\<lambda>out cp. cps_insert (fold_cp simple_fold uni cp) out) cps_new cps))"

definition compute_first_set ::
  "(code_point \<Rightarrow> code_point) \<Rightarrow> insn list \<Rightarrow> class_set list \<Rightarrow> bool \<Rightarrow> bool
    \<Rightarrow> (code_point_set \<times> bool) option" where
  "compute_first_set simple_fold insns classes ic uni =
    (case first_set_loop insns classes (replicate (length insns) False) [0] cps_new ic of
       None \<Rightarrow> None
     | Some (out, needs_canon) \<Rightarrow>
        (if cps_is_empty out then None
         else if needs_canon then
           (case canonicalize_set simple_fold out uni of
              None \<Rightarrow> None
            | Some out' \<Rightarrow> (if cps_is_empty out' then None else Some (out', True)))
         else Some (out, False)))"

section \<open>Lowering\<close>

record parsed =
  root :: node
  group_count :: nat
  group_names :: "code_point list option list"

text \<open>The ICU4X functions the engine calls.\<close>

record icu =
  icu_simple_fold :: "code_point \<Rightarrow> code_point"
  icu_case_closure :: "code_point \<Rightarrow> code_point list"

definition lower :: "icu \<Rightarrow> parsed \<Rightarrow> flags \<Rightarrow> program" where
  "lower U p f =
    (let mark_base = 2 * (group_count p + 1);
         uni = is_unicode_mode f;
         e = emit IMatch (compile (root p)
               \<lparr>e_insns = [], e_classes = [], e_next_mark = mark_base, e_unicode = uni, e_backward = False\<rparr>);
         (insns, classes) =
           (if \<not> uni then fold_classes fold_ascii_case (\<lambda>_. True) (e_insns e) (e_classes e)
            else fold_classes (fold_unicode_case (icu_case_closure U))
                   (\<lambda>cs. code_point_count cs \<le> UNICODE_FOLD_CLASS_LIMIT) (e_insns e) (e_classes e));
         classes' = map finalize_ascii classes;
         insns' = mark_possessive (icu_simple_fold U) insns classes' uni
     in \<lparr>p_insns = insns',
         p_classes = classes',
         p_group_count = group_count p,
         p_names = map (\<lambda>n. case n of Some s \<Rightarrow> s | None \<Rightarrow> []) (group_names p),
         p_unicode = uni,
         p_loop_marks = e_next_mark e - mark_base,
         p_prefilter =
           map_option
             (\<lambda>(set, canon). if canon then prefilter_from_set_canon set uni else prefilter_from_set set)
             (compute_first_set (icu_simple_fold U) insns' classes' (ignore_case f) uni),
         p_lead_possessive_run = lead_possessive_run insns'\<rparr>)"

end
