(* ===== verification/Rx_Lex.thy ===== *)
theory Rx_Lex
  imports Rx_Lower
begin

text \<open>
  The lexical layer of the pattern parser, \<open>parser/mod.rs\<close>: the error type of \<open>error.rs\<close>, the
  parser state, the cursor operations, and the readers that consume digits, hexadecimal
  escapes, single-character escapes and quantifier braces.

  A fallible routine returns a \<open>presult\<close>: \<open>POk\<close> and \<open>PErr\<close> are Rust's \<open>Ok\<close> and \<open>Err\<close>, \<open>PPanic\<close>
  is a failed \<open>expect\<close> or an index out of range, and \<open>PFuel\<close> is the exhausted loop bound of the
  model (shown unreachable). The state an operation leaves behind when it errs is dropped: the
  two callers that recover from an error reset the cursor, the only field the callee changes.
  Loops that only move the cursor are functions with a termination proof.
\<close>

section \<open>Results\<close>

datatype regex_error =
    Syntax "code_point list" nat
  | TooDeep nat

datatype 'a presult =
    POk 'a
  | PErr regex_error
  | PPanic
  | PFuel

text \<open>Rust's \<open>?\<close>.\<close>

fun try_p :: "'a presult \<Rightarrow> ('a \<Rightarrow> 'b presult) \<Rightarrow> 'b presult" where
  "try_p (POk x) k = k x"
| "try_p (PErr e) k = PErr e"
| "try_p PPanic k = PPanic"
| "try_p PFuel k = PFuel"

lemma try_p_cong [fundef_cong]:
  "r = r' \<Longrightarrow> (\<And>x. r' = POk x \<Longrightarrow> k x = k' x) \<Longrightarrow> try_p r k = try_p r' k'"
  by (cases r') auto

lemma try_p_POk_iff [simp]: "try_p r k = POk y \<longleftrightarrow> (\<exists>x. r = POk x \<and> k x = POk y)"
  by (cases r) auto

lemma try_p_PPanic_iff: "try_p r k = PPanic \<longleftrightarrow> r = PPanic \<or> (\<exists>x. r = POk x \<and> k x = PPanic)"
  by (cases r) auto

lemma try_p_PFuel_iff: "try_p r k = PFuel \<longleftrightarrow> r = PFuel \<or> (\<exists>x. r = POk x \<and> k x = PFuel)"
  by (cases r) auto

text \<open>Rust's \<open>Option::ok_or_else\<close>.\<close>

definition ok_or :: "'a option \<Rightarrow> regex_error \<Rightarrow> 'a presult" where
  "ok_or x e = (case x of Some y \<Rightarrow> POk y | None \<Rightarrow> PErr e)"

lemma ok_or_iff [simp]:
  "ok_or x e = POk y \<longleftrightarrow> x = Some y" "ok_or x e \<noteq> PPanic" "ok_or x e \<noteq> PFuel"
  by (auto simp: ok_or_def split: option.splits)

text \<open>A string literal of the source, as the code points of a Rust \<open>String\<close>.\<close>

definition lit :: "string \<Rightarrow> code_point list" where
  "lit s = map of_char s"

definition USIZE_MAX :: nat where
  "USIZE_MAX = 18446744073709551615"

section \<open>Code units of the pattern syntax\<close>

abbreviation c_bang :: nat where "c_bang \<equiv> 0x21"
abbreviation c_dollar :: nat where "c_dollar \<equiv> 0x24"
abbreviation c_amp :: nat where "c_amp \<equiv> 0x26"
abbreviation c_lparen :: nat where "c_lparen \<equiv> 0x28"
abbreviation c_rparen :: nat where "c_rparen \<equiv> 0x29"
abbreviation c_star :: nat where "c_star \<equiv> 0x2A"
abbreviation c_plus :: nat where "c_plus \<equiv> 0x2B"
abbreviation c_comma :: nat where "c_comma \<equiv> 0x2C"
abbreviation c_dash :: nat where "c_dash \<equiv> 0x2D"
abbreviation c_dot :: nat where "c_dot \<equiv> 0x2E"
abbreviation c_slash :: nat where "c_slash \<equiv> 0x2F"
abbreviation c_0 :: nat where "c_0 \<equiv> 0x30"
abbreviation c_1 :: nat where "c_1 \<equiv> 0x31"
abbreviation c_7 :: nat where "c_7 \<equiv> 0x37"
abbreviation c_9 :: nat where "c_9 \<equiv> 0x39"
abbreviation c_colon :: nat where "c_colon \<equiv> 0x3A"
abbreviation c_lt :: nat where "c_lt \<equiv> 0x3C"
abbreviation c_eq :: nat where "c_eq \<equiv> 0x3D"
abbreviation c_gt :: nat where "c_gt \<equiv> 0x3E"
abbreviation c_quest :: nat where "c_quest \<equiv> 0x3F"
abbreviation c_A :: nat where "c_A \<equiv> 0x41"
abbreviation c_B :: nat where "c_B \<equiv> 0x42"
abbreviation c_D :: nat where "c_D \<equiv> 0x44"
abbreviation c_F :: nat where "c_F \<equiv> 0x46"
abbreviation c_P :: nat where "c_P \<equiv> 0x50"
abbreviation c_S :: nat where "c_S \<equiv> 0x53"
abbreviation c_W :: nat where "c_W \<equiv> 0x57"
abbreviation c_Z :: nat where "c_Z \<equiv> 0x5A"
abbreviation c_lbrack :: nat where "c_lbrack \<equiv> 0x5B"
abbreviation c_bslash :: nat where "c_bslash \<equiv> 0x5C"
abbreviation c_rbrack :: nat where "c_rbrack \<equiv> 0x5D"
abbreviation c_caret :: nat where "c_caret \<equiv> 0x5E"
abbreviation c_under :: nat where "c_under \<equiv> 0x5F"
abbreviation c_a :: nat where "c_a \<equiv> 0x61"
abbreviation c_b :: nat where "c_b \<equiv> 0x62"
abbreviation c_c :: nat where "c_c \<equiv> 0x63"
abbreviation c_d :: nat where "c_d \<equiv> 0x64"
abbreviation c_f :: nat where "c_f \<equiv> 0x66"
abbreviation c_i :: nat where "c_i \<equiv> 0x69"
abbreviation c_k :: nat where "c_k \<equiv> 0x6B"
abbreviation c_m :: nat where "c_m \<equiv> 0x6D"
abbreviation c_n :: nat where "c_n \<equiv> 0x6E"
abbreviation c_p :: nat where "c_p \<equiv> 0x70"
abbreviation c_q :: nat where "c_q \<equiv> 0x71"
abbreviation c_r :: nat where "c_r \<equiv> 0x72"
abbreviation c_s :: nat where "c_s \<equiv> 0x73"
abbreviation c_t :: nat where "c_t \<equiv> 0x74"
abbreviation c_u :: nat where "c_u \<equiv> 0x75"
abbreviation c_v :: nat where "c_v \<equiv> 0x76"
abbreviation c_w :: nat where "c_w \<equiv> 0x77"
abbreviation c_x :: nat where "c_x \<equiv> 0x78"
abbreviation c_z :: nat where "c_z \<equiv> 0x7A"
abbreviation c_lbrace :: nat where "c_lbrace \<equiv> 0x7B"
abbreviation c_bar :: nat where "c_bar \<equiv> 0x7C"
abbreviation c_rbrace :: nat where "c_rbrace \<equiv> 0x7D"

definition in_range :: "nat \<Rightarrow> nat \<Rightarrow> nat \<Rightarrow> bool" where
  "in_range lo hi c \<longleftrightarrow> lo \<le> c \<and> c \<le> hi"

definition is_digit :: "nat \<Rightarrow> bool" where
  "is_digit c \<longleftrightarrow> in_range c_0 c_9 c"

definition hex_digit :: "code_unit \<Rightarrow> nat option" where
  "hex_digit c =
    (if in_range c_0 c_9 c then Some (c - c_0)
     else if in_range c_a c_f c then Some (c - c_a + 10)
     else if in_range c_A c_F c then Some (c - c_A + 10)
     else None)"

definition is_syntax_char :: "code_unit \<Rightarrow> bool" where
  "is_syntax_char c \<longleftrightarrow>
    c mod 256 \<in> {c_caret, c_dollar, c_bslash, c_dot, c_star, c_plus, c_quest, c_lparen, c_rparen,
      c_lbrack, c_rbrack, c_lbrace, c_rbrace, c_bar} \<and> c < 0x80"

section \<open>Parser state\<close>

definition MAX_NESTING_DEPTH :: nat where
  "MAX_NESTING_DEPTH = 1000"

record parser =
  ps_units :: "code_unit list"
  ps_pos :: nat
  ps_flags :: flags
  ps_depth :: nat
  ps_total_groups :: nat
  ps_group_names :: "code_point list option list"
  ps_next_group :: nat

definition parser_new :: "code_unit list \<Rightarrow> flags \<Rightarrow> parser" where
  "parser_new us f =
    \<lparr>ps_units = us, ps_pos = 0, ps_flags = f, ps_depth = 0, ps_total_groups = 0,
     ps_group_names = [], ps_next_group = 0\<rparr>"

definition char_node :: "parser \<Rightarrow> code_point \<Rightarrow> node" where
  "char_node s cp = NChar cp (ignore_case (ps_flags s))"

definition class_node :: "parser \<Rightarrow> class_set \<Rightarrow> bool \<Rightarrow> node" where
  "class_node s cs negate = NClass cs negate (ignore_case (ps_flags s))"

definition backref_node :: "parser \<Rightarrow> nat list \<Rightarrow> node" where
  "backref_node s indices = NBackRef indices (ignore_case (ps_flags s))"

definition ps_unicode :: "parser \<Rightarrow> bool" where
  "ps_unicode s = is_unicode_mode (ps_flags s)"

definition err :: "parser \<Rightarrow> string \<Rightarrow> regex_error" where
  "err s msg = Syntax (lit msg) (ps_pos s)"

definition peek :: "parser \<Rightarrow> code_unit option" where
  "peek s = get_at (ps_units s) (ps_pos s)"

definition peek_at :: "parser \<Rightarrow> nat \<Rightarrow> code_unit option" where
  "peek_at s off = get_at (ps_units s) (ps_pos s + off)"

text \<open>\<open>self.pos += n\<close>.\<close>

definition bump :: "nat \<Rightarrow> parser \<Rightarrow> parser" where
  "bump n s = s\<lparr>ps_pos := ps_pos s + n\<rparr>"

definition eat :: "code_unit \<Rightarrow> parser \<Rightarrow> bool \<times> parser" where
  "eat ch s = (if peek s = Some ch then (True, bump 1 s) else (False, s))"

definition enter :: "parser \<Rightarrow> parser presult" where
  "enter s =
    (let s = s\<lparr>ps_depth := ps_depth s + 1\<rparr>
     in if ps_depth s > MAX_NESTING_DEPTH then PErr (TooDeep MAX_NESTING_DEPTH) else POk s)"

definition leave :: "parser \<Rightarrow> parser" where
  "leave s = s\<lparr>ps_depth := ps_depth s - 1\<rparr>"

definition name_to_indices :: "parser \<Rightarrow> code_point list \<Rightarrow> nat list" where
  "name_to_indices s name =
    map (\<lambda>(idx, n). idx + 1)
      (filter (\<lambda>(idx, n). n = Some name) (enumerate 0 (ps_group_names s)))"

lemma bump_simps [simp]:
  "ps_units (bump n s) = ps_units s" "ps_pos (bump n s) = ps_pos s + n"
  "ps_flags (bump n s) = ps_flags s" "ps_depth (bump n s) = ps_depth s"
  "ps_total_groups (bump n s) = ps_total_groups s"
  "ps_group_names (bump n s) = ps_group_names s"
  "ps_next_group (bump n s) = ps_next_group s"
  "ps_unicode (bump n s) = ps_unicode s"
  by (simp_all add: bump_def ps_unicode_def)

lemma peek_SomeD: "peek s = Some c \<Longrightarrow> ps_pos s < length (ps_units s)"
  by (simp add: peek_def)

section \<open>Digits\<close>

text \<open>\<open>a.len().cmp(&b.len()).then_with(|| a.cmp(b))\<close>, with the three-way result of
  \<open>Ordering\<close>.\<close>

datatype ordering = Less | Equal | Greater

fun lex_cmp :: "nat list \<Rightarrow> nat list \<Rightarrow> ordering" where
  "lex_cmp [] [] = Equal"
| "lex_cmp [] (b # bs) = Less"
| "lex_cmp (a # as) [] = Greater"
| "lex_cmp (a # as) (b # bs) = (if a < b then Less else if b < a then Greater else lex_cmp as bs)"

definition decimal_digits_cmp :: "nat list \<Rightarrow> nat list \<Rightarrow> ordering" where
  "decimal_digits_cmp a b =
    (if length a < length b then Less else if length b < length a then Greater else lex_cmp a b)"

fun digits_loop :: "nat \<Rightarrow> nat list \<Rightarrow> nat" where
  "digits_loop value [] = value"
| "digits_loop value (digit # digits) =
    (if value * 10 > u32_max then u32_max
     else if value * 10 + digit > u32_max then u32_max
     else digits_loop (value * 10 + digit) digits)"

definition decimal_digits_to_u32 :: "nat list \<Rightarrow> nat" where
  "decimal_digits_to_u32 digits = digits_loop 0 digits"

function decimal_loop :: "nat \<Rightarrow> parser \<Rightarrow> nat \<times> parser" where
  "decimal_loop v s =
    (case peek s of
       Some c \<Rightarrow>
         (if is_digit c then decimal_loop (min (v * 10 + (c - c_0)) u32_max) (bump 1 s) else (v, s))
     | None \<Rightarrow> (v, s))"
  by pat_completeness auto
termination
  by (relation "measure (\<lambda>(v, s). length (ps_units s) - ps_pos s)") (auto dest: peek_SomeD)

definition read_decimal :: "parser \<Rightarrow> nat \<times> parser" where
  "read_decimal s = (case decimal_loop 0 s of (v, s) \<Rightarrow> (min v u32_max, s))"

function collect_digits :: "nat list \<Rightarrow> parser \<Rightarrow> nat list \<times> parser" where
  "collect_digits digits s =
    (case peek s of
       Some c \<Rightarrow>
         (if is_digit c then collect_digits (digits @ [c - c_0]) (bump 1 s) else (digits, s))
     | None \<Rightarrow> (digits, s))"
  by pat_completeness auto
termination
  by (relation "measure (\<lambda>(ds, s). length (ps_units s) - ps_pos s)") (auto dest: peek_SomeD)

definition read_decimal_digits :: "parser \<Rightarrow> nat list \<times> parser" where
  "read_decimal_digits s =
    (case collect_digits [] s of (digits, s) \<Rightarrow> (dropWhile (\<lambda>d. d = 0) digits, s))"

function octal_loop :: "nat \<Rightarrow> nat \<Rightarrow> nat \<Rightarrow> parser \<Rightarrow> nat \<times> parser" where
  "octal_loop val digits max_digits s =
    (if digits < max_digits then
       (case peek s of
          Some c \<Rightarrow>
            (if in_range c_0 c_7 c
             then octal_loop (val * 8 + (c - c_0)) (digits + 1) max_digits (bump 1 s)
             else (val, s))
        | None \<Rightarrow> (val, s))
     else (val, s))"
  by pat_completeness auto
termination
  by (relation "measure (\<lambda>(val, digits, max_digits, s). max_digits - digits)") auto

definition read_legacy_octal :: "parser \<Rightarrow> (nat \<times> parser) presult" where
  "read_legacy_octal s =
    (case peek s of
       None \<Rightarrow> PPanic
     | Some c \<Rightarrow>
        (let first = c - c_0; s = bump 1 s
         in POk (octal_loop first 1 (if first \<le> 3 then 3 else 2) s)))"

declare decimal_loop.simps [simp del] collect_digits.simps [simp del] octal_loop.simps [simp del]

section \<open>Quantifier braces\<close>

function skip_digits :: "code_unit list \<Rightarrow> nat \<Rightarrow> nat" where
  "skip_digits us i =
    (case get_at us i of
       Some c \<Rightarrow> (if is_digit c then skip_digits us (i + 1) else i)
     | None \<Rightarrow> i)"
  by pat_completeness auto
termination
  by (relation "measure (\<lambda>(us, i). length us - i)") auto

declare skip_digits.simps [simp del]

definition looks_like_quantifier :: "parser \<Rightarrow> bool" where
  "looks_like_quantifier s =
    (if peek s \<noteq> Some c_lbrace then False
     else
       (let i = skip_digits (ps_units s) (ps_pos s + 1)
        in if i = ps_pos s + 1 then False
           else
             (case get_at (ps_units s) i of
                Some c \<Rightarrow> c = c_rbrace \<or> c = c_comma
              | None \<Rightarrow> False)))"

definition peek_is_quantifier :: "parser \<Rightarrow> bool" where
  "peek_is_quantifier s =
    (case peek s of
       Some c \<Rightarrow>
         (if c = c_star \<or> c = c_plus \<or> c = c_quest then True
          else if c = c_lbrace then looks_like_quantifier s
          else False)
     | None \<Rightarrow> False)"

definition parse_brace_quantifier :: "parser \<Rightarrow> ((nat \<times> nat option \<times> bool) \<times> parser) presult" where
  "parse_brace_quantifier s =
    (let s = bump 1 s;
         (qmin, s) = read_decimal_digits s;
         (comma, s) = eat c_comma s;
         (qmax, s) =
           (if comma then
              (if peek s = Some c_rbrace then (None, s)
               else (case read_decimal_digits s of (ds, s) \<Rightarrow> (Some ds, s)))
            else (Some qmin, s));
         (closed, s) = eat c_rbrace s
     in if \<not> closed then PErr (err s ''unterminated quantifier'')
        else
          POk ((decimal_digits_to_u32 qmin, map_option decimal_digits_to_u32 qmax,
            (case qmax of Some m \<Rightarrow> decimal_digits_cmp m qmin = Less | None \<Rightarrow> False)), s))"

section \<open>Single-character escapes\<close>

definition read_pattern_codepoint :: "parser \<Rightarrow> (code_point \<times> parser) presult" where
  "read_pattern_codepoint s =
    (case peek s of
       None \<Rightarrow> PPanic
     | Some hi \<Rightarrow>
        (let s = bump 1 s
         in case peek s of
              Some lo \<Rightarrow>
                (if ps_unicode s \<and> is_high_surrogate hi \<and> is_low_surrogate lo
                 then POk (combine_surrogates hi lo, bump 1 s)
                 else POk (hi, s))
            | None \<Rightarrow> POk (hi, s)))"

fun fixed_hex_loop :: "nat \<Rightarrow> nat \<Rightarrow> parser \<Rightarrow> (nat \<times> parser) presult" where
  "fixed_hex_loop 0 v s = POk (v, s)"
| "fixed_hex_loop (Suc n) v s =
    try_p (ok_or (peek s) (err s ''incomplete hex escape'')) (\<lambda>c.
    try_p (ok_or (hex_digit c) (err s ''invalid hex digit'')) (\<lambda>d.
    fixed_hex_loop n (v * 16 + d) (bump 1 s)))"

definition read_fixed_hex :: "nat \<Rightarrow> parser \<Rightarrow> (nat \<times> parser) presult" where
  "read_fixed_hex n s = fixed_hex_loop n 0 s"

function brace_hex_loop :: "nat \<Rightarrow> bool \<Rightarrow> parser \<Rightarrow> (nat \<times> bool \<times> parser) presult" where
  "brace_hex_loop v any s =
    (case peek s of
       None \<Rightarrow> POk (v, any, s)
     | Some c \<Rightarrow>
        (if c = c_rbrace then POk (v, any, s)
         else
           (case hex_digit c of
              None \<Rightarrow> PErr (err s ''invalid hex digit'')
            | Some d \<Rightarrow>
               (let v = min (v * 16) u32_max + d
                in if v > 0x10FFFF then PErr (err s ''code point out of range'')
                   else brace_hex_loop v True (bump 1 s)))))"
  by pat_completeness auto
termination
  by (relation "measure (\<lambda>(v, any, s). length (ps_units s) - ps_pos s)") (auto dest: peek_SomeD)

declare brace_hex_loop.simps [simp del]

text \<open>\<open>low_surrogate_escape\<close> is the \<open>if\<close> chain that looks for the second half of a \<open>\uXXXX\uXXXX\<close>
  pair; \<open>None\<close> restores the cursor.\<close>

definition low_surrogate_escape :: "parser \<Rightarrow> (nat \<times> parser) option" where
  "low_surrogate_escape s =
    (case eat c_bslash s of (a, s) \<Rightarrow>
       if \<not> a then None
       else (case eat c_u s of (b, s) \<Rightarrow>
         if \<not> b then None
         else (case read_fixed_hex 4 s of
                 POk (lo, s) \<Rightarrow> (if is_low_surrogate lo then Some (lo, s) else None)
               | _ \<Rightarrow> None)))"

definition read_unicode_escape :: "parser \<Rightarrow> (code_point \<times> parser) presult" where
  "read_unicode_escape s =
    (case eat c_lbrace s of (brace, s) \<Rightarrow>
       if brace then
         (if \<not> ps_unicode s then PErr (err s (CHR 0x5C # ''u{...} requires the u flag''))
          else try_p (brace_hex_loop 0 False s) (\<lambda>(v, any, s).
            if \<not> any then PErr (err s (''malformed '' @ CHR 0x5C # ''u{...} escape''))
            else (case eat c_rbrace s of (closed, s) \<Rightarrow>
              if \<not> closed then PErr (err s (''malformed '' @ CHR 0x5C # ''u{...} escape'')) else POk (v, s))))
       else try_p (read_fixed_hex 4 s) (\<lambda>(hi, s).
         if ps_unicode s \<and> is_high_surrogate hi then
           (case low_surrogate_escape s of
              Some (lo, s') \<Rightarrow> POk (combine_surrogates hi lo, s')
            | None \<Rightarrow> POk (hi, s))
         else POk (hi, s)))"

definition is_hex :: "code_unit option \<Rightarrow> bool" where
  "is_hex c \<longleftrightarrow> (case c of Some d \<Rightarrow> hex_digit d \<noteq> None | None \<Rightarrow> False)"

definition is_control_letter :: "bool \<Rightarrow> parser \<Rightarrow> code_unit \<Rightarrow> bool" where
  "is_control_letter in_class s l \<longleftrightarrow>
    in_range c_A c_Z l \<or> in_range c_a c_z l
    \<or> in_class \<and> \<not> ps_unicode s \<and> (is_digit l \<or> l = c_under)"

definition parse_control_escape :: "bool \<Rightarrow> parser \<Rightarrow> (code_point \<times> parser) presult" where
  "parse_control_escape in_class s =
    (case peek_at s 1 of
       Some l \<Rightarrow>
         (if is_control_letter in_class s l then POk (l mod 32, bump 2 s)
          else if ps_unicode s then PErr (err s (''invalid '' @ CHR 0x5C # ''c escape''))
          else POk (c_bslash, s))
     | None \<Rightarrow>
         (if ps_unicode s then PErr (err s (''invalid '' @ CHR 0x5C # ''c escape'')) else POk (c_bslash, s)))"

definition parse_char_escape :: "bool \<Rightarrow> parser \<Rightarrow> (code_point \<times> parser) presult" where
  "parse_char_escape in_class s =
    (case peek s of
       None \<Rightarrow> PPanic
     | Some c \<Rightarrow>
        (if c = c_n then POk (0x0A, bump 1 s)
         else if c = c_t then POk (0x09, bump 1 s)
         else if c = c_r then POk (0x0D, bump 1 s)
         else if c = c_f then POk (0x0C, bump 1 s)
         else if c = c_v then POk (0x0B, bump 1 s)
         else if c = c_0 then
           (if (case peek_at s 1 of Some d \<Rightarrow> is_digit d | None \<Rightarrow> False) then
              (if ps_unicode s then PErr (err s (''invalid escape: '' @ CHR 0x5C # ''0 followed by a digit''))
               else read_legacy_octal s)
            else POk (0, bump 1 s))
         else if c = c_x then
           (let s = bump 1 s
            in if \<not> ps_unicode s \<and> \<not> (is_hex (peek s) \<and> is_hex (peek_at s 1)) then POk (c_x, s)
               else read_fixed_hex 2 s)
         else if c = c_u then
           (let s = bump 1 s
            in if ps_unicode s then read_unicode_escape s
               else (case read_unicode_escape s of PErr _ \<Rightarrow> POk (c_u, s) | r \<Rightarrow> r))
         else if c = c_c then parse_control_escape in_class s
         else if ps_unicode s \<and> \<not> is_syntax_char c \<and> c \<noteq> c_slash \<and> \<not> (in_class \<and> c = c_dash)
         then PErr (err s ''invalid identity escape'')
         else read_pattern_codepoint s))"

definition parse_class_char_escape :: "parser \<Rightarrow> (code_point \<times> parser) presult" where
  "parse_class_char_escape s =
    (case peek s of
       Some c \<Rightarrow>
         (if c = c_b then POk (0x08, bump 1 s)
          else if \<not> ps_unicode s \<and> in_range c_1 c_7 c then read_legacy_octal s
          else parse_char_escape True s)
     | None \<Rightarrow> parse_char_escape True s)"

end
