(* ===== verification/Rx_Names.thy ===== *)
theory Rx_Names
  imports Rx_Lex
begin

text \<open>
  Names in patterns: the group names of \<open>parser/mod.rs\<close> with the pre-scan that numbers the
  groups, the bodies of property escapes, and their resolution (\<open>unicode/mod.rs\<close>,
  \<open>unicode/string_props.rs\<close>).

  Unicode data is not part of the crate: the identifier classes come from \<open>unicode_ident\<close>, the
  property tables from \<open>icu_properties\<close>, the emoji tables from a file the build generates. They
  are the fields of the record \<open>ucd\<close>, a parameter of every definition that consults them.
\<close>

datatype gc_group =
  GLetter | GCasedLetter | GMark | GNumber | GPunctuation | GSymbol | GSeparator | GOther

datatype emoji_table =
    BASIC_EMOJI | EMOJI_KEYCAP_SEQUENCE | RGI_EMOJI_FLAG_SEQUENCE | RGI_EMOJI_MODIFIER_SEQUENCE
  | RGI_EMOJI_TAG_SEQUENCE | RGI_EMOJI_ZWJ_SEQUENCE

record ucd =
  is_xid_start :: "code_point \<Rightarrow> bool"
  is_xid_continue :: "code_point \<Rightarrow> bool"
  new_for_ecma262 :: "code_point list \<Rightarrow> cp_range list option"
  parse_gc :: "code_point list \<Rightarrow> nat option"
  gc_ranges :: "nat \<Rightarrow> cp_range list"
  gc_group_ranges :: "gc_group \<Rightarrow> cp_range list"
  parse_script :: "code_point list \<Rightarrow> nat option"
  script_ranges :: "nat \<Rightarrow> cp_range list"
  script_extensions_ranges :: "nat \<Rightarrow> cp_range list"
  emoji_ranges :: "emoji_table \<Rightarrow> cp_range list"
  emoji_strings :: "emoji_table \<Rightarrow> code_point list list"

section \<open>Text\<close>

definition char_from_u32 :: "nat \<Rightarrow> code_point option" where
  "char_from_u32 cp = (if is_scalar_value cp then Some cp else None)"

text \<open>\<open>String::from_utf16_lossy\<close> and \<open>str::encode_utf16\<close>.\<close>

fun from_utf16_lossy :: "code_unit list \<Rightarrow> code_point list" where
  "from_utf16_lossy [] = []"
| "from_utf16_lossy [u] =
    [if is_high_surrogate u \<or> is_low_surrogate u then 0xFFFD else u]"
| "from_utf16_lossy (u # v # us) =
    (if is_high_surrogate u then
       (if is_low_surrogate v then combine_surrogates u v # from_utf16_lossy us
        else 0xFFFD # from_utf16_lossy (v # us))
     else if is_low_surrogate u then 0xFFFD # from_utf16_lossy (v # us)
     else u # from_utf16_lossy (v # us))"

definition encode_char :: "code_point \<Rightarrow> code_unit list" where
  "encode_char cp =
    (if cp < 0x10000 then [cp]
     else [0xD800 + (cp - 0x10000) div 1024, 0xDC00 + (cp - 0x10000) mod 1024])"

definition encode_utf16 :: "code_point list \<Rightarrow> code_unit list" where
  "encode_utf16 s = concat (map encode_char s)"

section \<open>Group names\<close>

definition is_group_name_start :: "ucd \<Rightarrow> code_point \<Rightarrow> bool" where
  "is_group_name_start D ch \<longleftrightarrow> ch = c_dollar \<or> ch = c_under \<or> is_xid_start D ch"

definition is_group_name_continue :: "ucd \<Rightarrow> code_point \<Rightarrow> bool" where
  "is_group_name_continue D ch \<longleftrightarrow>
    is_group_name_start D ch \<or> is_xid_continue D ch \<or> ch = 0x200C \<or> ch = 0x200D"

definition read_group_name_code_point :: "code_unit list \<Rightarrow> nat \<Rightarrow> (code_point \<times> nat) option" where
  "read_group_name_code_point us start =
    (case get_at us start of
       None \<Rightarrow> None
     | Some hi \<Rightarrow>
        (case get_at us (start + 1) of
           Some lo \<Rightarrow>
             (if is_high_surrogate hi \<and> is_low_surrogate lo
              then map_option (\<lambda>ch. (ch, start + 2)) (char_from_u32 (combine_surrogates hi lo))
              else map_option (\<lambda>ch. (ch, start + 1)) (char_from_u32 hi))
         | None \<Rightarrow> map_option (\<lambda>ch. (ch, start + 1)) (char_from_u32 hi)))"

fun group_hex_loop :: "nat \<Rightarrow> nat \<Rightarrow> code_unit list \<Rightarrow> nat \<Rightarrow> (nat \<times> nat) option" where
  "group_hex_loop 0 value us i = Some (value, i)"
| "group_hex_loop (Suc n) value us i =
    (case get_at us i of
       None \<Rightarrow> None
     | Some c \<Rightarrow>
        (case hex_digit c of
           None \<Rightarrow> None
         | Some d \<Rightarrow> group_hex_loop n (value * 16 + d) us (i + 1)))"

definition read_group_name_fixed_hex :: "code_unit list \<Rightarrow> nat \<Rightarrow> (nat \<times> nat) option" where
  "read_group_name_fixed_hex us start = group_hex_loop 4 0 us start"

function group_brace_loop :: "code_unit list \<Rightarrow> nat \<Rightarrow> nat \<Rightarrow> bool \<Rightarrow> (code_point \<times> nat) option" where
  "group_brace_loop us i value any =
    (case get_at us i of
       None \<Rightarrow> None
     | Some c \<Rightarrow>
        (if c = c_rbrace then
           (if \<not> any then None else map_option (\<lambda>ch. (ch, i + 1)) (char_from_u32 value))
         else
           (case hex_digit c of
              None \<Rightarrow> None
            | Some digit \<Rightarrow>
               (if value * 16 > u32_max \<or> value * 16 + digit > u32_max then None
                else if value * 16 + digit > 0x10FFFF then None
                else group_brace_loop us (i + 1) (value * 16 + digit) True))))"
  by pat_completeness auto
termination
  by (relation "measure (\<lambda>(us, i, value, any). length us - i)") auto

declare group_brace_loop.simps [simp del]

definition group_low_surrogate :: "code_unit list \<Rightarrow> nat \<Rightarrow> (nat \<times> nat) option" where
  "group_low_surrogate us i =
    (if get_at us i = Some c_bslash \<and> get_at us (i + 1) = Some c_u then
       (case read_group_name_fixed_hex us (i + 2) of
          Some (lo, after) \<Rightarrow> (if is_low_surrogate lo then Some (lo, after) else None)
        | None \<Rightarrow> None)
     else None)"

definition read_group_name_unicode_escape :: "code_unit list \<Rightarrow> nat \<Rightarrow> (code_point \<times> nat) option" where
  "read_group_name_unicode_escape us start =
    (if get_at us start = Some c_lbrace then group_brace_loop us (start + 1) 0 False
     else
       (case read_group_name_fixed_hex us start of
          None \<Rightarrow> None
        | Some (hi, i) \<Rightarrow>
           (case (if is_high_surrogate hi then group_low_surrogate us i else None) of
              Some (lo, after) \<Rightarrow>
                map_option (\<lambda>ch. (ch, after)) (char_from_u32 (combine_surrogates hi lo))
            | None \<Rightarrow> map_option (\<lambda>ch. (ch, i)) (char_from_u32 hi))))"

definition group_name_char :: "code_unit list \<Rightarrow> nat \<Rightarrow> code_unit \<Rightarrow> (code_point \<times> nat) option" where
  "group_name_char us i c =
    (if c = c_bslash \<and> get_at us (i + 1) = Some c_u
     then read_group_name_unicode_escape us (i + 2)
     else read_group_name_code_point us i)"

lemma group_hex_loop_next: "group_hex_loop n v us i = Some (w, j) \<Longrightarrow> j = i + n"
  by (induction n arbitrary: v i) (fastforce split: option.splits)+

lemma group_brace_loop_next: "group_brace_loop us i v any = Some (ch, j) \<Longrightarrow> i < j"
proof (induction us i v any rule: group_brace_loop.induct)
  case (1 us i v any)
  from 1(2) show ?case
    by (subst (asm) group_brace_loop.simps)
      (auto split: option.splits if_splits dest!: 1(1) simp del: get_at_Some_iff get_at_None_iff)
qed

lemma group_name_char_next: "group_name_char us i c = Some (ch, j) \<Longrightarrow> i < j"
  by (auto simp: group_name_char_def read_group_name_unicode_escape_def
      read_group_name_code_point_def group_low_surrogate_def read_group_name_fixed_hex_def
      split: if_splits option.splits dest!: group_hex_loop_next group_brace_loop_next)

function group_name_loop ::
  "ucd \<Rightarrow> code_unit list \<Rightarrow> nat \<Rightarrow> code_point list \<Rightarrow> (code_point list \<times> nat) option" where
  "group_name_loop D us i name =
    (case get_at us i of
       None \<Rightarrow> None
     | Some c \<Rightarrow>
        (if c = c_gt then (if name = [] then None else Some (name, i + 1))
         else
           (case group_name_char us i c of
              None \<Rightarrow> None
            | Some (ch, nxt) \<Rightarrow>
               (if name = [] \<and> \<not> is_group_name_start D ch \<or> name \<noteq> [] \<and> \<not> is_group_name_continue D ch
                then None
                else group_name_loop D us nxt (name @ [ch])))))"
  by pat_completeness auto
termination
  by (relation "measure (\<lambda>(D, us, i, name). length us - i)")
    (auto dest!: group_name_char_next)

declare group_name_loop.simps [simp del]

definition read_group_name :: "ucd \<Rightarrow> code_unit list \<Rightarrow> nat \<Rightarrow> (code_point list \<times> nat) option" where
  "read_group_name D us start = group_name_loop D us start []"

lemma group_name_loop_next: "group_name_loop D us i name = Some (r, j) \<Longrightarrow> i < j"
proof (induction D us i name rule: group_name_loop.induct)
  case (1 D us i name)
  from 1(2) show ?case
    by (subst (asm) group_name_loop.simps)
      (auto split: option.splits if_splits dest!: 1(1) dest: group_name_char_next
        simp del: get_at_Some_iff get_at_None_iff)
qed

lemma read_group_name_next: "read_group_name D us i = Some (r, j) \<Longrightarrow> i < j"
  by (simp add: read_group_name_def group_name_loop_next)

section \<open>Pre-scan\<close>

text \<open>\<open>scan_result\<close> is what \<open>prescan\<close> stores in the parser: the number of groups and their
  names.\<close>

type_synonym scan_result = "nat \<times> code_point list option list"

definition is_named_group :: "code_unit list \<Rightarrow> nat \<Rightarrow> bool" where
  "is_named_group us i \<longleftrightarrow>
    get_at us (i + 2) = Some c_lt \<and> get_at us (i + 3) \<noteq> Some c_eq \<and> get_at us (i + 3) \<noteq> Some c_bang"

function prescan_loop ::
  "ucd \<Rightarrow> code_unit list \<Rightarrow> nat \<Rightarrow> bool \<Rightarrow> nat \<Rightarrow> code_point list option list \<Rightarrow> scan_result presult" where
  "prescan_loop D us i in_class count names =
    (case get_at us i of
       None \<Rightarrow> POk (count, names)
     | Some c \<Rightarrow>
        (if c = c_bslash then prescan_loop D us (i + 2) in_class count names
         else if in_class then prescan_loop D us (i + 1) (c \<noteq> c_rbrack) count names
         else if c = c_lbrack then prescan_loop D us (i + 1) True count names
         else if c = c_lparen then
           (if get_at us (i + 1) = Some c_quest then
              (if is_named_group us i then
                 (case read_group_name D us (i + 3) of
                    None \<Rightarrow> PErr (Syntax (lit ''invalid group name'') (i + 3))
                  | Some (name, nxt) \<Rightarrow>
                      prescan_loop D us nxt in_class (count + 1) (names @ [Some name]))
               else prescan_loop D us (i + 1) in_class count names)
            else prescan_loop D us (i + 1) in_class (count + 1) (names @ [None]))
         else prescan_loop D us (i + 1) in_class count names))"
  by pat_completeness auto
termination
  by (relation "measure (\<lambda>(D, us, i, in_class, count, names). length us - i)")
    (auto dest!: read_group_name_next)

declare prescan_loop.simps [simp del]

definition prescan :: "ucd \<Rightarrow> parser \<Rightarrow> parser presult" where
  "prescan D s =
    try_p (prescan_loop D (ps_units s) 0 False 0 []) (\<lambda>(count, names).
    POk (s\<lparr>ps_total_groups := count, ps_group_names := names\<rparr>))"

section \<open>Property escapes\<close>

function property_loop :: "nat option \<Rightarrow> parser \<Rightarrow> nat option \<times> parser" where
  "property_loop eq s =
    (case peek s of
       None \<Rightarrow> (eq, s)
     | Some c \<Rightarrow>
        (if c = c_rbrace then (eq, s)
         else property_loop (if c = c_eq \<and> eq = None then Some (ps_pos s) else eq) (bump 1 s)))"
  by pat_completeness auto
termination
  by (relation "measure (\<lambda>(eq, s). length (ps_units s) - ps_pos s)") (auto dest: peek_SomeD)

declare property_loop.simps [simp del]

definition slice_str :: "parser \<Rightarrow> nat \<Rightarrow> nat \<Rightarrow> code_point list" where
  "slice_str s i j = from_utf16_lossy (take (j - i) (drop i (ps_units s)))"

definition read_property_name_body ::
  "parser \<Rightarrow> ((code_point list \<times> code_point list option) \<times> parser) presult" where
  "read_property_name_body s =
    (case eat c_lbrace s of (brace, s) \<Rightarrow>
       if \<not> brace then PErr (err s (''expected `{` after '' @ CHR 0x5C # ''p''))
       else
         (let start = ps_pos s;
              (eq, s) = property_loop None s;
              close = ps_pos s;
              (closed, s) = eat c_rbrace s
          in if \<not> closed then PErr (err s (''unterminated '' @ CHR 0x5C # ''p{...}''))
             else
               (case eq of
                  Some e \<Rightarrow> POk ((slice_str s start e, Some (slice_str s (e + 1) close)), s)
                | None \<Rightarrow> POk ((slice_str s start close, None), s))))"

definition unknown :: "code_point list \<Rightarrow> regex_error" where
  "unknown name = Syntax (lit ''unknown Unicode property `'' @ name @ lit ''`'') USIZE_MAX"

definition general_category_group :: "code_point list \<Rightarrow> gc_group option" where
  "general_category_group value =
    (if value = lit ''L'' \<or> value = lit ''Letter'' then Some GLetter
     else if value = lit ''LC'' \<or> value = lit ''Cased_Letter'' then Some GCasedLetter
     else if value = lit ''M'' \<or> value = lit ''Mark'' \<or> value = lit ''Combining_Mark'' then Some GMark
     else if value = lit ''N'' \<or> value = lit ''Number'' then Some GNumber
     else if value = lit ''P'' \<or> value = lit ''Punctuation'' \<or> value = lit ''punct'' then Some GPunctuation
     else if value = lit ''S'' \<or> value = lit ''Symbol'' then Some GSymbol
     else if value = lit ''Z'' \<or> value = lit ''Separator'' then Some GSeparator
     else if value = lit ''C'' \<or> value = lit ''Other'' then Some GOther
     else None)"

definition general_category :: "ucd \<Rightarrow> code_point list \<Rightarrow> code_point_set option" where
  "general_category D value =
    (case parse_gc D value of
       Some gc \<Rightarrow> Some (from_ranges (gc_ranges D gc))
     | None \<Rightarrow>
        (case general_category_group value of
           None \<Rightarrow> None
         | Some g \<Rightarrow> Some (from_ranges (gc_group_ranges D g))))"

definition binary_or_general_category :: "ucd \<Rightarrow> code_point list \<Rightarrow> code_point_set option" where
  "binary_or_general_category D name =
    (if name = lit ''Any'' then Some (insert_range 0 0x10FFFF cps_new)
     else if name = lit ''ASCII'' then Some (insert_range 0 0x7F cps_new)
     else if name = lit ''Assigned'' then map_option cps_negate (general_category D (lit ''Cn''))
     else
       (let name = (if name = lit ''space'' then lit ''White_Space'' else name)
        in case new_for_ecma262 D name of
             Some rs \<Rightarrow> Some (from_ranges rs)
           | None \<Rightarrow> general_category D name))"

definition script :: "ucd \<Rightarrow> code_point list \<Rightarrow> bool \<Rightarrow> code_point_set option" where
  "script D value extensions =
    (case parse_script D value of
       None \<Rightarrow> None
     | Some sc \<Rightarrow>
        Some (from_ranges (if extensions then script_extensions_ranges D sc else script_ranges D sc)))"

definition resolve_property ::
  "ucd \<Rightarrow> code_point list \<Rightarrow> code_point list option \<Rightarrow> code_point_set presult" where
  "resolve_property D name value =
    (case value of
       None \<Rightarrow> ok_or (binary_or_general_category D name) (unknown name)
     | Some v \<Rightarrow>
        (if name = lit ''General_Category'' \<or> name = lit ''gc'' then ok_or (general_category D v) (unknown v)
         else if name = lit ''Script'' \<or> name = lit ''sc'' then ok_or (script D v False) (unknown v)
         else if name = lit ''Script_Extensions'' \<or> name = lit ''scx'' then ok_or (script D v True) (unknown v)
         else PErr (unknown name)))"

definition is_string_property :: "code_point list \<Rightarrow> bool" where
  "is_string_property name \<longleftrightarrow>
    name \<in> {lit ''Basic_Emoji'', lit ''Emoji_Keycap_Sequence'', lit ''RGI_Emoji'',
      lit ''RGI_Emoji_Flag_Sequence'', lit ''RGI_Emoji_Modifier_Sequence'',
      lit ''RGI_Emoji_Tag_Sequence'', lit ''RGI_Emoji_ZWJ_Sequence''}"

definition class_set_from :: "cp_range list \<Rightarrow> code_point list list \<Rightarrow> class_set" where
  "class_set_from rs ss =
    foldl (\<lambda>cs s. add_alternative s cs)
      (from_code_points (foldl (\<lambda>cps r. insert_range (fst r) (snd r) cps) cps_new rs)) ss"

definition emoji_set :: "ucd \<Rightarrow> emoji_table \<Rightarrow> class_set" where
  "emoji_set D t = class_set_from (emoji_ranges D t) (emoji_strings D t)"

definition resolve_string_property :: "ucd \<Rightarrow> code_point list \<Rightarrow> class_set presult" where
  "resolve_string_property D name =
    (if name = lit ''Basic_Emoji'' then POk (emoji_set D BASIC_EMOJI)
     else if name = lit ''Emoji_Keycap_Sequence'' then POk (emoji_set D EMOJI_KEYCAP_SEQUENCE)
     else if name = lit ''RGI_Emoji_Flag_Sequence'' then POk (emoji_set D RGI_EMOJI_FLAG_SEQUENCE)
     else if name = lit ''RGI_Emoji_Modifier_Sequence'' then POk (emoji_set D RGI_EMOJI_MODIFIER_SEQUENCE)
     else if name = lit ''RGI_Emoji_Tag_Sequence'' then POk (emoji_set D RGI_EMOJI_TAG_SEQUENCE)
     else if name = lit ''RGI_Emoji_ZWJ_Sequence'' then POk (emoji_set D RGI_EMOJI_ZWJ_SEQUENCE)
     else if name = lit ''RGI_Emoji'' then
       POk (foldl (\<lambda>cs t. class_union cs (emoji_set D t)) (emoji_set D BASIC_EMOJI)
         [EMOJI_KEYCAP_SEQUENCE, RGI_EMOJI_FLAG_SEQUENCE, RGI_EMOJI_MODIFIER_SEQUENCE,
          RGI_EMOJI_TAG_SEQUENCE, RGI_EMOJI_ZWJ_SEQUENCE])
     else PErr (Syntax (lit ''unknown Unicode string property `'' @ name @ lit ''`'') USIZE_MAX))"

definition parse_property_body :: "ucd \<Rightarrow> parser \<Rightarrow> (code_point_set \<times> parser) presult" where
  "parse_property_body D s =
    try_p (read_property_name_body s) (\<lambda>((name, value), s).
    try_p (resolve_property D name value) (\<lambda>cps. POk (cps, s)))"

definition parse_property_set_v :: "ucd \<Rightarrow> bool \<Rightarrow> parser \<Rightarrow> (class_set \<times> parser) presult" where
  "parse_property_set_v D negate s =
    try_p (read_property_name_body s) (\<lambda>((name, value), s).
    if value = None \<and> is_string_property name then
      (if negate then PErr (err s ''a negated property may not contain strings'')
       else try_p (resolve_string_property D name) (\<lambda>cs. POk (cs, s)))
    else
      try_p (resolve_property D name value) (\<lambda>cps.
      POk (from_code_points (if negate then cps_negate cps else cps), s)))"

end
