(* ===== verification/Rx_Class_Sets.thy ===== *)
theory Rx_Class_Sets
  imports Rx_Classes
begin

text \<open>
  The set algebra of \<open>ClassSet\<close> (\<open>classes.rs\<close>), the value of a \<open>v\<close>-mode class expression: every
  operation keeps the representation invariant and computes the operation on the set of
  strings the class denotes. The locale is the contract the parser's class grammar uses.
\<close>

lemma class_default_correct: "class_inv class_default" "class_lang class_default = {}"
  by (simp_all add: class_inv_def class_default_def class_lang_def)

lemma from_code_points_correct:
  "class_inv (from_code_points s) \<longleftrightarrow> cps_inv s" "class_lang (from_code_points s) = (\<lambda>cp. [cp]) ` cps_set s"
  by (simp_all add: class_inv_def from_code_points_def class_lang_def)

lemma add_alternative_correct:
  assumes "class_inv c" and "list_all (\<lambda>cp. cp \<le> MAX_CP) s"
  shows "class_inv (add_alternative s c)" and "class_lang (add_alternative s c) = insert s (class_lang c)"
proof -
  have "class_inv (add_alternative s c) \<and> class_lang (add_alternative s c) = insert s (class_lang c)"
  proof (cases "length s = 1")
    case True
    then obtain cp where "s = [cp]" by (cases s) auto
    then show ?thesis
      using assms cps_insert_correct [of "code_points c" cp]
      by (auto simp: add_alternative_def class_inv_def class_lang_def)
  next
    case False
    then show ?thesis
      using assms push_string_distinct by (auto simp: add_alternative_def class_inv_def class_lang_def list_all_iff)
  qed
  then show "class_inv (add_alternative s c)" "class_lang (add_alternative s c) = insert s (class_lang c)" by simp_all
qed

lemma class_union_correct:
  assumes "class_inv c" and "class_inv d"
  shows "class_inv (class_union c d)" and "class_lang (class_union c d) = class_lang c \<union> class_lang d"
  using assms cps_union_correct [of "code_points c" "code_points d"] push_strings [of "strings c" "strings d"]
  by (auto simp: class_union_def class_inv_def class_lang_def list_all_iff)

text \<open>No alternative has length one, so the code points and the strings never meet.\<close>

lemma class_intersection_correct:
  assumes "class_inv c" and "class_inv d"
  shows "class_inv (class_intersection c d)"
    and "class_lang (class_intersection c d) = class_lang c \<inter> class_lang d"
  using assms cps_intersection_correct [of "code_points c" "code_points d"]
  by (auto simp: class_intersection_def class_inv_def class_lang_def list_all_iff)

lemma class_difference_correct:
  assumes "class_inv c" and "class_inv d"
  shows "class_inv (class_difference c d)"
    and "class_lang (class_difference c d) = class_lang c - class_lang d"
  using assms cps_difference_correct [of "code_points c" "code_points d"]
  by (auto simp: class_difference_def class_inv_def class_lang_def list_all_iff)

lemma negate_code_points_correct:
  assumes "class_inv c"
  shows "class_inv (negate_code_points c)" and "strings (negate_code_points c) = []"
    and "class_cps (negate_code_points c) = {0..MAX_CP} - class_cps c"
  using assms cps_negate_correct [of "code_points c"] by (auto simp: negate_code_points_def class_inv_def)

locale string_sets =
  fixes inv :: "'c \<Rightarrow> bool" and lang :: "'c \<Rightarrow> code_point list set"
    and union inter diff :: "'c \<Rightarrow> 'c \<Rightarrow> 'c"
  assumes union_law: "inv c \<Longrightarrow> inv d \<Longrightarrow> inv (union c d) \<and> lang (union c d) = lang c \<union> lang d"
    and inter_law: "inv c \<Longrightarrow> inv d \<Longrightarrow> inv (inter c d) \<and> lang (inter c d) = lang c \<inter> lang d"
    and diff_law: "inv c \<Longrightarrow> inv d \<Longrightarrow> inv (diff c d) \<and> lang (diff c d) = lang c - lang d"
begin

text \<open>A chain of one operator, the shape of a \<open>v\<close>-mode class.\<close>

lemma union_chain:
  "inv c \<Longrightarrow> list_all inv ds \<Longrightarrow> inv (foldl union c ds) \<and> lang (foldl union c ds) = lang c \<union> \<Union> (lang ` set ds)"
  by (induction ds arbitrary: c) (auto simp: union_law)

lemma inter_chain:
  "inv c \<Longrightarrow> list_all inv ds \<Longrightarrow> inv (foldl inter c ds) \<and> lang (foldl inter c ds) = lang c \<inter> \<Inter> (lang ` set ds)"
  by (induction ds arbitrary: c) (auto simp: inter_law)

lemma diff_chain:
  "inv c \<Longrightarrow> list_all inv ds \<Longrightarrow> inv (foldl diff c ds) \<and> lang (foldl diff c ds) = lang c - \<Union> (lang ` set ds)"
  by (induction ds arbitrary: c) (auto simp: diff_law)

end

interpretation cls: string_sets class_inv class_lang class_union class_intersection class_difference
  using class_union_correct class_intersection_correct class_difference_correct
  by unfold_locales auto

end
