(* ===== verification/Rx_Lex_Correct.thy ===== *)
theory Rx_Lex_Correct
  imports Rx_Names Rx_Class_Sets
begin

text \<open>
  What the lexical readers do to the cursor. \<open>reads m s s'\<close> says that \<open>s'\<close> is \<open>s\<close> with the
  cursor moved on by at least \<open>m\<close> units, inside the pattern; \<open>skips D b m s s'\<close> says in addition
  that the pre-scan in mode \<open>b\<close> (\<open>True\<close> inside a class) passes over the same units without
  finding a group or leaving its mode. The grammar's termination, its bounds and the agreement of the pre-scan with the
  parser all rest on these relations.
\<close>

text \<open>Every name the Unicode tables know is made of letters, digits and underscores (UAX44, ECMA-262
  22.2.1), and no bracket, parenthesis or backslash belongs to an identifier (UAX31): what the
  pre-scan relies on when it steps over the body of a property escape or a named reference.\<close>

definition word_char :: "nat \<Rightarrow> bool" where
  "word_char c \<longleftrightarrow> is_digit c \<or> in_range c_A c_Z c \<or> in_range c_a c_z c \<or> c = c_under"

definition ucd_names :: "ucd \<Rightarrow> bool" where
  "ucd_names D \<longleftrightarrow>
    (\<forall>n. (new_for_ecma262 D n \<noteq> None \<or> parse_gc D n \<noteq> None \<or> parse_script D n \<noteq> None)
      \<longrightarrow> list_all word_char n)
    \<and> list_all (\<lambda>c. \<not> is_xid_start D c \<and> \<not> is_xid_continue D c) [c_lparen, c_lbrack, c_bslash]"

definition reads :: "nat \<Rightarrow> parser \<Rightarrow> parser \<Rightarrow> bool" where
  "reads m s s' \<longleftrightarrow>
    (\<exists>k. m \<le> k \<and> s' = bump k s \<and> (k = 0 \<or> ps_pos s + k \<le> length (ps_units s)))"

definition skips :: "ucd \<Rightarrow> bool \<Rightarrow> nat \<Rightarrow> parser \<Rightarrow> parser \<Rightarrow> bool" where
  "skips D b m s s' \<longleftrightarrow> reads m s s' \<and>
    (ucd_names D \<longrightarrow> (\<forall>count names. prescan_loop D (ps_units s) (ps_pos s) b count names
      = prescan_loop D (ps_units s) (ps_pos s') b count names))"

lemma bump_0 [simp]: "bump 0 s = s"
  by (simp add: bump_def)

lemma bump_bump [simp]: "bump n (bump m s) = bump (m + n) s"
  by (simp add: bump_def add.assoc)

lemma reads_refl [simp]: "reads 0 s s"
  unfolding reads_def by (metis bump_0 le0)

lemma reads_trans:
  assumes "reads m s s'" and "reads n s' s''" and "l \<le> m + n"
  shows "reads l s s''"
proof -
  obtain j where j: "m \<le> j" "s' = bump j s" "j = 0 \<or> ps_pos s + j \<le> length (ps_units s)"
    using assms(1) by (auto simp: reads_def)
  obtain k where k: "n \<le> k" "s'' = bump k s'" "k = 0 \<or> ps_pos s' + k \<le> length (ps_units s')"
    using assms(2) by (auto simp: reads_def)
  have "s'' = bump (j + k) s" using j(2) k(2) by simp
  moreover have "j + k = 0 \<or> ps_pos s + (j + k) \<le> length (ps_units s)" using j k by auto
  ultimately show ?thesis using j(1) k(1) assms(3) unfolding reads_def by (metis add_le_mono order_trans)
qed

lemma reads_fields:
  assumes "reads m s s'"
  shows "ps_units s' = ps_units s" "ps_flags s' = ps_flags s" "ps_depth s' = ps_depth s"
    "ps_total_groups s' = ps_total_groups s" "ps_group_names s' = ps_group_names s"
    "ps_next_group s' = ps_next_group s" "ps_unicode s' = ps_unicode s" "ps_pos s + m \<le> ps_pos s'"
    "ps_pos s \<le> length (ps_units s) \<Longrightarrow> ps_pos s' \<le> length (ps_units s)"
  using assms by (auto simp: reads_def)

lemma reads_bump: "peek s = Some c \<Longrightarrow> reads 1 s (bump 1 s)"
  by (auto simp: reads_def peek_def)

lemma skips_reads: "skips D b m s s' \<Longrightarrow> reads m s s'"
  by (simp add: skips_def)

lemma skips_refl [simp]: "skips D b 0 s s"
  by (simp add: skips_def)

lemma skips_trans: "skips D b m s s' \<Longrightarrow> skips D b n s' s'' \<Longrightarrow> l \<le> m + n \<Longrightarrow> skips D b l s s''"
  using reads_trans [of m s s' n s'' l] reads_fields(1) [of m s s'] by (auto simp: skips_def)

lemma skips_mono: "skips D b m s s' \<Longrightarrow> l \<le> m \<Longrightarrow> skips D b l s s'"
  using skips_trans [of D b m s s' 0 s' l] by simp

lemmas skips_fields = reads_fields [OF skips_reads]

text \<open>The units the pre-scan steps over one by one.\<close>

definition quiet_unit :: "bool \<Rightarrow> code_unit \<Rightarrow> bool" where
  "quiet_unit b c \<longleftrightarrow> c \<noteq> c_bslash \<and> (if b then c \<noteq> c_rbrack else c \<noteq> c_lbrack \<and> c \<noteq> c_lparen)"

lemma prescan_plain:
  "get_at us i = Some c \<Longrightarrow> quiet_unit b c \<Longrightarrow> prescan_loop D us i b n ns = prescan_loop D us (i + 1) b n ns"
  by (subst prescan_loop.simps) (auto simp: quiet_unit_def simp del: get_at_Some_iff split: if_splits)

lemma prescan_escape:
  "get_at us i = Some c_bslash \<Longrightarrow> prescan_loop D us i b n ns = prescan_loop D us (i + 2) b n ns"
  by (subst prescan_loop.simps) (simp del: get_at_Some_iff)

lemma skips_plain: "peek s = Some c \<Longrightarrow> quiet_unit b c \<Longrightarrow> skips D b 1 s (bump 1 s)"
  unfolding skips_def reads_def using prescan_plain [of "ps_units s" "ps_pos s" c b D]
  by (auto simp: peek_def intro!: exI [of _ 1])

lemma plain_pair:
  "is_high_surrogate c \<Longrightarrow> quiet_unit b c" "is_low_surrogate c \<Longrightarrow> quiet_unit b c"
  by (auto simp: is_high_surrogate_def is_low_surrogate_def quiet_unit_def)

lemma plain_hex: "hex_digit c = Some d \<Longrightarrow> quiet_unit b c"
  by (auto simp: hex_digit_def in_range_def quiet_unit_def split: if_splits)

lemma plain_digit: "is_digit c \<Longrightarrow> quiet_unit b c" "in_range c_0 c_7 c \<Longrightarrow> quiet_unit b c"
  by (auto simp: is_digit_def in_range_def quiet_unit_def)

text \<open>A backslash and the unit after it.\<close>

lemma skips_escape:
  assumes "peek s = Some c_bslash" and "peek (bump 1 s) = Some c"
  shows "skips D b 2 s (bump 2 s)"
  using assms unfolding skips_def reads_def using prescan_escape [of "ps_units s" "ps_pos s" D b]
  by (auto simp: peek_def intro!: exI [of _ 2])

text \<open>A backslash alone, before a unit that is plain.\<close>

lemma skips_backslash:
  assumes "peek s = Some c_bslash" and "peek (bump 1 s) = Some c" and "quiet_unit b c"
  shows "skips D b 1 s (bump 1 s)"
proof -
  have "skips D b 1 (bump 1 s) (bump 2 s)"
    using skips_plain [OF assms(2,3)] by (simp add: numeral_2_eq_2)
  moreover have "skips D b 2 s (bump 2 s)" by (rule skips_escape [OF assms(1,2)])
  ultimately show ?thesis
    using assms(1) by (auto simp: skips_def reads_def peek_def intro!: exI [of _ 1])
qed

lemma eat_case [simp]:
  "(case eat ch s of (b, s') \<Rightarrow> K b s') = (if peek s = Some ch then K True (bump 1 s) else K False s)"
  by (simp add: eat_def)

section \<open>Digits\<close>

lemma skips_decimal_loop: "decimal_loop v s = (w, s') \<Longrightarrow> skips D b 0 s s'"
proof (induction v s rule: decimal_loop.induct)
  case (1 v s)
  show ?case
  proof (cases "\<exists>c. peek s = Some c \<and> is_digit c")
    case True
    then obtain c where c: "peek s = Some c" "is_digit c" by blast
    from 1(2) c have "decimal_loop (min (v * 10 + (c - c_0)) u32_max) (bump 1 s) = (w, s')"
      by (subst (asm) decimal_loop.simps) simp
    from 1(1) [OF c this] show ?thesis
      using skips_trans [OF skips_plain [OF c(1) plain_digit(1) [OF c(2)]]] by blast
  next
    case False
    with 1(2) show ?thesis by (subst (asm) decimal_loop.simps) (auto split: option.splits if_splits)
  qed
qed

lemma skips_octal_loop: "octal_loop v n m s = (w, s') \<Longrightarrow> skips D b 0 s s'"
proof (induction v n m s rule: octal_loop.induct)
  case (1 v n m s)
  show ?case
  proof (cases "\<exists>c. n < m \<and> peek s = Some c \<and> in_range c_0 c_7 c")
    case True
    then obtain c where c: "n < m" "peek s = Some c" "in_range c_0 c_7 c" by blast
    from 1(2) c have "octal_loop (v * 8 + (c - c_0)) (n + 1) m (bump 1 s) = (w, s')"
      by (subst (asm) octal_loop.simps) simp
    from 1(1) [OF c this] show ?thesis
      using skips_trans [OF skips_plain [OF c(2) plain_digit(2) [OF c(3)]]] by blast
  next
    case False
    with 1(2) show ?thesis by (subst (asm) octal_loop.simps) (auto split: option.splits if_splits)
  qed
qed

lemma skips_collect_digits: "collect_digits ds s = (es, s') \<Longrightarrow> skips D b 0 s s'"
proof (induction ds s rule: collect_digits.induct)
  case (1 ds s)
  show ?case
  proof (cases "\<exists>c. peek s = Some c \<and> is_digit c")
    case True
    then obtain c where c: "peek s = Some c" "is_digit c" by blast
    from 1(2) c have "collect_digits (ds @ [c - c_0]) (bump 1 s) = (es, s')"
      by (subst (asm) collect_digits.simps) simp
    from 1(1) [OF c this] show ?thesis
      using skips_trans [OF skips_plain [OF c(1) plain_digit(1) [OF c(2)]]] by blast
  next
    case False
    with 1(2) show ?thesis by (subst (asm) collect_digits.simps) (auto split: option.splits if_splits)
  qed
qed

lemma octal_loop_bound: "octal_loop v n m s = (w, s') \<Longrightarrow> n \<le> m \<Longrightarrow> w < (v + 1) * 8 ^ (m - n)"
proof (induction v n m s rule: octal_loop.induct)
  case (1 v n m s)
  show ?case
  proof (cases "\<exists>c. n < m \<and> peek s = Some c \<and> in_range c_0 c_7 c")
    case True
    then obtain c where c: "n < m" "peek s = Some c" "in_range c_0 c_7 c" by blast
    from 1(2) c have "octal_loop (v * 8 + (c - c_0)) (n + 1) m (bump 1 s) = (w, s')"
      by (subst (asm) octal_loop.simps) simp
    from 1(1) [OF c this] c(1) have "w < (v * 8 + (c - c_0) + 1) * 8 ^ (m - (n + 1))" by simp
    also have "\<dots> \<le> ((v + 1) * 8) * 8 ^ (m - (n + 1))"
      using c(3) by (intro mult_right_mono) (auto simp: in_range_def)
    also have "\<dots> = (v + 1) * 8 ^ (m - n)" using c(1) by (simp only: mult.assoc flip: power_Suc) (simp add: Suc_diff_Suc)
    finally show ?thesis .
  next
    case False
    with 1(2) have "w = v" by (subst (asm) octal_loop.simps) (auto split: option.splits if_splits)
    have "v < (v + 1) * 1" by simp
    also have "\<dots> \<le> (v + 1) * 8 ^ (m - n)" by (intro mult_left_mono) simp_all
    finally show ?thesis by (simp only: \<open>w = v\<close>)
  qed
qed

lemma legacy_octal:
  assumes "read_legacy_octal s = POk (v, s')" and "peek s = Some c" and "in_range c_0 c_7 c"
  shows "skips D b 1 s s'" and "skips D b 0 (bump 1 s) s'" and "v < 256"
proof -
  let ?n = "if c - c_0 \<le> 3 then 3 else 2 :: nat"
  have loop: "octal_loop (c - c_0) 1 ?n (bump 1 s) = (v, s')"
    using assms(1,2) by (simp add: read_legacy_octal_def Let_def split: if_splits)
  from skips_octal_loop [OF this] show rest: "skips D b 0 (bump 1 s) s'" .
  from skips_trans [OF skips_plain [OF assms(2) plain_digit(2) [OF assms(3)]] this]
  show "skips D b 1 s s'" by simp
  have "v < (c - c_0 + 1) * 8 ^ (?n - 1)" using octal_loop_bound [OF loop] by simp
  also have "\<dots> \<le> 256" using assms(3) by (auto simp: in_range_def)
  finally show "v < 256" .
qed

lemma legacy_octal_total:
  "read_legacy_octal s \<noteq> PFuel" "read_legacy_octal s = PPanic \<longleftrightarrow> peek s = None" "read_legacy_octal s \<noteq> PErr e"
  by (auto simp: read_legacy_octal_def Let_def split: option.splits)

lemma skips_read_decimal: "read_decimal s = (v, s') \<Longrightarrow> skips D b 0 s s'"
  by (auto simp: read_decimal_def split: prod.splits intro: skips_decimal_loop)

lemma skips_read_decimal_digits: "read_decimal_digits s = (v, s') \<Longrightarrow> skips D b 0 s s'"
  by (auto simp: read_decimal_digits_def split: prod.splits intro: skips_collect_digits)

section \<open>Code points and escapes\<close>

lemma pattern_codepoint:
  assumes "read_pattern_codepoint s = POk (cp, s')"
  shows "peek s = Some c \<Longrightarrow> quiet_unit b c \<Longrightarrow> skips D b 1 s s'"
    and "skips D b 0 (bump 1 s) s'" and "peek s \<noteq> None" and "utf16 (ps_units s) \<Longrightarrow> cp \<le> MAX_CP"
proof -
  obtain hi where hi: "peek s = Some hi" using assms by (auto simp: read_pattern_codepoint_def split: option.splits)
  then show "peek s \<noteq> None" by simp
  have u: "utf16 (ps_units s) \<Longrightarrow> hi < 0x10000" using utf16_get_at hi by (simp only: peek_def)
  show rest: "skips D b 0 (bump 1 s) s'"
  proof (cases "\<exists>lo. peek (bump 1 s) = Some lo \<and> ps_unicode s \<and> is_high_surrogate hi \<and> is_low_surrogate lo")
    case True
    then obtain lo where lo: "peek (bump 1 s) = Some lo" "is_low_surrogate lo" "is_high_surrogate hi" "ps_unicode s"
      by blast
    with assms hi have "s' = bump 1 (bump 1 s)" by (simp add: read_pattern_codepoint_def Let_def)
    then show ?thesis using skips_mono [OF skips_plain [OF lo(1) plain_pair(2) [OF lo(2)]]] by simp
  next
    case False
    with assms hi have "s' = bump 1 s"
      by (auto simp: read_pattern_codepoint_def Let_def split: option.splits if_splits)
    then show ?thesis by simp
  qed
  show "skips D b 1 s s'" if "peek s = Some c" "quiet_unit b c"
    using skips_trans [OF skips_plain [OF that] rest] by simp
  show "cp \<le> MAX_CP" if "utf16 (ps_units s)"
    using assms hi u [OF that] combine_surrogates_bounds(2)
    by (auto simp: read_pattern_codepoint_def Let_def MAX_CP_def split: option.splits if_splits)
qed

lemma pattern_codepoint_total:
  "read_pattern_codepoint s \<noteq> PFuel" "read_pattern_codepoint s = PPanic \<longleftrightarrow> peek s = None"
  "read_pattern_codepoint s \<noteq> PErr e"
  by (auto simp: read_pattern_codepoint_def Let_def split: option.splits)

lemma hex_digit_bound: "hex_digit c = Some d \<Longrightarrow> d < 16"
  by (auto simp: hex_digit_def in_range_def split: if_splits)

lemma fixed_hex_loop:
  "fixed_hex_loop n v s = POk (w, s') \<Longrightarrow> skips D b n s s' \<and> w < (v + 1) * 16 ^ n"
proof (induction n arbitrary: v s)
  case (Suc n)
  then obtain c d where c: "peek s = Some c" "hex_digit c = Some d"
    and rest: "fixed_hex_loop n (v * 16 + d) (bump 1 s) = POk (w, s')" by auto
  note IH = Suc.IH [OF rest]
  have "w < (v * 16 + d + 1) * 16 ^ n" using IH by blast
  also have "\<dots> \<le> ((v + 1) * 16) * 16 ^ n"
    using hex_digit_bound [OF c(2)] by (intro mult_right_mono) auto
  finally have "w < (v + 1) * 16 ^ Suc n" by (simp only: mult.assoc power_Suc)
  then show ?case using skips_trans [OF skips_plain [OF c(1) plain_hex [OF c(2)]]] IH by fastforce
qed simp

lemma fixed_hex: "read_fixed_hex n s = POk (w, s') \<Longrightarrow> skips D b n s s' \<and> w < 16 ^ n"
  using fixed_hex_loop [of n 0 s w s' D b] by (simp add: read_fixed_hex_def)

lemma fixed_hex_total: "fixed_hex_loop n v s \<noteq> PFuel" "fixed_hex_loop n v s \<noteq> PPanic"
  by (induction n arbitrary: v s) (auto simp: try_p_PFuel_iff try_p_PPanic_iff)

lemma brace_hex_loop:
  "brace_hex_loop v any s = POk (w, any', s') \<Longrightarrow> v \<le> MAX_CP \<Longrightarrow> skips D b 0 s s' \<and> w \<le> MAX_CP"
proof (induction v any s rule: brace_hex_loop.induct)
  case (1 v any s)
  show ?case
  proof (cases "\<exists>c d. peek s = Some c \<and> c \<noteq> c_rbrace \<and> hex_digit c = Some d")
    case True
    then obtain c d where c: "peek s = Some c" "c \<noteq> c_rbrace" "hex_digit c = Some d" by blast
    let ?v = "min (v * 16) u32_max + d"
    from 1(2) c have v: "\<not> 0x10FFFF < ?v" and rest: "brace_hex_loop ?v True (bump 1 s) = POk (w, any', s')"
      by (subst (asm) brace_hex_loop.simps, simp add: Let_def split: if_splits)+
    show ?thesis
      using 1(1) [OF c(1,2,3) refl v rest] v skips_trans [OF skips_plain [OF c(1) plain_hex [OF c(3)]]]
      by (auto simp: MAX_CP_def)
  next
    case False
    with 1(2,3) show ?thesis
      by (subst (asm) brace_hex_loop.simps) (auto split: option.splits if_splits)
  qed
qed

lemma brace_hex_total: "brace_hex_loop v any s \<noteq> PFuel \<and> brace_hex_loop v any s \<noteq> PPanic"
proof (induction v any s rule: brace_hex_loop.induct)
  case (1 v any s)
  show ?case
    by (subst (1 2) brace_hex_loop.simps)
      (use 1 in \<open>fastforce simp: Let_def split: option.splits if_splits\<close>)
qed

lemma low_surrogate_escape:
  assumes "low_surrogate_escape s = Some (lo, s')"
  shows "skips D b 0 s s'" and "is_low_surrogate lo"
proof -
  from assms have b: "peek s = Some c_bslash" and u: "peek (bump 1 s) = Some c_u"
    and h: "read_fixed_hex 4 (bump 2 s) = POk (lo, s')" and lo: "is_low_surrogate lo"
    by (auto simp: low_surrogate_escape_def numeral_2_eq_2 split: if_splits presult.splits prod.splits)
  show "skips D b 0 s s'"
    using skips_trans [OF skips_escape [OF b u]] fixed_hex [OF h, of D b] by fastforce
  show "is_low_surrogate lo" by fact
qed

lemma unicode_escape:
  assumes "read_unicode_escape s = POk (cp, s')"
  shows "skips D b 1 s s'" and "cp \<le> MAX_CP"
proof -
  have "skips D b 1 s s' \<and> cp \<le> MAX_CP"
  proof (cases "peek s = Some c_lbrace")
    case True
    with assms obtain v any s1 where loop: "brace_hex_loop 0 False (bump 1 s) = POk (v, any, s1)"
      and close: "peek s1 = Some c_rbrace" "s' = bump 1 s1" "cp = v"
      by (auto simp: read_unicode_escape_def split: if_splits)
    have "skips D b 0 (bump 1 s) s1 \<and> v \<le> MAX_CP" using brace_hex_loop [OF loop] by simp
    moreover have "skips D b 1 s (bump 1 s)" "skips D b 1 s1 s'"
      using skips_plain [OF True] skips_plain [OF close(1)] close(2) by (simp_all add: quiet_unit_def)
    ultimately show ?thesis using close(3) skips_trans by (metis le_add1 add_0_right)
  next
    case False
    with assms obtain hi s1 where hex: "read_fixed_hex 4 s = POk (hi, s1)"
      and rest: "(if ps_unicode s1 \<and> is_high_surrogate hi then
           (case low_surrogate_escape s1 of
              Some (lo, s') \<Rightarrow> POk (combine_surrogates hi lo, s')
            | None \<Rightarrow> POk (hi, s1))
         else POk (hi, s1)) = POk (cp, s')"
      by (auto simp: read_unicode_escape_def)
    have h: "skips D b 4 s s1" "hi \<le> MAX_CP" using fixed_hex [OF hex, of D b] by (auto simp: MAX_CP_def)
    show ?thesis
    proof (cases "s' = s1")
      case True
      then show ?thesis using rest h combine_surrogates_bounds(2) skips_mono [OF h(1)] low_surrogate_escape(2)
        by (auto split: if_splits option.splits)
    next
      case False
      with rest obtain lo where "low_surrogate_escape s1 = Some (lo, s')" "is_high_surrogate hi"
        "cp = combine_surrogates hi lo" by (auto split: if_splits option.splits)
      then show ?thesis using low_surrogate_escape combine_surrogates_bounds(2) skips_trans [OF h(1), of 0 s' 1] by auto
    qed
  qed
  then show "skips D b 1 s s'" and "cp \<le> MAX_CP" by simp_all
qed

lemma unicode_escape_total: "read_unicode_escape s \<noteq> PFuel" "read_unicode_escape s \<noteq> PPanic"
  by (auto simp: read_unicode_escape_def try_p_PFuel_iff try_p_PPanic_iff brace_hex_total
      read_fixed_hex_def fixed_hex_total split: if_splits option.splits)

text \<open>A character escape that starts with the backslash at \<open>s\<close>.\<close>

lemma control_escape:
  assumes "peek s = Some c_bslash" and "peek (bump 1 s) = Some c_c"
    and "parse_control_escape ic (bump 1 s) = POk (cp, s')"
  shows "skips D b 1 s s'" and "cp \<le> MAX_CP"
proof -
  have c: "quiet_unit b c_c" by (simp add: quiet_unit_def)
  have "skips D b 1 s s' \<and> cp \<le> MAX_CP"
  proof (cases "s' = bump 1 s")
    case True
    then have "cp = c_bslash" using assms(3)
      by (auto simp: parse_control_escape_def bump_def split: option.splits if_splits dest!: arg_cong [of _ _ ps_pos])
    with True show ?thesis using skips_backslash [OF assms(1,2) c] by (simp add: MAX_CP_def)
  next
    case False
    with assms(3) obtain l where l: "peek (bump 2 s) = Some l" "is_control_letter ic (bump 1 s) l"
      "s' = bump 3 s" "cp = l mod 32"
      by (auto simp: parse_control_escape_def peek_at_def peek_def split: option.splits if_splits)
    then have "quiet_unit b l" by (auto simp: is_control_letter_def in_range_def is_digit_def quiet_unit_def)
    from skips_trans [OF skips_escape [OF assms(1,2)] skips_plain [OF l(1) this]] show ?thesis
      using l(3,4) mod_less_divisor [of 32 l] by (simp add: MAX_CP_def numeral_3_eq_3)
  qed
  then show "skips D b 1 s s'" and "cp \<le> MAX_CP" by simp_all
qed

lemma char_escape:
  assumes "peek s = Some c_bslash" and ok: "parse_char_escape ic (bump 1 s) = POk (cp, s')"
  shows "skips D b 1 s s'" and "utf16 (ps_units s) \<Longrightarrow> cp \<le> MAX_CP"
proof -
  from ok obtain c where c: "peek (bump 1 s) = Some c"
    by (auto simp: parse_char_escape_def split: option.splits)
  have two: "skips D b 2 s (bump 2 s)" by (rule skips_escape [OF assms(1) c])
  then have on: "skips D b 0 (bump 2 s) t \<Longrightarrow> skips D b 1 s t" for t
    using skips_trans by fastforce
  have "skips D b 1 s s' \<and> (utf16 (ps_units s) \<longrightarrow> cp \<le> MAX_CP)"
  proof -
    consider (fixed) "s' = bump 2 s" "cp \<le> MAX_CP" | (octal) "c = c_0" "read_legacy_octal (bump 1 s) = POk (cp, s')"
      | (hex) "read_fixed_hex 2 (bump 2 s) = POk (cp, s')"
      | (uni) "read_unicode_escape (bump 2 s) = POk (cp, s')"
      | (ctl) "c = c_c" "parse_control_escape ic (bump 1 s) = POk (cp, s')"
      | (ident) "read_pattern_codepoint (bump 1 s) = POk (cp, s')"
      using ok c unfolding parse_char_escape_def
      by (auto simp: MAX_CP_def Let_def numeral_2_eq_2 split: if_splits presult.splits)
    then show ?thesis
    proof cases
      case octal
      then show ?thesis using legacy_octal(2) [OF octal(2) c, of D b] legacy_octal(3) [OF octal(2) c] on [of s']
        by (auto simp: in_range_def MAX_CP_def numeral_2_eq_2)
    next
      case ident
      then show ?thesis using pattern_codepoint(2,4) [OF ident] on [of s'] by (auto simp: numeral_2_eq_2)
    qed (use two on fixed_hex [of 2 "bump 2 s" cp s' D b] unicode_escape(1) [of "bump 2 s" cp s' D b] unicode_escape(2) [of "bump 2 s" cp s']
          control_escape(1) [OF assms(1), of ic cp s' D b] control_escape(2) [OF assms(1), of ic cp s'] c in
        \<open>auto simp: MAX_CP_def intro: skips_mono\<close>)
  qed
  then show "skips D b 1 s s'" and "utf16 (ps_units s) \<Longrightarrow> cp \<le> MAX_CP" by simp_all
qed

lemma char_escape_total:
  "parse_char_escape ic s \<noteq> PFuel" "parse_char_escape ic s = PPanic \<Longrightarrow> peek s = None"
  by (auto simp: parse_char_escape_def Let_def legacy_octal_total read_fixed_hex_def fixed_hex_total
      unicode_escape_total pattern_codepoint_total parse_control_escape_def
      split: option.splits if_splits presult.splits)

lemma class_char_escape:
  assumes "peek s = Some c_bslash" and ok: "parse_class_char_escape (bump 1 s) = POk (cp, s')"
  shows "skips D b 1 s s'" and "utf16 (ps_units s) \<Longrightarrow> cp \<le> MAX_CP"
proof -
  have on: "skips D b 0 (bump 2 s) t \<Longrightarrow> skips D b 1 s t" if "peek (bump 1 s) = Some c" for t c
    using skips_trans [OF skips_escape [OF assms(1) that]] by fastforce
  consider (bs) "peek (bump 1 s) = Some c_b" "s' = bump 2 s" "cp = 8"
    | (octal) c where "peek (bump 1 s) = Some c" "in_range c_0 c_7 c" "read_legacy_octal (bump 1 s) = POk (cp, s')"
    | (esc) "parse_char_escape True (bump 1 s) = POk (cp, s')"
    using ok unfolding parse_class_char_escape_def
    by (auto simp: numeral_2_eq_2 in_range_def split: option.splits if_splits)
  then have "skips D b 1 s s' \<and> (utf16 (ps_units s) \<longrightarrow> cp \<le> MAX_CP)"
  proof cases
    case bs
    then show ?thesis using on [OF bs(1), of s'] by (simp add: MAX_CP_def)
  next
    case octal
    then show ?thesis using legacy_octal(2) [OF octal(3,1,2), of D b] legacy_octal(3) [OF octal(3,1,2)] on [OF octal(1), of s']
      by (auto simp: MAX_CP_def numeral_2_eq_2)
  next
    case esc
    then show ?thesis using char_escape [OF assms(1) esc] by simp
  qed
  then show "skips D b 1 s s'" and "utf16 (ps_units s) \<Longrightarrow> cp \<le> MAX_CP" by simp_all
qed

lemma class_char_escape_total:
  "parse_class_char_escape s \<noteq> PFuel" "parse_class_char_escape s = PPanic \<Longrightarrow> peek s = None"
  by (auto simp: parse_class_char_escape_def legacy_octal_total char_escape_total
      dest: char_escape_total(2) split: option.splits if_splits)

section \<open>Property escapes\<close>

lemma word_plain: "word_char c \<Longrightarrow> quiet_unit b c"
  by (auto simp: word_char_def is_digit_def in_range_def quiet_unit_def)

lemma lossy_word: "list_all word_char (from_utf16_lossy us) \<Longrightarrow> list_all (quiet_unit b) us"
proof (induction us rule: from_utf16_lossy.induct)
  case (2 u)
  then show ?case by (auto simp: word_char_def is_digit_def in_range_def quiet_unit_def split: if_splits)
next
  case (3 u v us)
  then show ?case
    using combine_surrogates_bounds(1) [of u v] word_plain [of u b]
    by (auto simp: word_char_def is_digit_def in_range_def split: if_splits)
qed simp

text \<open>Passing over a run of plain units.\<close>

lemma skips_run:
  assumes "ps_pos s + k \<le> length (ps_units s)" and "list_all (quiet_unit b) (take k (drop (ps_pos s) (ps_units s)))"
  shows "skips D b k s (bump k s)"
  using assms
proof (induction k arbitrary: s)
  case (Suc k)
  let ?us = "ps_units s" and ?i = "ps_pos s"
  have i: "?i < length ?us" using Suc.prems(1) by simp
  then have "take (Suc k) (drop ?i ?us) = ?us ! ?i # take k (drop (Suc ?i) ?us)"
    by (simp add: Cons_nth_drop_Suc [symmetric])
  with Suc.prems(2) have "quiet_unit b (?us ! ?i)" "list_all (quiet_unit b) (take k (drop (Suc ?i) ?us))" by simp_all
  moreover from this(2) have "skips D b k (bump 1 s) (bump k (bump 1 s))"
    using Suc.prems(1) by (intro Suc.IH) auto
  ultimately show ?case
    using skips_trans [OF skips_plain [of s "?us ! ?i" b D], of k "bump k (bump 1 s)" "Suc k"] i by (simp add: peek_def)
qed simp

lemma property_loop:
  assumes "property_loop eq s = (eq', s')"
  shows "\<exists>k. s' = bump k s \<and> (k = 0 \<or> ps_pos s + k \<le> length (ps_units s))
    \<and> (eq' = eq \<or> eq = None \<and> (\<exists>e. eq' = Some e \<and> ps_pos s \<le> e \<and> e < ps_pos s + k \<and> ps_units s ! e = c_eq))"
  using assms
proof (induction eq s rule: property_loop.induct)
  case (1 eq s)
  show ?case
  proof (cases "\<exists>c. peek s = Some c \<and> c \<noteq> c_rbrace")
    case True
    then obtain c where c: "peek s = Some c" "c \<noteq> c_rbrace" by blast
    let ?eq = "if c = c_eq \<and> eq = None then Some (ps_pos s) else eq"
    from 1(2) c have "property_loop ?eq (bump 1 s) = (eq', s')" by (subst (asm) property_loop.simps) simp
    from 1(1) [OF c this] obtain k where k: "s' = bump k (bump 1 s)"
      "k = 0 \<or> ps_pos (bump 1 s) + k \<le> length (ps_units (bump 1 s))"
      "eq' = ?eq \<or> ?eq = None \<and> (\<exists>e. eq' = Some e \<and> ps_pos (bump 1 s) \<le> e
        \<and> e < ps_pos (bump 1 s) + k \<and> ps_units (bump 1 s) ! e = c_eq)" by blast
    show ?thesis using k c(1) by (intro exI [of _ "Suc k"]) (auto simp: peek_def split: if_splits)
  next
    case False
    with 1(2) show ?thesis
      by (subst (asm) property_loop.simps) (auto split: option.splits if_splits intro!: exI [of _ 0])
  qed
qed

lemma property_name_body:
  assumes "read_property_name_body s = POk ((name, value), s')"
  shows "reads 2 s s'"
    and "list_all word_char name \<Longrightarrow> (\<And>v. value = Some v \<Longrightarrow> list_all word_char v) \<Longrightarrow> skips D b 2 s s'"
proof -
  let ?us = "ps_units s" and ?i = "ps_pos s + 1"
  from assms obtain eq s1 where open_brace: "peek s = Some c_lbrace"
    and loop: "property_loop None (bump 1 s) = (eq, s1)" and close: "peek s1 = Some c_rbrace" "s' = bump 1 s1"
    and res: "(case eq of Some e \<Rightarrow> ((slice_str s' ?i e, Some (slice_str s' (e + 1) (ps_pos s1))))
      | None \<Rightarrow> (slice_str s' ?i (ps_pos s1), None)) = (name, value)"
    by (auto simp: read_property_name_body_def Let_def split: if_splits prod.splits option.splits)
  from property_loop [OF loop] obtain k where k: "s1 = bump k (bump 1 s)" "k = 0 \<or> ?i + k \<le> length ?us"
    and eq: "eq = None \<or> (\<exists>e. eq = Some e \<and> ?i \<le> e \<and> e < ?i + k \<and> ?us ! e = c_eq)" by auto
  have units: "ps_units s' = ?us" and pos: "ps_pos s1 = ?i + k" using k(1) close(2) by simp_all
  have le: "?i + k \<le> length ?us" using k(2) peek_SomeD [OF open_brace] by auto
  have step: "skips D b 1 s (bump 1 s)" "skips D b 1 s1 s'"
    using skips_plain [OF open_brace] skips_plain [OF close(1)] close(2) by (simp_all add: quiet_unit_def)
  have run: "reads k (bump 1 s) s1" using k(1) le by (auto simp: reads_def)
  show "reads 2 s s'"
    using reads_trans [OF reads_trans [OF reads_bump [OF open_brace] run order_refl] reads_bump [OF close(1)]]
      close(2) by simp
  show "skips D b 2 s s'" if n: "list_all word_char name" and v: "\<And>v. value = Some v \<Longrightarrow> list_all word_char v"
  proof -
    have "list_all (quiet_unit b) (take k (drop ?i ?us))"
    proof (cases eq)
      case None
      then show ?thesis using res n by (auto simp: slice_str_def units pos lossy_word)
    next
      case (Some e)
      then have e: "?i \<le> e" "e < ?i + k" "?us ! e = c_eq" using eq by auto
      have "take k (drop ?i ?us) = take (e - ?i) (drop ?i ?us) @ ?us ! e # take (?i + k - (e + 1)) (drop (e + 1) ?us)"
      proof -
        have "take k (drop ?i ?us) = take (e - ?i) (drop ?i ?us) @ take (?i + k - e) (drop e ?us)"
          using e take_add [of "e - ?i" "?i + k - e" "drop ?i ?us"] by simp
        moreover have "take (?i + k - e) (drop e ?us) = ?us ! e # take (?i + k - (e + 1)) (drop (e + 1) ?us)"
          using e le by (simp add: Cons_nth_drop_Suc [symmetric] take_Cons')
        ultimately show ?thesis by simp
      qed
      moreover have "list_all (quiet_unit b) (take (e - ?i) (drop ?i ?us))"
        "list_all (quiet_unit b) (take (?i + k - (e + 1)) (drop (e + 1) ?us))"
        using res Some n v by (auto simp: slice_str_def units pos lossy_word)
      moreover have "quiet_unit b (?us ! e)" using e(3) by (simp add: quiet_unit_def)
      ultimately show ?thesis by simp
    qed
    then have "skips D b k (bump 1 s) s1" using skips_run [of "bump 1 s" k b D] le k(1) by simp
    then show ?thesis using skips_trans [OF skips_trans [OF step(1) _ order_refl] step(2)] by (metis le_add2 add.commute one_add_one add_le_mono order_refl add_le_cancel_left)
  qed
qed

text \<open>What the tables of \<open>icu_properties\<close> and the generated emoji tables contain: ranges of code
  points.\<close>

definition ucd_valid :: "ucd \<Rightarrow> bool" where
  "ucd_valid D \<longleftrightarrow>
    (\<forall>n rs. new_for_ecma262 D n = Some rs \<longrightarrow> list_all valid_range rs)
    \<and> (\<forall>g. list_all valid_range (gc_ranges D g)) \<and> (\<forall>g. list_all valid_range (gc_group_ranges D g))
    \<and> (\<forall>s. list_all valid_range (script_ranges D s) \<and> list_all valid_range (script_extensions_ranges D s))
    \<and> (\<forall>t. list_all valid_range (emoji_ranges D t)
        \<and> list_all (list_all (\<lambda>cp. cp \<le> MAX_CP)) (emoji_strings D t))"

definition ucd_laws :: "ucd \<Rightarrow> bool" where
  "ucd_laws D \<longleftrightarrow> ucd_names D \<and> ucd_valid D"

lemma word_lit: "list_all (\<lambda>c. word_char (of_char c)) s \<Longrightarrow> list_all word_char (lit s)"
  by (simp add: lit_def list_all_iff)

lemma general_category_group_word: "general_category_group v = Some g \<Longrightarrow> list_all word_char v"
  unfolding general_category_group_def
  by (auto intro!: word_lit simp: word_char_def is_digit_def in_range_def split: if_splits)

lemma general_category_word: "ucd_names D \<Longrightarrow> general_category D v = Some c \<Longrightarrow> list_all word_char v"
  using general_category_group_word
  by (auto simp: general_category_def ucd_names_def split: option.splits)

lemma binary_word:
  assumes "ucd_names D" and "binary_or_general_category D v = Some c"
  shows "list_all word_char v"
proof -
  have "list_all word_char (lit ''Any'')" "list_all word_char (lit ''ASCII'')"
    "list_all word_char (lit ''Assigned'')" "list_all word_char (lit ''space'')"
    by (auto intro!: word_lit simp: word_char_def is_digit_def in_range_def)
  then show ?thesis
    using assms general_category_word [OF assms(1)]
    by (auto simp: binary_or_general_category_def ucd_names_def Let_def split: if_splits option.splits)
qed

lemma script_word: "ucd_names D \<Longrightarrow> script D v x = Some c \<Longrightarrow> list_all word_char v"
  by (auto simp: script_def ucd_names_def split: option.splits)

lemma resolve_property_word:
  assumes "ucd_names D" and "resolve_property D n v = POk c"
  shows "list_all word_char n" and "\<And>w. v = Some w \<Longrightarrow> list_all word_char w"
proof -
  have "list_all word_char (lit ''General_Category'')" "list_all word_char (lit ''gc'')"
    "list_all word_char (lit ''Script'')" "list_all word_char (lit ''sc'')"
    "list_all word_char (lit ''Script_Extensions'')" "list_all word_char (lit ''scx'')"
    by (auto intro!: word_lit simp: word_char_def is_digit_def in_range_def)
  with assms binary_word [OF assms(1)] show "list_all word_char n"
    by (auto simp: resolve_property_def split: option.splits if_splits)
  show "\<And>w. v = Some w \<Longrightarrow> list_all word_char w"
    using assms general_category_word [OF assms(1)] script_word [OF assms(1)]
    by (auto simp: resolve_property_def split: option.splits if_splits)
qed

lemma string_property_word: "is_string_property n \<Longrightarrow> list_all word_char n"
  unfolding is_string_property_def
  by (auto intro!: word_lit simp: word_char_def is_digit_def in_range_def)

lemma general_category_inv: "ucd_valid D \<Longrightarrow> general_category D v = Some c \<Longrightarrow> cps_inv c"
  by (auto simp: general_category_def ucd_valid_def intro!: from_ranges_correct(1) split: option.splits)

lemma binary_inv: "ucd_valid D \<Longrightarrow> binary_or_general_category D v = Some c \<Longrightarrow> cps_inv c"
  using general_category_inv [of D] cps_negate_correct(1) insert_range_correct(1) [of cps_new]
  by (auto simp: binary_or_general_category_def ucd_valid_def Let_def MAX_CP_def
      intro!: from_ranges_correct(1) split: if_splits option.splits)

lemma script_inv: "ucd_valid D \<Longrightarrow> script D v x = Some c \<Longrightarrow> cps_inv c"
  by (auto simp: script_def ucd_valid_def intro!: from_ranges_correct(1) split: option.splits)

lemma resolve_property_inv: "ucd_valid D \<Longrightarrow> resolve_property D n v = POk c \<Longrightarrow> cps_inv c"
  using general_category_inv binary_inv script_inv
  by (auto simp: resolve_property_def split: option.splits if_splits)

lemma resolve_property_total: "resolve_property D n v \<noteq> PFuel" "resolve_property D n v \<noteq> PPanic"
  by (auto simp: resolve_property_def split: option.splits)

lemma property_name_total: "read_property_name_body s \<noteq> PFuel" "read_property_name_body s \<noteq> PPanic"
  by (auto simp: read_property_name_body_def Let_def split: prod.splits option.splits)

lemma property_body:
  assumes "parse_property_body D s = POk (cps, s')"
  shows "skips D b 2 s s'" and "ucd_valid D \<Longrightarrow> cps_inv cps"
proof -
  from assms obtain name val where n: "read_property_name_body s = POk ((name, val), s')"
    and r: "resolve_property D name val = POk cps" by (auto simp: parse_property_body_def)
  show "skips D b 2 s s'"
    using property_name_body(1) [OF n] property_name_body(2) [OF n] resolve_property_word [OF _ r]
    unfolding skips_def by blast
  show "ucd_valid D \<Longrightarrow> cps_inv cps" using resolve_property_inv r by blast
qed

lemma property_body_total: "parse_property_body D s \<noteq> PFuel" "parse_property_body D s \<noteq> PPanic"
  by (auto simp: parse_property_body_def try_p_PFuel_iff try_p_PPanic_iff resolve_property_total property_name_total)

lemma class_set_from_inv:
  assumes "list_all valid_range rs" and "list_all (list_all (\<lambda>cp. cp \<le> MAX_CP)) ss"
  shows "class_inv (class_set_from rs ss)"
proof -
  have "cps_inv c \<Longrightarrow> cps_inv (foldl (\<lambda>cps r. insert_range (fst r) (snd r) cps) c rs)" for c
    using assms(1) by (induction rs arbitrary: c) (auto simp: valid_range_def intro!: insert_range_correct(1))
  moreover have "class_inv c \<Longrightarrow> class_inv (foldl (\<lambda>cs s. add_alternative s cs) c ss)" for c
    using assms(2) by (induction ss arbitrary: c) (auto intro!: add_alternative_correct(1))
  ultimately show ?thesis by (simp add: class_set_from_def from_code_points_correct)
qed

lemma emoji_set_inv: "ucd_valid D \<Longrightarrow> class_inv (emoji_set D t)"
  by (auto simp: emoji_set_def ucd_valid_def intro: class_set_from_inv)

lemma resolve_string_property_inv:
  "ucd_valid D \<Longrightarrow> resolve_string_property D n = POk cs \<Longrightarrow> class_inv cs"
  using emoji_set_inv [of D] by (auto simp: resolve_string_property_def intro!: class_union_correct(1) split: if_splits)

lemma resolve_string_property_total:
  "is_string_property n \<Longrightarrow> \<exists>cs. resolve_string_property D n = POk cs"
  "resolve_string_property D n \<noteq> PFuel" "resolve_string_property D n \<noteq> PPanic"
  by (auto simp: is_string_property_def resolve_string_property_def)

lemma property_set_v:
  assumes "parse_property_set_v D neg s = POk (cs, s')"
  shows "skips D b 2 s s'" and "ucd_valid D \<Longrightarrow> class_inv cs"
proof -
  from assms obtain name val where n: "read_property_name_body s = POk ((name, val), s')"
    and r: "is_string_property name \<and> val = None \<and> resolve_string_property D name = POk cs
      \<or> (\<exists>cps. resolve_property D name val = POk cps \<and> cs = from_code_points (if neg then cps_negate cps else cps))"
    by (auto simp: parse_property_set_v_def split: if_splits)
  have w: "ucd_names D \<Longrightarrow> list_all word_char name \<and> (\<forall>v. val = Some v \<longrightarrow> list_all word_char v)"
    using r string_property_word resolve_property_word by (metis option.distinct(1))
  then show "skips D b 2 s s'"
    using property_name_body(1) [OF n] property_name_body(2) [OF n] unfolding skips_def by blast
  show "ucd_valid D \<Longrightarrow> class_inv cs"
    using r resolve_string_property_inv resolve_property_inv cps_negate_correct(1)
    by (auto simp: from_code_points_correct)
qed

lemma property_set_v_total: "parse_property_set_v D neg s \<noteq> PFuel" "parse_property_set_v D neg s \<noteq> PPanic"
  by (auto simp: parse_property_set_v_def try_p_PFuel_iff try_p_PPanic_iff resolve_property_total
      property_name_total resolve_string_property_total)

end
