(* ===== verification/Rx_Class_Grammar.thy ===== *)
theory Rx_Class_Grammar
  imports Rx_Lex_Correct
begin

text \<open>
  The character-class grammar of \<open>parser/mod.rs\<close>: class escapes, the legacy \<open>[...]\<close> grammar, and
  the class-set expressions of \<open>v\<close> mode (nested classes, \<open>--\<close>, \<open>&&\<close>, \<open>\q{...}\<close>).

  A nested class is parsed by the function passed as \<open>nested\<close>; \<open>parse_class_set\<close> ties the knot
  over the nesting levels that the depth guard leaves. Loops whose body may recurse into a
  nested class carry a bound of one more than the length of the pattern; the other loops
  terminate because the cursor moves on.
\<close>

section \<open>Class escapes\<close>

definition digit_set :: code_point_set where
  "digit_set = insert_range c_0 c_9 cps_new"

definition word_set :: code_point_set where
  "word_set = cps_insert c_under (insert_range c_a c_z (insert_range c_A c_Z (insert_range c_0 c_9 cps_new)))"

definition space_set :: code_point_set where
  "space_set =
    insert_range 0x2000 0x200A
      (foldl (\<lambda>s cp. cps_insert cp s) cps_new
        [0x09, 0x0A, 0x0B, 0x0C, 0x0D, 0x20, 0xA0, 0x1680, 0x2028, 0x2029, 0x202F, 0x205F, 0x3000, 0xFEFF])"

definition try_class_escape_set ::
  "ucd \<Rightarrow> parser \<Rightarrow> ((code_point_set \<times> bool) option \<times> parser) presult" where
  "try_class_escape_set D s =
    (case peek s of
       None \<Rightarrow> PPanic
     | Some c \<Rightarrow>
        (if c = c_d then POk (Some (digit_set, False), bump 1 s)
         else if c = c_D then POk (Some (digit_set, True), bump 1 s)
         else if c = c_w then POk (Some (word_set, False), bump 1 s)
         else if c = c_W then POk (Some (word_set, True), bump 1 s)
         else if c = c_s then POk (Some (space_set, False), bump 1 s)
         else if c = c_S then POk (Some (space_set, True), bump 1 s)
         else if (c = c_p \<or> c = c_P) \<and> ps_unicode s then
           try_p (parse_property_body D (bump 1 s)) (\<lambda>(cps, s).
           POk (Some (if c = c_P then cps_negate cps else cps, False), s))
         else POk (None, s)))"

definition next_is_class_escape :: "parser \<Rightarrow> bool" where
  "next_is_class_escape s \<longleftrightarrow>
    (case peek s of Some c \<Rightarrow> c \<in> {c_d, c_D, c_w, c_W, c_s, c_S} | None \<Rightarrow> False)"

section \<open>Legacy classes\<close>

definition insert_class_range ::
  "code_point_set \<Rightarrow> code_point \<Rightarrow> code_point \<Rightarrow> parser \<Rightarrow> (code_point_set \<times> parser) presult" where
  "insert_class_range cps lo hi s =
    (if lo > hi then PErr (Syntax (lit ''character class range out of order'') (ps_pos s))
     else POk (insert_range lo hi cps, s))"

definition finish_class_atom ::
  "ucd \<Rightarrow> code_point_set \<Rightarrow> code_point \<Rightarrow> parser \<Rightarrow> (code_point_set \<times> parser) presult" where
  "finish_class_atom D cps lo s =
    (if peek s = Some c_dash \<and> peek_at s 1 \<noteq> Some c_rbrack then
       (let s = bump 1 s
        in if peek s = Some c_bslash then
             (let s = bump 1 s
              in if next_is_class_escape s then
                   (if ps_unicode s then PErr (err s ''invalid class range'')
                    else
                      try_p (try_class_escape_set D s) (\<lambda>(r, s).
                      case r of
                        None \<Rightarrow> PPanic
                      | Some (sub, negate) \<Rightarrow>
                          POk (cps_union (cps_insert c_dash (cps_insert lo cps))
                                (if negate then cps_negate sub else sub), s)))
                 else try_p (parse_class_char_escape s) (\<lambda>(hi, s). insert_class_range cps lo hi s))
           else try_p (read_pattern_codepoint s) (\<lambda>(hi, s). insert_class_range cps lo hi s))
     else POk (cps_insert lo cps, s))"

definition parse_class_member ::
  "ucd \<Rightarrow> code_point_set \<Rightarrow> parser \<Rightarrow> (code_point_set \<times> parser) presult" where
  "parse_class_member D cps s =
    (if peek s = Some c_bslash then
       try_p (try_class_escape_set D (bump 1 s)) (\<lambda>(r, s).
       case r of
         Some (sub, negate) \<Rightarrow>
           (if ps_unicode s \<and> peek s = Some c_dash \<and> peek_at s 1 \<noteq> Some c_rbrack
            then PErr (err s ''invalid class range'')
            else POk (cps_union cps (if negate then cps_negate sub else sub), s))
       | None \<Rightarrow>
           try_p (parse_class_char_escape s) (\<lambda>(lo, s). finish_class_atom D cps lo s))
     else try_p (read_pattern_codepoint s) (\<lambda>(lo, s). finish_class_atom D cps lo s))"

lemma class_sets_inv: "cps_inv digit_set" "cps_inv word_set" "cps_inv space_set"
  by (simp_all add: digit_set_def word_set_def space_set_def insert_range_correct cps_insert_correct MAX_CP_def)

lemma class_escape_None: "try_class_escape_set D s = POk (None, s') \<Longrightarrow> s' = s"
  by (auto simp: try_class_escape_set_def split: option.splits if_splits)

lemma class_escape_Some:
  assumes "peek s = Some c_bslash" and "try_class_escape_set D (bump 1 s) = POk (Some (sub, negate), s')"
  shows "skips D b 2 s s'" and "ucd_valid D \<Longrightarrow> cps_inv sub"
proof -
  from assms(2) obtain c where c: "peek (bump 1 s) = Some c" by (auto simp: try_class_escape_set_def split: option.splits)
  note two = skips_escape [OF assms(1) c, of D b]
  consider "s' = bump 2 s" "cps_inv sub"
    | cps where "parse_property_body D (bump 2 s) = POk (cps, s')" "sub = (if c = c_P then cps_negate cps else cps)"
    using assms(2) c class_sets_inv
    by (auto simp: try_class_escape_set_def numeral_2_eq_2 split: if_splits)
  then have "skips D b 2 s s' \<and> (ucd_valid D \<longrightarrow> cps_inv sub)"
  proof cases
    case 2
    then show ?thesis using skips_trans [OF two property_body(1) [OF 2(1)]] property_body(2) [OF 2(1)]
      by (auto simp: cps_negate_correct)
  qed (use two in simp)
  then show "skips D b 2 s s'" and "ucd_valid D \<Longrightarrow> cps_inv sub" by simp_all
qed

lemma class_escape_total:
  "try_class_escape_set D s \<noteq> PFuel" "try_class_escape_set D s = PPanic \<Longrightarrow> peek s = None"
  by (auto simp: try_class_escape_set_def try_p_PFuel_iff try_p_PPanic_iff property_body_total split: option.splits if_splits)

lemma insert_class_range_inv:
  "insert_class_range cps lo hi s = POk (cps', s') \<Longrightarrow> s' = s \<and> (cps_inv cps \<longrightarrow> hi \<le> MAX_CP \<longrightarrow> cps_inv cps')"
  by (auto simp: insert_class_range_def insert_range_correct split: if_splits)

lemma finish_class_atom:
  assumes "finish_class_atom D cps lo s = POk (cps', s')"
  shows "skips D True 0 s s'"
    and "ucd_valid D \<Longrightarrow> utf16 (ps_units s) \<Longrightarrow> cps_inv cps \<Longrightarrow> lo \<le> MAX_CP \<Longrightarrow> cps_inv cps'"
proof -
  let ?ok = "ucd_valid D \<longrightarrow> utf16 (ps_units s) \<longrightarrow> cps_inv cps \<longrightarrow> lo \<le> MAX_CP \<longrightarrow> cps_inv cps'"
  have "skips D True 0 s s' \<and> ?ok"
  proof (cases "peek s = Some c_dash \<and> peek_at s 1 \<noteq> Some c_rbrack")
    case False
    then show ?thesis using assms by (auto simp: finish_class_atom_def cps_insert_correct split: if_splits)
  next
    case True
    then have dash: "skips D True 1 s (bump 1 s)" by (intro skips_plain [of s c_dash]) (simp_all add: quiet_unit_def)
    note on = skips_trans [OF dash, of _ s' 0]
    consider (set) sub negate where "peek (bump 1 s) = Some c_bslash"
        "try_class_escape_set D (bump 1 (bump 1 s)) = POk (Some (sub, negate), s')"
        "cps' = cps_union (cps_insert c_dash (cps_insert lo cps)) (if negate then cps_negate sub else sub)"
      | (esc) hi where "peek (bump 1 s) = Some c_bslash" "parse_class_char_escape (bump 1 (bump 1 s)) = POk (hi, s')"
        "insert_class_range cps lo hi s' = POk (cps', s')"
      | (cp) hi where "peek (bump 1 s) \<noteq> Some c_bslash" "read_pattern_codepoint (bump 1 s) = POk (hi, s')"
        "insert_class_range cps lo hi s' = POk (cps', s')"
    proof (cases "peek (bump 1 s) = Some c_bslash")
      case bs: True
      show thesis
      proof (cases "next_is_class_escape (bump 1 (bump 1 s))")
        case True
        with assms \<open>peek s = Some c_dash \<and> _\<close> bs obtain r s1 where
          r: "try_class_escape_set D (bump 1 (bump 1 s)) = POk (r, s1)"
          "(case r of None \<Rightarrow> PPanic | Some (sub, negate) \<Rightarrow>
            POk (cps_union (cps_insert c_dash (cps_insert lo cps)) (if negate then cps_negate sub else sub), s1))
            = POk (cps', s')"
          unfolding finish_class_atom_def Let_def by (auto split: if_splits)
        then obtain sub negate where "r = Some (sub, negate)" by (cases r) auto
        with r show thesis by (intro set [OF bs]) auto
      next
        case False
        with assms \<open>peek s = Some c_dash \<and> _\<close> bs obtain hi s1 where
          "parse_class_char_escape (bump 1 (bump 1 s)) = POk (hi, s1)" "insert_class_range cps lo hi s1 = POk (cps', s')"
          unfolding finish_class_atom_def Let_def by auto
        then show thesis using insert_class_range_inv by (intro esc [OF bs]) blast+
      qed
    next
      case False
      with assms \<open>peek s = Some c_dash \<and> _\<close> obtain hi s1 where
        "read_pattern_codepoint (bump 1 s) = POk (hi, s1)" "insert_class_range cps lo hi s1 = POk (cps', s')"
        unfolding finish_class_atom_def Let_def by auto
      then show thesis using insert_class_range_inv False by (intro cp) blast+
    qed
    then show ?thesis
    proof cases
      case set
      then show ?thesis using on class_escape_Some [OF set(1,2)]
        by (auto simp: cps_union_correct cps_insert_correct cps_negate_correct MAX_CP_def)
    next
      case esc
      then show ?thesis using on class_char_escape [OF esc(1,2)] insert_class_range_inv [OF esc(3)] by auto
    next
      case cp
      from pattern_codepoint(3) [OF cp(2)] obtain c where c: "peek (bump 1 s) = Some c" by auto
      with True cp(1) have "quiet_unit True c" by (auto simp: quiet_unit_def peek_def peek_at_def)
      from pattern_codepoint(1) [OF cp(2) c this] show ?thesis
        using on pattern_codepoint(4) [OF cp(2)] insert_class_range_inv [OF cp(3)] by auto
    qed
  qed
  then show "skips D True 0 s s'"
    and "ucd_valid D \<Longrightarrow> utf16 (ps_units s) \<Longrightarrow> cps_inv cps \<Longrightarrow> lo \<le> MAX_CP \<Longrightarrow> cps_inv cps'" by blast+
qed

lemma class_member:
  assumes "parse_class_member D cps s = POk (cps', s')" and "peek s = Some c" and "c \<noteq> c_rbrack"
  shows "skips D True 1 s s'"
    and "ucd_valid D \<Longrightarrow> utf16 (ps_units s) \<Longrightarrow> cps_inv cps \<Longrightarrow> cps_inv cps'"
proof -
  let ?ok = "ucd_valid D \<longrightarrow> utf16 (ps_units s) \<longrightarrow> cps_inv cps \<longrightarrow> cps_inv cps'"
  consider (set) sub negate where "peek s = Some c_bslash"
      "try_class_escape_set D (bump 1 s) = POk (Some (sub, negate), s')"
      "cps' = cps_union cps (if negate then cps_negate sub else sub)"
    | (esc) lo s1 where "peek s = Some c_bslash" "parse_class_char_escape (bump 1 s) = POk (lo, s1)"
      "finish_class_atom D cps lo s1 = POk (cps', s')"
    | (cp) lo s1 where "c \<noteq> c_bslash" "read_pattern_codepoint s = POk (lo, s1)"
      "finish_class_atom D cps lo s1 = POk (cps', s')"
  proof (cases "peek s = Some c_bslash")
    case True
    with assms(1) obtain r s1 where r: "try_class_escape_set D (bump 1 s) = POk (r, s1)"
      "(case r of Some (sub, negate) \<Rightarrow>
           (if ps_unicode s1 \<and> peek s1 = Some c_dash \<and> peek_at s1 1 \<noteq> Some c_rbrack
            then PErr (err s1 ''invalid class range'')
            else POk (cps_union cps (if negate then cps_negate sub else sub), s1))
       | None \<Rightarrow> try_p (parse_class_char_escape s1) (\<lambda>(lo, s). finish_class_atom D cps lo s)) = POk (cps', s')"
      unfolding parse_class_member_def by auto
    show thesis
    proof (cases r)
      case None
      then show thesis using r class_escape_None [of D "bump 1 s" s1] by (auto intro!: esc True)
    next
      case (Some sn)
      then show thesis using r by (cases sn) (auto intro!: set True split: if_splits)
    qed
  next
    case False
    with assms(1) obtain lo s1 where "read_pattern_codepoint s = POk (lo, s1)" "finish_class_atom D cps lo s1 = POk (cps', s')"
      unfolding parse_class_member_def by auto
    then show thesis using False assms(2) by (intro cp) auto
  qed
  then have "skips D True 1 s s' \<and> ?ok"
  proof cases
    case set
    then show ?thesis using skips_mono [OF class_escape_Some(1) [OF set(1,2)]] class_escape_Some(2) [OF set(1,2)]
      by (auto simp: cps_union_correct cps_negate_correct)
  next
    case esc
    note first = class_char_escape [OF esc(1,2)]
    show ?thesis
      using skips_trans [OF first(1) finish_class_atom(1) [OF esc(3)]] first(2)
        finish_class_atom(2) [OF esc(3)] skips_fields(1) [OF first(1)] by simp
  next
    case cp
    then have "quiet_unit True c" using assms(3) by (simp add: quiet_unit_def)
    note first = pattern_codepoint(1) [OF cp(2) assms(2) this]
    show ?thesis
      using skips_trans [OF first finish_class_atom(1) [OF cp(3)]] pattern_codepoint(4) [OF cp(2)]
        finish_class_atom(2) [OF cp(3)] skips_fields(1) [OF first] by simp
  qed
  then show "skips D True 1 s s'"
    and "ucd_valid D \<Longrightarrow> utf16 (ps_units s) \<Longrightarrow> cps_inv cps \<Longrightarrow> cps_inv cps'" by blast+
qed

function (sequential) class_loop :: "ucd \<Rightarrow> code_point_set \<Rightarrow> parser \<Rightarrow> (code_point_set \<times> parser) presult" where
  "class_loop D cps s =
    (case peek s of
       None \<Rightarrow> PErr (err s ''unterminated character class'')
     | Some c \<Rightarrow>
        (if c = c_rbrack then POk (cps, bump 1 s)
         else try_p (parse_class_member D cps s) (\<lambda>(cps, s). class_loop D cps s)))"
  by pat_completeness auto
termination
proof (relation "measure (\<lambda>(D, cps, s). length (ps_units s) - ps_pos s)")
  show "((D, cps', s'), (D, cps, s)) \<in> measure (\<lambda>(D, cps, s). length (ps_units s) - ps_pos s)"
    if "peek s = Some c" "c \<noteq> c_rbrack" "parse_class_member D cps s = POk r" "(cps', s') = r"
    for D cps s c r cps' s'
    using skips_fields(1,8) [OF class_member(1) [OF _ that(1,2)], of D cps cps' s'] that(3,4) peek_SomeD [OF that(1)]
    by auto
qed simp

declare class_loop.simps [simp del]

definition parse_legacy_class :: "ucd \<Rightarrow> parser \<Rightarrow> (node \<times> parser) presult" where
  "parse_legacy_class D s =
    try_p (enter s) (\<lambda>s.
    let s = bump 1 s;
        (negate, s) = eat c_caret s
    in try_p (class_loop D cps_new s) (\<lambda>(cps, s).
       let s = leave s in POk (class_node s (from_code_points cps) negate, s)))"

section \<open>Class-set expressions\<close>

definition is_set_escape :: "parser \<Rightarrow> bool" where
  "is_set_escape s \<longleftrightarrow>
    (case peek_at s 1 of
       Some x \<Rightarrow> x \<in> {c_d, c_D, c_w, c_W, c_s, c_S, c_q} \<or> (x = c_p \<or> x = c_P) \<and> ps_unicode s
     | None \<Rightarrow> False)"

definition try_class_set_character :: "parser \<Rightarrow> (code_point option \<times> parser) presult" where
  "try_class_set_character s =
    (case peek s of
       None \<Rightarrow> POk (None, s)
     | Some c \<Rightarrow>
        (if c = c_rbrack \<or> c = c_lbrack then POk (None, s)
         else if c = c_bslash then
           (if is_set_escape s then POk (None, s)
            else try_p (parse_class_char_escape (bump 1 s)) (\<lambda>(cp, s). POk (Some cp, s)))
         else try_p (read_pattern_codepoint s) (\<lambda>(cp, s). POk (Some cp, s))))"

lemma class_set_character:
  assumes "try_class_set_character s = POk (r, s')"
  shows "r = None \<Longrightarrow> s' = s" and "r = Some cp \<Longrightarrow> reads 1 s s'"
    and "r = Some cp \<Longrightarrow> utf16 (ps_units s) \<Longrightarrow> cp \<le> MAX_CP"
proof -
  show "r = None \<Longrightarrow> s' = s" using assms
    by (auto simp: try_class_set_character_def split: option.splits if_splits)
  assume "r = Some cp"
  with assms consider (esc) "peek s = Some c_bslash" "parse_class_char_escape (bump 1 s) = POk (cp, s')"
    | (cp) c where "peek s = Some c" "c \<noteq> c_bslash" "c \<noteq> c_rbrack" "read_pattern_codepoint s = POk (cp, s')"
    by (auto simp: try_class_set_character_def split: option.splits if_splits)
  then have "reads 1 s s' \<and> (utf16 (ps_units s) \<longrightarrow> cp \<le> MAX_CP)"
  proof cases
    case esc
    then show ?thesis using class_char_escape [OF esc] skips_reads by blast
  next
    case cp
    then have "quiet_unit True c" by (simp add: quiet_unit_def)
    then show ?thesis using pattern_codepoint(1) [OF cp(4,1)] pattern_codepoint(4) [OF cp(4)] skips_reads by blast
  qed
  then show "reads 1 s s'" "utf16 (ps_units s) \<Longrightarrow> cp \<le> MAX_CP" by simp_all
qed

lemma class_set_character_total:
  "try_class_set_character s \<noteq> PFuel"
  "try_class_set_character s = PPanic \<Longrightarrow> peek s = Some c_bslash \<and> peek (bump 1 s) = None"
  by (auto simp: try_class_set_character_def try_p_PFuel_iff try_p_PPanic_iff class_char_escape_total
      pattern_codepoint_total dest: class_char_escape_total(2) split: option.splits if_splits)

function (sequential) alternative_loop :: "code_point list \<Rightarrow> parser \<Rightarrow> (code_point list \<times> parser) presult" where
  "alternative_loop alt s =
    (case peek s of
       None \<Rightarrow> POk (alt, s)
     | Some c \<Rightarrow>
        (if c = c_bar \<or> c = c_rbrace then POk (alt, s)
         else try_p (try_class_set_character s) (\<lambda>(r, s').
           case r of
             None \<Rightarrow> PErr (err s' (''invalid '' @ CHR 0x5C # ''q{...} alternative''))
           | Some cp \<Rightarrow> alternative_loop (alt @ [cp]) s')))"
  by pat_completeness auto
termination
proof (relation "measure (\<lambda>(alt, s). length (ps_units s) - ps_pos s)")
  show "((alt @ [cp], s'), (alt, s)) \<in> measure (\<lambda>(alt, s). length (ps_units s) - ps_pos s)"
    if "peek s = Some c" "\<not> (c = c_bar \<or> c = c_rbrace)" "try_class_set_character s = POk x" "(r, s') = x" "r = Some cp"
    for alt s c x r s' cp
    using reads_fields(1,8) [OF class_set_character(2), of s r s' cp] that peek_SomeD [OF that(1)] by auto
qed simp

declare alternative_loop.simps [simp del]

lemma alternative_loop:
  "alternative_loop alt s = POk (alt', s') \<Longrightarrow> reads 0 s s' \<and> (utf16 (ps_units s) \<longrightarrow>
    list_all (\<lambda>cp. cp \<le> MAX_CP) alt \<longrightarrow> list_all (\<lambda>cp. cp \<le> MAX_CP) alt')"
proof (induction alt s rule: alternative_loop.induct)
  case (1 alt s)
  show ?case
  proof (cases "\<exists>c. peek s = Some c \<and> \<not> (c = c_bar \<or> c = c_rbrace)")
    case True
    then obtain c where c: "peek s = Some c" "\<not> (c = c_bar \<or> c = c_rbrace)" by blast
    from 1(2) c obtain r s1 where r: "try_class_set_character s = POk (r, s1)"
      "(case r of None \<Rightarrow> PErr (err s1 (''invalid '' @ CHR 0x5C # ''q{...} alternative''))
        | Some cp \<Rightarrow> alternative_loop (alt @ [cp]) s1) = POk (alt', s')"
      by (subst (asm) alternative_loop.simps) auto
    then obtain cp where cp: "r = Some cp" by (cases r) auto
    with r(2) have "alternative_loop (alt @ [cp]) s1 = POk (alt', s')" by simp
    from 1(1) [OF c r(1) refl cp this] class_set_character(2,3) [OF r(1) cp]
      reads_trans [of 1 s s1 0 s' 0] reads_fields(1) [of 1 s s1]
    show ?thesis by auto
  next
    case False
    with 1(2) show ?thesis by (subst (asm) alternative_loop.simps) (auto split: option.splits if_splits)
  qed
qed

function (sequential) string_disjunction_loop :: "class_set \<Rightarrow> parser \<Rightarrow> (class_set \<times> parser) presult" where
  "string_disjunction_loop cs s =
    try_p (alternative_loop [] s) (\<lambda>(alt, s).
    if peek s = Some c_rbrace then POk (add_alternative alt cs, bump 1 s)
    else if peek s = Some c_bar then string_disjunction_loop (add_alternative alt cs) (bump 1 s)
    else PErr (err s (''unterminated '' @ CHR 0x5C # ''q{...}'')))"
  by pat_completeness auto
termination
proof (relation "measure (\<lambda>(cs, s). length (ps_units s) - ps_pos s)")
  show "((add_alternative alt cs, bump 1 s'), (cs, s)) \<in> measure (\<lambda>(cs, s). length (ps_units s) - ps_pos s)"
    if "alternative_loop [] s = POk x" "(alt, s') = x" "peek s' \<noteq> Some c_rbrace" "peek s' = Some c_bar"
    for cs s x alt s'
    using alternative_loop [of "[]" s alt s'] that peek_SomeD [OF that(4)] reads_fields(1,8) [of 0 s s'] by auto
qed simp

declare string_disjunction_loop.simps [simp del]

definition parse_class_string_disjunction :: "parser \<Rightarrow> (class_set \<times> parser) presult" where
  "parse_class_string_disjunction s =
    (case eat c_lbrace s of (brace, s) \<Rightarrow>
       if \<not> brace then PErr (err s (''expected `{` after '' @ CHR 0x5C # ''q''))
       else string_disjunction_loop class_default s)"

text \<open>\<open>nested\<close> stands for the recursive call of \<open>parse_class_set\<close>.\<close>

type_synonym class_set_parser = "parser \<Rightarrow> ((class_set \<times> bool) \<times> parser) presult"

definition single_class :: "code_point \<Rightarrow> class_set" where
  "single_class cp = from_code_points (cps_insert cp cps_new)"

definition parse_escape_operand :: "ucd \<Rightarrow> parser \<Rightarrow> (class_set \<times> parser) presult" where
  "parse_escape_operand D s =
    try_p (try_class_escape_set D (bump 1 s)) (\<lambda>(r, s).
    case r of
      Some (sub, negate) \<Rightarrow> POk (from_code_points (if negate then cps_negate sub else sub), s)
    | None \<Rightarrow> try_p (parse_class_char_escape s) (\<lambda>(cp, s). POk (single_class cp, s)))"

definition parse_class_set_operand ::
  "ucd \<Rightarrow> class_set_parser \<Rightarrow> parser \<Rightarrow> (class_set \<times> parser) presult" where
  "parse_class_set_operand D nested s =
    (if peek s = Some c_lbrack then try_p (nested s) (\<lambda>((cs, _), s). POk (cs, s))
     else if peek s = Some c_bslash then
       (if peek_at s 1 = Some c_q then parse_class_string_disjunction (bump 2 s)
        else if (peek_at s 1 = Some c_p \<or> peek_at s 1 = Some c_P) \<and> ps_unicode s
        then parse_property_set_v D (peek_at s 1 = Some c_P) (bump 2 s)
        else parse_escape_operand D s)
     else
       try_p (try_class_set_character s) (\<lambda>(r, s).
       try_p (ok_or r (err s ''expected character class operand'')) (\<lambda>cp. POk (single_class cp, s))))"

definition parse_class_set_union_member ::
  "ucd \<Rightarrow> class_set_parser \<Rightarrow> class_set \<Rightarrow> parser \<Rightarrow> (class_set \<times> parser) presult" where
  "parse_class_set_union_member D nested acc s =
    try_p (try_class_set_character s) (\<lambda>(r, s).
    case r of
      Some lo \<Rightarrow>
        (if peek s = Some c_dash \<and> peek_at s 1 \<noteq> Some c_dash \<and> peek_at s 1 \<noteq> Some c_rbrack then
           try_p (try_class_set_character (bump 1 s)) (\<lambda>(r, s).
           try_p (ok_or r (err s ''character class range needs a character upper bound'')) (\<lambda>hi.
           if lo > hi then PErr (err s ''character class range out of order'')
           else POk (acc\<lparr>code_points := insert_range lo hi (code_points acc)\<rparr>, s)))
         else POk (acc\<lparr>code_points := cps_insert lo (code_points acc)\<rparr>, s))
    | None \<Rightarrow>
        try_p (parse_class_set_operand D nested s) (\<lambda>(operand, s). POk (class_union acc operand, s)))"

text \<open>The \<open>&&\<close> and \<open>--\<close> loops, with the operator's unit and the set operation as arguments.\<close>

fun operator_loop ::
  "ucd \<Rightarrow> class_set_parser \<Rightarrow> code_unit \<Rightarrow> (class_set \<Rightarrow> class_set \<Rightarrow> class_set) \<Rightarrow> nat \<Rightarrow> class_set \<Rightarrow> parser
    \<Rightarrow> (class_set \<times> parser) presult" where
  "operator_loop D nested c f 0 cs s = PFuel"
| "operator_loop D nested c f (Suc k) cs s =
    (if peek s = Some c \<and> peek_at s 1 = Some c then
       try_p (parse_class_set_operand D nested (bump 2 s)) (\<lambda>(operand, s).
       operator_loop D nested c f k (f cs operand) s)
     else POk (cs, s))"

fun union_loop ::
  "ucd \<Rightarrow> class_set_parser \<Rightarrow> nat \<Rightarrow> class_set \<Rightarrow> parser \<Rightarrow> (class_set \<times> parser) presult" where
  "union_loop D nested 0 cs s = PFuel"
| "union_loop D nested (Suc k) cs s =
    (if peek s \<noteq> None \<and> peek s \<noteq> Some c_rbrack then
       try_p (parse_class_set_union_member D nested cs s) (\<lambda>(cs, s). union_loop D nested k cs s)
     else POk (cs, s))"

definition loop_fuel :: "parser \<Rightarrow> nat" where
  "loop_fuel s = Suc (length (ps_units s))"

definition class_set_rest ::
  "ucd \<Rightarrow> class_set_parser \<Rightarrow> class_set \<Rightarrow> parser \<Rightarrow> (class_set \<times> parser) presult" where
  "class_set_rest D nested cs s =
    (if peek s = Some c_amp \<and> peek_at s 1 = Some c_amp
     then operator_loop D nested c_amp class_intersection (loop_fuel s) cs s
     else if peek s = Some c_dash \<and> peek_at s 1 = Some c_dash
     then operator_loop D nested c_dash class_difference (loop_fuel s) cs s
     else union_loop D nested (loop_fuel s) cs s)"

definition finish_class_set :: "class_set \<Rightarrow> bool \<Rightarrow> parser \<Rightarrow> ((class_set \<times> bool) \<times> parser) presult" where
  "finish_class_set cs negate s =
    (if negate then
       (if may_contain_strings cs
        then PErr (Syntax (lit ''negated character class may contain strings'') (ps_pos s))
        else POk ((negate_code_points cs, True), s))
     else POk ((cs, False), s))"

fun parse_class_set :: "ucd \<Rightarrow> nat \<Rightarrow> class_set_parser" where
  "parse_class_set D 0 s = PFuel"
| "parse_class_set D (Suc n) s =
    try_p (enter s) (\<lambda>s.
    let s = bump 1 s;
        (negate, s) = eat c_caret s
    in if peek s = Some c_rbrack then finish_class_set class_default negate (leave (bump 1 s))
       else
         try_p (parse_class_set_union_member D (parse_class_set D n) class_default s) (\<lambda>(cs, s).
         try_p (class_set_rest D (parse_class_set D n) cs s) (\<lambda>(cs, s).
         case eat c_rbrack s of (closed, s) \<Rightarrow>
           if \<not> closed then PErr (err s ''unterminated character class'')
           else finish_class_set cs negate (leave s))))"

text \<open>The nesting levels the depth guard leaves open at \<open>s\<close>.\<close>

definition levels :: "parser \<Rightarrow> nat" where
  "levels s = MAX_NESTING_DEPTH + 1 - ps_depth s"

definition parse_class :: "ucd \<Rightarrow> parser \<Rightarrow> (node \<times> parser) presult" where
  "parse_class D s =
    (if unicode_sets (ps_flags s) then
       try_p (parse_class_set D (levels s) s) (\<lambda>((cs, negate), s). POk (class_node s cs negate, s))
     else parse_legacy_class D s)"

end
