(* ===== verification/Rx_Semantics.thy ===== *)
theory Rx_Semantics
  imports Rx_Lower
begin

text \<open>
  The meaning of a pattern, independent of the instruction program: \<open>outs\<close> maps a node, a
  direction and a match state (offset and capture slots) to the list of all states the node can
  end in. A match attempt succeeds with the head of that list. The structure and the order of
  preference are those of ECMA-262 22.2.2; three decisions are the engine's and not the
  standard's: without \<open>u\<close> and \<open>v\<close> only ASCII letters fold (\<open>s_canon\<close>), a back reference is compared by code
  units in every mode (\<open>s_backref\<close>), and the strings of a class, the empty one included, are tried before
  its code points (\<open>s_class\<close>). The theory also holds the well-formedness of nodes the parser guarantees
  and the facts every node has: outcomes stay inside the subject, move in the direction of
  the region, and move strictly when \<open>consumes_input\<close> says so.
\<close>

section \<open>Match states and environments\<close>

type_synonym mstate = "nat \<times> slots"
type_synonym sem = "mstate \<Rightarrow> mstate list"

record senv =
  s_input :: input
  s_unicode :: bool
  s_fold :: "code_point \<Rightarrow> code_point"

definition s_canon :: "senv \<Rightarrow> code_point \<Rightarrow> code_point" where
  "s_canon env = (if s_unicode env then fold_unicode (s_fold env) else canonicalize)"

abbreviation subject_length :: "senv \<Rightarrow> nat" where
  "subject_length env \<equiv> length (units (s_input env))"

section \<open>Combinators\<close>

fun s_seq :: "sem list \<Rightarrow> sem" where
  "s_seq [] s = [s]"
| "s_seq (f # fs) s = concat (map (s_seq fs) (f s))"

definition s_alt :: "sem list \<Rightarrow> sem" where
  "s_alt fs s = concat (map (\<lambda>f. f s) fs)"

fun s_times :: "sem \<Rightarrow> nat \<Rightarrow> sem" where
  "s_times f 0 s = [s]"
| "s_times f (Suc n) s = concat (map (s_times f n) (f s))"

text \<open>At most \<open>n\<close> further iterations, none of which may be empty.\<close>

fun s_opt :: "sem \<Rightarrow> bool \<Rightarrow> nat \<Rightarrow> sem" where
  "s_opt f greedy 0 s = [s]"
| "s_opt f greedy (Suc n) s =
    (let more = concat (map (s_opt f greedy n) (filter (\<lambda>s'. fst s' \<noteq> fst s) (f s)))
     in if greedy then more @ [s] else s # more)"

definition s_clear :: "nat list \<Rightarrow> slots \<Rightarrow> slots" where
  "s_clear gs caps = foldl (\<lambda>c g. c[2 * g := None, 2 * g + 1 := None]) caps gs"

definition s_iteration :: "nat list \<Rightarrow> sem \<Rightarrow> sem" where
  "s_iteration gs f s = f (fst s, s_clear gs (snd s))"

text \<open>\<open>RepeatMatcher\<close> of 22.2.2.3.1. An unbounded repeat needs no more optional iterations than the
  subject has units, since each of them moves.\<close>

definition s_repeat :: "nat \<Rightarrow> nat list \<Rightarrow> sem \<Rightarrow> quantifier \<Rightarrow> sem" where
  "s_repeat len gs f q s =
    concat (map
      (s_opt (s_iteration gs f) (q_greedy q) (case q_max q of None \<Rightarrow> len | Some m \<Rightarrow> m - q_min q))
      (s_times (s_iteration gs f) (q_min q) s))"

section \<open>Atoms\<close>

definition s_char :: "senv \<Rightarrow> bool \<Rightarrow> (code_point \<Rightarrow> bool) \<Rightarrow> sem" where
  "s_char env bw test s =
    (case decode_dir (s_input env) (fst s) bw of
       Some (Some (cp, w)) \<Rightarrow> (if test cp then [(if bw then fst s - w else fst s + w, snd s)] else [])
     | _ \<Rightarrow> [])"

definition s_char_test :: "senv \<Rightarrow> code_point \<Rightarrow> bool \<Rightarrow> code_point \<Rightarrow> bool" where
  "s_char_test env c ic cp \<longleftrightarrow> cp = c \<or> (ic \<and> s_canon env cp = s_canon env c)"

definition s_any_test :: "bool \<Rightarrow> code_point \<Rightarrow> bool" where
  "s_any_test da cp \<longleftrightarrow> da \<or> \<not> is_line_terminator cp"

text \<open>\<open>CharacterSetMatcher\<close>: some member has the canonical form of the character.\<close>

definition s_class_test :: "senv \<Rightarrow> class_set \<Rightarrow> bool \<Rightarrow> bool \<Rightarrow> code_point \<Rightarrow> bool" where
  "s_class_test env cs negate ic cp =
    ((\<exists>a\<in>class_cps cs. s_char_test env a ic cp) \<noteq> negate)"

definition s_string :: "senv \<Rightarrow> bool \<Rightarrow> bool \<Rightarrow> code_point list \<Rightarrow> sem" where
  "s_string env bw ic str =
    s_seq (map (\<lambda>c. s_char env bw (s_char_test env c ic)) (if bw then rev str else str))"

definition s_class :: "senv \<Rightarrow> bool \<Rightarrow> class_set \<Rightarrow> bool \<Rightarrow> bool \<Rightarrow> sem" where
  "s_class env bw cs negate ic =
    (if strings cs = [] then s_char env bw (s_class_test env cs negate ic)
     else s_alt (map (s_string env bw ic) (sort_key (\<lambda>s. - int (length s)) (strings cs))
                 @ [s_char env bw (s_class_test env cs False ic)]))"

definition s_assert :: "senv \<Rightarrow> assertion \<Rightarrow> sem" where
  "s_assert env a s =
    (let before = (case prev_codepoint (s_input env) (fst s) of Some r \<Rightarrow> r | None \<Rightarrow> None);
         after = map_option fst (decode (s_input env) (fst s));
         word = (\<lambda>ic c. case c of
                   None \<Rightarrow> False
                 | Some cp \<Rightarrow> is_word cp \<or> (ic \<and> s_unicode env \<and> (cp = 0x017F \<or> cp = 0x212A)));
         line_end = (\<lambda>c. case c of None \<Rightarrow> False | Some cp \<Rightarrow> is_line_terminator cp)
     in if (case a of
              StartOfLine ml \<Rightarrow> fst s = 0 \<or> (ml \<and> line_end before)
            | EndOfLine ml \<Rightarrow> fst s = subject_length env \<or> (ml \<and> line_end after)
            | WordBoundary invert ic \<Rightarrow> (word ic before \<noteq> word ic after) \<noteq> invert)
        then [s] else [])"

definition slice :: "'a list \<Rightarrow> nat \<Rightarrow> nat \<Rightarrow> 'a list" where
  "slice xs i n = take n (drop i xs)"

text \<open>\<open>BackreferenceMatcher\<close>: the captured text must occur again at the current offset.\<close>

definition s_backref :: "senv \<Rightarrow> bool \<Rightarrow> nat list \<Rightarrow> bool \<Rightarrow> sem" where
  "s_backref env bw gs ic s =
    (case find_span (snd s) gs of
       None \<Rightarrow> [s]
     | Some (b, e) \<Rightarrow>
        (let us = units (s_input env); n = e - b; at = (if bw then fst s - n else fst s)
         in if (bw \<longrightarrow> n \<le> fst s) \<and> at + n \<le> length us
               \<and> list_all2 (\<lambda>x y. s_char_test env y ic x) (slice us b n) (slice us at n)
            then [(if bw then at else at + n, snd s)] else []))"

definition s_look :: "bool \<Rightarrow> sem \<Rightarrow> sem" where
  "s_look negate f s =
    (case f s of
       [] \<Rightarrow> (if negate then [s] else [])
     | (_, caps) # _ \<Rightarrow> (if negate then [] else [(fst s, caps)]))"

definition s_capture :: "bool \<Rightarrow> nat \<Rightarrow> sem \<Rightarrow> sem" where
  "s_capture bw g f s =
    (let (first, last') = (if bw then (2 * g + 1, 2 * g) else (2 * g, 2 * g + 1))
     in map (\<lambda>s'. (fst s', (snd s')[last' := Some (fst s')])) (f (fst s, (snd s)[first := Some (fst s)])))"

section \<open>Nodes\<close>

fun outs :: "senv \<Rightarrow> node \<Rightarrow> bool \<Rightarrow> sem" where
  "outs env NEmpty bw = (\<lambda>s. [s])"
| "outs env (NChar c ic) bw = s_char env bw (s_char_test env c ic)"
| "outs env (NAnyChar da) bw = s_char env bw (s_any_test da)"
| "outs env (NClass cs negate ic) bw = s_class env bw cs negate ic"
| "outs env (NAssert a) bw = s_assert env a"
| "outs env (NBackRef gs ic) bw = s_backref env bw gs ic"
| "outs env (NConcat ns) bw =
    (let fs = map (\<lambda>n. outs env n bw) ns in s_seq (if bw then rev fs else fs))"
| "outs env (NAlternate ns) bw = s_alt (map (\<lambda>n. outs env n bw) ns)"
| "outs env (NRepeat n q) bw = s_repeat (subject_length env) (capture_indices n) (outs env n bw) q"
| "outs env (NGroup kind n) bw =
    (case kind of
       Capturing g _ \<Rightarrow> s_capture bw g (outs env n bw)
     | NonCapturing \<Rightarrow> outs env n bw
     | Lookahead negate \<Rightarrow> s_look negate (outs env n False)
     | Lookbehind negate \<Rightarrow> s_look negate (outs env n True))"

text \<open>What the parser guarantees of a node in a pattern with \<open>G\<close> groups.\<close>

fun wf_node :: "nat \<Rightarrow> node \<Rightarrow> bool" where
  "wf_node G (NClass cs negate ic) \<longleftrightarrow> class_inv cs \<and> (strings cs = [] \<or> \<not> negate)"
| "wf_node G (NConcat ns) \<longleftrightarrow> list_all (wf_node G) ns"
| "wf_node G (NAlternate ns) \<longleftrightarrow> ns \<noteq> [] \<and> list_all (wf_node G) ns"
| "wf_node G (NRepeat n q) \<longleftrightarrow>
    wf_node G n \<and> (case q_max q of None \<Rightarrow> True | Some m \<Rightarrow> q_min q \<le> m)"
| "wf_node G (NGroup kind n) \<longleftrightarrow>
    wf_node G n \<and> (case kind of Capturing g _ \<Rightarrow> 1 \<le> g \<and> g \<le> G | _ \<Rightarrow> True)"
| "wf_node G (NBackRef gs ic) \<longleftrightarrow> list_all (\<lambda>g. g \<le> G) gs"
| "wf_node G _ \<longleftrightarrow> True"

text \<open>The counted repeats the lowering expands literally.\<close>

fun small_counts :: "node \<Rightarrow> bool" where
  "small_counts (NConcat ns) \<longleftrightarrow> list_all small_counts ns"
| "small_counts (NAlternate ns) \<longleftrightarrow> list_all small_counts ns"
| "small_counts (NRepeat n q) \<longleftrightarrow>
    small_counts n \<and> q_min q \<le> MAX_REPEAT
    \<and> (case q_max q of None \<Rightarrow> True | Some m \<Rightarrow> m \<le> MAX_REPEAT)"
| "small_counts (NGroup _ n) \<longleftrightarrow> small_counts n"
| "small_counts _ \<longleftrightarrow> True"

section \<open>Outcomes stay inside the subject and move in one direction\<close>

definition ok_slots :: "nat \<Rightarrow> slots \<Rightarrow> bool" where
  "ok_slots len caps \<longleftrightarrow> (\<forall>p. Some p \<in> set caps \<longrightarrow> p \<le> len)"

definition ok_state :: "nat \<Rightarrow> nat \<Rightarrow> mstate \<Rightarrow> bool" where
  "ok_state len n s \<longleftrightarrow> fst s \<le> len \<and> length (snd s) = n \<and> ok_slots len (snd s)"

definition moves :: "bool \<Rightarrow> mstate \<Rightarrow> mstate \<Rightarrow> bool" where
  "moves bw s s' \<longleftrightarrow> (if bw then fst s' \<le> fst s else fst s \<le> fst s')"

definition good :: "nat \<Rightarrow> nat \<Rightarrow> bool \<Rightarrow> sem \<Rightarrow> bool" where
  "good len n bw f \<longleftrightarrow> (\<forall>s s'. ok_state len n s \<longrightarrow> s' \<in> set (f s) \<longrightarrow> ok_state len n s' \<and> moves bw s s')"

definition strict :: "nat \<Rightarrow> nat \<Rightarrow> sem \<Rightarrow> bool" where
  "strict len n f \<longleftrightarrow> (\<forall>s s'. ok_state len n s \<longrightarrow> s' \<in> set (f s) \<longrightarrow> fst s' \<noteq> fst s)"

lemma goodI:
  "(\<And>s s'. ok_state len n s \<Longrightarrow> s' \<in> set (f s) \<Longrightarrow> ok_state len n s' \<and> moves bw s s') \<Longrightarrow> good len n bw f"
  unfolding good_def by blast

lemma goodD: "good len n bw f \<Longrightarrow> ok_state len n s \<Longrightarrow> s' \<in> set (f s) \<Longrightarrow> ok_state len n s' \<and> moves bw s s'"
  unfolding good_def by blast

lemma strictI:
  "(\<And>s s'. ok_state len n s \<Longrightarrow> s' \<in> set (f s) \<Longrightarrow> fst s' \<noteq> fst s) \<Longrightarrow> strict len n f"
  unfolding strict_def by blast

lemma strictD: "strict len n f \<Longrightarrow> ok_state len n s \<Longrightarrow> s' \<in> set (f s) \<Longrightarrow> fst s' \<noteq> fst s"
  unfolding strict_def by blast

lemma moves_refl [simp]: "moves bw s s"
  by (simp add: moves_def)

lemma moves_trans: "moves bw a b \<Longrightarrow> moves bw b c \<Longrightarrow> moves bw a c"
  by (auto simp: moves_def split: if_splits)

lemma moves_stuck: "moves bw a b \<Longrightarrow> moves bw b c \<Longrightarrow> fst a = fst c \<Longrightarrow> fst b = fst a"
  by (auto simp: moves_def split: if_splits)

lemma ok_slots_update: "ok_slots len c \<Longrightarrow> (\<forall>p. v = Some p \<longrightarrow> p \<le> len) \<Longrightarrow> ok_slots len (c[i := v])"
  by (auto simp: ok_slots_def dest!: set_update_subset_insert [THEN subsetD])

lemma s_clear_simps [simp]:
  "s_clear [] c = c" "s_clear (g # gs) c = s_clear gs (c[2 * g := None, 2 * g + 1 := None])"
  by (simp_all add: s_clear_def)

lemma length_s_clear [simp]: "length (s_clear gs c) = length c"
  by (induction gs arbitrary: c) simp_all

lemma ok_slots_clear: "ok_slots len c \<Longrightarrow> ok_slots len (s_clear gs c)"
  by (induction gs arbitrary: c) (simp_all add: ok_slots_update)

lemma ok_state_clear: "ok_state len n s \<Longrightarrow> ok_state len n (fst s, s_clear gs (snd s))"
  by (simp add: ok_state_def ok_slots_clear)

lemma good_single [simp]: "good len n bw (\<lambda>s. [s])"
  by (rule goodI) simp

lemma good_bind:
  assumes "good len n bw f" and "good len n bw g"
  shows "good len n bw (\<lambda>s. concat (map g (f s)))"
proof (rule goodI)
  fix s s' assume s: "ok_state len n s" and "s' \<in> set (concat (map g (f s)))"
  then obtain m where "m \<in> set (f s)" "s' \<in> set (g m)" by auto
  with assms s show "ok_state len n s' \<and> moves bw s s'"
    by (meson goodD moves_trans)
qed

lemma good_seq: "\<forall>f\<in>set fs. good len n bw f \<Longrightarrow> good len n bw (s_seq fs)"
  by (induction fs) (simp_all add: good_bind s_seq.simps [abs_def])

lemma good_alt: "\<forall>f\<in>set fs. good len n bw f \<Longrightarrow> good len n bw (s_alt fs)"
  by (rule goodI) (auto simp: s_alt_def dest: goodD)

lemma good_times: "good len n bw f \<Longrightarrow> good len n bw (s_times f k)"
  by (induction k) (simp_all add: good_bind s_times.simps [abs_def])

lemma good_opt: "good len n bw f \<Longrightarrow> good len n bw (s_opt f greedy k)"
proof (induction k)
  case (Suc k)
  have *: "good len n bw (\<lambda>s. concat (map (s_opt f greedy k) (f s)))"
    by (rule good_bind [OF Suc.prems Suc.IH [OF Suc.prems]])
  show ?case
  proof (rule goodI)
    fix s s' assume s: "ok_state len n s" and "s' \<in> set (s_opt f greedy (Suc k) s)"
    then have "s' = s \<or> s' \<in> set (concat (map (s_opt f greedy k) (f s)))"
      by (auto simp: Let_def split: if_splits)
    with goodD [OF * s, of s'] s show "ok_state len n s' \<and> moves bw s s'" by fastforce
  qed
qed (simp add: s_opt.simps [abs_def])

lemma good_iteration: "good len n bw f \<Longrightarrow> good len n bw (s_iteration gs f)"
  using ok_state_clear [of len n]
  by (intro goodI) (fastforce simp: s_iteration_def moves_def dest: goodD)

lemma good_repeat: "good len n bw f \<Longrightarrow> good len n bw (s_repeat l gs f q)"
  unfolding s_repeat_def [abs_def] by (intro good_bind good_times good_opt good_iteration)

lemma good_look:
  assumes "good len n bw' f"
  shows "good len n bw (s_look negate f)"
proof (rule goodI)
  fix s s' assume s: "ok_state len n s" and s': "s' \<in> set (s_look negate f s)"
  show "ok_state len n s' \<and> moves bw s s'"
  proof (cases "f s")
    case (Cons a as)
    then have "ok_state len n a" using goodD [OF assms s, of a] by simp
    with s s' Cons show ?thesis
      by (cases a) (auto simp: s_look_def ok_state_def moves_def split: if_splits)
  qed (use s s' in \<open>auto simp: s_look_def split: if_splits\<close>)
qed

lemma good_capture:
  assumes "good len n bw f"
  shows "good len n bw (s_capture bw g f)"
proof (rule goodI)
  fix s s' assume s: "ok_state len n s" and s': "s' \<in> set (s_capture bw g f s)"
  let ?a = "if bw then 2 * g + 1 else 2 * g" and ?b = "if bw then 2 * g else 2 * g + 1"
  have start: "ok_state len n (fst s, (snd s)[?a := Some (fst s)])"
    using s by (simp add: ok_state_def ok_slots_update)
  from s' obtain m where m: "m \<in> set (f (fst s, (snd s)[?a := Some (fst s)]))"
    and eq: "s' = (fst m, (snd m)[?b := Some (fst m)])"
    by (auto simp: s_capture_def split: if_splits)
  from goodD [OF assms start m] eq show "ok_state len n s' \<and> moves bw s s'"
    by (cases bw) (simp_all add: ok_state_def ok_slots_update moves_def)
qed

lemma decode_bounds: "decode inp p = Some (cp, w) \<Longrightarrow> 0 < w \<and> p + w \<le> length (units inp)"
  by (auto simp: decode_def split: option.splits if_splits)

lemma decode_back_bounds:
  assumes "decode_back inp p = Some (Some (cp, w))" and "utf16 (units inp)"
  shows "0 < w \<and> w \<le> p \<and> p \<le> length (units inp)"
proof -
  from assms(1) have p: "0 < p" "p - 1 < length (units inp)"
    by (auto simp: decode_back_def prev_codepoint_def split: option.splits if_splits)
  with utf16_nth [OF assms(2) p(2)] assms(1) show ?thesis
    by (auto simp: decode_back_def prev_codepoint_def split: option.splits if_splits)
qed

lemma decode_dir_total: "p \<le> length (units inp) \<Longrightarrow> \<exists>r. decode_dir inp p bw = Some r"
  by (auto simp: decode_dir_def decode_back_def prev_codepoint_def split: option.splits)

lemma decode_dir_bounds:
  assumes "decode_dir inp p bw = Some (Some (cp, w))" and "utf16 (units inp)"
  shows "0 < w" and "bw \<Longrightarrow> w \<le> p \<and> p \<le> length (units inp)" and "\<not> bw \<Longrightarrow> p + w \<le> length (units inp)"
  using assms decode_bounds [of inp p cp w] decode_back_bounds [of inp p cp w]
  by (auto simp: decode_dir_def split: if_splits)

lemma s_charE:
  assumes "s' \<in> set (s_char env bw test s)"
  obtains cp w where "decode_dir (s_input env) (fst s) bw = Some (Some (cp, w))" "test cp"
    "s' = (if bw then fst s - w else fst s + w, snd s)"
proof (cases "decode_dir (s_input env) (fst s) bw")
  case (Some r)
  with assms that show ?thesis
    by (cases r) (auto simp: s_char_def split: if_splits)
qed (use assms in \<open>simp add: s_char_def\<close>)

lemma s_char_step:
  assumes "s' \<in> set (s_char env bw test s)" and "utf16 (units (s_input env))" and "fst s \<le> subject_length env"
  shows "snd s' = snd s \<and> fst s' \<le> subject_length env \<and> moves bw s s' \<and> fst s' \<noteq> fst s"
proof -
  obtain cp w where d: "decode_dir (s_input env) (fst s) bw = Some (Some (cp, w))"
    and s': "s' = (if bw then fst s - w else fst s + w, snd s)"
    using assms(1) by (rule s_charE)
  show ?thesis
    using decode_dir_bounds [OF d assms(2)] assms(3) by (cases bw) (auto simp: s' moves_def)
qed

lemma good_char: "utf16 (units (s_input env)) \<Longrightarrow> good (subject_length env) n bw (s_char env bw test)"
  using s_char_step by (intro goodI) (fastforce simp: ok_state_def)

lemma strict_char: "utf16 (units (s_input env)) \<Longrightarrow> strict (subject_length env) n (s_char env bw test)"
  using s_char_step by (intro strictI) (fastforce simp: ok_state_def)

lemma good_string: "utf16 (units (s_input env)) \<Longrightarrow> good (subject_length env) n bw (s_string env bw ic str)"
  unfolding s_string_def by (intro good_seq) (auto intro: good_char)

lemma good_class: "utf16 (units (s_input env)) \<Longrightarrow> good (subject_length env) n bw (s_class env bw cs negate ic)"
  by (auto simp: s_class_def intro!: good_alt good_string good_char)

lemma good_assert: "good len n bw (s_assert env a)"
  by (rule goodI) (auto simp: s_assert_def Let_def split: if_splits)

lemma good_backref: "good (subject_length env) n bw (s_backref env bw gs ic)"
  by (rule goodI)
    (auto simp: s_backref_def ok_state_def moves_def Let_def split: option.splits if_splits)

lemma good_outs:
  assumes "utf16 (units (s_input env))"
  shows "good (subject_length env) n bw (outs env nd bw)"
proof (induction nd arbitrary: bw)
  case (NConcat ns)
  then show ?case by (auto simp: Let_def intro!: good_seq)
next
  case (NAlternate ns)
  then show ?case by (auto intro!: good_alt)
next
  case (NGroup kind nd)
  then show ?case by (auto simp: good_capture intro: good_look split: group_kind.split)
qed (simp_all add: assms good_char good_class good_assert good_backref good_repeat)

text \<open>A composition that contains a strict part is strict.\<close>

lemma strict_bind_left:
  assumes "strict len n f" "good len n bw f" "good len n bw g"
  shows "strict len n (\<lambda>s. concat (map g (f s)))"
proof (rule strictI)
  fix s s' assume s: "ok_state len n s" and "s' \<in> set (concat (map g (f s)))"
  then obtain m where m: "m \<in> set (f s)" "s' \<in> set (g m)" by auto
  then show "fst s' \<noteq> fst s"
    using moves_stuck [of bw s m s'] goodD [OF assms(2) s m(1)] goodD [OF assms(3) _ m(2)] strictD [OF assms(1) s m(1)]
    by auto
qed

lemma strict_bind_right:
  assumes "strict len n g" "good len n bw f" "good len n bw g"
  shows "strict len n (\<lambda>s. concat (map g (f s)))"
proof (rule strictI)
  fix s s' assume s: "ok_state len n s" and "s' \<in> set (concat (map g (f s)))"
  then obtain m where m: "m \<in> set (f s)" "s' \<in> set (g m)" by auto
  then show "fst s' \<noteq> fst s"
    using moves_stuck [of bw s m s'] goodD [OF assms(2) s m(1)] goodD [OF assms(3) _ m(2)] strictD [OF assms(1) _ m(2)]
    by auto
qed

lemma strict_seq:
  "\<forall>f\<in>set fs. good len n bw f \<Longrightarrow> \<exists>f\<in>set fs. strict len n f \<Longrightarrow> strict len n (s_seq fs)"
proof (induction fs)
  case (Cons f fs)
  then have g: "good len n bw f" "good len n bw (s_seq fs)" by (auto intro: good_seq)
  show ?case
  proof (cases "strict len n f")
    case True
    with g show ?thesis by (simp add: s_seq.simps [abs_def] strict_bind_left)
  next
    case False
    with Cons g show ?thesis by (auto simp: s_seq.simps [abs_def] intro: strict_bind_right)
  qed
qed simp

lemma strict_alt: "\<forall>f\<in>set fs. strict len n f \<Longrightarrow> strict len n (s_alt fs)"
  by (rule strictI) (auto simp: s_alt_def dest: strictD)

lemma strict_iteration: "strict len n f \<Longrightarrow> strict len n (s_iteration gs f)"
  using ok_state_clear [of len n]
  by (intro strictI) (fastforce simp: s_iteration_def dest: strictD)

lemma strict_repeat:
  assumes "strict len n f" "good len n bw f" "1 \<le> q_min q"
  shows "strict len n (s_repeat l gs f q)"
proof -
  let ?f = "s_iteration gs f"
  obtain k where k: "q_min q = Suc k" using assms(3) by (cases "q_min q") auto
  have "strict len n (s_times ?f (Suc k))"
    using strict_bind_left [OF strict_iteration [OF assms(1)] good_iteration good_times [OF good_iteration]] assms(2)
    by (simp add: s_times.simps [abs_def])
  then have "strict len n (\<lambda>s. concat (map (s_opt ?f g m) (s_times ?f (Suc k) s)))" for g m
    by (rule strict_bind_left [where bw = bw]) (intro good_times good_opt good_iteration assms(2))+
  then show ?thesis
    unfolding s_repeat_def [abs_def] k .
qed

lemma strict_outs:
  assumes "utf16 (units (s_input env))"
  shows "consumes_input nd \<Longrightarrow> strict (subject_length env) n (outs env nd bw)"
proof (induction nd arbitrary: bw)
  case (NConcat ns)
  then obtain nd where nd: "nd \<in> set ns" "strict (subject_length env) n (outs env nd bw)"
    by (auto simp: list_ex_iff)
  let ?fs = "map (\<lambda>n. outs env n bw) ns"
  have "strict (subject_length env) n (s_seq (if bw then rev ?fs else ?fs))"
    using nd good_outs [OF assms] by (intro strict_seq [where bw = bw]) auto
  then show ?case by (simp add: Let_def)
next
  case (NAlternate ns)
  then show ?case by (auto simp: list_all_iff intro!: strict_alt)
next
  case (NRepeat nd q)
  then show ?case using good_outs [OF assms] by (auto intro!: strict_repeat)
next
  case (NGroup kind nd)
  show ?case
  proof (cases kind)
    case (Capturing g nm)
    show ?thesis
    proof (rule strictI)
      fix s s' assume s: "ok_state (subject_length env) n s" "s' \<in> set (outs env (NGroup kind nd) bw s)"
      let ?c = "(snd s)[(if bw then 2 * g + 1 else 2 * g) := Some (fst s)]"
      have "ok_state (subject_length env) n (fst s, ?c)"
        using s(1) by (simp add: ok_state_def ok_slots_update)
      moreover have "\<exists>m\<in>set (outs env nd bw (fst s, ?c)). fst s' = fst m"
        using s(2) Capturing by (force simp: s_capture_def split: if_splits)
      ultimately show "fst s' \<noteq> fst s"
        using NGroup Capturing by (auto dest!: strictD [OF NGroup.IH])
    qed
  qed (use NGroup in auto)
qed (simp_all add: assms strict_char s_class_def)

section \<open>Enough optional iterations\<close>

text \<open>The units left in the direction of the region.\<close>

definition room :: "nat \<Rightarrow> bool \<Rightarrow> mstate \<Rightarrow> nat" where
  "room len bw s = (if bw then fst s else len - fst s)"

lemma room_less:
  "moves bw s s' \<Longrightarrow> fst s' \<noteq> fst s \<Longrightarrow> fst s' \<le> len \<Longrightarrow> fst s \<le> len \<Longrightarrow> room len bw s' < room len bw s"
  by (auto simp: moves_def room_def split: if_splits)

lemma room_le: "fst s \<le> len \<Longrightarrow> room len bw s \<le> len"
  by (simp add: room_def)

lemma s_opt_enough:
  assumes "good len n bw f"
  shows "ok_state len n s \<Longrightarrow> room len bw s \<le> k \<Longrightarrow> room len bw s \<le> k'
    \<Longrightarrow> s_opt f greedy k s = s_opt f greedy k' s"
proof (induction k arbitrary: k' s)
  case 0
  have "filter (\<lambda>s'. fst s' \<noteq> fst s) (f s) = []"
    using goodD [OF assms 0(1)] room_less [of bw s _ len] 0 by (fastforce simp: filter_empty_conv ok_state_def)
  then show ?case by (cases k') simp_all
next
  case (Suc k)
  have step: "ok_state len n s'" "room len bw s' < room len bw s"
    if "s' \<in> set (f s)" "fst s' \<noteq> fst s" for s'
    using goodD [OF assms Suc.prems(1) that(1)] that(2) Suc.prems(1) room_less [of bw s s' len]
    by (auto simp: ok_state_def)
  show ?case
  proof (cases k')
    case 0
    then have "filter (\<lambda>s'. fst s' \<noteq> fst s) (f s) = []"
      using step Suc.prems(3) by (fastforce simp: filter_empty_conv)
    with 0 show ?thesis by simp
  next
    case (Suc l)
    have "s_opt f greedy k s' = s_opt f greedy l s'" if "s' \<in> set (f s)" "fst s' \<noteq> fst s" for s'
      using step [OF that] Suc.IH [of s' l] Suc Suc.prems by simp
    then have eq: "map (s_opt f greedy k) (filter (\<lambda>s'. fst s' \<noteq> fst s) (f s))
        = map (s_opt f greedy l) (filter (\<lambda>s'. fst s' \<noteq> fst s) (f s))"
      by (intro map_cong) auto
    show ?thesis by (simp only: Suc s_opt.simps eq)
  qed
qed

end
