(* ===== verification/Rx_Exec_Correct.thy ===== *)
theory Rx_Exec_Correct
  imports Rx_Semantics
begin

text \<open>
  What the matching loop computes. The relation \<open>paths\<close> assigns to a program counter, an offset
  and a slot vector the list of all accepting ends reachable from there, in the order in which the
  loop would find them; it knows no backtrack stack and no undo log. The main lemma
  \<open>run_paths\<close> shows that the loop with its stack, its log and the chained frames of a fused repeat
  returns the first of them, or drains everything it pushed and restores every slot it wrote.
  \<open>frag\<close> is the induced notion of a code fragment with its list of exits.
\<close>

section \<open>Framing\<close>

abbreviation thr :: "nat \<Rightarrow> nat \<Rightarrow> slots \<Rightarrow> frame list \<Rightarrow> undo_log \<Rightarrow> thread" where
  "thr pc pos caps stk log \<equiv> \<lparr>t_pc = pc, t_pos = pos, t_caps = caps, t_stack = stk, t_log = log\<rparr>"

definition lift_thread :: "frame list \<Rightarrow> undo_log \<Rightarrow> thread \<Rightarrow> thread" where
  "lift_thread stk log th =
    th\<lparr>t_stack := map (\<lambda>fr. fr\<lparr>fr_log_mark := fr_log_mark fr + length log\<rparr>) (t_stack th) @ stk,
       t_log := t_log th @ log\<rparr>"

fun lift_result :: "frame list \<Rightarrow> undo_log \<Rightarrow> insn_result \<Rightarrow> insn_result" where
  "lift_result stk log (Continue th) = Continue (lift_thread stk log th)"
| "lift_result stk log (Break r th) = Break r (lift_thread stk log th)"
| "lift_result stk log r = r"

lemma lift_fields [simp]:
  "t_pc (lift_thread stk log th) = t_pc th" "t_pos (lift_thread stk log th) = t_pos th"
  "t_caps (lift_thread stk log th) = t_caps th" "t_log (lift_thread stk log th) = t_log th @ log"
  "t_stack (lift_thread stk log th) =
    map (\<lambda>fr. fr\<lparr>fr_log_mark := fr_log_mark fr + length log\<rparr>) (t_stack th) @ stk"
  by (simp_all add: lift_thread_def)

lemma lift_thr: "lift_thread stk log (thr pc pos caps [] []) = thr pc pos caps stk log"
  by (simp add: lift_thread_def)

lemma lift_advance: "advance (lift_thread stk log th) p = lift_thread stk log (advance th p)"
  by (simp add: advance_def lift_thread_def)

lemma lift_pc: "(lift_thread stk log th)\<lparr>t_pc := p\<rparr> = lift_thread stk log (th\<lparr>t_pc := p\<rparr>)"
  by (simp add: lift_thread_def)

lemma lift_push_frame:
  "push_frame pc pos r (lift_thread stk log th) = lift_thread stk log (push_frame pc pos r th)"
  by (simp add: push_frame_def lift_thread_def)

lemma lift_write_slot:
  "write_slot logged i v (lift_thread stk log th) = map_option (lift_thread stk log) (write_slot logged i v th)"
  by (simp add: write_slot_def lift_thread_def split: option.split)

lemma lift_fail: "fail (lift_thread stk log th) = lift_result stk log (fail th)"
  by (simp add: fail_def)

lemma lift_next_insn:
  "next_insn (map_option (lift_thread stk log) r) = lift_result stk log (next_insn r)"
  by (simp add: next_insn_def lift_advance split: option.split)

lemma lift_test_insn: "test_insn r (lift_thread stk log th) = lift_result stk log (test_insn r th)"
  by (simp add: test_insn_def lift_advance lift_fail split: option.split)

lemma lift_consume: "consume cx bw test (lift_thread stk log th) = lift_result stk log (consume cx bw test th)"
  by (simp add: consume_def lift_advance lift_fail split: option.split prod.split)

lemma lift_char_seq:
  "exec_char_seq cx bw seq (lift_thread stk log th) = lift_result stk log (exec_char_seq cx bw seq th)"
  by (cases bw) (simp_all add: exec_char_seq_def lift_advance lift_fail Let_def)

lemma lift_repeat:
  "exec_repeat cx bw atom mn g p (lift_thread stk log th) = lift_result stk log (exec_repeat cx bw atom mn g p th)"
  by (simp add: exec_repeat_def lift_advance lift_push_frame lift_fail split: option.split)

lemma lift_bind_write:
  "Option.bind (map_option (lift_thread stk log) r) (write_slot logged i v)
    = map_option (lift_thread stk log) (Option.bind r (write_slot logged i v))"
  by (cases r) (simp_all add: lift_write_slot)

lemmas lift_simps = lift_advance lift_pc lift_push_frame lift_write_slot lift_fail lift_next_insn
  lift_test_insn lift_consume lift_char_seq lift_repeat lift_bind_write

lemma exec_insn_lift: "exec_insn cx bw (lift_thread stk log th) = lift_result stk log (exec_insn cx bw th)"
  by (simp add: exec_insn_def lift_simps split: option.split insn.split)

lemma apply_look_lift:
  "apply_look is upd (lift_thread stk log th) = map_option (lift_thread stk log) (apply_look is upd th)"
proof (induction "is" arbitrary: th)
  case (Cons i "is")
  have "Option.bind (map_option (lift_thread stk log) r) (apply_look is upd)
      = map_option (lift_thread stk log) (Option.bind r (apply_look is upd))" for r
    by (cases r) (simp_all add: Cons.IH)
  then show ?case
    by (simp add: Cons.IH lift_write_slot split: option.split)
qed simp

section \<open>The undo log\<close>

lemma undo_append:
  "undo (length log + m) (l @ log) caps = (case undo m l caps of (l', c) \<Rightarrow> (l' @ log, c))"
proof (induction l arbitrary: caps)
  case Nil
  then show ?case by (cases log) auto
qed auto

lemma undo_undo:
  "undo k log caps = (log', caps') \<Longrightarrow> m \<le> k \<Longrightarrow> undo m log caps = undo m log' caps'"
  by (induction k log caps rule: undo.induct) (auto split: if_splits)

text \<open>The slots a log gives back completely.\<close>

definition undoes :: "undo_log \<Rightarrow> slots \<Rightarrow> slots \<Rightarrow> bool" where
  "undoes l caps caps0 \<longleftrightarrow> undo 0 l caps = ([], caps0)"

lemma undoes_undo: "undoes l caps caps0 \<Longrightarrow> undo (length log) (l @ log) caps = (log, caps0)"
  using undo_append [of log 0 l caps] by (simp add: undoes_def)

lemma undoes_append: "undoes l1 c2 c1 \<Longrightarrow> undoes l0 c1 c0 \<Longrightarrow> undoes (l1 @ l0) c2 c0"
  unfolding undoes_def using undo_undo [of "length l0" "l1 @ l0" c2 l0 c1 0] undo_append [of l0 0 l1 c2] by simp

lemma undoes_Nil [simp]: "undoes [] c c' \<longleftrightarrow> c = c'"
  by (simp add: undoes_def)

lemma undoes_Cons [simp]: "undoes ((i, v) # l) c c' \<longleftrightarrow> undoes l (c[i := v]) c'"
  by (simp add: undoes_def)

section \<open>Paths\<close>

text \<open>\<open>fpaths\<close> is the same for a pending frame: the thread it starts, then the frame it chains.\<close>

definition first_of :: "mstate list \<Rightarrow> mstate option" where
  "first_of L = (case L of [] \<Rightarrow> None | x # _ \<Rightarrow> Some x)"

inductive paths :: "matcher \<Rightarrow> bool \<Rightarrow> nat \<Rightarrow> nat \<Rightarrow> slots \<Rightarrow> mstate list \<Rightarrow> bool"
  and fpaths :: "matcher \<Rightarrow> bool \<Rightarrow> frame \<Rightarrow> slots \<Rightarrow> mstate list \<Rightarrow> bool"
  for cx where
  p_fail: "exec_insn cx bw (thr pc pos caps [] []) = Break None th \<Longrightarrow>
    undoes (t_log th) (t_caps th) caps \<Longrightarrow> t_stack th = [] \<Longrightarrow> paths cx bw pc pos caps []"
| p_accept: "exec_insn cx bw (thr pc pos caps [] []) = Break (Some p) th \<Longrightarrow> paths cx bw pc pos caps [(p, t_caps th)]"
| p_step: "exec_insn cx bw (thr pc pos caps [] []) = Continue th \<Longrightarrow> undoes (t_log th) (t_caps th) caps \<Longrightarrow>
    t_stack th = [] \<Longrightarrow> paths cx bw (t_pc th) (t_pos th) (t_caps th) L \<Longrightarrow> paths cx bw pc pos caps L"
| p_branch: "exec_insn cx bw (thr pc pos caps [] []) = Continue th \<Longrightarrow> t_log th = [] \<Longrightarrow> t_caps th = caps \<Longrightarrow>
    t_stack th = [fr] \<Longrightarrow> fr_log_mark fr = 0 \<Longrightarrow> paths cx bw (t_pc th) (t_pos th) caps L1 \<Longrightarrow>
    fpaths cx bw fr caps L2 \<Longrightarrow> paths cx bw pc pos caps (L1 @ L2)"
| p_look_fail: "exec_insn cx bw (thr pc pos caps [] []) = CallLook negate behind entry \<Longrightarrow>
    paths cx behind entry pos caps L \<Longrightarrow> look_verdict negate caps (first_of L) = None \<Longrightarrow>
    paths cx bw pc pos caps []"
| p_look: "exec_insn cx bw (thr pc pos caps [] []) = CallLook negate behind entry \<Longrightarrow>
    paths cx behind entry pos caps L \<Longrightarrow> look_verdict negate caps (first_of L) = Some upd \<Longrightarrow>
    length upd = length caps \<Longrightarrow> paths cx bw (Suc pc) pos upd L' \<Longrightarrow> paths cx bw pc pos caps L'"
| f_last: "chain_frame bw fr = Some [] \<Longrightarrow> paths cx bw (fr_pc fr) (fr_pos fr) caps L \<Longrightarrow> fpaths cx bw fr caps L"
| f_chain: "chain_frame bw fr = Some [fr'] \<Longrightarrow> paths cx bw (fr_pc fr) (fr_pos fr) caps L1 \<Longrightarrow>
    fpaths cx bw fr' caps L2 \<Longrightarrow> fpaths cx bw fr caps (L1 @ L2)"

text \<open>Applying the slots of a lookaround writes exactly those that differ.\<close>

lemma apply_look_undoes:
  assumes "length upd = length (t_caps th)" and "\<forall>i\<in>set is. i < length upd" and "t_stack th = []"
    and "undoes (t_log th) (t_caps th) caps"
  shows "\<exists>th'. apply_look is upd th = Some th' \<and> t_pc th' = t_pc th \<and> t_pos th' = t_pos th \<and> t_stack th' = []
    \<and> undoes (t_log th') (t_caps th') caps \<and> length (t_caps th') = length upd
    \<and> (\<forall>j<length upd. t_caps th' ! j = (if j \<in> set is then upd ! j else t_caps th ! j))"
  using assms
proof (induction "is" arbitrary: th)
  case (Cons i "is")
  let ?th = "th\<lparr>t_log := (i, t_caps th ! i) # t_log th, t_caps := (t_caps th)[i := upd ! i]\<rparr>"
  have i: "i < length upd" using Cons.prems by simp
  show ?case
  proof (cases "t_caps th ! i = upd ! i")
    case True
    with Cons.IH [of th] Cons.prems i show ?thesis by (auto simp: get_at_def)
  next
    case False
    have "apply_look (i # is) upd th = apply_look is upd ?th"
      using False Cons.prems by (simp add: get_at_def write_slot_def)
    with Cons.IH [of ?th] Cons.prems i show ?thesis by (auto simp: nth_list_update)
  qed
qed simp

lemma apply_look_all:
  assumes "length upd = length caps"
  shows "\<exists>l. apply_look [0..<length caps] upd (thr pc pos caps stk log) = Some (thr pc pos upd stk (l @ log))
    \<and> undoes l upd caps"
proof -
  obtain th' where th': "apply_look [0..<length caps] upd (thr pc pos caps [] []) = Some th'"
    "t_pc th' = pc" "t_pos th' = pos" "t_stack th' = []" "undoes (t_log th') (t_caps th') caps"
    "length (t_caps th') = length upd" "\<forall>j<length upd. t_caps th' ! j = upd ! j"
    using apply_look_undoes [of upd "thr pc pos caps [] []" "[0..<length caps]" caps] assms by auto
  have upd: "t_caps th' = upd"
    using th'(6,7) by (simp add: nth_equalityI)
  then obtain l where l: "th' = thr pc pos upd [] l"
    using th' by (cases th') simp
  have "apply_look [0..<length caps] upd (thr pc pos caps stk log) = Some (lift_thread stk log th')"
    using apply_look_lift [of "[0..<length caps]" upd stk log "thr pc pos caps [] []"] th'(1)
    by (simp only: lift_thr option.map)
  then show ?thesis
    using th'(5) by (intro exI [of _ l]) (simp add: l lift_thread_def)
qed

section \<open>The loop finds the first path\<close>

lemma chain_frame_mark:
  "chain_frame bw (fr\<lparr>fr_log_mark := m\<rparr>) = map_option (map (\<lambda>f. f\<lparr>fr_log_mark := m\<rparr>)) (chain_frame bw fr)"
  by (cases fr) (simp add: chain_frame_def option.map_comp comp_def split: resume.split)

lemma resume_frame_undoes:
  assumes "undoes l caps' caps"
  shows "resume_frame bw (fr\<lparr>fr_log_mark := length log\<rparr>) stk (l @ log) caps'
    = map_option (\<lambda>ch. thr (fr_pc fr) (fr_pos fr) caps (map (\<lambda>f. f\<lparr>fr_log_mark := length log\<rparr>) ch @ stk) log)
        (chain_frame bw fr)"
  using undoes_undo [OF assms, of log]
  by (simp add: resume_frame_def chain_frame_mark option.map_comp comp_def)

definition finds ::
  "matcher \<Rightarrow> bool \<Rightarrow> frame list \<Rightarrow> undo_log \<Rightarrow> slots \<Rightarrow> mstate list \<Rightarrow> machine \<Rightarrow> 64 word \<Rightarrow> bool" where
  "finds cx bw stk log caps L m steps \<longleftrightarrow>
    (case L of
       [] \<Rightarrow> \<exists>l caps' steps'. undoes l caps' caps
              \<and> run_loop cx bw m steps = run_loop cx bw (Popping stk (l @ log) caps') steps'
     | x # _ \<Rightarrow> \<exists>steps'. run_loop cx bw m steps = Some (RunOk (Some x), steps'))"

lemma finds_step:
  "run_loop cx bw m steps = run_loop cx bw m' steps' \<Longrightarrow> finds cx bw stk log caps L m' steps'
    \<Longrightarrow> finds cx bw stk log caps L m steps"
  by (cases L) (simp_all add: finds_def)

lemma finds_log:
  assumes "finds cx bw stk (l @ log) caps' L m steps" and "undoes l caps' caps"
  shows "finds cx bw stk log caps L m steps"
proof (cases L)
  case Nil
  then obtain l' c st where "undoes l' c caps'"
    "run_loop cx bw m steps = run_loop cx bw (Popping stk ((l' @ l) @ log) c) st"
    using assms(1) by (auto simp: finds_def)
  with undoes_append [OF _ assms(2)] show ?thesis
    unfolding finds_def Nil list.case by blast
qed (use assms in \<open>simp add: finds_def\<close>)

lemma finds_append:
  assumes "finds cx bw stk1 log caps L1 m steps"
    and "\<And>l caps' steps'. undoes l caps' caps \<Longrightarrow> finds cx bw stk log caps L2 (Popping stk1 (l @ log) caps') steps'"
  shows "finds cx bw stk log caps (L1 @ L2) m steps"
proof (cases L1)
  case Nil
  then obtain l c st where *: "undoes l c caps" "run_loop cx bw m steps = run_loop cx bw (Popping stk1 (l @ log) c) st"
    using assms(1) by (auto simp: finds_def)
  show ?thesis
    using finds_step [OF *(2) assms(2) [OF *(1)]] Nil by simp
qed (use assms in \<open>simp add: finds_def\<close>)

lemma run_Running:
  assumes "exec_insn cx bw (thr pc pos caps [] []) = r"
  shows "run_loop cx bw (Running (thr pc pos caps stk log)) steps =
    (case lift_result stk log r of
       Continue th' \<Rightarrow> run_loop cx bw (Running th') steps
     | Break None th' \<Rightarrow> run_loop cx bw (Popping (t_stack th') (t_log th') (t_caps th')) steps
     | Break (Some p) th' \<Rightarrow> Some (RunOk (Some (p, t_caps th')), steps)
     | Panicked \<Rightarrow> Some (RunPanic, steps)
     | CallLook negate behind entry \<Rightarrow>
         Option.bind (run_loop cx behind (Popping [first_frame entry pos] [] caps) steps)
           (\<lambda>(r, steps').
             case r of
               RunOk found \<Rightarrow>
                 (case look_verdict negate caps found of
                    None \<Rightarrow> run_loop cx bw (Popping stk log caps) steps'
                  | Some updated \<Rightarrow>
                     (case apply_look [0..<length caps] updated (thr pc pos caps stk log) of
                        None \<Rightarrow> Some (RunPanic, steps')
                      | Some th' \<Rightarrow> run_loop cx bw (Running (advance th' (t_pos th'))) steps'))
             | RunErr e \<Rightarrow> Some (RunErr e, steps')
             | RunPanic \<Rightarrow> Some (RunPanic, steps')))"
proof -
  have eq: "exec_insn cx bw (thr pc pos caps stk log) = lift_result stk log r"
    using exec_insn_lift [of cx bw stk log "thr pc pos caps [] []"] assms by (simp only: lift_thr)
  show ?thesis
    unfolding run_loop.simps [of cx bw "Running (thr pc pos caps stk log)"] eq machine.case thread.select_convs ..
qed

lemma run_Popping:
  assumes "cx_limit cx = - 1" and "undoes l caps' caps"
  shows "run_loop cx bw (Popping (fr\<lparr>fr_log_mark := length log\<rparr> # stk) (l @ log) caps') steps =
    (case chain_frame bw fr of
       None \<Rightarrow> Some (RunPanic, steps + 1)
     | Some ch \<Rightarrow> run_loop cx bw
         (Running (thr (fr_pc fr) (fr_pos fr) caps (map (\<lambda>f. f\<lparr>fr_log_mark := length log\<rparr>) ch @ stk) log)) (steps + 1))"
proof -
  have "\<not> steps + 1 > (- 1 :: 64 word)" by (simp add: not_less)
  then show ?thesis
    using resume_frame_undoes [OF assms(2), where bw = bw and fr = fr and log = log and stk = stk]
    by (subst run_loop.simps, cases "chain_frame bw fr") (simp_all add: assms)
qed

lemma look_run:
  assumes "\<forall>stk log steps. finds cx bw stk log caps L (Running (thr entry pos caps stk log)) steps"
    and "cx_limit cx = - 1"
  shows "\<exists>st. run_loop cx bw (Popping [first_frame entry pos] [] caps) steps = Some (RunOk (first_of L), st)"
proof -
  have fr: "first_frame entry pos = (first_frame entry pos)\<lparr>fr_log_mark := length ([] :: undo_log)\<rparr>"
    by (simp add: first_frame_def)
  have "run_loop cx bw (Popping [first_frame entry pos] [] caps) steps
      = run_loop cx bw (Running (thr entry pos caps [] [])) (steps + 1)"
    using run_Popping [OF assms(2), where l = "[]" and caps' = caps and caps = caps and bw = bw
        and fr = "first_frame entry pos" and log = "[]" and stk = "[]" and steps = steps] fr
    by (simp add: first_frame_def chain_frame_def)
  moreover have "run_loop cx bw (Popping [] l c) st = Some (RunOk None, st)" for l c st
    by (subst run_loop.simps) simp
  ultimately show ?thesis
    using assms(1) [rule_format, of "[]" "[]" "steps + 1"]
    by (cases L) (auto simp: finds_def first_of_def)
qed

lemma run_paths_aux:
  "paths cx bw pc pos caps L \<Longrightarrow> cx_limit cx = - 1 \<Longrightarrow>
    (\<forall>stk log steps. finds cx bw stk log caps L (Running (thr pc pos caps stk log)) steps)"
  "fpaths cx bw fr caps L \<Longrightarrow> cx_limit cx = - 1 \<Longrightarrow>
    (\<forall>stk log l caps' steps. undoes l caps' caps \<longrightarrow>
      finds cx bw stk log caps L (Popping (fr\<lparr>fr_log_mark := length log\<rparr> # stk) (l @ log) caps') steps)"
proof (induction rule: paths_fpaths.inducts)
  case (p_fail bw pc pos caps th)
  then show ?case by (auto simp: run_Running finds_def)
next
  case (p_accept bw pc pos caps p th)
  then show ?case by (auto simp: run_Running finds_def)
next
  case (p_step bw pc pos caps th L)
  have ex: "exec_insn cx bw (thr pc pos caps [] []) = Continue th" and un: "undoes (t_log th) (t_caps th) caps"
    using p_step by blast+
  show ?case
  proof (intro allI)
    fix stk and log :: undo_log and steps
    have "lift_thread stk log th = thr (t_pc th) (t_pos th) (t_caps th) stk (t_log th @ log)"
      using p_step by (simp add: lift_thread_def)
    then have "run_loop cx bw (Running (thr pc pos caps stk log)) steps
        = run_loop cx bw (Running (thr (t_pc th) (t_pos th) (t_caps th) stk (t_log th @ log))) steps"
      by (simp add: run_Running [OF ex])
    moreover have "finds cx bw stk (t_log th @ log) (t_caps th) L
        (Running (thr (t_pc th) (t_pos th) (t_caps th) stk (t_log th @ log))) steps"
      using p_step by blast
    ultimately show "finds cx bw stk log caps L (Running (thr pc pos caps stk log)) steps"
      using finds_step [OF _ finds_log [OF _ un]] by simp
  qed
next
  case (p_branch bw pc pos caps th fr L1 L2)
  have ex: "exec_insn cx bw (thr pc pos caps [] []) = Continue th"
    using p_branch by blast
  show ?case
  proof (intro allI)
    fix stk and log :: undo_log and steps
    let ?stk = "fr\<lparr>fr_log_mark := length log\<rparr> # stk"
    have "lift_thread stk log th = thr (t_pc th) (t_pos th) caps ?stk log"
      using p_branch by (simp add: lift_thread_def)
    then have "run_loop cx bw (Running (thr pc pos caps stk log)) steps
        = run_loop cx bw (Running (thr (t_pc th) (t_pos th) caps ?stk log)) steps"
      by (simp add: run_Running [OF ex])
    moreover have "finds cx bw ?stk log caps L1 (Running (thr (t_pc th) (t_pos th) caps ?stk log)) steps"
      using p_branch by blast
    ultimately have "finds cx bw ?stk log caps L1 (Running (thr pc pos caps stk log)) steps"
      by (rule finds_step)
    then show "finds cx bw stk log caps (L1 @ L2) (Running (thr pc pos caps stk log)) steps"
      by (rule finds_append) (use p_branch in blast)
  qed
next
  case (p_look_fail bw pc pos caps negate behind entry L)
  have ex: "exec_insn cx bw (thr pc pos caps [] []) = CallLook negate behind entry"
    and vd: "look_verdict negate caps (first_of L) = None"
    using p_look_fail by blast+
  show ?case
  proof (intro allI)
    fix stk and log :: undo_log and steps
    obtain st where "run_loop cx behind (Popping [first_frame entry pos] [] caps) steps = Some (RunOk (first_of L), st)"
      using look_run [of cx behind caps L entry pos steps] p_look_fail by auto
    then show "finds cx bw stk log caps [] (Running (thr pc pos caps stk log)) steps"
      unfolding finds_def list.case
      by (intro exI [of _ "[]"] exI [of _ caps] exI [of _ st]) (simp add: run_Running [OF ex] vd)
  qed
next
  case (p_look bw pc pos caps negate behind entry L upd L')
  have ex: "exec_insn cx bw (thr pc pos caps [] []) = CallLook negate behind entry"
    and vd: "look_verdict negate caps (first_of L) = Some upd" and len: "length upd = length caps"
    using p_look by blast+
  show ?case
  proof (intro allI)
    fix stk and log :: undo_log and steps
    obtain st where st: "run_loop cx behind (Popping [first_frame entry pos] [] caps) steps = Some (RunOk (first_of L), st)"
      using look_run [of cx behind caps L entry pos steps] p_look by auto
    obtain l where l: "apply_look [0..<length caps] upd (thr pc pos caps stk log) = Some (thr pc pos upd stk (l @ log))"
      "undoes l upd caps"
      using apply_look_all [OF len] by blast
    have "run_loop cx bw (Running (thr pc pos caps stk log)) steps
        = run_loop cx bw (Running (thr (Suc pc) pos upd stk (l @ log))) st"
      using vd by (simp add: run_Running [OF ex] st l(1) advance_def)
    moreover have "finds cx bw stk (l @ log) upd L' (Running (thr (Suc pc) pos upd stk (l @ log))) st"
      using p_look by blast
    ultimately show "finds cx bw stk log caps L' (Running (thr pc pos caps stk log)) steps"
      using finds_step [OF _ finds_log [OF _ l(2)]] by simp
  qed
next
  case (f_last bw fr caps L)
  then show ?case
    by (auto simp: run_Popping intro: finds_step)
next
  case (f_chain bw fr fr' caps L1 L2)
  show ?case
  proof (intro allI impI)
    fix stk and log l :: undo_log and caps' steps
    assume un: "undoes l caps' caps"
    let ?stk = "fr'\<lparr>fr_log_mark := length log\<rparr> # stk" and ?m = "Popping (fr\<lparr>fr_log_mark := length log\<rparr> # stk) (l @ log) caps'"
    have "run_loop cx bw ?m steps = run_loop cx bw (Running (thr (fr_pc fr) (fr_pos fr) caps ?stk log)) (steps + 1)"
      using f_chain by (simp add: run_Popping [OF _ un])
    moreover have "finds cx bw ?stk log caps L1 (Running (thr (fr_pc fr) (fr_pos fr) caps ?stk log)) (steps + 1)"
      using f_chain by blast
    ultimately have "finds cx bw ?stk log caps L1 ?m steps"
      by (rule finds_step)
    then show "finds cx bw stk log caps (L1 @ L2) ?m steps"
      by (rule finds_append) (use f_chain in blast)
  qed
qed

theorem run_paths:
  assumes "paths cx bw entry pos caps L" and "cx_limit cx = - 1"
  shows "\<exists>st. run_loop cx bw (Popping [first_frame entry pos] [] caps) steps = Some (RunOk (first_of L), st)"
  using look_run run_paths_aux(1) [OF assms] assms(2) by blast

section \<open>The step limit\<close>

text \<open>A limit below the sentinel \<open>u64::MAX\<close> can only turn the result into \<open>StepLimitExceeded\<close>.\<close>

abbreviation limited :: "64 word \<Rightarrow> matcher \<Rightarrow> matcher" where
  "limited lim cx \<equiv> cx\<lparr>cx_limit := lim\<rparr>"

lemma limited_fields:
  "cx_input (limited lim cx) = cx_input cx" "cx_program (limited lim cx) = cx_program cx"
  by simp_all

lemma limited_tests [simp]:
  "canon (limited lim cx) = canon cx" "char_eq (limited lim cx) = char_eq cx"
  "class_member (limited lim cx) = class_member cx" "at_start (limited lim cx) = at_start cx"
  "at_end (limited lim cx) = at_end cx" "word_boundary (limited lim cx) = word_boundary cx"
  "backref_loop (limited lim cx) = backref_loop cx"
proof -
  show canon: "canon (limited lim cx) = canon cx" by (simp add: canon_def fun_eq_iff)
  have word: "is_word_in (limited lim cx) = is_word_in cx" by (simp add: is_word_in_def fun_eq_iff)
  have "backref_loop (limited lim cx) ic st at n = backref_loop cx ic st at n" for ic st at n
    by (induction n arbitrary: st at) (auto simp: canon split: option.split)
  then show "backref_loop (limited lim cx) = backref_loop cx" by (simp add: fun_eq_iff)
  show "char_eq (limited lim cx) = char_eq cx" "class_member (limited lim cx) = class_member cx"
    "at_start (limited lim cx) = at_start cx" "at_end (limited lim cx) = at_end cx"
    by (simp_all add: fun_eq_iff char_eq_def class_member_def at_start_def at_end_def canon)
  show "word_boundary (limited lim cx) = word_boundary cx"
    unfolding fun_eq_iff word_boundary_def word limited_fields by (rule allI refl)+
qed

lemma limited_insns [simp]:
  "consume (limited lim cx) = consume cx" "exec_char_seq (limited lim cx) = exec_char_seq cx"
  "match_backref (limited lim cx) = match_backref cx" "atom_test (limited lim cx) = atom_test cx"
  unfolding fun_eq_iff consume_def exec_char_seq_def match_backref_def atom_test_def limited_fields limited_tests
  by (rule allI refl)+

lemma exec_insn_limited [simp]: "exec_insn (limited lim cx) bw th = exec_insn cx bw th"
  by (simp add: exec_insn_def exec_repeat_def split: option.split insn.split)

definition same_or_limit :: "(run_result \<times> 64 word) option \<Rightarrow> run_result \<times> 64 word \<Rightarrow> bool" where
  "same_or_limit r y \<longleftrightarrow> r = Some y \<or> (\<exists>st. r = Some (RunErr StepLimitExceeded, st))"

lemma same_or_limit_same [simp]: "same_or_limit (Some y) y"
  by (simp add: same_or_limit_def)

lemma run_loop_limited:
  assumes "run_loop cx bw m steps = Some y" and "cx_limit cx = - 1"
  shows "same_or_limit (run_loop (limited lim cx) bw m steps) y"
  using assms
proof (induction rule: run_loop.raw_induct [rotated, consumes 1])
  case (1 run cx bw m steps y)
  let ?cx = "limited lim cx"
  note IH = 1(1) [OF _ 1(3)]
  show ?case
  proof (cases m)
    case (Popping stk log caps)
    have "\<not> steps + 1 > (- 1 :: 64 word)" by (simp add: not_less)
    moreover have "same_or_limit (Some (RunErr StepLimitExceeded, steps + 1)) y"
      by (simp add: same_or_limit_def)
    ultimately show ?thesis
      using 1(2,3) Popping
      by (subst run_loop.simps) (auto intro: IH split: list.splits option.splits)
  next
    case (Running th)
    show ?thesis
    proof (cases "exec_insn cx bw th")
      case (CallLook negate behind entry)
      let ?m = "Popping [first_frame entry (t_pos th)] [] (t_caps th)"
      obtain r st where r: "run cx behind ?m steps = Some (r, st)"
        using 1(2) Running CallLook by (auto split: Option.bind_splits)
      from IH [OF this] consider (lim) st' where "run_loop ?cx behind ?m steps = Some (RunErr StepLimitExceeded, st')"
        | (same) "run_loop ?cx behind ?m steps = Some (r, st)"
        by (auto simp: same_or_limit_def)
      then show ?thesis
      proof cases
        case lim
        with Running CallLook show ?thesis
          by (subst run_loop.simps) (simp add: same_or_limit_def)
      next
        case same
        with Running CallLook r 1(2) show ?thesis
          by (subst run_loop.simps) (auto intro: IH split: run_result.splits option.splits)
      qed
    next
      case (Continue th')
      with Running 1(2) show ?thesis
        by (subst run_loop.simps) (auto intro: IH)
    next
      case (Break r th')
      with Running 1(2) show ?thesis
        by (subst run_loop.simps) (auto intro: IH split: option.splits)
    next
      case Panicked
      with Running 1(2) show ?thesis
        by (subst run_loop.simps) auto
    qed
  qed
qed

section \<open>Match attempts\<close>

text \<open>The matcher and the initial slots of \<open>attempt\<close>.\<close>

definition attempt_matcher :: "(code_point \<Rightarrow> code_point) \<Rightarrow> program \<Rightarrow> input \<Rightarrow> matcher" where
  "attempt_matcher simple_fold prog inp =
    \<lparr>cx_fold = simple_fold, cx_program = prog, cx_input = inp, cx_limit = - 1\<rparr>"

definition initial_slots :: "program \<Rightarrow> nat \<Rightarrow> slots" where
  "initial_slots prog at = (replicate (slot_count prog) None)[0 := Some at]"

lemma attempt_paths:
  assumes "paths (attempt_matcher simple_fold prog inp) False 0 at (initial_slots prog at) L"
  shows "attempt simple_fold prog inp at \<lparr>step_limit = None\<rparr> = Some (RunOk (first_of L))"
    and "attempt simple_fold prog inp at config \<in> {Some (RunOk (first_of L)), Some (RunErr StepLimitExceeded)}"
proof -
  let ?cx = "attempt_matcher simple_fold prog inp"
  obtain st where run: "run_loop ?cx False (Popping [first_frame 0 at] [] (initial_slots prog at)) 0
      = Some (RunOk (first_of L), st)"
    using run_paths [OF assms] by (auto simp: attempt_matcher_def)
  then show "attempt simple_fold prog inp at \<lparr>step_limit = None\<rparr> = Some (RunOk (first_of L))"
    by (simp add: attempt_def attempt_matcher_def initial_slots_def)
  have "attempt simple_fold prog inp at config
      = map_option fst (run_loop (limited (case step_limit config of None \<Rightarrow> - 1 | Some l \<Rightarrow> l) ?cx)
          False (Popping [first_frame 0 at] [] (initial_slots prog at)) 0)"
    by (simp add: attempt_def attempt_matcher_def initial_slots_def)
  with run_loop_limited [OF run]
  show "attempt simple_fold prog inp at config \<in> {Some (RunOk (first_of L)), Some (RunErr StepLimitExceeded)}"
    by (auto simp: same_or_limit_def attempt_matcher_def)
qed

text \<open>A budget leaves an answer alone or aborts, whatever the program.\<close>

lemma attempt_limited:
  assumes "attempt sf prog inp at \<lparr>step_limit = None\<rparr> = Some r"
  shows "attempt sf prog inp at \<lparr>step_limit = Some l\<rparr> \<in> {Some r, Some (RunErr StepLimitExceeded)}"
proof -
  let ?cx = "attempt_matcher sf prog inp" and ?m = "Popping [first_frame 0 at] [] (initial_slots prog at)"
  from assms obtain st where "run_loop ?cx False ?m 0 = Some (r, st)"
    by (auto simp: attempt_def attempt_matcher_def initial_slots_def Let_def)
  from run_loop_limited [OF this, of l] show ?thesis
    by (auto simp: same_or_limit_def attempt_def attempt_matcher_def initial_slots_def Let_def)
qed

end
