(* ===== verification/Rx_Code.thy ===== *)
theory Rx_Code
  imports Rx_Exec_Correct "HOL-Library.Sublist"
begin

text \<open>
  Code fragments. \<open>frag\<close> says that running from \<open>pc\<close> in a state leaves the fragment at
  \<open>pc'\<close> in exactly the listed states, in this order, whatever the code at \<open>pc'\<close> does. \<open>code\<close>
  abstracts from the progress marks: a fragment implements a function of the semantics on
  the first \<open>B\<close> slots and writes, above them, only the marks in \<open>M\<close>. The rules for sequences,
  branches, jumps, saves, lookarounds and loops are what the emitter proofs use.
\<close>

section \<open>Fragments\<close>

definition frag :: "matcher \<Rightarrow> bool \<Rightarrow> nat \<Rightarrow> nat \<Rightarrow> mstate \<Rightarrow> mstate list \<Rightarrow> bool" where
  "frag cx bw pc pc' s os \<longleftrightarrow>
    (\<forall>Ls. list_all2 (\<lambda>s' L. paths cx bw pc' (fst s') (snd s') L) os Ls \<longrightarrow> paths cx bw pc (fst s) (snd s) (concat Ls))"

lemma fragI:
  "(\<And>Ls. list_all2 (\<lambda>s' L. paths cx bw pc' (fst s') (snd s') L) os Ls \<Longrightarrow> paths cx bw pc (fst s) (snd s) (concat Ls))
    \<Longrightarrow> frag cx bw pc pc' s os"
  by (simp add: frag_def)

lemma fragD:
  "frag cx bw pc pc' s os \<Longrightarrow> list_all2 (\<lambda>s' L. paths cx bw pc' (fst s') (snd s') L) os Ls
    \<Longrightarrow> paths cx bw pc (fst s) (snd s) (concat Ls)"
  by (simp add: frag_def)

lemma frag_refl: "frag cx bw pc pc s [s]"
  by (rule fragI) (auto simp: list_all2_Cons1)

lemma list_all2_concat_split:
  "list_all2 R (concat xss) ys \<Longrightarrow> \<exists>yss. ys = concat yss \<and> list_all2 (list_all2 R) xss yss"
proof (induction xss arbitrary: ys)
  case (Cons xs xss)
  then obtain y1 y2 where y: "ys = y1 @ y2" "list_all2 R xs y1" "list_all2 R (concat xss) y2"
    by (auto simp: list_all2_append1)
  with Cons.IH obtain yss where "y2 = concat yss" "list_all2 (list_all2 R) xss yss"
    by blast
  with y show ?case
    by (intro exI [of _ "y1 # yss"]) simp
qed simp

lemma concat_concat_map: "concat (map concat xss) = concat (concat xss)"
  by (induction xss) simp_all

lemma frag_bind:
  assumes "frag cx bw pc pc1 s os" and "list_all2 (frag cx bw pc1 pc2) os oss"
  shows "frag cx bw pc pc2 s (concat oss)"
proof (rule fragI)
  fix Ls
  assume "list_all2 (\<lambda>s' L. paths cx bw pc2 (fst s') (snd s') L) (concat oss) Ls"
  then obtain Lss where Lss: "Ls = concat Lss"
    "list_all2 (list_all2 (\<lambda>s' L. paths cx bw pc2 (fst s') (snd s') L)) oss Lss"
    using list_all2_concat_split by blast
  have "list_all2 (\<lambda>s' L. paths cx bw pc1 (fst s') (snd s') L) os (map concat Lss)"
  proof (rule list_all2_all_nthI)
    show "length os = length (map concat Lss)"
      using list_all2_lengthD [OF assms(2)] list_all2_lengthD [OF Lss(2)] by simp
    fix i assume i: "i < length os"
    with list_all2_lengthD [OF assms(2)] list_all2_lengthD [OF Lss(2)]
    show "paths cx bw pc1 (fst (os ! i)) (snd (os ! i)) (map concat Lss ! i)"
      using fragD [OF list_all2_nthD [OF assms(2) i] list_all2_nthD [OF Lss(2)]] by simp
  qed
  from fragD [OF assms(1) this] show "paths cx bw pc (fst s) (snd s) (concat Ls)"
    by (simp add: Lss(1) concat_concat_map)
qed

lemma frag_trans: "frag cx bw pc pc1 s [s'] \<Longrightarrow> frag cx bw pc1 pc2 s' os \<Longrightarrow> frag cx bw pc pc2 s os"
  using frag_bind [of cx bw pc pc1 s "[s']" pc2 "[os]"] by simp

lemma frag_fail:
  "exec_insn cx bw (thr pc (fst s) (snd s) [] []) = fail (thr pc (fst s) (snd s) [] []) \<Longrightarrow> frag cx bw pc pc' s []"
  by (rule fragI) (auto simp: fail_def intro: p_fail)

lemma frag_exec:
  assumes "exec_insn cx bw (thr pc (fst s) (snd s) [] []) = Continue (thr pc' (fst s') (snd s') [] l)"
    and "undoes l (snd s') (snd s)"
  shows "frag cx bw pc pc' s [s']"
  using p_step [OF assms(1)] assms(2) by (intro fragI) (auto simp: list_all2_Cons1)

abbreviation insn_at :: "matcher \<Rightarrow> nat \<Rightarrow> insn \<Rightarrow> bool" where
  "insn_at cx pc i \<equiv> get_at (p_insns (cx_program cx)) pc = Some i"

lemma frag_jump:
  assumes "insn_at cx pc (IJump t)"
  shows "frag cx bw pc t s [s]"
  by (rule frag_exec [where l = "[]"]) (simp_all add: exec_insn_def assms)

lemma fpaths_At:
  "fr_resume fr = At \<Longrightarrow> paths cx bw (fr_pc fr) (fr_pos fr) caps L \<Longrightarrow> fpaths cx bw fr caps L"
  by (rule f_last) (simp_all add: chain_frame_def)

lemma frag_split:
  assumes "insn_at cx pc (ISplit a b)" and "frag cx bw a pc' s os1" and "frag cx bw b pc' s os2"
  shows "frag cx bw pc pc' s (os1 @ os2)"
proof (rule fragI)
  fix Ls
  assume "list_all2 (\<lambda>s' L. paths cx bw pc' (fst s') (snd s') L) (os1 @ os2) Ls"
  then obtain L1 L2 where Ls: "Ls = L1 @ L2"
    "list_all2 (\<lambda>s' L. paths cx bw pc' (fst s') (snd s') L) os1 L1"
    "list_all2 (\<lambda>s' L. paths cx bw pc' (fst s') (snd s') L) os2 L2"
    by (auto simp: list_all2_append1)
  have "exec_insn cx bw (thr pc (fst s) (snd s) [] [])
      = Continue (thr a (fst s) (snd s) [\<lparr>fr_pc = b, fr_pos = fst s, fr_log_mark = 0, fr_resume = At\<rparr>] [])"
    by (simp add: exec_insn_def assms(1) push_frame_def)
  then have "paths cx bw pc (fst s) (snd s) (concat L1 @ concat L2)"
    by (rule p_branch) (use fragD [OF assms(2) Ls(2)] fragD [OF assms(3) Ls(3)] in \<open>auto intro: fpaths_At\<close>)
  then show "paths cx bw pc (fst s) (snd s) (concat Ls)"
    by (simp add: Ls(1))
qed

section \<open>Code that implements a function of the semantics\<close>

abbreviation cx_len :: "matcher \<Rightarrow> nat" where
  "cx_len cx \<equiv> length (units (cx_input cx))"

definition restr :: "nat \<Rightarrow> mstate \<Rightarrow> mstate" where
  "restr B s = (fst s, take B (snd s))"

definition keeps :: "nat \<Rightarrow> nat set \<Rightarrow> mstate \<Rightarrow> mstate \<Rightarrow> bool" where
  "keeps B M s s' \<longleftrightarrow> (\<forall>i. B \<le> i \<longrightarrow> i \<notin> M \<longrightarrow> snd s' ! i = snd s ! i)"

text \<open>The exits of a fragment, with the facts every exit has.\<close>

definition exits ::
  "matcher \<Rightarrow> nat \<Rightarrow> nat \<Rightarrow> bool \<Rightarrow> nat \<Rightarrow> nat \<Rightarrow> nat set \<Rightarrow> mstate \<Rightarrow> mstate list \<Rightarrow> mstate list \<Rightarrow> bool" where
  "exits cx B N bw pc pc' M s os sem \<longleftrightarrow>
    frag cx bw pc pc' s os \<and> map (restr B) os = sem
    \<and> (\<forall>s'\<in>set os. ok_state (cx_len cx) N s' \<and> keeps B M s s')"

definition code ::
  "matcher \<Rightarrow> nat \<Rightarrow> nat \<Rightarrow> bool \<Rightarrow> nat \<Rightarrow> nat \<Rightarrow> nat set \<Rightarrow> sem \<Rightarrow> bool" where
  "code cx B N bw pc pc' M f \<longleftrightarrow>
    (\<forall>s. ok_state (cx_len cx) N s \<longrightarrow> (\<exists>os. exits cx B N bw pc pc' M s os (f (restr B s))))"

lemma codeI:
  "(\<And>s. ok_state (cx_len cx) N s \<Longrightarrow> \<exists>os. exits cx B N bw pc pc' M s os (f (restr B s))) \<Longrightarrow> code cx B N bw pc pc' M f"
  by (simp add: code_def)

lemma codeE:
  assumes "code cx B N bw pc pc' M f" and "ok_state (cx_len cx) N s"
  obtains os where "exits cx B N bw pc pc' M s os (f (restr B s))"
  using assms unfolding code_def by blast

lemma keeps_refl [simp]: "keeps B M s s"
  by (simp add: keeps_def)

lemma keeps_trans: "keeps B M s s' \<Longrightarrow> keeps B M s' s'' \<Longrightarrow> keeps B M s s''"
  by (simp add: keeps_def)

lemma keeps_mono: "keeps B M s s' \<Longrightarrow> M \<subseteq> M' \<Longrightarrow> keeps B M' s s'"
  by (auto simp: keeps_def)

lemma fst_restr [simp]: "fst (restr B s) = fst s"
  by (simp add: restr_def)

lemma restr_pair: "restr B (p, c) = (p, take B c)"
  by (simp add: restr_def)

lemma exits_mono: "exits cx B N bw pc pc' M s os sem \<Longrightarrow> M \<subseteq> M' \<Longrightarrow> exits cx B N bw pc pc' M' s os sem"
  by (auto simp: exits_def intro: keeps_mono)

lemma code_mono: "code cx B N bw pc pc' M f \<Longrightarrow> M \<subseteq> M' \<Longrightarrow> code cx B N bw pc pc' M' f"
  unfolding code_def by (meson exits_mono)

lemma ok_slots_take: "ok_slots len c \<Longrightarrow> ok_slots len (take B c)"
  by (auto simp: ok_slots_def dest: in_set_takeD)

lemma ok_restr: "ok_state len N s \<Longrightarrow> B \<le> N \<Longrightarrow> ok_state len B (restr B s)"
  by (simp add: ok_state_def restr_def ok_slots_take)

lemma code_cong:
  assumes "code cx B N bw pc pc' M f" and "B \<le> N" and "\<And>s. ok_state (cx_len cx) B s \<Longrightarrow> f s = g s"
  shows "code cx B N bw pc pc' M g"
  using assms ok_restr [of "cx_len cx" N _ B] by (simp add: code_def)

lemma list_all2_ex: "\<forall>x\<in>set xs. \<exists>y. R x y \<Longrightarrow> \<exists>ys. list_all2 R xs ys"
proof (induction xs)
  case (Cons x xs)
  then obtain y ys where "R x y" "list_all2 R xs ys" by auto
  then show ?case by (intro exI [of _ "y # ys"]) simp
qed (auto intro: exI [of _ "[]"])

lemma exits_bind:
  assumes "exits cx B N bw pc pc1 M s os sem" and "ok_state (cx_len cx) N s"
    and "\<And>s'. s' \<in> set os \<Longrightarrow> ok_state (cx_len cx) N s' \<Longrightarrow> \<exists>os'. exits cx B N bw pc1 pc2 M s' os' (g (restr B s'))"
  shows "\<exists>os. exits cx B N bw pc pc2 M s os (concat (map g sem))"
proof -
  have os: "frag cx bw pc pc1 s os" "sem = map (restr B) os"
    "\<forall>s'\<in>set os. ok_state (cx_len cx) N s' \<and> keeps B M s s'"
    using assms(1) by (auto simp: exits_def)
  obtain oss where oss: "list_all2 (\<lambda>s' os'. exits cx B N bw pc1 pc2 M s' os' (g (restr B s'))) os oss"
    using list_all2_ex [of os "\<lambda>s' os'. exits cx B N bw pc1 pc2 M s' os' (g (restr B s'))"] assms(3) os(3) by blast
  have "frag cx bw pc pc2 s (concat oss)"
    using os(1) oss by (intro frag_bind) (auto simp: exits_def elim: list_all2_mono)
  moreover have "map (restr B) (concat oss) = concat (map g sem)"
    using oss unfolding os(2) by (induction rule: list_all2_induct) (simp_all add: exits_def)
  moreover have "ok_state (cx_len cx) N s'' \<and> keeps B M s s''" if "s'' \<in> set (concat oss)" for s''
  proof -
    from that obtain i where i: "i < length oss" "s'' \<in> set (oss ! i)"
      by (auto simp: in_set_conv_nth [where xs = oss])
    with list_all2_nthD2 [OF oss] list_all2_lengthD [OF oss] obtain s' os' where
      "s' \<in> set os" "exits cx B N bw pc1 pc2 M s' os' (g (restr B s'))" "s'' \<in> set os'"
      by (metis nth_mem)
    with os(3) show ?thesis by (auto simp: exits_def intro: keeps_trans)
  qed
  ultimately show ?thesis by (auto simp: exits_def)
qed

lemma code_seq:
  assumes "code cx B N bw pc pc1 M f" and "code cx B N bw pc1 pc2 M g"
  shows "code cx B N bw pc pc2 M (\<lambda>s. concat (map g (f s)))"
  using assms exits_bind [of cx B N bw pc pc1 M _ _ _ pc2 g] by (meson codeE codeI)

lemma code_empty: "code cx B N bw pc pc M (\<lambda>s. [s])"
  by (rule codeI) (auto simp: exits_def intro!: exI [of _ "[_]"] frag_refl)

lemma code_jump:
  assumes "insn_at cx pc (IJump t)"
  shows "code cx B N bw pc t M (\<lambda>s. [s])"
  using frag_jump [OF assms] by (intro codeI) (auto simp: exits_def intro!: exI [of _ "[_]"])

lemma code_then_jump:
  "code cx B N bw pc pc1 M f \<Longrightarrow> insn_at cx pc1 (IJump t) \<Longrightarrow> code cx B N bw pc t M f"
  using code_seq [OF _ code_jump, of cx B N bw pc pc1 M f t] by simp

lemma code_split:
  assumes "insn_at cx pc (ISplit a b)" and "code cx B N bw a pc' M f" and "code cx B N bw b pc' M g"
  shows "code cx B N bw pc pc' M (\<lambda>s. f s @ g s)"
proof (rule codeI)
  fix s assume s: "ok_state (cx_len cx) N s"
  obtain os1 os2 where "exits cx B N bw a pc' M s os1 (f (restr B s))" "exits cx B N bw b pc' M s os2 (g (restr B s))"
    using assms s by (meson codeE)
  then show "\<exists>os. exits cx B N bw pc pc' M s os (f (restr B s) @ g (restr B s))"
    using frag_split [OF assms(1)] by (intro exI [of _ "os1 @ os2"]) (auto simp: exits_def)
qed

section \<open>Writes and tests\<close>

lemma code_write:
  assumes "insn_at cx pc (ISave i)" and "1 < i" and "i < B" and "B \<le> N"
  shows "code cx B N bw pc (Suc pc) M (\<lambda>s. [(fst s, (snd s)[i := Some (fst s)])])"
proof (rule codeI)
  fix s assume s: "ok_state (cx_len cx) N s"
  let ?s = "(fst s, (snd s)[i := Some (fst s)])"
  have "frag cx bw pc (Suc pc) s [?s]"
    by (rule frag_exec [where l = "[(i, snd s ! i)]"])
      (use s assms in \<open>auto simp: exec_insn_def assms(1) next_insn_def write_slot_def get_at_def advance_def ok_state_def\<close>)
  then have "exits cx B N bw pc (Suc pc) M s [?s] [(fst (restr B s), (snd (restr B s))[i := Some (fst (restr B s))])]"
    using s assms by (auto simp: exits_def restr_def ok_state_def keeps_def ok_slots_update take_update_swap)
  then show "\<exists>os. exits cx B N bw pc (Suc pc) M s os [(fst (restr B s), (snd (restr B s))[i := Some (fst (restr B s))])]"
    by blast
qed

lemma code_clear_capture:
  assumes "insn_at cx pc (IClearCapture g)" and "2 * g + 1 < B" and "B \<le> N"
  shows "code cx B N bw pc (Suc pc) M (\<lambda>s. [(fst s, s_clear [g] (snd s))])"
proof (rule codeI)
  fix s assume s: "ok_state (cx_len cx) N s"
  let ?s = "(fst s, s_clear [g] (snd s))"
  have "frag cx bw pc (Suc pc) s [?s]"
    by (rule frag_exec [where l = "[(2 * g + 1, snd s ! (2 * g + 1)), (2 * g, snd s ! (2 * g))]"])
      (use s assms in \<open>auto simp: exec_insn_def assms(1) next_insn_def write_slot_def get_at_def advance_def ok_state_def
        list_update_swap\<close>)
  then have "exits cx B N bw pc (Suc pc) M s [?s] [(fst (restr B s), s_clear [g] (snd (restr B s)))]"
    using s assms by (auto simp: exits_def restr_def ok_state_def keeps_def ok_slots_update take_update_swap)
  then show "\<exists>os. exits cx B N bw pc (Suc pc) M s os [(fst (restr B s), s_clear [g] (snd (restr B s)))]"
    by blast
qed

text \<open>An instruction that tests the state and falls through.\<close>

lemma code_test:
  assumes "\<And>s. ok_state (cx_len cx) N s \<Longrightarrow>
      exec_insn cx bw (thr pc (fst s) (snd s) [] []) = test_insn (Some (b (restr B s))) (thr pc (fst s) (snd s) [] [])"
  shows "code cx B N bw pc (Suc pc) M (\<lambda>s. if b s then [s] else [])"
proof (rule codeI)
  fix s assume s: "ok_state (cx_len cx) N s"
  show "\<exists>os. exits cx B N bw pc (Suc pc) M s os (if b (restr B s) then [restr B s] else [])"
  proof (cases "b (restr B s)")
    case True
    then have "frag cx bw pc (Suc pc) s [s]"
      by (intro frag_exec [where l = "[]"]) (simp_all add: assms s test_insn_def advance_def)
    with True s show ?thesis by (intro exI [of _ "[s]"]) (simp add: exits_def)
  next
    case False
    then have "frag cx bw pc (Suc pc) s []"
      by (intro frag_fail) (simp add: assms s test_insn_def)
    with False show ?thesis by (intro exI [of _ "[]"]) (simp add: exits_def)
  qed
qed

text \<open>An instruction that moves the offset and changes no slot.\<close>

lemma code_move:
  assumes "\<And>s. ok_state (cx_len cx) N s \<Longrightarrow>
      exec_insn cx bw (thr pc (fst s) (snd s) [] []) =
        (case f (restr B s) of [] \<Rightarrow> fail (thr pc (fst s) (snd s) [] [])
         | s' # _ \<Rightarrow> Continue (thr (Suc pc) (fst s') (snd s) [] []))"
    and "\<And>s. ok_state (cx_len cx) B s \<Longrightarrow> f s = [] \<or> (\<exists>p. f s = [(p, snd s)] \<and> p \<le> cx_len cx)" and "B \<le> N"
  shows "code cx B N bw pc (Suc pc) M f"
proof (rule codeI)
  fix s assume s: "ok_state (cx_len cx) N s"
  consider "f (restr B s) = []" | p where "f (restr B s) = [(p, snd (restr B s))]" "p \<le> cx_len cx"
    using assms(2) [OF ok_restr [OF s assms(3)]] by auto
  then show "\<exists>os. exits cx B N bw pc (Suc pc) M s os (f (restr B s))"
  proof cases
    case 1
    then have "frag cx bw pc (Suc pc) s []"
      by (intro frag_fail) (simp add: assms(1) s)
    with 1 show ?thesis by (intro exI [of _ "[]"]) (simp add: exits_def)
  next
    case 2
    then have "frag cx bw pc (Suc pc) s [(p, snd s)]"
      by (intro frag_exec [where l = "[]"]) (simp_all add: assms(1) s)
    with 2 s show ?thesis
      by (intro exI [of _ "[(p, snd s)]"]) (simp add: exits_def restr_def ok_state_def keeps_def)
  qed
qed

section \<open>Lookaround\<close>

lemma paths_look_match: "insn_at cx pc ILookMatch \<Longrightarrow> paths cx bw pc (fst s) (snd s) [s]"
  using p_accept [of cx bw pc "fst s" "snd s" "fst s" "thr pc (fst s) (snd s) [] []"]
  by (simp add: exec_insn_def get_at_def)

lemma paths_look_body:
  assumes "frag cx bw pc pc' s os" and "insn_at cx pc' ILookMatch"
  shows "paths cx bw pc (fst s) (snd s) os"
proof -
  have "list_all2 (\<lambda>s' L. paths cx bw pc' (fst s') (snd s') L) os (map (\<lambda>s'. [s']) os)"
    using paths_look_match [OF assms(2)] by (simp add: list_all2_conv_all_nth)
  from fragD [OF assms(1) this] show ?thesis by simp
qed

lemma code_look:
  assumes "insn_at cx pc (ILook negate behind entry)" and "code cx B N behind entry pc' M f"
    and "insn_at cx pc' ILookMatch"
  shows "code cx B N bw pc (Suc pc) M (s_look negate f)"
proof (rule codeI)
  fix s assume s: "ok_state (cx_len cx) N s"
  obtain os where os: "exits cx B N behind entry pc' M s os (f (restr B s))"
    using assms(2) s by (rule codeE)
  then have body: "paths cx behind entry (fst s) (snd s) os" and sem: "f (restr B s) = map (restr B) os"
    using paths_look_body assms(3) by (auto simp: exits_def)
  have ex: "exec_insn cx bw (thr pc (fst s) (snd s) [] []) = CallLook negate behind entry"
    by (simp add: exec_insn_def assms(1))
  have ok: "ok_state (cx_len cx) N s' \<and> keeps B M s s'" if "s' \<in> set os" for s'
    using os that by (auto simp: exits_def)
  have go: "frag cx bw pc (Suc pc) s [(fst s, upd)]"
    if "look_verdict negate (snd s) (first_of os) = Some upd" "length upd = length (snd s)" for upd
    using p_look [OF ex body that] by (intro fragI) (auto simp: list_all2_Cons1)
  have stop: "frag cx bw pc (Suc pc) s []" if "look_verdict negate (snd s) (first_of os) = None"
    using p_look_fail [OF ex body that] by (intro fragI) auto
  show "\<exists>os'. exits cx B N bw pc (Suc pc) M s os' (s_look negate f (restr B s))"
  proof (cases os)
    case Nil
    show ?thesis
    proof (cases negate)
      case True
      with Nil go [of "snd s"] s sem show ?thesis
        by (intro exI [of _ "[s]"]) (simp add: exits_def s_look_def look_verdict_def first_of_def)
    next
      case False
      with Nil stop sem show ?thesis
        by (intro exI [of _ "[]"]) (simp add: exits_def s_look_def look_verdict_def first_of_def)
    qed
  next
    case (Cons s' os')
    show ?thesis
    proof (cases negate)
      case True
      with Cons stop sem show ?thesis
        by (intro exI [of _ "[]"]) (simp add: exits_def s_look_def look_verdict_def first_of_def restr_def)
    next
      case False
      with Cons go [of "snd s'"] s sem ok [of s'] show ?thesis
        by (intro exI [of _ "[(fst s, snd s')]"])
          (simp add: exits_def s_look_def look_verdict_def first_of_def restr_def ok_state_def keeps_def
            split: prod.split)
    qed
  qed
qed

section \<open>Optional iterations\<close>

definition pref :: "bool \<Rightarrow> 'a list \<Rightarrow> 'a \<Rightarrow> 'a list" where
  "pref greedy xs s = (if greedy then xs @ [s] else s # xs)"

lemma s_opt_Suc: "s_opt f greedy (Suc n) s =
    pref greedy (concat (map (s_opt f greedy n) (filter (\<lambda>s'. fst s' \<noteq> fst s) (f s)))) s"
  by (simp add: pref_def Let_def)

lemma s_opt_unfold:
  assumes "good len n bw f" and "ok_state len n s"
  shows "s_opt f greedy len s =
    pref greedy (concat (map (s_opt f greedy len) (filter (\<lambda>s'. fst s' \<noteq> fst s) (f s)))) s"
proof -
  have "s_opt f greedy len s = s_opt f greedy (Suc len) s"
    using assms by (intro s_opt_enough [OF assms(1)]) (auto simp: ok_state_def room_def)
  then show ?thesis by (simp only: s_opt_Suc)
qed

lemma exits_pref:
  assumes "insn_at cx pc (split_pref greedy body out)" and "exits cx B N bw body out M s os sem"
    and "ok_state (cx_len cx) N s"
  shows "exits cx B N bw pc out M s (pref greedy os s) (pref greedy sem (restr B s))"
proof (cases greedy)
  case True
  with assms frag_split [of cx pc body out bw out s os "[s]"] show ?thesis
    by (auto simp: exits_def pref_def split_pref_def frag_refl)
next
  case False
  with assms frag_split [of cx pc out body bw out s "[s]" os] show ?thesis
    by (auto simp: exits_def pref_def split_pref_def frag_refl)
qed

text \<open>The progress test after an iteration that started with its offset in the mark.\<close>

lemma exits_check:
  assumes "exits cx B N bw body chk M s os sem" and "insn_at cx chk (ICheckProgress m)"
    and "snd s ! m = Some (fst s)" and "B \<le> m" and "m < N" and "m \<notin> M"
  shows "exits cx B N bw body (Suc chk) M s (filter (\<lambda>s'. fst s' \<noteq> fst s) os) (filter (\<lambda>s'. fst s' \<noteq> fst s) sem)"
proof -
  have chk: "frag cx bw chk (Suc chk) s' (if fst s' \<noteq> fst s then [s'] else [])" if "s' \<in> set os" for s'
  proof -
    have "snd s' ! m = Some (fst s)" "length (snd s') = N"
      using assms that by (auto simp: exits_def keeps_def ok_state_def)
    then have "exec_insn cx bw (thr chk (fst s') (snd s') [] [])
        = test_insn (Some (fst s \<noteq> fst s')) (thr chk (fst s') (snd s') [] [])"
      using assms by (auto simp: exec_insn_def assms(2) get_at_def)
    then show ?thesis
      by (cases "fst s' = fst s")
        (auto simp: test_insn_def advance_def intro: frag_fail frag_exec [where l = "[]"])
  qed
  have "list_all2 (frag cx bw chk (Suc chk)) os (map (\<lambda>s'. if fst s' \<noteq> fst s then [s'] else []) os)"
    using chk by (simp add: list_all2_conv_all_nth)
  then have "frag cx bw body (Suc chk) s (concat (map (\<lambda>s'. if fst s' \<noteq> fst s then [s'] else []) os))"
    using assms(1) by (intro frag_bind) (auto simp: exits_def)
  moreover have "concat (map (\<lambda>s'. if P s' then [s'] else []) os) = filter P os" for P
    by (induction os) auto
  moreover have "map (restr B) (filter (\<lambda>s'. fst s' \<noteq> fst s) os) = filter (\<lambda>s'. fst s' \<noteq> fst s) sem"
    using assms(1) by (auto simp: exits_def filter_map comp_def)
  ultimately show ?thesis
    using assms(1) by (auto simp: exits_def)
qed

lemma exits_mark:
  assumes "insn_at cx pc (ISetMark m)" and "ok_state (cx_len cx) N s" and "B \<le> m" and "m < N"
  shows "exits cx B N bw pc (Suc pc) {m} s [(fst s, (snd s)[m := Some (fst s)])] [restr B s]"
proof -
  have "frag cx bw pc (Suc pc) s [(fst s, (snd s)[m := Some (fst s)])]"
    by (rule frag_exec [where l = "[(m, snd s ! m)]"])
      (use assms in \<open>auto simp: exec_insn_def assms(1) next_insn_def write_slot_def get_at_def advance_def ok_state_def\<close>)
  with assms show ?thesis
    by (auto simp: exits_def restr_def ok_state_def keeps_def ok_slots_update)
qed

text \<open>One round of a loop: the iterations that progressed continue at \<open>pc'\<close>.\<close>

lemma exits_round:
  assumes "good (cx_len cx) B bw f" and "ok_state (cx_len cx) N s" and "B \<le> N"
    and "exits cx B N bw body pc' M s os (filter (\<lambda>s'. fst s' \<noteq> fst s) (f (restr B s)))"
    and "\<And>s'. ok_state (cx_len cx) N s' \<Longrightarrow> room (cx_len cx) bw s' < room (cx_len cx) bw s \<Longrightarrow>
      \<exists>os'. exits cx B N bw pc' out M s' os' (g (restr B s'))"
  shows "\<exists>os. exits cx B N bw body out M s os
    (concat (map g (filter (\<lambda>s'. fst s' \<noteq> fst s) (f (restr B s)))))"
proof (rule exits_bind [OF assms(4,2)])
  fix s' assume s': "s' \<in> set os" "ok_state (cx_len cx) N s'"
  then have "restr B s' \<in> set (filter (\<lambda>s'. fst s' \<noteq> fst s) (f (restr B s)))"
    using assms(4) unfolding exits_def by (metis image_eqI list.set_map)
  then have "restr B s' \<in> set (f (restr B s))" "fst s' \<noteq> fst s" by auto
  moreover have "moves bw (restr B s) (restr B s')"
    using goodD [OF assms(1) ok_restr [OF assms(2,3)]] calculation by blast
  ultimately have "room (cx_len cx) bw s' < room (cx_len cx) bw s"
    using room_less [of bw s s' "cx_len cx"] assms(2) s' by (cases bw) (auto simp: ok_state_def moves_def)
  with assms(5) s' show "\<exists>os'. exits cx B N bw pc' out M s' os' (g (restr B s'))" by blast
qed

lemma strict_filter:
  "strict len n f \<Longrightarrow> ok_state len n s \<Longrightarrow> filter (\<lambda>s'. fst s' \<noteq> fst s) (f s) = f s"
  by (auto simp: filter_id_conv dest: strictD)

lemma code_star:
  assumes "insn_at cx back (split_pref greedy body out)" and "code cx B N bw body back M f"
    and "good (cx_len cx) B bw f" and "strict (cx_len cx) B f" and "B \<le> N"
  shows "code cx B N bw back out M (s_opt f greedy (cx_len cx))"
proof (rule codeI)
  fix s assume "ok_state (cx_len cx) N s"
  then show "\<exists>os. exits cx B N bw back out M s os (s_opt f greedy (cx_len cx) (restr B s))"
  proof (induction "room (cx_len cx) bw s" arbitrary: s rule: less_induct)
    case less
    note ok = ok_restr [OF less.prems assms(5)]
    obtain os where "exits cx B N bw body back M s os (f (restr B s))"
      using assms(2) less.prems by (rule codeE)
    then have "exits cx B N bw body back M s os (filter (\<lambda>s'. fst s' \<noteq> fst s) (f (restr B s)))"
      using strict_filter [OF assms(4) ok] by simp
    from exits_round [OF assms(3) less.prems assms(5) this less.hyps] obtain os' where
      "exits cx B N bw body out M s os'
        (concat (map (s_opt f greedy (cx_len cx)) (filter (\<lambda>s'. fst s' \<noteq> fst s) (f (restr B s)))))"
      by blast
    from exits_pref [OF assms(1) this less.prems] show ?case
      unfolding s_opt_unfold [OF assms(3) ok] fst_restr by blast
  qed
qed

lemma code_star_enter:
  assumes "insn_at cx entry (split_pref greedy body out)" and "insn_at cx back (split_pref greedy body out)"
    and "code cx B N bw body back M f"
    and "good (cx_len cx) B bw f" and "strict (cx_len cx) B f" and "B \<le> N"
  shows "code cx B N bw entry out M (s_opt f greedy (cx_len cx))"
proof (rule codeI)
  fix s assume s: "ok_state (cx_len cx) N s"
  note ok = ok_restr [OF s assms(6)]
  have "code cx B N bw body out M (\<lambda>s. concat (map (s_opt f greedy (cx_len cx)) (f s)))"
    using code_seq [OF assms(3) code_star [OF assms(2-6)]] .
  then obtain os where "exits cx B N bw body out M s os
      (concat (map (s_opt f greedy (cx_len cx)) (f (restr B s))))"
    using s by (rule codeE)
  from exits_pref [OF assms(1) this s]
  show "\<exists>os. exits cx B N bw entry out M s os (s_opt f greedy (cx_len cx) (restr B s))"
    using s_opt_unfold [OF assms(4) ok] strict_filter [OF assms(5) ok] by auto
qed

lemma exits_trans:
  assumes "exits cx B N bw pc pc1 M s [s'] [restr B s]" and "exits cx B N bw pc1 pc2 M s' os sem"
  shows "exits cx B N bw pc pc2 M s os sem"
  using assms frag_trans [of cx bw pc pc1 s s' pc2 os] by (auto simp: exits_def intro: keeps_trans)

lemma exits_then_jump:
  assumes "exits cx B N bw pc pc1 M s os sem" and "insn_at cx pc1 (IJump t)"
  shows "exits cx B N bw pc t M s os sem"
proof -
  have "list_all2 (frag cx bw pc1 t) os (map (\<lambda>s. [s]) os)"
    using frag_jump [OF assms(2)] by (simp add: list_all2_conv_all_nth)
  from frag_bind [OF _ this] assms(1) show ?thesis by (auto simp: exits_def)
qed

lemma code_star_marked:
  assumes "insn_at cx head (ISetMark m)" and "insn_at cx (Suc head) (split_pref greedy (Suc (Suc head)) out)"
    and "code cx B N bw (Suc (Suc head)) chk M f" and "insn_at cx chk (ICheckProgress m)"
    and "insn_at cx (Suc chk) (IJump head)"
    and "good (cx_len cx) B bw f" and "B \<le> m" and "m < N" and "m \<notin> M"
  shows "code cx B N bw head out (insert m M) (s_opt f greedy (cx_len cx))"
proof (rule codeI)
  have "B \<le> N" using assms by simp
  fix s assume "ok_state (cx_len cx) N s"
  then show "\<exists>os. exits cx B N bw head out (insert m M) s os (s_opt f greedy (cx_len cx) (restr B s))"
  proof (induction "room (cx_len cx) bw s" arbitrary: s rule: less_induct)
    case less
    let ?s = "(fst s, (snd s)[m := Some (fst s)])"
    note ok = ok_restr [OF less.prems \<open>B \<le> N\<close>]
    have mark: "exits cx B N bw head (Suc head) (insert m M) s [?s] [restr B s]"
      using exits_mark [OF assms(1) less.prems assms(7,8)] by (rule exits_mono) simp
    then have s: "ok_state (cx_len cx) N ?s" "restr B ?s = restr B s" by (auto simp: exits_def)
    obtain os where "exits cx B N bw (Suc (Suc head)) chk M ?s os (f (restr B ?s))"
      using assms(3) s(1) by (rule codeE)
    then have "exits cx B N bw (Suc (Suc head)) (Suc chk) M ?s (filter (\<lambda>s'. fst s' \<noteq> fst ?s) os)
        (filter (\<lambda>s'. fst s' \<noteq> fst ?s) (f (restr B ?s)))"
      using assms less.prems by (intro exits_check) (auto simp: ok_state_def)
    then have "exits cx B N bw (Suc (Suc head)) head (insert m M) ?s (filter (\<lambda>s'. fst s' \<noteq> fst ?s) os)
        (filter (\<lambda>s'. fst s' \<noteq> fst ?s) (f (restr B ?s)))"
      by (intro exits_then_jump [OF _ assms(5)]) (auto intro: exits_mono)
    moreover have "\<exists>os'. exits cx B N bw head out (insert m M) s' os' (s_opt f greedy (cx_len cx) (restr B s'))"
      if "ok_state (cx_len cx) N s'" "room (cx_len cx) bw s' < room (cx_len cx) bw ?s" for s'
      using less.hyps [of s'] that by (cases bw) (simp_all add: room_def)
    ultimately have "\<exists>os'. exits cx B N bw (Suc (Suc head)) out (insert m M) ?s os'
        (concat (map (s_opt f greedy (cx_len cx)) (filter (\<lambda>s'. fst s' \<noteq> fst ?s) (f (restr B ?s)))))"
      by (rule exits_round [OF assms(6) s(1) \<open>B \<le> N\<close>])
    then obtain os' where "exits cx B N bw (Suc (Suc head)) out (insert m M) ?s os'
        (concat (map (s_opt f greedy (cx_len cx)) (filter (\<lambda>s'. fst s' \<noteq> fst s) (f (restr B s)))))"
      using s(2) by auto
    from exits_trans [OF mark exits_pref [OF assms(2) this s(1)]] show ?case
      unfolding s_opt_unfold [OF assms(6) ok] fst_restr s(2) by blast
  qed
qed

lemma code_opt_0: "code cx B N bw pc pc M (s_opt f greedy 0)"
  using code_empty [of cx B N bw pc M] by (simp add: s_opt.simps [abs_def])

lemma code_opt_Suc:
  assumes "insn_at cx pc (split_pref greedy (Suc pc) out)"
    and "code cx B N bw (Suc pc) pc1 M (\<lambda>s. filter (\<lambda>s'. fst s' \<noteq> fst s) (f s))"
    and "code cx B N bw pc1 out M (s_opt f greedy n)"
  shows "code cx B N bw pc out M (s_opt f greedy (Suc n))"
proof (rule codeI)
  fix s assume s: "ok_state (cx_len cx) N s"
  obtain os where "exits cx B N bw (Suc pc) out M s os
      (concat (map (s_opt f greedy n) (filter (\<lambda>s'. fst s' \<noteq> fst (restr B s)) (f (restr B s)))))"
    using code_seq [OF assms(2,3)] s by (rule codeE)
  from exits_pref [OF assms(1) this s] show "\<exists>os. exits cx B N bw pc out M s os (s_opt f greedy (Suc n) (restr B s))"
    unfolding s_opt_Suc by blast
qed

lemma code_guarded:
  assumes "insn_at cx pc (ISetMark m)" and "code cx B N bw (Suc pc) chk M f"
    and "insn_at cx chk (ICheckProgress m)" and "B \<le> m" and "m < N" and "m \<notin> M"
  shows "code cx B N bw pc (Suc chk) (insert m M) (\<lambda>s. filter (\<lambda>s'. fst s' \<noteq> fst s) (f s))"
proof (rule codeI)
  fix s assume s: "ok_state (cx_len cx) N s"
  let ?s = "(fst s, (snd s)[m := Some (fst s)])"
  have mark: "exits cx B N bw pc (Suc pc) (insert m M) s [?s] [restr B s]"
    using exits_mark [OF assms(1) s assms(4,5)] by (rule exits_mono) simp
  then have s': "ok_state (cx_len cx) N ?s" "restr B ?s = restr B s" by (auto simp: exits_def)
  obtain os where "exits cx B N bw (Suc pc) chk M ?s os (f (restr B ?s))"
    using assms(2) s'(1) by (rule codeE)
  then have "exits cx B N bw (Suc pc) (Suc chk) M ?s (filter (\<lambda>s'. fst s' \<noteq> fst ?s) os)
      (filter (\<lambda>s'. fst s' \<noteq> fst ?s) (f (restr B ?s)))"
    using assms s by (intro exits_check) (auto simp: ok_state_def)
  then have "exits cx B N bw (Suc pc) (Suc chk) (insert m M) ?s (filter (\<lambda>s'. fst s' \<noteq> fst s) os)
      (filter (\<lambda>s'. fst s' \<noteq> fst (restr B s)) (f (restr B s)))"
    using s'(2) by (auto intro: exits_mono)
  from exits_trans [OF mark this]
  show "\<exists>os. exits cx B N bw pc (Suc chk) (insert m M) s os (filter (\<lambda>s'. fst s' \<noteq> fst (restr B s)) (f (restr B s)))"
    by blast
qed

section \<open>Fused repeats\<close>

text \<open>The offset after \<open>k\<close> single-unit steps, and a maximal run of units that pass a test.\<close>

definition walk :: "bool \<Rightarrow> nat \<Rightarrow> nat \<Rightarrow> nat" where
  "walk bw p k = (if bw then p - k else p + k)"

definition unit_ok :: "(code_unit \<Rightarrow> bool) \<Rightarrow> code_unit list \<Rightarrow> bool \<Rightarrow> nat \<Rightarrow> bool" where
  "unit_ok t us bw p \<longleftrightarrow> (if bw then 0 < p \<and> p \<le> length us \<and> t (us ! (p - 1)) else p < length us \<and> t (us ! p))"

definition run_of :: "(code_unit \<Rightarrow> bool) \<Rightarrow> code_unit list \<Rightarrow> bool \<Rightarrow> nat \<Rightarrow> nat \<Rightarrow> bool" where
  "run_of t us bw p r \<longleftrightarrow> (if bw then r \<le> p else p + r \<le> length us)
    \<and> (\<forall>k<r. unit_ok t us bw (walk bw p k)) \<and> \<not> unit_ok t us bw (walk bw p r)"

lemma walk_simps [simp]:
  "walk bw p 0 = p" "walk bw (walk bw p k) j = walk bw p (k + j)"
  by (simp_all add: walk_def)

lemma repeat_scan_run:
  assumes "p \<le> length us"
  shows "\<exists>r. repeat_scan t us bw p = Some (walk bw p r) \<and> run_of t us bw p r"
  using assms
proof (induction t us bw p rule: repeat_scan.induct)
  case (1 t us bw p)
  show ?case
  proof (cases "unit_ok t us bw p")
    case False
    then have "repeat_scan t us bw p = Some p"
      using "1.prems" by (subst repeat_scan.simps) (auto simp: unit_ok_def Let_def split: if_splits)
    with False "1.prems" show ?thesis
      by (intro exI [of _ 0]) (cases bw, simp_all add: run_of_def walk_def)
  next
    case True
    let ?q = "walk bw p 1"
    have ih: "\<exists>r. repeat_scan t us bw ?q = Some (walk bw ?q r) \<and> run_of t us bw ?q r"
      using 1 True by (auto simp: unit_ok_def walk_def split: if_splits)
    then obtain r where r: "repeat_scan t us bw ?q = Some (walk bw ?q r)" "run_of t us bw ?q r" by blast
    have eq: "repeat_scan t us bw p = repeat_scan t us bw ?q"
      using True "1.prems" by (subst repeat_scan.simps) (auto simp: unit_ok_def walk_def Let_def split: if_splits)
    have "unit_ok t us bw (walk bw p k)" if "k < Suc r" for k
      using True r(2) that by (cases k) (auto simp: run_of_def)
    moreover have "if bw then Suc r \<le> p else p + Suc r \<le> length us"
      using r(2) True by (cases bw) (auto simp: run_of_def walk_def unit_ok_def)
    ultimately show ?thesis
      using r by (intro exI [of _ "Suc r"]) (auto simp: eq run_of_def)
  qed
qed

lemma walk_inj: "run_of t us bw p r \<Longrightarrow> j \<le> r \<Longrightarrow> k \<le> r \<Longrightarrow> walk bw p j = walk bw p k \<longleftrightarrow> j = k"
  by (auto simp: run_of_def walk_def split: if_splits)

lemma walk_bound: "run_of t us bw p r \<Longrightarrow> p \<le> length us \<Longrightarrow> k \<le> r \<Longrightarrow> walk bw p k \<le> length us"
  by (auto simp: run_of_def walk_def split: if_splits)

text \<open>The semantics of a single-unit step, and of its repetitions, along a run.\<close>

definition unit_step :: "(code_unit \<Rightarrow> bool) \<Rightarrow> code_unit list \<Rightarrow> bool \<Rightarrow> sem" where
  "unit_step t us bw s = (if unit_ok t us bw (fst s) then [(walk bw (fst s) 1, snd s)] else [])"

lemma unit_step_times:
  assumes "run_of t us bw p r"
  shows "k \<le> r \<Longrightarrow> s_times (unit_step t us bw) m (walk bw p k, c) =
    (if k + m \<le> r then [(walk bw p (k + m), c)] else [])"
proof (induction m arbitrary: k)
  case (Suc m)
  show ?case
  proof (cases "k = r")
    case False
    with Suc.prems assms have "unit_step t us bw (walk bw p k, c) = [(walk bw p (Suc k), c)]"
      by (simp add: unit_step_def run_of_def)
    with Suc.IH [of "Suc k"] Suc.prems False show ?thesis by simp
  qed (use assms in \<open>simp add: unit_step_def run_of_def\<close>)
qed simp

lemma upt_pref:
  "k < r \<Longrightarrow> map f (rev [k..<Suc r]) = map f (rev [Suc k..<Suc r]) @ [f k]"
  "k < r \<Longrightarrow> map f [k..<Suc r] = f k # map f [Suc k..<Suc r]"
  by (simp_all add: upt_conv_Cons [of k "Suc r"] del: upt_Suc)

lemma unit_step_opt:
  assumes "run_of t us bw p r"
  shows "k \<le> r \<Longrightarrow> r - k \<le> n \<Longrightarrow> s_opt (unit_step t us bw) greedy n (walk bw p k, c) =
    map (\<lambda>j. (walk bw p j, c)) (if greedy then rev [k..<Suc r] else [k..<Suc r])"
proof (induction n arbitrary: k)
  case (Suc n)
  show ?case
  proof (cases "k = r")
    case True
    with assms show ?thesis by (simp add: unit_step_def run_of_def)
  next
    case False
    then have k: "k < r" using Suc.prems by simp
    have "unit_step t us bw (walk bw p k, c) = [(walk bw p (Suc k), c)]"
      using k assms by (simp add: unit_step_def run_of_def)
    then have "s_opt (unit_step t us bw) greedy (Suc n) (walk bw p k, c)
        = pref greedy (s_opt (unit_step t us bw) greedy n (walk bw p (Suc k), c)) (walk bw p k, c)"
      using k walk_inj [OF assms, of "Suc k" k] by (simp add: s_opt_Suc del: s_opt.simps)
    with Suc.IH [of "Suc k"] Suc.prems k show ?thesis
      by (cases greedy) (simp_all add: pref_def upt_pref del: upt_Suc s_opt.simps)
  qed
qed simp

text \<open>The frames a fused repeat chains.\<close>

lemma greedy_frames:
  assumes "run_of t us bw p r"
  shows "mn \<le> j \<Longrightarrow> j \<le> r \<Longrightarrow>
    list_all2 (\<lambda>j L. paths cx bw pc (walk bw p j) c L) (rev [mn..<Suc j]) Ls \<Longrightarrow>
    fpaths cx bw \<lparr>fr_pc = pc, fr_pos = walk bw p j, fr_log_mark = l, fr_resume = RepeatGreedy (walk bw p mn)\<rparr> c (concat Ls)"
proof (induction j arbitrary: Ls)
  case 0
  then show ?case
    by (auto simp: list_all2_Cons1 chain_frame_def intro: f_last)
next
  case (Suc j)
  let ?fr = "\<lambda>j. \<lparr>fr_pc = pc, fr_pos = walk bw p j, fr_log_mark = l, fr_resume = RepeatGreedy (walk bw p mn)\<rparr>"
  show ?case
  proof (cases "mn = Suc j")
    case True
    with Suc.prems have "chain_frame bw (?fr (Suc j)) = Some []" by (simp add: chain_frame_def)
    with True Suc.prems show ?thesis by (auto simp: list_all2_Cons1 intro: f_last)
  next
    case False
    with Suc.prems have mn: "mn \<le> j" by simp
    with Suc.prems obtain L Ls' where Ls: "Ls = L # Ls'" "paths cx bw pc (walk bw p (Suc j)) c L"
      "list_all2 (\<lambda>j L. paths cx bw pc (walk bw p j) c L) (rev [mn..<Suc j]) Ls'"
      by (auto simp: list_all2_Cons1)
    have "chain_frame bw (?fr (Suc j)) = Some [?fr j]"
      using walk_inj [OF assms, of "Suc j" mn] Suc.prems mn assms
      by (auto simp: chain_frame_def step_def walk_def run_of_def)
    with Suc.IH [OF mn _ Ls(3)] Suc.prems Ls show ?thesis
      by (auto intro: f_chain)
  qed
qed

lemma lazy_frames:
  assumes "run_of t us bw p r"
  shows "j \<le> r \<Longrightarrow>
    list_all2 (\<lambda>j L. paths cx bw pc (walk bw p j) c L) [j..<Suc r] Ls \<Longrightarrow>
    fpaths cx bw \<lparr>fr_pc = pc, fr_pos = walk bw p j, fr_log_mark = l, fr_resume = RepeatLazy (walk bw p r)\<rparr> c (concat Ls)"
proof (induction "r - j" arbitrary: j Ls)
  case 0
  then have "j = r" by simp
  with 0 show ?case
    by (auto simp: list_all2_Cons1 chain_frame_def intro: f_last)
next
  case (Suc d)
  let ?fr = "\<lambda>j. \<lparr>fr_pc = pc, fr_pos = walk bw p j, fr_log_mark = l, fr_resume = RepeatLazy (walk bw p r)\<rparr>"
  have j: "j < r" using Suc by simp
  with Suc.prems obtain L Ls' where Ls: "Ls = L # Ls'" "paths cx bw pc (walk bw p j) c L"
    "list_all2 (\<lambda>j L. paths cx bw pc (walk bw p j) c L) [Suc j..<Suc r] Ls'"
    by (auto simp: upt_conv_Cons [of j "Suc r"] list_all2_Cons1 simp del: upt_Suc)
  have "chain_frame bw (?fr j) = Some [?fr (Suc j)]"
    using walk_inj [OF assms, of j r] j assms
    by (auto simp: chain_frame_def step_def walk_def run_of_def)
  with Suc.hyps(1) [of "Suc j" Ls'] Suc.hyps(2) j Ls show ?case
    by (auto intro: f_chain)
qed

lemma exec_repeat_run:
  assumes "atom_test cx atom = Some t" and "p \<le> cx_len cx" and "run_of t (units (cx_input cx)) bw p r"
    and "repeat_scan t (units (cx_input cx)) bw p = Some (walk bw p r)"
  shows "exec_repeat cx bw atom mn greedy poss (thr pc p c [] []) =
    (if r < mn then fail (thr pc p c [] [])
     else if greedy \<and> (poss \<or> r = mn) then Continue (thr (Suc pc) (walk bw p r) c [] [])
     else if greedy then Continue (thr (Suc pc) (walk bw p r) c
         [\<lparr>fr_pc = Suc pc, fr_pos = walk bw p (r - 1), fr_log_mark = 0, fr_resume = RepeatGreedy (walk bw p mn)\<rparr>] [])
     else if r = mn then Continue (thr (Suc pc) (walk bw p mn) c [] [])
     else Continue (thr (Suc pc) (walk bw p mn) c
         [\<lparr>fr_pc = Suc pc, fr_pos = walk bw p (Suc mn), fr_log_mark = 0, fr_resume = RepeatLazy (walk bw p r)\<rparr>] []))"
proof -
  have d: "abs_diff p (walk bw p r) = r"
    using assms(3) by (auto simp: abs_diff_def walk_def run_of_def split: if_splits)
  show ?thesis
  proof (cases "r < mn")
    case True
    with d show ?thesis by (simp add: exec_repeat_def assms)
  next
    case False
    then have mn: "mn \<le> r" by simp
    have low: "step p mn bw = Some (walk bw p mn)" "step (walk bw p mn) (Suc 0) bw = Some (walk bw p (Suc mn))" if "mn < r"
      using assms(3) that by (auto simp: step_def walk_def run_of_def split: if_splits)
    have low': "step p mn bw = Some (walk bw p mn)"
      using assms(3) mn by (auto simp: step_def walk_def run_of_def split: if_splits)
    have high: "step (walk bw p r) (Suc 0) (\<not> bw) = Some (walk bw p (r - Suc 0))" if "mn < r"
      using assms(3) that by (auto simp: step_def walk_def run_of_def split: if_splits)
    have eq: "walk bw p r = walk bw p mn \<longleftrightarrow> r = mn" using walk_inj [OF assms(3)] mn by simp
    show ?thesis
      using mn d low low' high eq
      by (cases "r = mn") (auto simp: exec_repeat_def assms push_frame_def advance_def)
  qed
qed

lemma frag_fused:
  assumes "insn_at cx pc (IRepeat atom mn greedy False)" and "atom_test cx atom = Some t"
    and "fst s \<le> cx_len cx" and "run_of t (units (cx_input cx)) bw (fst s) r"
    and "repeat_scan t (units (cx_input cx)) bw (fst s) = Some (walk bw (fst s) r)" and "mn \<le> r"
  shows "frag cx bw pc (Suc pc) s
    (map (\<lambda>j. (walk bw (fst s) j, snd s)) (if greedy then rev [mn..<Suc r] else [mn..<Suc r]))"
proof (rule fragI)
  fix Ls
  let ?R = "\<lambda>j L. paths cx bw (Suc pc) (walk bw (fst s) j) (snd s) L"
  assume "list_all2 (\<lambda>s' L. paths cx bw (Suc pc) (fst s') (snd s') L)
    (map (\<lambda>j. (walk bw (fst s) j, snd s)) (if greedy then rev [mn..<Suc r] else [mn..<Suc r])) Ls"
  then have Ls: "list_all2 ?R (if greedy then rev [mn..<Suc r] else [mn..<Suc r]) Ls"
    by (simp add: list_all2_map1 del: upt_Suc)
  have ex: "exec_insn cx bw (thr pc (fst s) (snd s) [] []) =
      exec_repeat cx bw atom mn greedy False (thr pc (fst s) (snd s) [] [])"
    by (simp add: exec_insn_def assms(1))
  note run = exec_repeat_run [OF assms(2-5), of mn greedy False pc "snd s"]
  show "paths cx bw pc (fst s) (snd s) (concat Ls)"
  proof (cases "r = mn")
    case True
    with Ls obtain L where L: "Ls = [L]" "?R r L" by (auto simp: list_all2_Cons1 split: if_splits)
    have "exec_insn cx bw (thr pc (fst s) (snd s) [] []) = Continue (thr (Suc pc) (walk bw (fst s) r) (snd s) [] [])"
      using True run ex by simp
    then show ?thesis
      by (rule p_step) (simp_all add: L)
  next
    case False
    with assms(6) have mn: "mn < r" by simp
    show ?thesis
    proof (cases greedy)
      case True
      obtain L Ls' where L: "Ls = L # Ls'" "?R r L" "list_all2 ?R (rev [mn..<r]) Ls'"
        using Ls True mn by (auto simp: list_all2_Cons1)
      then have "fpaths cx bw \<lparr>fr_pc = Suc pc, fr_pos = walk bw (fst s) (r - 1), fr_log_mark = 0,
          fr_resume = RepeatGreedy (walk bw (fst s) mn)\<rparr> (snd s) (concat Ls')"
        using mn by (intro greedy_frames [OF assms(4)]) auto
      moreover have "exec_insn cx bw (thr pc (fst s) (snd s) [] []) = Continue (thr (Suc pc) (walk bw (fst s) r) (snd s)
          [\<lparr>fr_pc = Suc pc, fr_pos = walk bw (fst s) (r - 1), fr_log_mark = 0, fr_resume = RepeatGreedy (walk bw (fst s) mn)\<rparr>] [])"
        using ex run True mn by simp
      ultimately show ?thesis
        using L(1,2) p_branch by fastforce
    next
      case False
      obtain L Ls' where L: "Ls = L # Ls'" "?R mn L" "list_all2 ?R [Suc mn..<Suc r] Ls'"
        using Ls False mn by (auto simp: upt_conv_Cons [of mn "Suc r"] list_all2_Cons1 simp del: upt_Suc)
      then have "fpaths cx bw \<lparr>fr_pc = Suc pc, fr_pos = walk bw (fst s) (Suc mn), fr_log_mark = 0,
          fr_resume = RepeatLazy (walk bw (fst s) r)\<rparr> (snd s) (concat Ls')"
        using mn by (intro lazy_frames [OF assms(4)]) auto
      moreover have "exec_insn cx bw (thr pc (fst s) (snd s) [] []) = Continue (thr (Suc pc) (walk bw (fst s) mn) (snd s)
          [\<lparr>fr_pc = Suc pc, fr_pos = walk bw (fst s) (Suc mn), fr_log_mark = 0, fr_resume = RepeatLazy (walk bw (fst s) r)\<rparr>] [])"
        using ex run False mn by simp
      ultimately show ?thesis
        using L(1,2) p_branch by fastforce
    qed
  qed
qed

lemma code_fused:
  assumes "insn_at cx pc (IRepeat atom mn greedy False)" and "atom_test cx atom = Some t" and "B \<le> N"
  shows "code cx B N bw pc (Suc pc) M
    (\<lambda>s. concat (map (s_opt (unit_step t (units (cx_input cx)) bw) greedy (cx_len cx))
      (s_times (unit_step t (units (cx_input cx)) bw) mn s)))"
proof (rule codeI)
  fix s assume s: "ok_state (cx_len cx) N s"
  let ?us = "units (cx_input cx)" and ?p = "fst s"
  obtain r where r: "repeat_scan t ?us bw ?p = Some (walk bw ?p r)" "run_of t ?us bw ?p r"
    using repeat_scan_run [of ?p ?us t bw] s by (auto simp: ok_state_def)
  have times: "s_times (unit_step t ?us bw) mn (restr B s) = (if mn \<le> r then [(walk bw ?p mn, take B (snd s))] else [])"
    using unit_step_times [OF r(2), of 0 mn "take B (snd s)"] by (simp add: restr_def)
  let ?f = "\<lambda>s. concat (map (s_opt (unit_step t ?us bw) greedy (cx_len cx)) (s_times (unit_step t ?us bw) mn s))"
  show "\<exists>os. exits cx B N bw pc (Suc pc) M s os (?f (restr B s))"
  proof (cases "mn \<le> r")
    case True
    define js where "js = (if greedy then rev [mn..<Suc r] else [mn..<Suc r])"
    have "r - mn \<le> cx_len cx"
      using r(2) s by (auto simp: run_of_def ok_state_def split: if_splits)
    then have sem: "?f (restr B s) = map (\<lambda>j. (walk bw ?p j, take B (snd s))) js"
      using True times unit_step_opt [OF r(2) True, of "cx_len cx" greedy "take B (snd s)"] by (simp add: js_def)
    have frag: "frag cx bw pc (Suc pc) s (map (\<lambda>j. (walk bw ?p j, snd s)) js)"
      unfolding js_def using s True by (intro frag_fused [OF assms(1,2) _ r(2,1)]) (auto simp: ok_state_def)
    have "walk bw ?p j \<le> cx_len cx" if "j \<in> set js" for j
      using walk_bound [OF r(2)] s that by (auto simp: ok_state_def js_def split: if_splits)
    with s have "exits cx B N bw pc (Suc pc) M s (map (\<lambda>j. (walk bw ?p j, snd s)) js) (?f (restr B s))"
      unfolding sem exits_def using frag by (auto simp: restr_def ok_state_def keeps_def)
    then show ?thesis by blast
  next
    case False
    then have "frag cx bw pc (Suc pc) s []"
      using exec_repeat_run [OF assms(2) _ r(2,1), of mn greedy False pc "snd s"] s
      by (intro frag_fail) (simp add: exec_insn_def assms(1) ok_state_def)
    with False times show ?thesis by (intro exI [of _ "[]"]) (simp add: exits_def)
  qed
qed

end
