(* ===== verification/Rx_Atoms.thy ===== *)
theory Rx_Atoms
  imports Rx_Code
begin

text \<open>
  The instructions that test or consume the subject implement the atoms of the semantics:
  literals, fused literal runs, classes, assertions, backreferences and fused repeats.
\<close>

section \<open>The environment of a matcher\<close>

definition env_of :: "matcher \<Rightarrow> senv" where
  "env_of cx = \<lparr>s_input = cx_input cx, s_unicode = p_unicode (cx_program cx), s_fold = cx_fold cx\<rparr>"

lemma env_of_simps [simp]:
  "s_input (env_of cx) = cx_input cx" "s_unicode (env_of cx) = p_unicode (cx_program cx)"
  "s_fold (env_of cx) = cx_fold cx"
  by (simp_all add: env_of_def)

text \<open>The subject is UTF-16 and is traversed in the mode the program was compiled for.\<close>

definition ok_matcher :: "matcher \<Rightarrow> bool" where
  "ok_matcher cx \<longleftrightarrow> utf16 (units (cx_input cx)) \<and> code_point_mode (cx_input cx) = p_unicode (cx_program cx)"

lemma canon_env: "canon cx = s_canon (env_of cx)"
  by (simp add: canon_def s_canon_def fun_eq_iff)

lemma char_eq_env: "char_eq cx c cp ic = s_char_test (env_of cx) c ic cp"
  by (simp add: char_eq_def s_char_test_def canon_env)

section \<open>Single characters\<close>

lemma utf16_MAX_CP: "utf16 us \<Longrightarrow> i < length us \<Longrightarrow> us ! i \<le> MAX_CP"
  using utf16_nth [of us i] by (simp add: MAX_CP_def)

lemma decode_dir_MAX_CP:
  assumes "decode_dir inp p bw = Some (Some (cp, w))" and "utf16 (units inp)"
  shows "cp \<le> MAX_CP"
proof (cases bw)
  case True
  with assms show ?thesis
    by (auto simp: decode_dir_def decode_back_def prev_codepoint_def utf16_MAX_CP
        intro: combine_surrogates_bounds split: option.splits if_splits)
next
  case False
  with assms show ?thesis
    by (auto simp: decode_dir_def decode_def utf16_MAX_CP intro: combine_surrogates_bounds
        split: option.splits if_splits)
qed

lemma consume_s_char:
  assumes "ok_matcher cx" and "p \<le> cx_len cx" and "\<And>cp. cp \<le> MAX_CP \<Longrightarrow> t cp = test cp"
  shows "consume cx bw t (thr pc p c [] []) =
    (case s_char (env_of cx) bw test (p, c') of
       [] \<Rightarrow> fail (thr pc p c [] []) | s' # _ \<Rightarrow> Continue (thr (Suc pc) (fst s') c [] []))"
proof -
  obtain r where r: "decode_dir (cx_input cx) p bw = Some r"
    using decode_dir_total [OF assms(2)] by blast
  show ?thesis
  proof (cases r)
    case (Some a)
    then obtain cp w where d: "decode_dir (cx_input cx) p bw = Some (Some (cp, w))" using r by (cases a) auto
    have u: "utf16 (units (cx_input cx))" using assms(1) by (simp add: ok_matcher_def)
    have "step p w bw = Some (if bw then p - w else p + w)"
      using decode_dir_bounds [OF d u] by (auto simp: step_def)
    with d assms(3) [OF decode_dir_MAX_CP [OF d u]] show ?thesis
      by (simp add: consume_def s_char_def advance_def)
  qed (simp add: consume_def s_char_def r)
qed

lemma s_char_move:
  assumes "ok_matcher cx" and "ok_state (cx_len cx) B s"
  shows "s_char (env_of cx) bw test s = [] \<or> (\<exists>p. s_char (env_of cx) bw test s = [(p, snd s)] \<and> p \<le> cx_len cx)"
proof (cases "s_char (env_of cx) bw test s")
  case (Cons s' ss)
  have "ss = []" using Cons by (auto simp: s_char_def split: option.splits if_splits)
  moreover have "snd s' = snd s \<and> fst s' \<le> cx_len cx"
    using s_char_step [of s' "env_of cx" bw test s] Cons assms by (auto simp: ok_matcher_def ok_state_def)
  ultimately show ?thesis using Cons by (cases s') auto
qed simp

lemma code_consume:
  assumes "ok_matcher cx" and "B \<le> N" and "\<And>cp. cp \<le> MAX_CP \<Longrightarrow> t cp = test cp"
    and "\<And>p c. p \<le> cx_len cx \<Longrightarrow> exec_insn cx bw (thr pc p c [] []) = consume cx bw t (thr pc p c [] [])"
  shows "code cx B N bw pc (Suc pc) M (s_char (env_of cx) bw test)"
proof (rule code_move)
  fix s assume s: "ok_state (cx_len cx) N s"
  then have p: "fst s \<le> cx_len cx" by (simp add: ok_state_def)
  show "exec_insn cx bw (thr pc (fst s) (snd s) [] []) =
      (case s_char (env_of cx) bw test (restr B s) of [] \<Rightarrow> fail (thr pc (fst s) (snd s) [] [])
       | s' # _ \<Rightarrow> Continue (thr (Suc pc) (fst s') (snd s) [] []))"
    using consume_s_char [OF assms(1) p assms(3), where c' = "take B (snd s)"] assms(4) [OF p]
    by (simp add: restr_def)
qed (use s_char_move [OF assms(1)] assms(2) in auto)

lemma code_char:
  assumes "ok_matcher cx" and "B \<le> N" and "insn_at cx pc (IChar c ic)"
  shows "code cx B N bw pc (Suc pc) M (s_char (env_of cx) bw (s_char_test (env_of cx) c ic))"
  by (rule code_consume [OF assms(1,2), of "\<lambda>cp. char_eq cx c cp ic"])
    (simp_all add: char_eq_env exec_insn_def assms(3))

lemma code_any:
  assumes "ok_matcher cx" and "B \<le> N" and "insn_at cx pc (IAnyChar da)"
  shows "code cx B N bw pc (Suc pc) M (s_char (env_of cx) bw (s_any_test da))"
  by (rule code_consume [OF assms(1,2), of "\<lambda>cp. da \<or> \<not> is_line_terminator cp"])
    (simp_all add: s_any_test_def exec_insn_def assms(3))

lemma code_class:
  assumes "ok_matcher cx" and "B \<le> N" and "insn_at cx pc (IClass k negate ic)"
    and "get_at (p_classes (cx_program cx)) k = Some cs"
    and "\<And>cp. cp \<le> MAX_CP \<Longrightarrow> class_member cx cs negate cp ic = test cp"
  shows "code cx B N bw pc (Suc pc) M (s_char (env_of cx) bw test)"
proof (rule code_consume [OF assms(1,2,5)])
  fix p c assume "p \<le> cx_len cx"
  then obtain r where "decode_dir (cx_input cx) p bw = Some r" using decode_dir_total by blast
  then show "exec_insn cx bw (thr pc p c [] []) = consume cx bw (\<lambda>cp. class_member cx cs negate cp ic) (thr pc p c [] [])"
    by (simp add: exec_insn_def assms(3,4) consume_def split: option.split)
qed

section \<open>Fused literal runs\<close>

definition plain_unit :: "code_unit \<Rightarrow> bool" where
  "plain_unit u \<longleftrightarrow> u < 0x10000 \<and> \<not> (0xD800 \<le> u \<and> u \<le> 0xDFFF)"

abbreviation s_unit :: "senv \<Rightarrow> bool \<Rightarrow> code_unit \<Rightarrow> sem" where
  "s_unit env bw u \<equiv> s_char env bw (s_char_test env u False)"

lemma s_unit_forward:
  assumes "plain_unit u"
  shows "s_unit env False u (p, c) =
    (if p < subject_length env \<and> units (s_input env) ! p = u then [(Suc p, c)] else [])"
  using assms
  by (auto simp: s_char_def decode_dir_def decode_def s_char_test_def get_at_def plain_unit_def
      combine_surrogates_def is_high_surrogate_def is_low_surrogate_def)

lemma s_unit_backward:
  assumes "plain_unit u"
  shows "s_unit env True u (p, c) =
    (if 0 < p \<and> p \<le> subject_length env \<and> units (s_input env) ! (p - 1) = u then [(p - 1, c)] else [])"
  using assms
  by (auto simp: s_char_def decode_dir_def decode_back_def prev_codepoint_def s_char_test_def get_at_def plain_unit_def
      combine_surrogates_def is_high_surrogate_def is_low_surrogate_def)

lemma slice_Cons: "i < length xs \<Longrightarrow> slice xs i (Suc n) = xs ! i # slice xs (Suc i) n"
  by (simp add: slice_def Cons_nth_drop_Suc [symmetric])

lemma slice_snoc: "i + n < length xs \<Longrightarrow> slice xs i (Suc n) = slice xs i n @ [xs ! (i + n)]"
  by (simp add: slice_def take_Suc_conv_app_nth)

lemma s_units_forward:
  assumes "list_all plain_unit us"
  shows "p \<le> subject_length env \<Longrightarrow> s_seq (map (s_unit env False) us) (p, c) =
    (if p + length us \<le> subject_length env \<and> slice (units (s_input env)) p (length us) = us
     then [(p + length us, c)] else [])"
  using assms
proof (induction us arbitrary: p)
  case Nil
  then show ?case by (simp add: slice_def)
next
  case (Cons u us)
  then have u: "s_unit env False u (p, c) =
    (if p < subject_length env \<and> units (s_input env) ! p = u then [(Suc p, c)] else [])"
    by (intro s_unit_forward) simp
  show ?case
  proof (cases "p < subject_length env")
    case True
    with Cons.IH [of "Suc p"] Cons.prems show ?thesis
      by (auto simp: u slice_Cons)
  qed (simp add: u)
qed

lemma s_units_backward:
  assumes "list_all plain_unit us"
  shows "p \<le> subject_length env \<Longrightarrow> s_seq (map (s_unit env True) us) (p, c) =
    (if length us \<le> p \<and> slice (units (s_input env)) (p - length us) (length us) = rev us
     then [(p - length us, c)] else [])"
  using assms
proof (induction us arbitrary: p)
  case Nil
  then show ?case by (simp add: slice_def)
next
  case (Cons u us)
  then have u: "s_unit env True u (p, c) =
    (if 0 < p \<and> p \<le> subject_length env \<and> units (s_input env) ! (p - 1) = u then [(p - 1, c)] else [])"
    by (intro s_unit_backward) simp
  show ?case
  proof (cases "length (u # us) \<le> p")
    case True
    then have "slice (units (s_input env)) (p - Suc (length us)) (Suc (length us))
        = slice (units (s_input env)) (p - Suc (length us)) (length us) @ [units (s_input env) ! (p - 1)]"
      using slice_snoc [of "p - Suc (length us)" "length us" "units (s_input env)"] Cons.prems by simp
    with Cons.IH [of "p - 1"] Cons.prems True show ?thesis
      by (auto simp: u)
  next
    case False
    with Cons.IH [of "p - 1"] Cons.prems show ?thesis
      by (auto simp: u)
  qed
qed

lemma code_char_seq:
  assumes "B \<le> N" and "insn_at cx pc (ICharSeq (if bw then rev run else run))" and "list_all plain_unit run"
  shows "code cx B N bw pc (Suc pc) M (s_seq (map (s_unit (env_of cx) bw) run))"
proof (rule code_move [OF _ _ assms(1)])
  let ?us = "units (cx_input cx)" and ?n = "length run"
  have sem: "s_seq (map (s_unit (env_of cx) bw) run) (p, c) =
    (if bw then (if ?n \<le> p \<and> slice ?us (p - ?n) ?n = rev run then [(p - ?n, c)] else [])
     else (if p + ?n \<le> cx_len cx \<and> slice ?us p ?n = run then [(p + ?n, c)] else []))" if "p \<le> cx_len cx" for p c
    using s_units_forward [OF assms(3), of p "env_of cx"] s_units_backward [OF assms(3), of p "env_of cx"] that by simp
  fix s
  show "exec_insn cx bw (thr pc (fst s) (snd s) [] []) =
      (case s_seq (map (s_unit (env_of cx) bw) run) (restr B s) of [] \<Rightarrow> fail (thr pc (fst s) (snd s) [] [])
       | s' # _ \<Rightarrow> Continue (thr (Suc pc) (fst s') (snd s) [] []))" if "ok_state (cx_len cx) N s"
    using that sem [of "fst s" "take B (snd s)"]
    by (cases bw) (auto simp: exec_insn_def assms(2) exec_char_seq_def restr_def slice_def advance_def ok_state_def Let_def)
  show "s_seq (map (s_unit (env_of cx) bw) run) s = []
      \<or> (\<exists>p. s_seq (map (s_unit (env_of cx) bw) run) s = [(p, snd s)] \<and> p \<le> cx_len cx)" if "ok_state (cx_len cx) B s"
    using that sem [of "fst s" "snd s"] by (auto simp: ok_state_def split: if_splits)
qed

section \<open>Assertions\<close>

lemma prev_codepoint_total: "p \<le> length (units inp) \<Longrightarrow> \<exists>r. prev_codepoint inp p = Some r"
  by (auto simp: prev_codepoint_def split: option.splits)

definition assertion_holds :: "matcher \<Rightarrow> assertion \<Rightarrow> nat \<Rightarrow> bool checked" where
  "assertion_holds cx a p =
    (case a of
       StartOfLine ml \<Rightarrow> at_start cx p ml
     | EndOfLine ml \<Rightarrow> Some (at_end cx p ml)
     | WordBoundary invert ic \<Rightarrow> map_option (\<lambda>b. b \<noteq> invert) (word_boundary cx p ic))"

lemma assertion_holds_sem:
  assumes "fst s \<le> cx_len cx"
  shows "assertion_holds cx a (fst s) = Some (s_assert (env_of cx) a s = [s])"
proof -
  obtain prev where "prev_codepoint (cx_input cx) (fst s) = Some prev"
    using prev_codepoint_total [of "fst s" "cx_input cx"] assms by auto
  with assms show ?thesis
    by (cases a; cases prev; cases "decode (cx_input cx) (fst s)")
      (auto simp: assertion_holds_def s_assert_def Let_def at_start_def at_end_def word_boundary_def is_word_in_def)
qed

lemma code_assertion:
  assumes "insn_at cx pc (compile_assertion a)"
  shows "code cx B N bw pc (Suc pc) M (s_assert (env_of cx) a)"
proof -
  let ?b = "\<lambda>s. s_assert (env_of cx) a s = [s]"
  have "s_assert (env_of cx) a = (\<lambda>s. if ?b s then [s] else [])"
    by (auto simp: fun_eq_iff s_assert_def Let_def)
  moreover have "exec_insn cx bw (thr pc (fst s) (snd s) [] []) = test_insn (Some (?b (restr B s))) (thr pc (fst s) (snd s) [] [])"
    if "ok_state (cx_len cx) N s" for s
  proof -
    have "exec_insn cx bw (thr pc (fst s) (snd s) [] []) = test_insn (assertion_holds cx a (fst s)) (thr pc (fst s) (snd s) [] [])"
      by (cases a) (simp_all add: exec_insn_def assms compile_assertion_def assertion_holds_def)
    with assertion_holds_sem [of "restr B s" cx a] that show ?thesis by (simp add: ok_state_def)
  qed
  ultimately show ?thesis
    using code_test [of cx N bw pc ?b B M] by simp
qed

section \<open>Backreferences\<close>

lemma backref_loop_slices:
  assumes "b + n \<le> cx_len cx" and "at + n \<le> cx_len cx"
  shows "backref_loop cx ic b at n =
    Some (list_all2 (\<lambda>x y. s_char_test (env_of cx) y ic x) (slice (units (cx_input cx)) b n) (slice (units (cx_input cx)) at n))"
  using assms
proof (induction n arbitrary: b at)
  case 0
  then show ?case by (simp add: slice_def)
next
  case (Suc n)
  then have "b < cx_len cx" "at < cx_len cx" by simp_all
  with Suc.IH [of "Suc b" "Suc at"] Suc.prems show ?case
    by (auto simp: slice_Cons get_at_def s_char_test_def canon_env)
qed

lemma find_span_restr: "list_all (\<lambda>g. 2 * g + 1 < B) gs \<Longrightarrow> B \<le> length c \<Longrightarrow> find_span (take B c) gs = find_span c gs"
  by (induction gs) (auto simp: group_span_def get_at_def split: option.split)

lemma find_span_ok: "find_span c gs = Some (b, e) \<Longrightarrow> ok_slots len c \<Longrightarrow> b \<le> len \<and> e \<le> len"
proof (induction gs)
  case (Cons g gs)
  show ?case
  proof (cases "group_span c g")
    case (Some se)
    with Cons.prems have "Suc (2 * g) < length c" "c ! (2 * g) = Some b" "c ! Suc (2 * g) = Some e"
      by (auto simp: group_span_def get_at_def split: option.splits if_splits)
    then have "Some b \<in> set c" "Some e \<in> set c"
      using nth_mem [of "2 * g" c] nth_mem [of "Suc (2 * g)" c] by simp_all
    with Cons.prems show ?thesis by (auto simp: ok_slots_def)
  qed (use Cons in auto)
qed simp

lemma match_backref_sem:
  assumes "ok_state (cx_len cx) N s" and "list_all (\<lambda>g. 2 * g + 1 < B) gs" and "B \<le> N"
  shows "match_backref cx gs (fst s) (snd s) ic bw =
    Some (case s_backref (env_of cx) bw gs ic (restr B s) of [] \<Rightarrow> None | s' # _ \<Rightarrow> Some (fst s'))"
proof (cases "find_span (snd s) gs")
  case None
  with find_span_restr [OF assms(2), of "snd s"] assms(1,3) show ?thesis
    by (simp add: match_backref_def s_backref_def restr_def ok_state_def)
next
  case (Some be)
  then obtain b e where be: "find_span (snd s) gs = Some (b, e)" by (cases be) auto
  have le: "b \<le> cx_len cx" "e \<le> cx_len cx" "fst s \<le> cx_len cx"
    using find_span_ok [OF be] assms(1) by (auto simp: ok_state_def)
  have span: "find_span (snd (restr B s)) gs = Some (b, e)"
    using find_span_restr [OF assms(2), of "snd s"] assms(1,3) be by (simp add: restr_def ok_state_def)
  let ?n = "e - b" and ?at = "if bw then fst s - (e - b) else fst s"
  have loop: "backref_loop cx ic b ?at ?n = Some (list_all2 (\<lambda>x y. s_char_test (env_of cx) y ic x)
      (slice (units (cx_input cx)) b ?n) (slice (units (cx_input cx)) ?at ?n))"
    if "?at + ?n \<le> cx_len cx"
    by (rule backref_loop_slices) (use that le in auto)
  show ?thesis
  proof (cases "?n = 0")
    case True
    with be span le show ?thesis
      by (auto simp: match_backref_def s_backref_def slice_def)
  next
    case False
    with be span loop le show ?thesis
      by (cases bw) (auto simp: match_backref_def s_backref_def Let_def not_less)
  qed
qed

lemma code_backref:
  assumes "insn_at cx pc (IBackRef gs ic)" and "list_all (\<lambda>g. 2 * g + 1 < B) gs" and "B \<le> N"
  shows "code cx B N bw pc (Suc pc) M (s_backref (env_of cx) bw gs ic)"
proof (rule code_move [OF _ _ assms(3)])
  fix s
  show "exec_insn cx bw (thr pc (fst s) (snd s) [] []) =
      (case s_backref (env_of cx) bw gs ic (restr B s) of [] \<Rightarrow> fail (thr pc (fst s) (snd s) [] [])
       | s' # _ \<Rightarrow> Continue (thr (Suc pc) (fst s') (snd s) [] []))" if "ok_state (cx_len cx) N s"
    using match_backref_sem [OF that assms(2,3), of ic bw]
    by (simp add: exec_insn_def assms(1) advance_def split: list.split)
  show "s_backref (env_of cx) bw gs ic s = []
      \<or> (\<exists>p. s_backref (env_of cx) bw gs ic s = [(p, snd s)] \<and> p \<le> cx_len cx)" if "ok_state (cx_len cx) B s"
    using that by (cases s) (auto simp: s_backref_def Let_def ok_state_def split: option.split)
qed

section \<open>Fused repeats\<close>

lemma s_char_unit_step:
  assumes "ok_matcher cx" and "\<not> p_unicode (cx_program cx)" and "\<And>u. u < 0x10000 \<Longrightarrow> t u = test u"
  shows "s_char (env_of cx) bw test = unit_step t (units (cx_input cx)) bw"
proof
  fix s
  have u: "u < 0x10000" if "u \<in> set (units (cx_input cx))" for u
    using assms(1) that by (simp add: ok_matcher_def utf16_def list_all_iff)
  show "s_char (env_of cx) bw test s = unit_step t (units (cx_input cx)) bw s"
  proof (cases bw)
    case True
    with assms u [OF nth_mem [of "fst s - 1"]] show ?thesis
      by (auto simp: s_char_def decode_dir_def decode_back_def prev_codepoint_def unit_step_def unit_ok_def walk_def
          ok_matcher_def get_at_def)
  next
    case False
    with assms u [OF nth_mem [of "fst s"]] show ?thesis
      by (auto simp: s_char_def decode_dir_def decode_def unit_step_def unit_ok_def walk_def ok_matcher_def get_at_def)
  qed
qed

end
