(* ===== verification/Rx_Emit.thy ===== *)
theory Rx_Emit
  imports Rx_Atoms
begin

text \<open>
  Correctness of the emitter. \<open>grows\<close> collects what every emission routine does to the emitter:
  it appends instructions and classes, allocates marks upwards and leaves the direction alone.
  \<open>emits\<close> says that a routine, whatever it has emitted before, produces code for a function of
  the semantics once its instructions are installed in the program; the rules below establish it
  for each routine of the emitter, and \<open>emits_compile\<close> for every well-formed node.
\<close>

section \<open>Growth of the emitter\<close>

definition grows :: "emitter \<Rightarrow> emitter \<Rightarrow> bool" where
  "grows e e' \<longleftrightarrow> prefix (e_insns e) (e_insns e') \<and> prefix (e_classes e) (e_classes e')
    \<and> e_next_mark e \<le> e_next_mark e' \<and> e_unicode e' = e_unicode e \<and> e_backward e' = e_backward e"

definition growing :: "emit_fn \<Rightarrow> bool" where
  "growing cmp \<longleftrightarrow> (\<forall>e. grows e (cmp e))"

lemma growsD:
  assumes "grows e e'"
  shows "here e \<le> here e'" "prefix (e_insns e) (e_insns e')" "prefix (e_classes e) (e_classes e')"
    "e_next_mark e \<le> e_next_mark e'" "e_unicode e' = e_unicode e" "e_backward e' = e_backward e"
  using assms by (auto simp: grows_def here_def prefix_length_le)

lemma growingD: "growing cmp \<Longrightarrow> grows e (cmp e)"
  by (simp add: growing_def)

lemma growingI: "(\<And>e. grows e (cmp e)) \<Longrightarrow> growing cmp"
  by (simp add: growing_def)

lemma grows_refl [simp]: "grows e e"
  by (simp add: grows_def)

lemma grows_trans [trans]: "grows e e' \<Longrightarrow> grows e' e'' \<Longrightarrow> grows e e''"
  by (auto simp: grows_def intro: prefix_order.trans)

lemma grows_nth: "grows e e' \<Longrightarrow> pc < here e \<Longrightarrow> e_insns e' ! pc = e_insns e ! pc"
  by (auto simp: grows_def here_def prefix_def nth_append)

lemma here_emit [simp]: "here (emit i e) = Suc (here e)"
  by (simp add: here_def emit_def)

lemma here_patch [simp]: "here (patch k i e) = here e"
  by (simp add: here_def patch_def)

lemma emit_fields [simp]:
  "e_classes (emit i e) = e_classes e" "e_next_mark (emit i e) = e_next_mark e"
  "e_unicode (emit i e) = e_unicode e" "e_backward (emit i e) = e_backward e"
  "e_insns (emit i e) = e_insns e @ [i]"
  by (simp_all add: emit_def)

lemma patch_fields [simp]:
  "e_classes (patch k i e) = e_classes e" "e_next_mark (patch k i e) = e_next_mark e"
  "e_unicode (patch k i e) = e_unicode e" "e_backward (patch k i e) = e_backward e"
  "e_insns (patch k i e) = (e_insns e)[k := i]"
  by (simp_all add: patch_def)

lemma grows_emit [simp]: "grows e (emit i e)"
  by (simp add: grows_def)

lemma grows_emitI: "grows e e' \<Longrightarrow> grows e (emit i e')"
  using grows_trans grows_emit by blast

lemma grows_patch: "grows e e' \<Longrightarrow> here e \<le> k \<Longrightarrow> grows e (patch k i e')"
  by (auto simp: grows_def here_def prefix_def list_update_append)

lemma growing_comp: "growing f \<Longrightarrow> growing g \<Longrightarrow> growing (\<lambda>e. g (f e))"
  by (meson grows_trans growing_def)

lemma growing_emit [simp]: "growing (emit i)"
  by (simp add: growing_def)

lemma growing_id [simp]: "growing (\<lambda>e. e)"
  by (simp add: growing_def)

lemma growing_funpow: "growing f \<Longrightarrow> growing (f ^^ n)"
  by (induction n) (auto simp: growing_def comp_def intro: grows_trans)

lemma growing_clear: "growing (clear_captures gs)"
proof (induction gs rule: rev_induct)
  case (snoc g gs)
  then show ?case by (auto simp: clear_captures_def growing_def intro: grows_emitI)
qed (simp add: clear_captures_def growing_def)

lemma growing_flush: "growing (flush_char_run run)"
  by (auto simp: flush_char_run_def growing_def Let_def split: list.split)

lemma growing_intern: "grows e (snd (intern_class cs e))"
  by (simp add: intern_class_def grows_def)

lemma growing_new_mark: "grows e (snd (new_mark e))"
  by (simp add: new_mark_def grows_def)

lemma growing_concat_loop: "\<forall>(n, cmp)\<in>set ns. growing cmp \<Longrightarrow> grows e (concat_loop ns run e)"
proof (induction ns arbitrary: run e)
  case Nil
  then show ?case by (simp add: growingD growing_flush)
next
  case (Cons a ns)
  obtain n cmp where a: "a = (n, cmp)" by force
  show ?case
  proof (cases "fusible_literal n")
    case None
    have "grows e (flush_char_run run e)" by (simp add: growingD growing_flush)
    also have "grows \<dots> (cmp (flush_char_run run e))" using Cons.prems a by (simp add: growingD)
    also have "grows \<dots> (concat_loop ns [] (cmp (flush_char_run run e)))" using Cons by simp
    finally show ?thesis by (simp add: a None)
  qed (use Cons a in simp)
qed

text \<open>Patching a list of positions.\<close>

definition patches :: "(nat \<Rightarrow> insn) \<Rightarrow> nat list \<Rightarrow> emit_fn" where
  "patches \<phi> js e = foldl (\<lambda>e j. patch j (\<phi> j) e) e js"

lemma patches_fields [simp]:
  "e_classes (patches \<phi> js e) = e_classes e" "e_next_mark (patches \<phi> js e) = e_next_mark e"
  "e_unicode (patches \<phi> js e) = e_unicode e" "e_backward (patches \<phi> js e) = e_backward e"
  "here (patches \<phi> js e) = here e"
  by (induction js arbitrary: e) (simp_all add: patches_def)

lemma length_patches [simp]: "length (e_insns (patches \<phi> js e)) = length (e_insns e)"
  using patches_fields(5) [of \<phi> js e] unfolding here_def .

lemma patches_nth: "pc < here e \<Longrightarrow> e_insns (patches \<phi> js e) ! pc = (if pc \<in> set js then \<phi> pc else e_insns e ! pc)"
proof (induction js arbitrary: e)
  case (Cons j js)
  then have "e_insns (patches \<phi> (j # js) e) ! pc = e_insns (patches \<phi> js (patch j (\<phi> j) e)) ! pc"
    by (simp add: patches_def)
  with Cons show ?case by (auto simp: nth_list_update here_def)
qed (simp add: patches_def)

lemma grows_patches: "grows e e' \<Longrightarrow> \<forall>j\<in>set js. here e \<le> j \<Longrightarrow> grows e (patches \<phi> js e')"
  by (induction js arbitrary: e') (auto simp: patches_def grows_patch)

lemma alternation_loop_grows:
  assumes "\<forall>cmp\<in>set alts. growing cmp" and "alternation_loop alts xs e = (xs', e')"
  shows "grows e e' \<and> (\<exists>new. xs' = xs @ new \<and> (\<forall>j\<in>set new. here e \<le> j \<and> j < here e'))"
  using assms
proof (induction alts xs e arbitrary: xs' e' rule: alternation_loop.induct)
  case (2 alt exits e)
  then show ?case by (auto simp: growingD)
next
  case (3 alt v va exits e)
  let ?e1 = "emit (ISplit 0 0) e"
  let ?e3 = "emit (IJump 0) (alt ?e1)"
  let ?e4 = "patch (here e) (ISplit (here ?e1) (here ?e3)) ?e3"
  have g1: "grows ?e1 (alt ?e1)" using "3.prems" by (simp add: growingD)
  have g: "grows e ?e4"
    by (intro grows_patch grows_emitI) (auto intro: grows_trans [OF grows_emit g1])
  have "alternation_loop (v # va) (exits @ [here (alt ?e1)]) ?e4 = (xs', e')"
    using "3.prems" by (simp only: alternation_loop.simps Let_def)
  from "3.IH" [OF refl refl refl refl refl refl refl refl _ this]
  obtain new where "grows ?e4 e'" "xs' = (exits @ [here (alt ?e1)]) @ new" "\<forall>j\<in>set new. here ?e4 \<le> j \<and> j < here e'"
    using "3.prems" by auto
  with g growsD(1) [OF g1] growsD(1) [OF \<open>grows ?e4 e'\<close>] show ?case
    by (auto intro: grows_trans)
qed auto

lemma compile_alternation_patches:
  "compile_alternation alts e =
    (case alternation_loop alts [] e of (xs, e1) \<Rightarrow> patches (\<lambda>_. IJump (here e1)) xs e1)"
  by (auto simp: compile_alternation_def patches_def Let_def split: prod.split list.split)

lemma growing_alternation: "\<forall>cmp\<in>set alts. growing cmp \<Longrightarrow> growing (compile_alternation alts)"
  using alternation_loop_grows [of alts "[]"]
  by (intro growingI) (fastforce simp: compile_alternation_patches intro: grows_patches split: prod.split)

lemma growing_star: "growing cmp \<Longrightarrow> growing (compile_star cmp consumes greedy gs)"
proof (rule growingI)
  fix e assume cmp: "growing cmp"
  have body: "grows e' (cmp (clear_captures gs e'))" for e'
    using growing_comp [OF growing_clear cmp, of gs] by (simp add: growing_def)
  show "grows e (compile_star cmp consumes greedy gs e)"
  proof (cases consumes)
    case True
    have "grows e (emit (ISplit 0 0) (cmp (clear_captures gs (emit (ISplit 0 0) e))))"
      by (rule grows_emitI) (rule grows_trans [OF grows_emit body])
    with True show ?thesis
      using growsD(1) [OF body [of "emit (ISplit 0 0) e"]]
      by (auto simp: compile_star_def Let_def intro!: grows_patch)
  next
    case False
    let ?e2 = "emit (ISplit 0 0) (emit (ISetMark (fst (new_mark e))) (snd (new_mark e)))"
    have "grows e ?e2"
      by (intro grows_emitI growing_new_mark)
    then have "grows e (emit (IJump h) (emit (ICheckProgress m) (cmp (clear_captures gs ?e2))))" for h m
      by (intro grows_emitI) (rule grows_trans [OF _ body])
    with False show ?thesis
      by (auto simp: compile_star_def new_mark_def here_def Let_def intro!: grows_patch)
  qed
qed

lemma bounded_loop_grows:
  assumes "growing cmp" and "bounded_loop cmp guard gs n xs e = (xs', e')"
  shows "grows e e' \<and> (\<exists>new. xs' = xs @ new \<and> (\<forall>j\<in>set new. here e \<le> j \<and> j < here e'))"
  using assms(2)
proof (induction n arbitrary: xs e)
  case (Suc n)
  have body: "grows e' (cmp (clear_captures gs e'))" for e'
    using growing_comp [OF growing_clear assms(1), of gs] by (simp add: growing_def)
  obtain e2 where e2: "bounded_loop cmp guard gs n (xs @ [here e]) e2 = (xs', e')" "grows (emit (ISplit 0 0) e) e2"
  proof (cases guard)
    case True
    let ?e1 = "emit (ISplit 0 0) e"
    let ?e3 = "emit (ISetMark (fst (new_mark ?e1))) (snd (new_mark ?e1))"
    have "grows ?e1 ?e3" by (intro grows_emitI growing_new_mark)
    then have "grows ?e1 (emit (ICheckProgress (fst (new_mark ?e1))) (cmp (clear_captures gs ?e3)))"
      by (intro grows_emitI) (rule grows_trans [OF _ body])
    with True Suc.prems that show ?thesis by (auto simp: Let_def split: prod.splits)
  next
    case False
    with Suc.prems that body show ?thesis by (auto simp: Let_def)
  qed
  from Suc.IH [OF e2(1)] obtain new where
    "grows e2 e'" "xs' = (xs @ [here e]) @ new" "\<forall>j\<in>set new. here e2 \<le> j \<and> j < here e'" by blast
  with growsD(1) [OF e2(2)] growsD(1) [OF \<open>grows e2 e'\<close>] e2(2) show ?case
    by (auto intro: grows_trans [OF grows_emit] grows_trans)
qed auto

lemma compile_bounded_patches:
  "compile_bounded cmp consumes n greedy gs e =
    (case bounded_loop cmp (\<not> consumes) gs n [] e of
       (xs, e1) \<Rightarrow> patches (\<lambda>s. split_pref greedy (s + 1) (here e1)) xs e1)"
  by (simp add: compile_bounded_def patches_def Let_def split: prod.split)

lemma growing_bounded: "growing cmp \<Longrightarrow> growing (compile_bounded cmp consumes n greedy gs)"
  using bounded_loop_grows [of cmp "\<not> consumes" gs n "[]"]
  by (intro growingI) (fastforce simp: compile_bounded_patches intro: grows_patches split: prod.split)

lemma growing_fuseable: "fuseable_atom n e = Some (atom, e') \<Longrightarrow> grows e e'"
  by (auto simp: fuseable_atom_def intern_class_def grows_def split: node.splits if_splits)

lemma growing_repeat:
  assumes "growing cmp"
  shows "growing (compile_repeat n cmp q)"
proof (rule growingI)
  fix e
  have body: "growing (\<lambda>e. cmp (clear_captures gs e))" for gs
    by (rule growing_comp [OF growing_clear assms])
  have "grows e (compile_star cmp c g gs (((\<lambda>e. cmp (clear_captures gs e)) ^^ k) e))"
    "grows e (compile_bounded cmp c m g gs (((\<lambda>e. cmp (clear_captures gs e)) ^^ k) e))" for c g gs k m
    using growing_funpow [OF body] growing_star [OF assms] growing_bounded [OF assms]
    by (meson growingD grows_trans)+
  then show "grows e (compile_repeat n cmp q e)"
    by (auto simp: compile_repeat_def Let_def intro: grows_emitI growing_fuseable split: option.split)
qed

lemma growing_look: "growing cmp \<Longrightarrow> growing (compile_look behind negate cmp)"
proof (rule growingI)
  fix e assume "growing cmp"
  let ?e2 = "emit (IJump 0) (emit (ILook negate behind 0) e)"
  let ?e3 = "cmp (?e2\<lparr>e_backward := behind\<rparr>)"
  have "grows (?e2\<lparr>e_backward := behind\<rparr>) ?e3" using \<open>growing cmp\<close> by (rule growingD)
  then have "grows ?e2 (?e3\<lparr>e_backward := e_backward ?e2\<rparr>)" by (simp add: grows_def)
  then have "grows e (emit ILookMatch (?e3\<lparr>e_backward := e_backward ?e2\<rparr>))"
    by (intro grows_emitI) (meson grows_emit grows_trans)
  then show "grows e (compile_look behind negate cmp e)"
    by (auto simp: compile_look_def Let_def intro!: grows_patch)
qed

lemma growing_group: "growing cmp \<Longrightarrow> growing (compile_group kind cmp)"
  by (auto simp: growing_def compile_group_def Let_def growing_look [unfolded growing_def]
      intro!: grows_emitI intro: grows_trans [OF grows_emit] split: group_kind.split)

lemma growing_compile: "growing (compile n)"
proof (induction n rule: compile.induct)
  case (4 cs negate ic)
  show ?case
  proof (cases "strings cs = []")
    case True
    then show ?thesis
      using growing_intern by (auto simp: growing_def intro!: grows_emitI split: prod.split) (metis snd_conv)
  next
    case False
    with 4 show ?thesis by (auto intro!: growing_alternation)
  qed
next
  case (7 nodes)
  then show ?case
    by (auto simp: growing_def compile_concat_def intro!: growing_concat_loop)
qed (simp_all add: growing_alternation growing_repeat growing_group)

section \<open>Emission of code for a function of the semantics\<close>

fun s_atom_test :: "senv \<Rightarrow> class_set list \<Rightarrow> repeat_atom \<Rightarrow> code_point \<Rightarrow> bool" where
  "s_atom_test env CL (AtomChar c ic) = s_char_test env c ic"
| "s_atom_test env CL (AtomAny da) = s_any_test da"
| "s_atom_test env CL (AtomClass k negate ic) = s_class_test env (CL ! k) negate ic"

text \<open>The instruction of the final program implements the emitted one: the same instruction, except
  that a class may have been folded and its flag cleared.\<close>

fun insn_impl :: "matcher \<Rightarrow> class_set list \<Rightarrow> insn \<Rightarrow> insn \<Rightarrow> bool" where
  "insn_impl cx CL (IClass k negate ic) j \<longleftrightarrow>
    (\<exists>ic' cs. j = IClass k negate ic' \<and> get_at (p_classes (cx_program cx)) k = Some cs
      \<and> (\<forall>cp\<le>MAX_CP. class_member cx cs negate cp ic' = s_class_test (env_of cx) (CL ! k) negate ic cp))"
| "insn_impl cx CL (IRepeat atom mn greedy poss) j \<longleftrightarrow>
    (\<exists>atom' t. j = IRepeat atom' mn greedy False \<and> atom_test cx atom' = Some t
      \<and> (\<forall>u<0x10000. t u = s_atom_test (env_of cx) CL atom u))"
| "insn_impl cx CL i j \<longleftrightarrow> j = i"

definition inst_insn :: "matcher \<Rightarrow> class_set list \<Rightarrow> insn \<Rightarrow> nat \<Rightarrow> bool" where
  "inst_insn cx CL i pc \<longleftrightarrow> (\<exists>j. insn_at cx pc j \<and> insn_impl cx CL i j)"

definition placed :: "matcher \<Rightarrow> class_set list \<Rightarrow> nat \<Rightarrow> nat \<Rightarrow> emitter \<Rightarrow> emitter \<Rightarrow> bool" where
  "placed cx CL B N e e' \<longleftrightarrow> e_unicode e = p_unicode (cx_program cx) \<and> B \<le> e_next_mark e \<and> e_next_mark e' \<le> N
    \<and> prefix (e_classes e') CL \<and> (\<forall>pc. here e \<le> pc \<longrightarrow> pc < here e' \<longrightarrow> inst_insn cx CL (e_insns e' ! pc) pc)"

abbreviation marks :: "emitter \<Rightarrow> emitter \<Rightarrow> nat set" where
  "marks e e' \<equiv> {e_next_mark e..<e_next_mark e'}"

definition emits :: "matcher \<Rightarrow> class_set list \<Rightarrow> nat \<Rightarrow> nat \<Rightarrow> bool \<Rightarrow> emit_fn \<Rightarrow> sem \<Rightarrow> bool" where
  "emits cx CL B N bw cmp f \<longleftrightarrow> growing cmp \<and>
    (\<forall>e. e_backward e = bw \<longrightarrow> placed cx CL B N e (cmp e) \<longrightarrow>
      code cx B N bw (here e) (here (cmp e)) (marks e (cmp e)) f)"

lemma emitsI:
  "growing cmp \<Longrightarrow> (\<And>e. e_backward e = bw \<Longrightarrow> placed cx CL B N e (cmp e) \<Longrightarrow>
      code cx B N bw (here e) (here (cmp e)) (marks e (cmp e)) f) \<Longrightarrow> emits cx CL B N bw cmp f"
  unfolding emits_def by blast

lemma emits_growing: "emits cx CL B N bw cmp f \<Longrightarrow> growing cmp"
  by (simp add: emits_def)

lemma emitsD:
  "emits cx CL B N bw cmp f \<Longrightarrow> e_backward e = bw \<Longrightarrow> placed cx CL B N e (cmp e) \<Longrightarrow> marks e (cmp e) \<subseteq> M \<Longrightarrow>
    code cx B N bw (here e) (here (cmp e)) M f"
  unfolding emits_def by (blast intro: code_mono)

lemma placed_sub:
  assumes "placed cx CL B N e e'" and "grows e e1" and "grows e1 e2"
    and "prefix (e_classes e2) (e_classes e')" and "e_next_mark e2 \<le> e_next_mark e'" and "here e2 \<le> here e'"
    and "\<And>pc. here e1 \<le> pc \<Longrightarrow> pc < here e2 \<Longrightarrow> e_insns e' ! pc = e_insns e2 ! pc"
  shows "placed cx CL B N e1 e2"
proof -
  have "inst_insn cx CL (e_insns e2 ! pc) pc" if "here e1 \<le> pc" "pc < here e2" for pc
  proof -
    have "here e \<le> pc" "pc < here e'" using that assms(6) growsD(1) [OF assms(2)] by simp_all
    with assms(1) have "inst_insn cx CL (e_insns e' ! pc) pc" unfolding placed_def by blast
    with assms(7) [OF that] show ?thesis by simp
  qed
  with assms(1-5) show ?thesis
    by (auto simp: placed_def grows_def intro: prefix_order.trans)
qed

lemma placed_grows:
  "placed cx CL B N e e' \<Longrightarrow> grows e e1 \<Longrightarrow> grows e1 e2 \<Longrightarrow> grows e2 e' \<Longrightarrow> placed cx CL B N e1 e2"
  by (rule placed_sub [of cx CL B N e e' e1 e2]) (auto simp: grows_nth growsD)

lemma placed_insn:
  assumes "placed cx CL B N e e'" and "here e \<le> pc" and "pc < here e'" and "e_insns e' ! pc = i"
    and "\<And>j. insn_impl cx CL i j \<Longrightarrow> j = i"
  shows "insn_at cx pc i"
  using assms unfolding placed_def inst_insn_def by blast

lemma split_pref_impl: "insn_impl cx CL (split_pref greedy a b) j \<Longrightarrow> j = split_pref greedy a b"
  by (simp add: split_pref_def split: if_splits)

lemma emits_id: "emits cx CL B N bw (\<lambda>e. e) (\<lambda>s. [s])"
  by (rule emitsI) (auto intro: code_empty)

lemma emits_emit:
  assumes "\<And>pc. insn_at cx pc i \<Longrightarrow> code cx B N bw pc (Suc pc) {} f" and "\<And>j. insn_impl cx CL i j \<Longrightarrow> j = i"
  shows "emits cx CL B N bw (emit i) f"
proof (rule emitsI)
  fix e assume "placed cx CL B N e (emit i e)"
  then have "insn_at cx (here e) i"
    by (rule placed_insn [OF _ _ _ _ assms(2)]) (auto simp: here_def)
  from code_mono [OF assms(1) [OF this]] show "code cx B N bw (here e) (here (emit i e)) (marks e (emit i e)) f"
    by simp
qed simp

lemma emits_seq:
  assumes "emits cx CL B N bw cmp1 f" and "emits cx CL B N bw cmp2 g"
  shows "emits cx CL B N bw (\<lambda>e. cmp2 (cmp1 e)) (\<lambda>s. concat (map g (f s)))"
proof (rule emitsI)
  note g = emits_growing [OF assms(1), THEN growingD] emits_growing [OF assms(2), THEN growingD]
  show "growing (\<lambda>e. cmp2 (cmp1 e))" by (rule growing_comp) (use assms emits_growing in blast)+
  fix e assume bw: "e_backward e = bw" and p: "placed cx CL B N e (cmp2 (cmp1 e))"
  have m: "marks e (cmp1 e) \<subseteq> marks e (cmp2 (cmp1 e))" "marks (cmp1 e) (cmp2 (cmp1 e)) \<subseteq> marks e (cmp2 (cmp1 e))"
    using growsD(4) [OF g(1), of e] growsD(4) [OF g(2), of "cmp1 e"] by simp_all
  have "placed cx CL B N e (cmp1 e)" "placed cx CL B N (cmp1 e) (cmp2 (cmp1 e))"
    using placed_grows [OF p grows_refl g(1) g(2)] placed_grows [OF p g(1) g(2) grows_refl] .
  with emitsD [OF assms(1) bw _ m(1)] emitsD [OF assms(2) _ _ m(2)] bw growsD(6) [OF g(1), of e]
  show "code cx B N bw (here e) (here (cmp2 (cmp1 e))) (marks e (cmp2 (cmp1 e))) (\<lambda>s. concat (map g (f s)))"
    by (intro code_seq [where ?pc1.0 = "here (cmp1 e)"]) simp_all
qed

lemma emits_cong:
  assumes "emits cx CL B N bw cmp f" and "\<And>s. ok_state (cx_len cx) B s \<Longrightarrow> f s = g s"
  shows "emits cx CL B N bw cmp g"
proof (rule emitsI)
  show "growing cmp" using assms(1) by (rule emits_growing)
  fix e assume e: "e_backward e = bw" "placed cx CL B N e (cmp e)"
  then have "B \<le> N"
    using growsD(4) [OF growingD [OF \<open>growing cmp\<close>], of e] by (simp add: placed_def)
  then show "code cx B N bw (here e) (here (cmp e)) (marks e (cmp e)) g"
    by (rule code_cong [OF emitsD [OF assms(1) e subset_refl]]) (rule assms(2))
qed

lemma emits_same:
  assumes "emits cx CL B N bw cmp f" and "growing cmp'" and "\<And>e. e_backward e = bw \<Longrightarrow> cmp' e = cmp e"
  shows "emits cx CL B N bw cmp' f"
  using assms by (simp add: emits_def)

lemma emits_funpow:
  "emits cx CL B N bw cmp f \<Longrightarrow> emits cx CL B N bw (cmp ^^ n) (s_times f n)"
proof (induction n)
  case 0
  then show ?case using emits_id [of cx CL B N bw] by (simp add: s_times.simps [abs_def] id_def)
next
  case (Suc n)
  have "emits cx CL B N bw (\<lambda>e. (cmp ^^ n) (cmp e)) (\<lambda>s. concat (map (s_times f n) (f s)))"
    using Suc by (auto intro: emits_seq)
  then show ?case by (simp add: s_times.simps [abs_def] funpow_Suc_right comp_def del: funpow.simps)
qed

section \<open>Clearing, alternation\<close>

lemma emits_clear:
  assumes "B \<le> N"
  shows "\<forall>g\<in>set gs. 2 * g + 1 < B \<Longrightarrow> emits cx CL B N bw (clear_captures gs) (\<lambda>s. [(fst s, s_clear gs (snd s))])"
proof (induction gs rule: rev_induct)
  case Nil
  then show ?case using emits_id by (simp add: clear_captures_def [abs_def])
next
  case (snoc g gs)
  have "emits cx CL B N bw (emit (IClearCapture g)) (\<lambda>s. [(fst s, s_clear [g] (snd s))])"
    using snoc.prems assms by (intro emits_emit) (auto intro!: code_clear_capture simp del: s_clear_simps)
  from emits_seq [OF snoc.IH this] snoc.prems show ?case
    by (simp add: clear_captures_def [abs_def] s_clear_def)
qed

lemma emits_iteration:
  assumes "B \<le> N" and "\<forall>g\<in>set gs. 2 * g + 1 < B" and "emits cx CL B N bw cmp f"
  shows "emits cx CL B N bw (\<lambda>e. cmp (clear_captures gs e)) (s_iteration gs f)"
  using emits_seq [OF emits_clear [OF assms(1,2)] assms(3)] by (simp add: s_iteration_def [abs_def])

lemma placed_later:
  "placed cx CL B N e e' \<Longrightarrow> grows e e1 \<Longrightarrow> placed cx CL B N e1 e'"
  using growsD(1) [of e e1] by (auto simp: placed_def grows_def)

lemma emits_list_growing: "list_all2 (emits cx CL B N bw) cmps fs \<Longrightarrow> \<forall>cmp\<in>set cmps. growing cmp"
  by (induction rule: list_all2_induct) (auto dest: emits_growing)

lemma s_alt_Cons: "s_alt (f # fs) = (\<lambda>s. f s @ s_alt fs s)"
  by (simp add: s_alt_def fun_eq_iff)

lemma alternation_code:
  assumes "list_all2 (emits cx CL B N bw) alts fs" and "alts \<noteq> []" and "alternation_loop alts xs e = (xs', e')"
    and "e_backward e = bw" and "\<forall>j\<in>set xs. j < here e"
    and "placed cx CL B N e (patches (\<lambda>_. IJump out) xs' e')" and "out = here e'"
  shows "code cx B N bw (here e) out (marks e e') (s_alt fs)"
  using assms
proof (induction alts xs e arbitrary: fs xs' e' rule: alternation_loop.induct)
  case (2 alt xs e)
  then obtain f where f: "fs = [f]" "emits cx CL B N bw alt f" by (auto simp: list_all2_Cons1)
  have e': "xs' = xs" "e' = alt e" using "2.prems" by auto
  have "placed cx CL B N e (alt e)"
    using "2.prems" f e' growingD [OF emits_growing [OF f(2)], of e]
    by (intro placed_sub [OF "2.prems"(6)]) (auto simp: patches_nth)
  from emitsD [OF f(2) _ this] "2.prems" e' f(1) show ?case
    by (simp add: s_alt_def)
next
  case (3 alt v va xs e)
  let ?e1 = "emit (ISplit 0 0) e"
  let ?e3 = "emit (IJump 0) (alt ?e1)"
  let ?e4 = "patch (here e) (ISplit (here ?e1) (here ?e3)) ?e3"
  let ?P = "patches (\<lambda>_. IJump out) xs' e'"
  obtain f fs' where f: "fs = f # fs'" "emits cx CL B N bw alt f" "list_all2 (emits cx CL B N bw) (v # va) fs'"
    using "3.prems"(1) by (auto simp: list_all2_Cons1)
  have g1: "grows ?e1 (alt ?e1)" by (rule growingD [OF emits_growing [OF f(2)]])
  have g: "grows e ?e4"
    by (intro grows_patch grows_emitI) (auto intro: grows_trans [OF grows_emit g1])
  have loop: "alternation_loop (v # va) (xs @ [here (alt ?e1)]) ?e4 = (xs', e')"
    using "3.prems"(3) by (simp only: alternation_loop.simps Let_def)
  have gr: "\<forall>cmp\<in>set (v # va). growing cmp"
    using f(3) by (rule emits_list_growing)
  obtain new where new: "grows ?e4 e'" "xs' = (xs @ [here (alt ?e1)]) @ new" "\<forall>j\<in>set new. here ?e4 \<le> j \<and> j < here e'"
    using alternation_loop_grows [OF gr loop] by blast
  note h = growsD(1) [OF g1] growsD(1) [OF new(1)] growsD(4) [OF g1] growsD(4) [OF new(1)]
  have same: "e_insns ?P ! pc = (if pc = here (alt ?e1) then IJump out else e_insns ?e4 ! pc)"
    if "here e \<le> pc" "pc < here ?e4" for pc
    using that new h "3.prems"(5) grows_nth [OF new(1), of pc] by (auto simp: patches_nth)
  have at: "insn_at cx (here e) (ISplit (here ?e1) (here ?e3))"
    by (rule placed_insn [OF "3.prems"(6)]) (use same [of "here e"] h in \<open>auto simp: here_def\<close>)
  have jump: "insn_at cx (here (alt ?e1)) (IJump out)"
    by (rule placed_insn [OF "3.prems"(6)]) (use same [of "here (alt ?e1)"] h in \<open>auto simp: here_def\<close>)
  have "placed cx CL B N ?e1 (alt ?e1)"
  proof (rule placed_sub [OF "3.prems"(6) grows_emit g1])
    show "e_insns ?P ! pc = e_insns (alt ?e1) ! pc" if "here ?e1 \<le> pc" "pc < here (alt ?e1)" for pc
      using that same [of pc] h by (auto simp: here_def nth_append nth_list_update)
  qed (use growsD [OF new(1)] h in auto)
  from emitsD [OF f(2) _ this] "3.prems"(4) h
  have "code cx B N bw (here ?e1) (here (alt ?e1)) (marks e e') f" by simp
  then have c1: "code cx B N bw (here ?e1) out (marks e e') f"
    by (rule code_then_jump) (rule jump)
  have "code cx B N bw (here ?e4) out (marks ?e4 e') (s_alt fs')"
    by (rule "3.IH" [OF refl refl refl refl refl refl refl refl f(3) _ loop])
      (use "3.prems" g h growsD(6) [OF g1] in \<open>auto intro: placed_later\<close>)
  then have c2: "code cx B N bw (here ?e3) out (marks e e') (s_alt fs')"
    using growsD(4) [OF g1] by (auto intro: code_mono)
  show ?case
    unfolding f(1) s_alt_Cons by (rule code_split [OF at c1 c2])
qed auto

lemma emits_alternation:
  assumes "list_all2 (emits cx CL B N bw) alts fs" and "alts \<noteq> []"
  shows "emits cx CL B N bw (compile_alternation alts) (s_alt fs)"
proof (rule emitsI)
  show "growing (compile_alternation alts)"
    using assms(1) by (intro growing_alternation emits_list_growing)
  fix e assume e: "e_backward e = bw" "placed cx CL B N e (compile_alternation alts e)"
  obtain xs e' where loop: "alternation_loop alts [] e = (xs, e')" by force
  with e show "code cx B N bw (here e) (here (compile_alternation alts e)) (marks e (compile_alternation alts e)) (s_alt fs)"
    using alternation_code [OF assms loop e(1), of "here e'"] by (simp add: compile_alternation_patches)
qed

section \<open>Repeats\<close>

lemma emits_star:
  assumes "emits cx CL B N bw cmp f" and "B \<le> N" and "\<forall>g\<in>set gs. 2 * g + 1 < B"
    and "good (cx_len cx) B bw f" and "consumes \<Longrightarrow> strict (cx_len cx) B f"
  shows "emits cx CL B N bw (compile_star cmp consumes greedy gs) (s_opt (s_iteration gs f) greedy (cx_len cx))"
proof (rule emitsI)
  note body = emits_iteration [OF assms(2,3,1)]
  note gr = growingD [OF emits_growing [OF body]]
  show "growing (compile_star cmp consumes greedy gs)"
    using assms(1) by (intro growing_star emits_growing)
  fix e assume bw: "e_backward e = bw" and pl: "placed cx CL B N e (compile_star cmp consumes greedy gs e)"
  show "code cx B N bw (here e) (here (compile_star cmp consumes greedy gs e))
      (marks e (compile_star cmp consumes greedy gs e)) (s_opt (s_iteration gs f) greedy (cx_len cx))"
  proof (cases consumes)
    case True
    let ?e1 = "emit (ISplit 0 0) e"
    let ?e2 = "cmp (clear_captures gs ?e1)"
    let ?S = "split_pref greedy (Suc (here e)) (Suc (here ?e2))"
    have eq: "compile_star cmp consumes greedy gs e = patch (here ?e2) ?S (patch (here e) ?S (emit (ISplit 0 0) ?e2))"
      using True by (simp add: compile_star_def Let_def)
    note g = gr [of ?e1]
    note pl = pl [unfolded eq]
    have at: "insn_at cx (here e) ?S" "insn_at cx (here ?e2) ?S"
      using growsD(1) [OF g]
      by (intro placed_insn [OF pl]; auto simp: here_def nth_append nth_list_update split_pref_impl)+
    have "placed cx CL B N ?e1 ?e2"
      using growsD [OF g]
      by (intro placed_sub [OF pl grows_emit g]) (auto simp: here_def nth_append nth_list_update)
    from emitsD [OF body _ this] bw growsD(4) [OF g]
    have "code cx B N bw (Suc (here e)) (here ?e2) (marks e ?e2) (s_iteration gs f)" by simp
    from code_star_enter [OF at this good_iteration [OF assms(4)] strict_iteration [OF assms(5) [OF True]] assms(2)]
    show ?thesis
      unfolding eq by simp
  next
    case False
    let ?m = "e_next_mark e"
    let ?e1 = "emit (ISetMark ?m) (e\<lparr>e_next_mark := ?m + 1\<rparr>)"
    let ?e2 = "emit (ISplit 0 0) ?e1"
    let ?e3 = "cmp (clear_captures gs ?e2)"
    let ?S = "split_pref greedy (Suc (Suc (here e))) (Suc (Suc (here ?e3)))"
    have eq: "compile_star cmp consumes greedy gs e =
        patch (Suc (here e)) ?S (emit (IJump (here e)) (emit (ICheckProgress ?m) ?e3))"
      using False by (simp add: compile_star_def new_mark_def Let_def here_def)
    note g = gr [of ?e2]
    have ge2: "grows e ?e2" by (simp add: grows_def)
    note pl = pl [unfolded eq]
    have h: "here ?e2 = Suc (Suc (here e))" by (simp add: here_def)
    note len = growsD(1) [OF g, unfolded h]
    have nth: "e_insns ?e3 ! here e = ISetMark ?m"
      using grows_nth [OF g, of "here e"] h by (simp add: here_def nth_append)
    have at: "insn_at cx (here e) (ISetMark ?m)" "insn_at cx (Suc (here e)) ?S"
      "insn_at cx (here ?e3) (ICheckProgress ?m)" "insn_at cx (Suc (here ?e3)) (IJump (here e))"
      using len nth
      by (intro placed_insn [OF pl]; auto simp: here_def nth_append nth_list_update split_pref_impl)+
    have "placed cx CL B N ?e2 ?e3"
      using growsD [OF g] h
      by (intro placed_sub [OF pl ge2 g]) (auto simp: here_def nth_append nth_list_update)
    from emitsD [OF body _ this subset_refl] bw h
    have "code cx B N bw (Suc (Suc (here e))) (here ?e3) (marks ?e2 ?e3) (s_iteration gs f)" by simp
    from code_star_marked [OF at(1,2) this at(3,4)] pl assms growsD(4) [OF g]
    have "code cx B N bw (here e) (Suc (Suc (here ?e3))) (insert ?m (marks ?e2 ?e3))
        (s_opt (s_iteration gs f) greedy (cx_len cx))"
      by (auto simp: placed_def good_iteration)
    then show ?thesis
      unfolding eq using growsD(4) [OF g] by (auto intro: code_mono)
  qed
qed

lemma bounded_code:
  assumes "emits cx CL B N bw cmp f" and "B \<le> N" and "\<forall>g\<in>set gs. 2 * g + 1 < B"
    and "\<not> guard \<Longrightarrow> strict (cx_len cx) B f"
  shows "bounded_loop cmp guard gs n xs e = (xs', e') \<Longrightarrow> e_backward e = bw \<Longrightarrow> \<forall>j\<in>set xs. j < here e \<Longrightarrow>
    placed cx CL B N e (patches (\<lambda>s. split_pref greedy (s + 1) out) xs' e') \<Longrightarrow> out = here e' \<Longrightarrow>
    code cx B N bw (here e) out (marks e e') (s_opt (s_iteration gs f) greedy n)"
proof (induction n arbitrary: xs e)
  case 0
  then show ?case using code_opt_0 [of cx B N bw "here e"] by (auto simp del: s_opt.simps)
next
  case (Suc n)
  note body = emits_iteration [OF assms(2,3,1)]
  note gr = growingD [OF emits_growing [OF body]]
  let ?P = "patches (\<lambda>s. split_pref greedy (s + 1) out) xs' e'"
  let ?e1 = "emit (ISplit 0 0) e"
  let ?g = "\<lambda>s. filter (\<lambda>s'. fst s' \<noteq> fst s) (s_iteration gs f s)"
  have round: "code cx B N bw (here e) out (marks e e') (s_opt (s_iteration gs f) greedy (Suc n))"
    if e2: "bounded_loop cmp guard gs n (xs @ [here e]) e2 = (xs', e')" "grows ?e1 e2"
      and code: "(\<And>pc. here ?e1 \<le> pc \<Longrightarrow> pc < here e2 \<Longrightarrow> e_insns ?P ! pc = e_insns e2 ! pc) \<Longrightarrow>
        grows e2 e' \<Longrightarrow> code cx B N bw (here ?e1) (here e2) (marks e e') ?g" for e2
  proof -
    obtain new where new: "grows e2 e'" "xs' = (xs @ [here e]) @ new" "\<forall>j\<in>set new. here e2 \<le> j \<and> j < here e'"
      using bounded_loop_grows [OF emits_growing [OF assms(1)] e2(1)] by blast
    note h = growsD(1) [OF e2(2)] growsD(1) [OF new(1)]
    have same: "e_insns ?P ! pc = e_insns e2 ! pc" if "here ?e1 \<le> pc" "pc < here e2" for pc
      using that new h Suc.prems(3) grows_nth [OF new(1), of pc] by (auto simp: patches_nth)
    have at: "insn_at cx (here e) (split_pref greedy (Suc (here e)) out)"
      by (rule placed_insn [OF Suc.prems(4)]) (use new h in \<open>auto simp: patches_nth split_pref_impl\<close>)
    have "code cx B N bw (here e2) out (marks e2 e') (s_opt (s_iteration gs f) greedy n)"
      by (rule Suc.IH [OF e2(1)])
        (use Suc.prems e2(2) h growsD(6) [OF e2(2)] in \<open>auto intro: placed_later grows_trans [OF grows_emit]\<close>)
    then have rest: "code cx B N bw (here e2) out (marks e e') (s_opt (s_iteration gs f) greedy n)"
      using growsD(4) [OF e2(2)] by (auto intro: code_mono)
    show ?thesis
      using code_opt_Suc [OF at code [OF same new(1), unfolded here_emit] rest] .
  qed
  show ?case
  proof (cases guard)
    case True
    let ?m = "e_next_mark e"
    let ?e2 = "emit (ISetMark ?m) (?e1\<lparr>e_next_mark := Suc ?m\<rparr>)"
    let ?e3 = "cmp (clear_captures gs ?e2)"
    let ?e4 = "emit (ICheckProgress ?m) ?e3"
    note g = gr [of ?e2]
    have h2: "here ?e2 = Suc (Suc (here e))" by (simp add: here_def)
    have g12: "grows ?e1 ?e2" "grows e ?e2" by (simp_all add: grows_def)
    show ?thesis
    proof (rule round [of ?e4])
      show "bounded_loop cmp guard gs n (xs @ [here e]) ?e4 = (xs', e')"
        using Suc.prems(1) True by (simp add: Let_def new_mark_def)
      show "grows ?e1 ?e4" using grows_trans [OF g12(1) g] by (rule grows_emitI)
      assume same: "\<And>pc. here ?e1 \<le> pc \<Longrightarrow> pc < here ?e4 \<Longrightarrow> e_insns ?P ! pc = e_insns ?e4 ! pc"
        and ge4: "grows ?e4 e'"
      note h = growsD(1) [OF g, unfolded h2] growsD(1) [OF ge4] growsD(4) [OF g] growsD(4) [OF ge4]
      have nth: "e_insns ?e3 ! Suc (here e) = ISetMark ?m"
        using grows_nth [OF g, of "Suc (here e)"] h2 by (simp add: here_def nth_append)
      have at: "insn_at cx (Suc (here e)) (ISetMark ?m)" "insn_at cx (here ?e3) (ICheckProgress ?m)"
        using h nth same [of "Suc (here e)"] same [of "here ?e3"]
        by (intro placed_insn [OF Suc.prems(4)]; auto simp: here_def nth_append)+
      have "placed cx CL B N ?e2 ?e3"
        using h growsD [OF ge4] h2 same
        by (intro placed_sub [OF Suc.prems(4) g12(2) g]) (auto simp: here_def nth_append)
      from emitsD [OF body _ this subset_refl] Suc.prems(2) h2
      have "code cx B N bw (Suc (Suc (here e))) (here ?e3) (marks ?e2 ?e3) (s_iteration gs f)" by simp
      from code_guarded [OF at(1) this at(2)] h Suc.prems(4)
      have "code cx B N bw (Suc (here e)) (Suc (here ?e3)) (insert ?m (marks ?e2 ?e3)) ?g"
        by (auto simp: placed_def)
      then show "code cx B N bw (here ?e1) (here ?e4) (marks e e') ?g"
        using h by (auto intro: code_mono)
    qed
  next
    case False
    let ?e2 = "cmp (clear_captures gs ?e1)"
    note g = gr [of ?e1]
    show ?thesis
    proof (rule round [of ?e2])
      show "bounded_loop cmp guard gs n (xs @ [here e]) ?e2 = (xs', e')"
        using Suc.prems(1) False by (simp add: Let_def)
      show "grows ?e1 ?e2" by (rule g)
      assume same: "\<And>pc. here ?e1 \<le> pc \<Longrightarrow> pc < here ?e2 \<Longrightarrow> e_insns ?P ! pc = e_insns ?e2 ! pc"
        and ge: "grows ?e2 e'"
      have "placed cx CL B N ?e1 ?e2"
        using growsD [OF ge] same by (intro placed_sub [OF Suc.prems(4) grows_emit g]) auto
      from emitsD [OF body _ this] Suc.prems(2) growsD(4) [OF g] growsD(4) [OF ge]
      have "code cx B N bw (here ?e1) (here ?e2) (marks e e') (s_iteration gs f)" by simp
      then show "code cx B N bw (here ?e1) (here ?e2) (marks e e') ?g"
        by (rule code_cong [OF _ assms(2)])
          (use strict_filter [OF strict_iteration [OF assms(4) [OF False]]] in auto)
    qed
  qed
qed

lemma emits_bounded:
  assumes "emits cx CL B N bw cmp f" and "B \<le> N" and "\<forall>g\<in>set gs. 2 * g + 1 < B"
    and "consumes \<Longrightarrow> strict (cx_len cx) B f"
  shows "emits cx CL B N bw (compile_bounded cmp consumes n greedy gs) (s_opt (s_iteration gs f) greedy n)"
proof (rule emitsI)
  show "growing (compile_bounded cmp consumes n greedy gs)"
    using assms(1) by (intro growing_bounded emits_growing)
  fix e assume e: "e_backward e = bw" "placed cx CL B N e (compile_bounded cmp consumes n greedy gs e)"
  obtain xs e' where loop: "bounded_loop cmp (\<not> consumes) gs n [] e = (xs, e')" by force
  with e show "code cx B N bw (here e) (here (compile_bounded cmp consumes n greedy gs e))
      (marks e (compile_bounded cmp consumes n greedy gs e)) (s_opt (s_iteration gs f) greedy n)"
    using bounded_code [OF assms(1-3) _ loop e(1), of greedy "here e'"] assms(4)
    by (simp add: compile_bounded_patches)
qed

section \<open>Groups and lookaround\<close>

lemma emits_look:
  assumes "emits cx CL B N behind cmp f"
  shows "emits cx CL B N bw (compile_look behind negate cmp) (s_look negate f)"
proof (rule emitsI)
  show "growing (compile_look behind negate cmp)"
    using assms by (intro growing_look emits_growing)
  fix e assume bw: "e_backward e = bw" and pl: "placed cx CL B N e (compile_look behind negate cmp e)"
  let ?e2 = "(emit (IJump 0) (emit (ILook negate behind 0) e))\<lparr>e_backward := behind\<rparr>"
  let ?e3 = "cmp ?e2"
  let ?e4 = "emit ILookMatch (?e3\<lparr>e_backward := e_backward e\<rparr>)"
  have eq: "compile_look behind negate cmp e =
      patch (Suc (here e)) (IJump (Suc (here ?e3))) (patch (here e) (ILook negate behind (Suc (Suc (here e)))) ?e4)"
    by (simp add: compile_look_def Let_def here_def)
  have g: "grows ?e2 ?e3" using assms by (intro growingD emits_growing)
  have h2: "here ?e2 = Suc (Suc (here e))" by (simp add: here_def)
  note h = growsD(1) [OF g, unfolded h2]
  note pl = pl [unfolded eq]
  have at: "insn_at cx (here e) (ILook negate behind (Suc (Suc (here e))))"
    "insn_at cx (Suc (here e)) (IJump (Suc (here ?e3)))" "insn_at cx (here ?e3) ILookMatch"
    using h by (intro placed_insn [OF pl]; auto simp: here_def nth_append nth_list_update)+
  have "placed cx CL B N ?e2 ?e3"
    unfolding placed_def
  proof (intro conjI allI impI)
    fix pc assume pc: "here ?e2 \<le> pc" "pc < here ?e3"
    let ?F = "patch (Suc (here e)) (IJump (Suc (here ?e3))) (patch (here e) (ILook negate behind (Suc (Suc (here e)))) ?e4)"
    have "e_insns ?F ! pc = e_insns ?e3 ! pc"
      using pc h2 by (auto simp: here_def nth_append nth_list_update)
    moreover have "here e \<le> pc" "pc < here ?F"
      using pc h2 by (auto simp: here_def)
    ultimately show "inst_insn cx CL (e_insns ?e3 ! pc) pc"
      using pl unfolding placed_def by metis
  qed (use pl growsD [OF g] in \<open>auto simp: placed_def\<close>)
  from emitsD [OF assms _ this subset_refl] h2
  have "code cx B N behind (Suc (Suc (here e))) (here ?e3) (marks ?e2 ?e3) f" by simp
  from code_then_jump [OF code_look [OF at(1) this at(3)] at(2)]
  show "code cx B N bw (here e) (here (compile_look behind negate cmp e))
      (marks e (compile_look behind negate cmp e)) (s_look negate f)"
    unfolding eq by (simp add: here_def)
qed

lemma emits_capture:
  assumes "emits cx CL B N bw cmp f" and "1 \<le> g" and "2 * g + 1 < B" and "B \<le> N"
  shows "emits cx CL B N bw (compile_group (Capturing g name) cmp) (s_capture bw g f)"
proof -
  let ?a = "if bw then 2 * g + 1 else 2 * g" and ?b = "if bw then 2 * g else 2 * g + 1"
  have save: "emits cx CL B N bw (emit (ISave i)) (\<lambda>s. [(fst s, (snd s)[i := Some (fst s)])])" if "i = ?a \<or> i = ?b" for i
    using that assms by (intro emits_emit) (auto intro!: code_write split: if_splits)
  have "emits cx CL B N bw (\<lambda>e. emit (ISave ?b) (cmp (emit (ISave ?a) e))) (s_capture bw g f)"
    using emits_seq [OF emits_seq [OF save assms(1)] save, of ?a ?b]
    by (cases bw) (simp_all add: s_capture_def [abs_def] comp_def)
  then show ?thesis
    by (rule emits_same) (use assms in \<open>auto simp: compile_group_def Let_def intro: growing_group emits_growing\<close>)
qed

section \<open>Concatenation\<close>

lemma fusible_literal_Some:
  "fusible_literal n = Some u \<Longrightarrow> n = NChar u False \<and> plain_unit u"
  by (cases n) (auto simp: plain_unit_def split: if_splits)

lemma emits_flush:
  assumes "ok_matcher cx" and "B \<le> N" and "list_all plain_unit run"
  shows "emits cx CL B N bw (flush_char_run run) (s_seq (map (s_unit (env_of cx) bw) run))"
proof -
  consider "run = []" | u where "run = [u]" | "length run \<ge> 2"
    by (cases run; cases "tl run") (auto simp: Suc_le_eq)
  then show ?thesis
  proof cases
    case 1
    then show ?thesis
      using emits_same [OF emits_id growing_flush, of _ "[]"]
      by (simp add: flush_char_run_def [of "[]"] s_seq.simps [abs_def])
  next
    case 2
    have "emits cx CL B N bw (emit (IChar u False)) (s_unit (env_of cx) bw u)"
      by (rule emits_emit) (auto intro!: code_char [OF assms(1,2)])
    from emits_same [OF this growing_flush, of "[u]"] 2 show ?thesis
      by (simp add: flush_char_run_def [of "[u]"] s_seq.simps [abs_def])
  next
    case 3
    have eq: "flush_char_run run e = emit (ICharSeq (if bw then rev run else run)) e" if "e_backward e = bw" for e
      using 3 that by (auto simp: flush_char_run_def Let_def split: list.split)
    have "emits cx CL B N bw (emit (ICharSeq (if bw then rev run else run))) (s_seq (map (s_unit (env_of cx) bw) run))"
      by (rule emits_emit) (auto intro!: code_char_seq [OF assms(2) _ assms(3)])
    from emits_same [OF this growing_flush eq] show ?thesis .
  qed
qed

lemma s_seq_append: "s_seq (fs @ gs) s = concat (map (s_seq gs) (s_seq fs s))"
proof (induction fs arbitrary: s)
  case (Cons f fs)
  then have "s_seq (fs @ gs) = (\<lambda>s. concat (map (s_seq gs) (s_seq fs s)))" by (simp add: fun_eq_iff)
  then show ?case by (simp add: map_concat concat_concat_map [symmetric] comp_def)
qed simp

lemma emits_concat_loop:
  assumes "ok_matcher cx" and "B \<le> N"
  shows "list_all2 (\<lambda>(n, cmp) f. emits cx CL B N bw cmp f
      \<and> (\<forall>u. fusible_literal n = Some u \<longrightarrow> f = s_unit (env_of cx) bw u)) ns fs \<Longrightarrow> list_all plain_unit run \<Longrightarrow>
    emits cx CL B N bw (concat_loop ns run) (s_seq (map (s_unit (env_of cx) bw) run @ fs))"
proof (induction ns arbitrary: fs run)
  case Nil
  then have "concat_loop [] run = flush_char_run run" "fs = []" by auto
  with emits_flush [OF assms Nil.prems(2)] show ?case by simp
next
  case (Cons a ns)
  obtain n cmp where a: "a = (n, cmp)" by force
  obtain f fs' where f: "fs = f # fs'" "emits cx CL B N bw cmp f" "\<forall>u. fusible_literal n = Some u \<longrightarrow> f = s_unit (env_of cx) bw u"
    "list_all2 (\<lambda>(n, cmp) f. emits cx CL B N bw cmp f
      \<and> (\<forall>u. fusible_literal n = Some u \<longrightarrow> f = s_unit (env_of cx) bw u)) ns fs'"
    using Cons.prems(1) a by (auto simp: list_all2_Cons1)
  show ?case
  proof (cases "fusible_literal n")
    case None
    have "emits cx CL B N bw (\<lambda>e. concat_loop ns [] (cmp (flush_char_run run e)))
        (\<lambda>s. concat (map (s_seq fs') (concat (map f (s_seq (map (s_unit (env_of cx) bw) run) s)))))"
      using emits_seq [OF emits_seq [OF emits_flush [OF assms Cons.prems(2)] f(2)] Cons.IH [OF f(4), of "[]"]] by simp
    moreover have "concat_loop (a # ns) run = (\<lambda>e. concat_loop ns [] (cmp (flush_char_run run e)))"
      by (simp add: a None fun_eq_iff)
    moreover have "s_seq (map (s_unit (env_of cx) bw) run @ fs) =
        (\<lambda>s. concat (map (s_seq fs') (concat (map f (s_seq (map (s_unit (env_of cx) bw) run) s)))))"
      by (simp add: fun_eq_iff f(1) s_seq_append s_seq.simps [abs_def] map_concat concat_concat_map [symmetric] comp_def)
    ultimately show ?thesis by (simp only:)
  next
    case (Some u)
    then have "emits cx CL B N bw (concat_loop ns (run @ [u])) (s_seq (map (s_unit (env_of cx) bw) (run @ [u]) @ fs'))"
      using Cons.IH [OF f(4), of "run @ [u]"] Cons.prems(2) fusible_literal_Some [OF Some] by simp
    moreover have "concat_loop (a # ns) run = concat_loop ns (run @ [u])"
      by (simp add: a Some fun_eq_iff)
    ultimately show ?thesis using f(1,3) Some by simp
  qed
qed

lemma emits_concat:
  assumes "ok_matcher cx" and "B \<le> N"
    and "\<forall>n\<in>set ns. emits cx CL B N bw (compile n) (outs (env_of cx) n bw)"
  shows "emits cx CL B N bw (compile (NConcat ns)) (outs (env_of cx) (NConcat ns) bw)"
proof -
  let ?ns = "if bw then rev ns else ns"
  have "list_all2 (\<lambda>(n, cmp) f. emits cx CL B N bw cmp f
      \<and> (\<forall>u. fusible_literal n = Some u \<longrightarrow> f = s_unit (env_of cx) bw u))
      (map (\<lambda>n. (n, compile n)) ?ns) (map (\<lambda>n. outs (env_of cx) n bw) ?ns)"
    using assms(3) by (auto simp: list_all2_map1 list_all2_map2 list_all2_same dest!: fusible_literal_Some)
  from emits_concat_loop [OF assms(1,2) this, of "[]"]
  have "emits cx CL B N bw (concat_loop (map (\<lambda>n. (n, compile n)) ?ns) []) (outs (env_of cx) (NConcat ns) bw)"
    by (cases bw) (simp_all add: Let_def rev_map)
  then show ?thesis
    by (rule emits_same [OF _ growing_compile]) (auto simp: compile_concat_def rev_map)
qed

section \<open>Nodes\<close>

lemma fuseable_sem:
  assumes "fuseable_atom n e = Some (atom, e')" and "prefix (e_classes e') CL"
  shows "outs env n bw = s_char env bw (s_atom_test env CL atom)" and "capture_indices n = []"
    and "e_insns e' = e_insns e" and "e_next_mark e' = e_next_mark e"
  using assms
  by (auto simp: fuseable_atom_def intern_class_def s_class_def prefix_def nth_append fun_eq_iff
      split: node.splits if_splits)

lemma s_iteration_Nil [simp]: "s_iteration [] f = f"
  by (simp add: s_iteration_def [abs_def])

lemma emits_repeat:
  assumes "ok_matcher cx" and "B \<le> N" and "\<forall>g\<in>set (capture_indices n). 2 * g + 1 < B"
    and "emits cx CL B N bw (compile n) (outs (env_of cx) n bw)" and "small_counts (NRepeat n q)"
  shows "emits cx CL B N bw (compile (NRepeat n q)) (outs (env_of cx) (NRepeat n q) bw)"
proof (rule emitsI [OF growing_compile])
  let ?gs = "capture_indices n" and ?f = "outs (env_of cx) n bw"
  let ?rep = "\<lambda>e. ((\<lambda>e. compile n (clear_captures ?gs e)) ^^ q_min q) e"
  fix e assume bw: "e_backward e = bw" and pl: "placed cx CL B N e (compile (NRepeat n q) e)"
  have u: "e_unicode e = p_unicode (cx_program cx)" using pl by (simp add: placed_def)
  have utf: "utf16 (units (s_input (env_of cx)))" using assms(1) by (simp add: ok_matcher_def)
  note good = good_outs [OF utf, of B bw n] and strict = strict_outs [OF utf, of n B bw]
  note times = emits_funpow [OF emits_iteration [OF assms(2,3,4)], of "q_min q"]
  define fused where "fused = (if q_max q = None \<and> \<not> e_unicode e then fuseable_atom n e else None)"
  have small: "q_min q \<le> MAX_REPEAT" "\<And>m. q_max q = Some m \<Longrightarrow> m \<le> MAX_REPEAT"
    using assms(5) by auto
  have eq: "compile (NRepeat n q) e = (case fused of
      Some (atom, e') \<Rightarrow> emit (IRepeat atom (q_min q) (q_greedy q) False) e'
    | None \<Rightarrow> (case q_max q of
        None \<Rightarrow> compile_star (compile n) (consumes_input n) (q_greedy q) ?gs (?rep e)
      | Some m \<Rightarrow> compile_bounded (compile n) (consumes_input n) (m - q_min q) (q_greedy q) ?gs (?rep e)))"
    using small by (auto simp: compile_repeat_def fused_def Let_def min_def split: option.split)
  show "code cx B N bw (here e) (here (compile (NRepeat n q) e)) (marks e (compile (NRepeat n q) e))
      (outs (env_of cx) (NRepeat n q) bw)"
  proof (cases fused)
    case None
    show ?thesis
    proof (cases "q_max q")
      case max: None
      have "emits cx CL B N bw (\<lambda>e. compile_star (compile n) (consumes_input n) (q_greedy q) ?gs (?rep e))
          (outs (env_of cx) (NRepeat n q) bw)"
        using emits_seq [OF times emits_star [OF assms(4,2,3), of "consumes_input n" "q_greedy q"]] good strict max
        by (simp add: s_repeat_def [abs_def])
      from emitsD [OF this bw _ subset_refl] pl eq None max show ?thesis by simp
    next
      case max: (Some m)
      have "emits cx CL B N bw (\<lambda>e. compile_bounded (compile n) (consumes_input n) (m - q_min q) (q_greedy q) ?gs (?rep e))
          (outs (env_of cx) (NRepeat n q) bw)"
        using emits_seq [OF times emits_bounded [OF assms(4,2,3), of "consumes_input n" "m - q_min q" "q_greedy q"]] strict max
        by (simp add: s_repeat_def [abs_def])
      from emitsD [OF this bw _ subset_refl] pl eq None max show ?thesis by simp
    qed
  next
    case (Some ae)
    then obtain atom e' where fu: "fuseable_atom n e = Some (atom, e')" "\<not> e_unicode e" "q_max q = None"
      by (cases ae) (auto simp: fused_def split: if_splits)
    have e': "compile (NRepeat n q) e = emit (IRepeat atom (q_min q) (q_greedy q) False) e'"
      using eq fu by (simp add: fused_def)
    then have pre: "prefix (e_classes e') CL" using pl by (simp add: placed_def)
    note sem = fuseable_sem [OF fu(1) pre]
    have "inst_insn cx CL (IRepeat atom (q_min q) (q_greedy q) False) (here e)"
      using pl e' sem(3) by (auto simp: placed_def here_def)
    then obtain atom' t where t: "insn_at cx (here e) (IRepeat atom' (q_min q) (q_greedy q) False)"
      "atom_test cx atom' = Some t" "\<forall>u<0x10000. t u = s_atom_test (env_of cx) CL atom u"
      by (auto simp: inst_insn_def)
    have step: "outs (env_of cx) n bw = unit_step t (units (cx_input cx)) bw"
      using s_char_unit_step [OF assms(1), of t "s_atom_test (env_of cx) CL atom"] fu(2) u t(3) sem(1) by simp
    have "code cx B N bw (here e) (Suc (here e)) {} (outs (env_of cx) (NRepeat n q) bw)"
      using code_fused [OF t(1,2) assms(2), of bw "{}"] fu(3) sem(2) step by (simp add: s_repeat_def [abs_def])
    then show ?thesis
      using e' sem(3,4) by (simp add: here_def)
  qed
qed

lemma wf_captures: "wf_node G n \<Longrightarrow> \<forall>g\<in>set (capture_indices n). 1 \<le> g \<and> g \<le> G"
proof (induction n)
  case (NGroup kind n)
  then show ?case by (cases kind) auto
qed (auto simp: list_all_iff)

lemma emits_class:
  assumes "ok_matcher cx" and "B \<le> N" and "strings cs = []"
  shows "emits cx CL B N bw (compile (NClass cs negate ic)) (outs (env_of cx) (NClass cs negate ic) bw)"
proof (rule emitsI [OF growing_compile])
  fix e assume pl: "placed cx CL B N e (compile (NClass cs negate ic) e)"
  let ?k = "length (e_classes e)" and ?e' = "e\<lparr>e_classes := e_classes e @ [cs]\<rparr>"
  have eq: "compile (NClass cs negate ic) e = emit (IClass ?k negate ic) ?e'"
    using assms(3) by (simp add: intern_class_def)
  note pl = pl [unfolded eq]
  have "prefix (e_classes e @ [cs]) CL" using pl by (simp add: placed_def)
  then have k: "CL ! ?k = cs" by (auto simp: prefix_def nth_append)
  have "inst_insn cx CL (IClass ?k negate ic) (here e)"
    using pl by (auto simp: placed_def here_def)
  then obtain ic' cs' where "insn_at cx (here e) (IClass ?k negate ic')"
    "get_at (p_classes (cx_program cx)) ?k = Some cs'"
    "\<forall>cp\<le>MAX_CP. class_member cx cs' negate cp ic' = s_class_test (env_of cx) cs negate ic cp"
    by (auto simp: inst_insn_def k)
  from code_class [OF assms(1,2) this(1,2)] this(3)
  have "code cx B N bw (here e) (Suc (here e)) {} (s_char (env_of cx) bw (s_class_test (env_of cx) cs negate ic))"
    by blast
  then show "code cx B N bw (here e) (here (compile (NClass cs negate ic) e)) (marks e (compile (NClass cs negate ic) e))
      (outs (env_of cx) (NClass cs negate ic) bw)"
    unfolding eq using assms(3) by (simp add: s_class_def here_def)
qed

lemma outs_string:
  "outs env (if s = [] then NEmpty else NConcat (map (\<lambda>cp. NChar cp ic) s)) bw = s_string env bw ic s"
  by (auto simp: s_string_def fun_eq_iff Let_def rev_map comp_def)

lemma sort_key_Nil_iff [simp]: "sort_key f xs = [] \<longleftrightarrow> xs = []"
  by (metis length_0_conv length_sort)

lemma strings_from_code_points [simp]: "strings (from_code_points cps) = []"
  by (simp add: from_code_points_def)

lemma outs_class_alternatives:
  assumes "strings cs \<noteq> []" and "cps_inv (code_points cs)"
  shows "s_alt (map (\<lambda>n. outs env n bw) (class_alternatives cs ic)) = s_class env bw cs False ic"
proof -
  have no: "s_char env bw (s_class_test env cs False ic) s = []" if "cps_is_empty (code_points cs)" for s
    using that assms(2) by (auto simp: s_char_def s_class_test_def cps_is_empty_correct split: option.split)
  have test: "s_class_test env (from_code_points (code_points cs)) False ic = s_class_test env cs False ic"
    by (simp add: s_class_test_def fun_eq_iff from_code_points_def)
  show ?thesis
    using assms(1) no
    by (auto simp: class_alternatives_def s_class_def s_alt_def fun_eq_iff outs_string comp_def test
        simp del: outs.simps(1,7))
qed

lemma emits_compile:
  assumes "ok_matcher cx" and "B = 2 * (G + 1)" and "B \<le> N"
  shows "wf_node G n \<Longrightarrow> small_counts n \<Longrightarrow> emits cx CL B N bw (compile n) (outs (env_of cx) n bw)"
proof (induction n arbitrary: bw rule: compile.induct)
  case 1
  then show ?case using emits_id by (simp add: fun_eq_iff)
next
  case (2 cp ic)
  show ?case by (simp, rule emits_emit) (auto intro: code_char [OF assms(1,3)])
next
  case (3 da)
  show ?case by (simp, rule emits_emit) (auto intro: code_any [OF assms(1,3)])
next
  case (4 cs negate ic)
  show ?case
  proof (cases "strings cs = []")
    case False
    let ?alts = "class_alternatives cs ic"
    have wf: "negate = False" "class_inv cs" using 4(2) False by auto
    then have "wf_node G n \<and> small_counts n" if "n \<in> set ?alts" for n
      using that by (auto simp: class_alternatives_def from_code_points_def class_inv_def list_all_iff split: if_splits)
    with 4(1) False have "list_all2 (emits cx CL B N bw) (map compile ?alts) (map (\<lambda>n. outs (env_of cx) n bw) ?alts)"
      by (simp add: list_all2_map1 list_all2_map2 list_all2_same)
    moreover have "?alts \<noteq> []" using False by (simp add: class_alternatives_def)
    ultimately have "emits cx CL B N bw (compile_alternation (map compile ?alts)) (s_alt (map (\<lambda>n. outs (env_of cx) n bw) ?alts))"
      by (intro emits_alternation) simp_all
    then have "emits cx CL B N bw (compile_alternation (map compile ?alts)) (s_class (env_of cx) bw cs False ic)"
      using outs_class_alternatives [OF False, of "env_of cx" bw ic] wf(2) by (simp add: class_inv_def)
    with False wf show ?thesis by simp
  qed (rule emits_class [OF assms(1,3)])
next
  case (5 a)
  show ?case
    by (simp, rule emits_emit) (auto intro: code_assertion, auto simp: compile_assertion_def split: assertion.splits)
next
  case (6 gs ic)
  then have "list_all (\<lambda>g. 2 * g + 1 < B) gs" using assms(2) by (auto simp: list_all_iff)
  then show ?case by (simp, intro emits_emit) (auto intro: code_backref assms(3))
next
  case (7 ns)
  then show ?case by (intro emits_concat assms) (auto simp: list_all_iff)
next
  case (8 ns)
  then have "list_all2 (emits cx CL B N bw) (map compile ns) (map (\<lambda>n. outs (env_of cx) n bw) ns)"
    by (auto simp: list_all2_map1 list_all2_map2 list_all2_same list_all_iff)
  with 8 show ?case by (simp add: emits_alternation)
next
  case (9 n q)
  have "\<forall>g\<in>set (capture_indices n). 2 * g + 1 < B"
    using wf_captures [of G n] 9(2) assms(2) by auto
  with 9 show ?case by (intro emits_repeat assms) auto
next
  case (10 kind n)
  show ?case
  proof (cases kind)
    case (Capturing g name)
    with 10 assms show ?thesis by (auto intro!: emits_capture)
  next
    case (Lookahead negate)
    with 10 show ?thesis by (auto simp: compile_group_def [abs_def] intro!: emits_look)
  next
    case (Lookbehind negate)
    with 10 show ?thesis by (auto simp: compile_group_def [abs_def] intro!: emits_look)
  qed (use 10 in \<open>simp add: compile_group_def [abs_def]\<close>)
qed

end
