(* ===== verification/Rx_Lower_Correct.thy ===== *)
theory Rx_Lower_Correct
  imports Rx_Emit
begin

unbundle bit_operations_syntax

text \<open>
  From emitted code to the lowered program: every class operand of the emitted instructions is
  interned once, the case-folding pass and the ASCII bitmaps implement the class test of the
  semantics, and the program without possessive marks finds the first outcome of the root
  node. The ICU tables are parameters; \<open>icu_laws\<close> states what the engine relies on.
\<close>

section \<open>Class operands are distinct\<close>

definition operands :: "insn list \<Rightarrow> nat list" where
  "operands is = concat (map (\<lambda>i. case class_operand i of None \<Rightarrow> [] | Some (k, _) \<Rightarrow> [k]) is)"

fun marked :: "insn \<Rightarrow> bool" where
  "marked (IRepeat _ _ _ possessive) \<longleftrightarrow> possessive"
| "marked _ \<longleftrightarrow> False"

definition ops_ok :: "(class_set \<Rightarrow> bool \<Rightarrow> bool) \<Rightarrow> emitter \<Rightarrow> bool" where
  "ops_ok Q e \<longleftrightarrow> distinct (operands (e_insns e)) \<and> (\<forall>i\<in>set (e_insns e). \<not> marked i)
    \<and> (\<forall>i\<in>set (e_insns e). \<forall>k ic. class_operand i = Some (k, ic) \<longrightarrow> k < length (e_classes e) \<and> Q (e_classes e ! k) ic)"

definition ops_fn :: "(class_set \<Rightarrow> bool \<Rightarrow> bool) \<Rightarrow> emit_fn \<Rightarrow> bool" where
  "ops_fn Q cmp \<longleftrightarrow> (\<forall>e. ops_ok Q e \<longrightarrow> ops_ok Q (cmp e))"

lemma operands_simps [simp]:
  "operands [] = []" "operands (xs @ ys) = operands xs @ operands ys"
  "operands (i # is) = (case class_operand i of None \<Rightarrow> [] | Some (k, _) \<Rightarrow> [k]) @ operands is"
  by (simp_all add: operands_def)

lemma operands_mem: "k \<in> set (operands is) \<longleftrightarrow> (\<exists>i\<in>set is. \<exists>ic. class_operand i = Some (k, ic))"
proof (induction "is")
  case (Cons i "is")
  then show ?case by (cases "class_operand i") auto
qed simp

lemma operands_less: "ops_ok Q e \<Longrightarrow> k \<in> set (operands (e_insns e)) \<Longrightarrow> k < length (e_classes e)"
  by (auto simp: ops_ok_def operands_mem)

lemma ops_emit: "ops_ok Q e \<Longrightarrow> class_operand i = None \<Longrightarrow> \<not> marked i \<Longrightarrow> ops_ok Q (emit i e)"
  by (auto simp: ops_ok_def)

lemma operands_update: "class_operand i = None \<Longrightarrow> set (operands (xs[j := i])) \<subseteq> set (operands xs)
    \<and> (distinct (operands xs) \<longrightarrow> distinct (operands (xs[j := i])))"
proof (induction xs arbitrary: j)
  case (Cons x xs)
  show ?case
  proof (cases j)
    case 0
    with Cons.prems show ?thesis by auto
  next
    case (Suc j')
    with Cons.IH [OF Cons.prems, of j'] show ?thesis by (auto split: option.split)
  qed
qed simp

lemma ops_patch: "ops_ok Q e \<Longrightarrow> class_operand i = None \<Longrightarrow> \<not> marked i \<Longrightarrow> ops_ok Q (patch j i e)"
  using operands_update [of i "e_insns e" j]
  by (auto simp: ops_ok_def dest!: set_update_subset_insert [THEN subsetD])

lemma ops_intern:
  assumes "ops_ok Q e" and "class_operand i = Some (length (e_classes e), ic)" and "\<not> marked i" and "Q cs ic"
  shows "ops_ok Q (emit i (e\<lparr>e_classes := e_classes e @ [cs]\<rparr>))"
  using assms operands_less [OF assms(1)] by (auto simp: ops_ok_def nth_append less_Suc_eq)

lemma ops_fields [simp]:
  "ops_ok Q (e\<lparr>e_next_mark := m\<rparr>) \<longleftrightarrow> ops_ok Q e" "ops_ok Q (e\<lparr>e_backward := b\<rparr>) \<longleftrightarrow> ops_ok Q e"
  by (simp_all add: ops_ok_def)

lemma ops_fnD: "ops_fn Q cmp \<Longrightarrow> ops_ok Q e \<Longrightarrow> ops_ok Q (cmp e)"
  by (simp add: ops_fn_def)

lemma ops_clear: "ops_ok Q e \<Longrightarrow> ops_ok Q (clear_captures gs e)"
  unfolding clear_captures_def by (induction gs arbitrary: e) (simp_all add: ops_emit)

lemma ops_flush: "ops_ok Q e \<Longrightarrow> ops_ok Q (flush_char_run run e)"
  by (auto simp: flush_char_run_def Let_def ops_emit split: list.split)

lemma ops_concat_loop: "\<forall>(n, cmp)\<in>set ns. ops_fn Q cmp \<Longrightarrow> ops_ok Q e \<Longrightarrow> ops_ok Q (concat_loop ns run e)"
proof (induction ns arbitrary: run e)
  case (Cons a ns)
  then show ?case by (cases a) (auto simp: ops_flush ops_fnD split: option.split)
qed (simp add: ops_flush)

lemma ops_patches: "ops_ok Q e \<Longrightarrow> (\<And>j. class_operand (\<phi> j) = None \<and> \<not> marked (\<phi> j)) \<Longrightarrow> ops_ok Q (patches \<phi> js e)"
  unfolding patches_def by (induction js arbitrary: e) (simp_all add: ops_patch)

lemma ops_alternation_loop:
  "\<forall>cmp\<in>set alts. ops_fn Q cmp \<Longrightarrow> ops_ok Q e \<Longrightarrow> ops_ok Q (snd (alternation_loop alts xs e))"
  by (induction alts xs e rule: alternation_loop.induct) (auto simp: Let_def ops_fnD ops_emit ops_patch)

lemma ops_alternation: "\<forall>cmp\<in>set alts. ops_fn Q cmp \<Longrightarrow> ops_fn Q (compile_alternation alts)"
  using ops_alternation_loop [of alts Q _ "[]"]
  by (auto simp: ops_fn_def compile_alternation_patches intro!: ops_patches split: prod.split) (metis snd_conv)

lemma operand_split_pref [simp]:
  "class_operand (split_pref greedy a b) = None" "\<not> marked (split_pref greedy a b)"
  by (simp_all add: split_pref_def)

lemma ops_star: "ops_fn Q cmp \<Longrightarrow> ops_fn Q (compile_star cmp consumes greedy gs)"
  by (simp add: ops_fn_def compile_star_def new_mark_def Let_def ops_patch ops_emit ops_clear)

lemma ops_bounded_loop:
  "ops_fn Q cmp \<Longrightarrow> ops_ok Q e \<Longrightarrow> ops_ok Q (snd (bounded_loop cmp guard gs n xs e))"
proof (induction n arbitrary: xs e)
  case (Suc n)
  then show ?case
    by (cases guard) (simp_all add: Let_def new_mark_def Suc.IH ops_emit ops_fnD [of Q cmp] ops_clear)
qed simp

lemma ops_bounded: "ops_fn Q cmp \<Longrightarrow> ops_fn Q (compile_bounded cmp consumes n greedy gs)"
  using ops_bounded_loop [of Q cmp _ "\<not> consumes" gs n "[]"]
  by (auto simp: ops_fn_def compile_bounded_patches intro!: ops_patches split: prod.split) (metis snd_conv)

lemma ops_funpow: "ops_fn Q f \<Longrightarrow> ops_ok Q e \<Longrightarrow> ops_ok Q ((f ^^ n) e)"
  by (induction n arbitrary: e) (simp_all add: ops_fnD funpow_swap1)

text \<open>A property of all classes a node interns, with their \<open>ignore_case\<close> flags.\<close>

fun all_classes :: "(class_set \<Rightarrow> bool \<Rightarrow> bool) \<Rightarrow> node \<Rightarrow> bool" where
  "all_classes Q (NClass cs negate ic) \<longleftrightarrow>
    (if strings cs = [] then Q cs ic else Q (from_code_points (code_points cs)) ic)"
| "all_classes Q (NConcat ns) \<longleftrightarrow> list_all (all_classes Q) ns"
| "all_classes Q (NAlternate ns) \<longleftrightarrow> list_all (all_classes Q) ns"
| "all_classes Q (NRepeat n q) \<longleftrightarrow> all_classes Q n"
| "all_classes Q (NGroup kind n) \<longleftrightarrow> all_classes Q n"
| "all_classes Q _ \<longleftrightarrow> True"

lemma ops_repeat:
  assumes "ops_fn Q cmp" and "all_classes Q n"
  shows "ops_fn Q (compile_repeat n cmp q)"
proof -
  have "ops_fn Q (\<lambda>e. cmp (clear_captures gs e))" for gs
    using assms(1) by (simp add: ops_fn_def ops_clear)
  then have "ops_ok Q (((\<lambda>e. cmp (clear_captures gs e)) ^^ k) e)" if "ops_ok Q e" for gs k e
    using that by (rule ops_funpow)
  moreover have "ops_ok Q (emit (IRepeat atom mn g False) e')" if "fuseable_atom n e = Some (atom, e')" "ops_ok Q e" for atom mn g e e'
    using that assms(2)
    by (auto simp: fuseable_atom_def intern_class_def intro: ops_emit ops_intern split: node.splits if_splits)
  ultimately show ?thesis
    using ops_star [OF assms(1)] ops_bounded [OF assms(1)]
    by (auto simp: ops_fn_def compile_repeat_def Let_def intro: ops_emit split: option.split)
qed

lemma ops_group: "ops_fn Q cmp \<Longrightarrow> ops_fn Q (compile_group kind cmp)"
  by (cases kind) (simp_all add: ops_fn_def compile_group_def compile_look_def Let_def ops_emit ops_patch)

lemma ops_compile: "all_classes Q n \<Longrightarrow> ops_fn Q (compile n)"
proof (induction n rule: compile.induct)
  case (4 cs negate ic)
  show ?case
  proof (cases "strings cs = []")
    case True
    with 4 show ?thesis by (auto simp: ops_fn_def intern_class_def intro: ops_intern)
  next
    case False
    have "all_classes Q n" if "n \<in> set (class_alternatives cs ic)" for n
      using that 4(2) False
      by (auto simp: class_alternatives_def list_all_iff split: if_splits)
    with 4(1) False show ?thesis by (auto intro!: ops_alternation)
  qed
next
  case (5 a)
  then show ?case by (auto simp: ops_fn_def compile_assertion_def intro: ops_emit split: assertion.split)
next
  case (7 nodes)
  then show ?case
    by (auto simp: ops_fn_def compile_concat_def list_all_iff intro!: ops_concat_loop)
qed (auto simp: ops_fn_def list_all_iff ops_emit ops_repeat [unfolded ops_fn_def] ops_group [unfolded ops_fn_def]
    ops_alternation [unfolded ops_fn_def])

section \<open>The case-folding pass\<close>

text \<open>What the pass does at one instruction.\<close>

definition folded_at ::
  "(class_set \<Rightarrow> class_set) \<Rightarrow> (class_set \<Rightarrow> bool) \<Rightarrow> class_set list \<Rightarrow> class_set list \<Rightarrow> insn \<Rightarrow> insn \<Rightarrow> bool" where
  "folded_at widen eligible cl cl' i j \<longleftrightarrow>
    (case class_operand i of
       None \<Rightarrow> j = i
     | Some (k, ic) \<Rightarrow>
        (if ic \<and> eligible (cl ! k) then j = clear_ignore_case i \<and> cl' ! k = widen (cl ! k)
         else j = i \<and> cl' ! k = cl ! k))"

lemma folded_at_cong:
  assumes "folded_at widen eligible cl0 cl' i j" and "\<And>k ic. class_operand i = Some (k, ic) \<Longrightarrow> cl0 ! k = cl ! k"
  shows "folded_at widen eligible cl cl' i j"
  using assms by (auto simp: folded_at_def split: option.splits)

lemma fold_classes_folded:
  assumes "distinct (operands is)" and "\<forall>k\<in>set (operands is). k < length cl"
    and "fold_classes widen eligible is cl = (is', cl')"
  shows "list_all2 (folded_at widen eligible cl cl') is is' \<and> length cl' = length cl
    \<and> (\<forall>k. k \<notin> set (operands is) \<longrightarrow> cl' ! k = cl ! k)"
  using assms
proof (induction "is" arbitrary: cl is' cl')
  case (Cons i "is")
  define widened where "widened = (case class_operand i of Some (k, True) \<Rightarrow> eligible (cl ! k) | _ \<Rightarrow> False)"
  define k where "k = (case class_operand i of Some (k, _) \<Rightarrow> k | None \<Rightarrow> 0)"
  define cl0 where "cl0 = (if widened then cl[k := widen (cl ! k)] else cl)"
  obtain js where js: "fold_classes widen eligible is cl0 = (js, cl')"
    and is': "is' = (if widened then clear_ignore_case i else i) # js"
    using Cons.prems(3)
    by (auto simp: cl0_def widened_def k_def split: option.splits if_splits bool.splits prod.splits)
  have IH: "list_all2 (folded_at widen eligible cl0 cl') is js \<and> length cl' = length cl0
      \<and> (\<forall>k. k \<notin> set (operands is) \<longrightarrow> cl' ! k = cl0 ! k)"
    using Cons.prems by (intro Cons.IH [OF _ _ js]) (auto simp: cl0_def split: option.splits)
  have "k \<notin> set (operands is)" if widened
  proof -
    have "class_operand i = Some (k, True)"
      using that by (auto simp: widened_def k_def split: option.splits bool.splits)
    with Cons.prems(1) show ?thesis by simp
  qed
  then have out: "cl0 ! m = cl ! m" if "m \<in> set (operands is)" for m
    using that by (cases "m = k") (auto simp: cl0_def)
  have "list_all2 (folded_at widen eligible cl cl') is js"
  proof (rule list_all2_all_nthI)
    show "length is = length js" using IH by (auto dest: list_all2_lengthD)
    fix j assume j: "j < length is"
    then have "folded_at widen eligible cl0 cl' (is ! j) (js ! j)" using IH by (auto dest: list_all2_nthD)
    then show "folded_at widen eligible cl cl' (is ! j) (js ! j)"
    proof (rule folded_at_cong)
      fix m ic assume "class_operand (is ! j) = Some (m, ic)"
      then have "m \<in> set (operands is)" unfolding operands_mem using nth_mem [OF j] by blast
      then show "cl0 ! m = cl ! m" by (rule out)
    qed
  qed
  moreover have "folded_at widen eligible cl cl' i (if widened then clear_ignore_case i else i)"
  proof (cases "class_operand i")
    case (Some kic)
    obtain ic where op: "class_operand i = Some (k, ic)" using Some by (cases kic) (auto simp: k_def)
    have "k < length cl" "k \<notin> set (operands is)" using Cons.prems op by auto
    then have "cl' ! k = (if widened then widen (cl ! k) else cl ! k)"
      using IH by (auto simp: cl0_def)
    with op show ?thesis by (auto simp: folded_at_def widened_def split: bool.splits)
  qed (simp add: folded_at_def widened_def)
  moreover have "cl' ! m = cl ! m" if "m \<notin> set (operands (i # is))" for m
    using that IH by (auto simp: cl0_def widened_def k_def nth_list_update split: option.splits bool.splits if_splits)
  ultimately show ?case
    using IH by (simp add: is' cl0_def)
qed simp

section \<open>Class tests\<close>

text \<open>What the engine relies on of ICU's simple case folding and of its case closure.\<close>

definition icu_laws :: "icu \<Rightarrow> bool" where
  "icu_laws U \<longleftrightarrow>
    (\<forall>c. is_scalar_value c \<longrightarrow> is_scalar_value (icu_simple_fold U c))
    \<and> (\<forall>c. icu_simple_fold U (icu_simple_fold U c) = icu_simple_fold U c)
    \<and> (\<forall>c. icu_simple_fold U (ascii_other_case c) = icu_simple_fold U c)
    \<and> (\<forall>a b. b \<in> set (icu_case_closure U a) \<longrightarrow> is_scalar_value b \<and> icu_simple_fold U b = icu_simple_fold U a)
    \<and> (\<forall>a b. is_scalar_value a \<longrightarrow> is_scalar_value b \<longrightarrow> icu_simple_fold U a = icu_simple_fold U b
          \<longrightarrow> a = b \<or> b \<in> set (icu_case_closure U a))"

lemma scalar_MAX_CP: "is_scalar_value c \<Longrightarrow> c \<le> MAX_CP"
  by (auto simp: is_scalar_value_def MAX_CP_def)

text \<open>A finalized class without the flag tests plain membership.\<close>

lemma class_member_plain:
  assumes "cps_inv (code_points cs)"
  shows "class_member cx (finalize_ascii cs) negate cp False \<longleftrightarrow> (cp \<in> class_cps cs) \<noteq> negate"
  using assms by (simp add: class_member_def finalize_ascii_correct contains_correct)

lemma class_test_plain: "s_class_test env cs negate False cp \<longleftrightarrow> (cp \<in> class_cps cs) \<noteq> negate"
  by (auto simp: s_class_test_def s_char_test_def)

lemma class_test_ascii:
  assumes "\<not> s_unicode env" and "cps_inv (code_points cs)"
  shows "s_class_test env cs negate True cp \<longleftrightarrow> (cp \<in> class_cps (fold_ascii_case cs)) \<noteq> negate"
  using assms(1) fold_ascii_case_correct(2) [OF assms(2)]
  by (auto simp: s_class_test_def s_char_test_def s_canon_def canonicalize_eq_iff)

lemma class_test_unicode:
  assumes "s_unicode env" and "s_fold env = icu_simple_fold U" and "icu_laws U"
    and "cps_inv (code_points cs)" and "cp \<le> MAX_CP"
  shows "s_class_test env cs negate True cp \<longleftrightarrow> (cp \<in> class_cps (fold_unicode_case (icu_case_closure U) cs)) \<noteq> negate"
proof -
  have cl: "class_cps (fold_unicode_case (icu_case_closure U) cs)
      = class_cps cs \<union> (\<Union>a \<in> {a \<in> class_cps cs. is_scalar_value a}. set (icu_case_closure U a))"
    using assms(3) by (intro fold_unicode_case_correct assms(4)) (auto simp: icu_laws_def scalar_MAX_CP)
  have "(\<exists>a\<in>class_cps cs. s_char_test env a True cp)
      \<longleftrightarrow> cp \<in> class_cps (fold_unicode_case (icu_case_closure U) cs)"
  proof
    assume "\<exists>a\<in>class_cps cs. s_char_test env a True cp"
    then obtain a where a: "a \<in> class_cps cs" "fold_unicode (icu_simple_fold U) cp = fold_unicode (icu_simple_fold U) a"
      using assms(1,2) by (auto simp: s_char_test_def s_canon_def)
    with assms(3) have "cp = a \<or> (is_scalar_value a \<and> cp \<in> set (icu_case_closure U a))"
      unfolding fold_unicode_def icu_laws_def by (metis (full_types))
    with a cl show "cp \<in> class_cps (fold_unicode_case (icu_case_closure U) cs)" by auto
  next
    assume "cp \<in> class_cps (fold_unicode_case (icu_case_closure U) cs)"
    with cl consider "cp \<in> class_cps cs" | a where "a \<in> class_cps cs" "is_scalar_value a" "cp \<in> set (icu_case_closure U a)"
      by auto
    then show "\<exists>a\<in>class_cps cs. s_char_test env a True cp"
    proof cases
      case 2
      then have "fold_unicode (icu_simple_fold U) cp = fold_unicode (icu_simple_fold U) a"
        using assms(3) by (auto simp: fold_unicode_def icu_laws_def)
      with 2 assms(1,2) show ?thesis by (auto simp: s_char_test_def s_canon_def)
    qed (auto simp: s_char_test_def)
  qed
  then show ?thesis by (simp add: s_class_test_def)
qed

text \<open>The scan loop of a fused class splits the bitmap into two 64-bit halves.\<close>

lemma half_low: "u < 64 \<Longrightarrow> drop_bit u (ucast (w :: 128 word) :: 64 word) AND 1 \<noteq> 0 \<longleftrightarrow> bit w u"
  by (simp add: and_one_eq bit_iff_odd_drop_bit [symmetric] odd_iff_mod_2_eq_one [symmetric] bit_ucast_iff)

lemma half_high:
  "64 \<le> u \<Longrightarrow> u < 128 \<Longrightarrow> drop_bit (u - 64) (ucast (drop_bit 64 (w :: 128 word)) :: 64 word) AND 1 \<noteq> 0 \<longleftrightarrow> bit w u"
  by (simp add: and_one_eq bit_iff_odd_drop_bit [symmetric] odd_iff_mod_2_eq_one [symmetric] bit_ucast_iff bit_drop_bit_eq)
    auto

lemma atom_test_class:
  assumes "get_at (p_classes (cx_program cx)) k = Some (finalize_ascii cs)" and "cps_inv (code_points cs)"
  shows "\<exists>t. atom_test cx (AtomClass k negate False) = Some t \<and> (\<forall>u. t u \<longleftrightarrow> (u \<in> class_cps cs) \<noteq> negate)"
proof -
  have low: "(drop_bit u (ucast (ascii_lo (finalize_ascii cs)) :: 64 word) AND 1 = 0) = (u \<notin> class_cps cs)" if "u < 64" for u
    using half_low [OF that, of "ascii_lo (finalize_ascii cs)"] that by (auto simp: finalize_ascii_bit)
  have high: "(drop_bit (u - 64) (ucast (drop_bit 64 (ascii_lo (finalize_ascii cs))) :: 64 word) AND 1 = 0) = (u \<notin> class_cps cs)"
    if "\<not> u < 64" "u < 128" for u
    using half_high [of u "ascii_lo (finalize_ascii cs)"] that by (auto simp: finalize_ascii_bit)
  show ?thesis
    by (simp add: atom_test_def assms(1) Let_def) (auto simp: low high finalize_ascii_correct contains_correct assms(2))
qed

section \<open>The lowered program without possessive marks\<close>

definition mark_base :: "parsed \<Rightarrow> nat" where
  "mark_base p = 2 * (group_count p + 1)"

definition start_emitter :: "parsed \<Rightarrow> flags \<Rightarrow> emitter" where
  "start_emitter p f = \<lparr>e_insns = [], e_classes = [], e_next_mark = mark_base p,
     e_unicode = is_unicode_mode f, e_backward = False\<rparr>"

definition emitted :: "parsed \<Rightarrow> flags \<Rightarrow> emitter" where
  "emitted p f = compile (root p) (start_emitter p f)"

definition class_widen :: "icu \<Rightarrow> flags \<Rightarrow> class_set \<Rightarrow> class_set" where
  "class_widen U f = (if is_unicode_mode f then fold_unicode_case (icu_case_closure U) else fold_ascii_case)"

definition class_eligible :: "flags \<Rightarrow> class_set \<Rightarrow> bool" where
  "class_eligible f cs \<longleftrightarrow> is_unicode_mode f \<longrightarrow> code_point_count cs \<le> UNICODE_FOLD_CLASS_LIMIT"

definition folded :: "icu \<Rightarrow> parsed \<Rightarrow> flags \<Rightarrow> insn list \<times> class_set list" where
  "folded U p f = fold_classes (class_widen U f) (class_eligible f) (e_insns (emit IMatch (emitted p f))) (e_classes (emitted p f))"

definition final_classes :: "icu \<Rightarrow> parsed \<Rightarrow> flags \<Rightarrow> class_set list" where
  "final_classes U p f = map finalize_ascii (snd (folded U p f))"

lemma lower_fields:
  "p_insns (lower U p f) = mark_possessive (icu_simple_fold U) (fst (folded U p f)) (final_classes U p f) (is_unicode_mode f)"
  "p_classes (lower U p f) = final_classes U p f"
  "p_group_count (lower U p f) = group_count p"
  "p_unicode (lower U p f) = is_unicode_mode f"
  "p_loop_marks (lower U p f) = e_next_mark (emitted p f) - mark_base p"
proof -
  have "(if \<not> is_unicode_mode f then fold_classes fold_ascii_case (\<lambda>_. True) is cl
      else fold_classes (fold_unicode_case (icu_case_closure U)) (\<lambda>cs. code_point_count cs \<le> UNICODE_FOLD_CLASS_LIMIT) is cl)
      = fold_classes (class_widen U f) (class_eligible f) is cl" for "is" cl
    by (simp add: class_widen_def class_eligible_def [abs_def])
  note eq = lower_def [of U p f, unfolded this Let_def]
  show "p_insns (lower U p f) = mark_possessive (icu_simple_fold U) (fst (folded U p f)) (final_classes U p f) (is_unicode_mode f)"
    "p_classes (lower U p f) = final_classes U p f"
    "p_group_count (lower U p f) = group_count p"
    "p_unicode (lower U p f) = is_unicode_mode f"
    "p_loop_marks (lower U p f) = e_next_mark (emitted p f) - mark_base p"
    unfolding eq
    by (simp_all add: final_classes_def folded_def emitted_def start_emitter_def mark_base_def split: prod.split)
qed

definition unmarked :: "icu \<Rightarrow> parsed \<Rightarrow> flags \<Rightarrow> program" where
  "unmarked U p f = (lower U p f)\<lparr>p_insns := fst (folded U p f)\<rparr>"

text \<open>What the lowering needs of a parsed pattern.\<close>

definition class_small :: "flags \<Rightarrow> class_set \<Rightarrow> bool \<Rightarrow> bool" where
  "class_small f cs ic \<longleftrightarrow> cps_inv (code_points cs) \<and> (ic \<longrightarrow> class_eligible f cs)"

fun bounded_chars :: "node \<Rightarrow> bool" where
  "bounded_chars (NChar cp _) \<longleftrightarrow> cp \<le> MAX_CP"
| "bounded_chars (NClass cs _ _) \<longleftrightarrow> list_all (list_all (\<lambda>cp. cp \<le> MAX_CP)) (strings cs)"
| "bounded_chars (NConcat ns) \<longleftrightarrow> list_all bounded_chars ns"
| "bounded_chars (NAlternate ns) \<longleftrightarrow> list_all bounded_chars ns"
| "bounded_chars (NRepeat n _) \<longleftrightarrow> bounded_chars n"
| "bounded_chars (NGroup _ n) \<longleftrightarrow> bounded_chars n"
| "bounded_chars _ \<longleftrightarrow> True"

definition lowerable :: "parsed \<Rightarrow> flags \<Rightarrow> bool" where
  "lowerable p f \<longleftrightarrow> wf_node (group_count p) (root p) \<and> small_counts (root p)
    \<and> all_classes (class_small f) (root p) \<and> bounded_chars (root p)"

lemma ops_emitted:
  assumes "all_classes (class_small f) (root p)"
  shows "ops_ok (class_small f) (emit IMatch (emitted p f))"
proof -
  have "ops_ok (class_small f) (start_emitter p f)" by (simp add: ops_ok_def start_emitter_def)
  then show ?thesis
    unfolding emitted_def by (intro ops_emit ops_fnD [OF ops_compile [OF assms]]) simp_all
qed

lemma folded_list:
  assumes "all_classes (class_small f) (root p)"
  shows "list_all2 (folded_at (class_widen U f) (class_eligible f) (e_classes (emitted p f)) (snd (folded U p f)))
      (e_insns (emit IMatch (emitted p f))) (fst (folded U p f))"
    and "length (snd (folded U p f)) = length (e_classes (emitted p f))"
proof -
  have "distinct (operands (e_insns (emit IMatch (emitted p f))))"
    "\<forall>k\<in>set (operands (e_insns (emit IMatch (emitted p f)))). k < length (e_classes (emitted p f))"
    using ops_emitted [OF assms] operands_less [OF ops_emitted [OF assms]] by (auto simp: ops_ok_def)
  from fold_classes_folded [OF this, where ?is' = "fst (folded U p f)" and ?cl' = "snd (folded U p f)"]
  show "list_all2 (folded_at (class_widen U f) (class_eligible f) (e_classes (emitted p f)) (snd (folded U p f)))
      (e_insns (emit IMatch (emitted p f))) (fst (folded U p f))"
    "length (snd (folded U p f)) = length (e_classes (emitted p f))"
    by (simp_all add: folded_def)
qed

abbreviation base_matcher :: "icu \<Rightarrow> parsed \<Rightarrow> flags \<Rightarrow> input \<Rightarrow> matcher" where
  "base_matcher U p f inp \<equiv> attempt_matcher (icu_simple_fold U) (unmarked U p f) inp"

lemma attempt_matcher_simps [simp]:
  "cx_fold (attempt_matcher sf prog inp) = sf" "cx_program (attempt_matcher sf prog inp) = prog"
  "cx_input (attempt_matcher sf prog inp) = inp" "cx_limit (attempt_matcher sf prog inp) = - 1"
  by (simp_all add: attempt_matcher_def)

lemma unmarked_fields [simp]:
  "p_insns (unmarked U p f) = fst (folded U p f)" "p_classes (unmarked U p f) = final_classes U p f"
  "p_unicode (unmarked U p f) = is_unicode_mode f" "p_group_count (unmarked U p f) = group_count p"
  "p_loop_marks (unmarked U p f) = e_next_mark (emitted p f) - mark_base p"
  by (simp_all add: unmarked_def lower_fields)

text \<open>The widened class with a cleared flag passes exactly the characters of the semantic test.\<close>

lemma widened_test:
  assumes "icu_laws U" and "cps_inv (code_points cs)" and "cp \<le> MAX_CP"
    and "s_unicode env = is_unicode_mode f" and "s_fold env = icu_simple_fold U"
  shows "s_class_test env cs negate True cp \<longleftrightarrow> (cp \<in> class_cps (class_widen U f cs)) \<noteq> negate"
  using class_test_ascii [of env cs negate cp] class_test_unicode [of env U cs cp negate] assms
  by (cases "is_unicode_mode f") (simp_all add: class_widen_def)

lemma widen_inv: "icu_laws U \<Longrightarrow> cps_inv (code_points cs) \<Longrightarrow> cps_inv (code_points (class_widen U f cs))"
  using fold_ascii_case_correct(1) [of cs] fold_unicode_case_correct(1) [of cs "icu_case_closure U"]
  by (auto simp: class_widen_def icu_laws_def scalar_MAX_CP)

text \<open>The class an instruction reads in the final program, and the flag it keeps, implement the
  class that was interned.\<close>

lemma final_class:
  assumes "icu_laws U" and "class_small f cs ic" and "cl' ! k = (if ic \<and> class_eligible f cs then class_widen U f cs else cs)"
    and "s_unicode env = is_unicode_mode f" and "s_fold env = icu_simple_fold U"
  shows "cps_inv (code_points (cl' ! k))"
    and "cp \<le> MAX_CP \<Longrightarrow> (cp \<in> class_cps (cl' ! k)) \<noteq> negate \<longleftrightarrow> s_class_test env cs negate ic cp"
  using assms widened_test [of U cs cp env f negate] widen_inv [of U cs f]
  by (auto simp: class_small_def class_test_plain split: if_splits)

lemma folded_impl:
  assumes "icu_laws U" and "all_classes (class_small f) (root p)" and "pc < Suc (here (emitted p f))"
  shows "inst_insn (base_matcher U p f inp) (e_classes (emitted p f)) (e_insns (emit IMatch (emitted p f)) ! pc) pc"
proof -
  let ?cx = "base_matcher U p f inp" and ?e = "emit IMatch (emitted p f)"
  let ?cl = "e_classes (emitted p f)" and ?cl' = "snd (folded U p f)"
  let ?i = "e_insns ?e ! pc" and ?j = "fst (folded U p f) ! pc"
  note ops = ops_emitted [OF assms(2)] and fl = folded_list [OF assms(2), of U]
  have pc: "pc < length (e_insns ?e)" using assms(3) by (simp add: here_def)
  have fold: "folded_at (class_widen U f) (class_eligible f) ?cl ?cl' ?i ?j"
    using list_all2_nthD [OF fl(1) pc] .
  have at: "insn_at ?cx pc ?j"
    using pc list_all2_lengthD [OF fl(1)] by (simp add: get_at_def)
  have nomark: "\<not> marked ?i" using ops pc nth_mem [OF pc] by (auto simp: ops_ok_def)
  have impl: "insn_impl ?cx ?cl ?i ?j"
  proof (cases "class_operand ?i")
    case None
    then have "?j = ?i" using fold by (simp add: folded_at_def)
    with None nomark show ?thesis
    proof (cases ?i)
      case (IRepeat atom mn greedy poss)
      with None nomark \<open>?j = ?i\<close> show ?thesis
        by (cases atom) (auto simp: atom_test_def char_eq_env s_any_test_def)
    qed auto
  next
    case (Some kic)
    then obtain k ic where op: "class_operand ?i = Some (k, ic)" by (cases kic) auto
    have k: "k < length ?cl" "class_small f (?cl ! k) ic"
      using ops op nth_mem [OF pc] by (auto simp: ops_ok_def)
    let ?w = "ic \<and> class_eligible f (?cl ! k)"
    have j: "?j = (if ?w then clear_ignore_case ?i else ?i)"
      and cl: "?cl' ! k = (if ?w then class_widen U f (?cl ! k) else ?cl ! k)"
      using fold op by (auto simp: folded_at_def split: if_splits)
    have nic: "?w \<or> \<not> ic" using k(2) by (auto simp: class_small_def)
    note fc = final_class [OF assms(1) k(2) cl, of "env_of ?cx"]
    have get: "get_at (p_classes (cx_program ?cx)) k = Some (finalize_ascii (?cl' ! k))"
      using k(1) fl(2) by (simp add: final_classes_def get_at_def)
    show ?thesis
    proof (cases ?i)
      case (IClass k' negate ic')
      then have "?j = IClass k negate False" using op j nic by auto
      with IClass op get fc show ?thesis by (auto simp: class_member_plain)
    next
      case (IRepeat atom mn greedy poss)
      then obtain negate where atom: "atom = AtomClass k negate ic" using op by (cases atom) auto
      have j': "?j = IRepeat (AtomClass k negate False) mn greedy False"
        using IRepeat atom j nic nomark by auto
      obtain t where t: "atom_test ?cx (AtomClass k negate False) = Some t" "\<forall>u. t u \<longleftrightarrow> (u \<in> class_cps (?cl' ! k)) \<noteq> negate"
        using atom_test_class [OF get, of negate] fc(1) by auto
      have "t u = s_class_test (env_of ?cx) (?cl ! k) negate ic u" if "u < 0x10000" for u
        using t(2) fc(2) [of u negate] that by (simp add: MAX_CP_def)
      with IRepeat atom j' t(1) show ?thesis by auto
    qed (use op in auto)
  qed
  with at show ?thesis unfolding inst_insn_def by blast
qed

section \<open>Attempts of the unmarked program\<close>

definition subject_ok :: "flags \<Rightarrow> input \<Rightarrow> bool" where
  "subject_ok f inp \<longleftrightarrow> utf16 (units inp) \<and> code_point_mode inp = is_unicode_mode f"

definition pattern_env :: "icu \<Rightarrow> flags \<Rightarrow> input \<Rightarrow> senv" where
  "pattern_env U f inp = \<lparr>s_input = inp, s_unicode = is_unicode_mode f, s_fold = icu_simple_fold U\<rparr>"

text \<open>The match the semantics prescribes at an offset: the first outcome of the root, with the
  bounds of the whole match in slots 0 and 1.\<close>

definition start_state :: "parsed \<Rightarrow> nat \<Rightarrow> mstate" where
  "start_state p at = (at, (replicate (mark_base p) None)[0 := Some at])"

definition close_match :: "mstate \<Rightarrow> mstate" where
  "close_match s = (fst s, (snd s)[1 := Some (fst s)])"

definition match_at :: "icu \<Rightarrow> parsed \<Rightarrow> flags \<Rightarrow> input \<Rightarrow> nat \<Rightarrow> mstate option" where
  "match_at U p f inp at =
    map_option close_match (first_of (outs (pattern_env U f inp) (root p) False (start_state p at)))"

lemma paths_match:
  assumes "insn_at cx pc IMatch" and "1 < length (snd s)"
  shows "paths cx False pc (fst s) (snd s) [close_match s]"
proof -
  have "exec_insn cx False (thr pc (fst s) (snd s) [] [])
      = Break (Some (fst s)) (thr pc (fst s) ((snd s)[1 := Some (fst s)]) [] [])"
    using assms(2) by (simp add: exec_insn_def assms(1) write_slot_def split: option.split)
  from p_accept [OF this] show ?thesis by (simp add: close_match_def)
qed

lemma initial_ok:
  assumes "at \<le> length (units inp)" and "prog = unmarked U p f"
  shows "ok_state (length (units inp)) (slot_count prog) (at, initial_slots prog at)"
    and "restr (mark_base p) (at, initial_slots prog at) = start_state p at"
proof -
  have "slot_count prog = mark_base p + (e_next_mark (emitted p f) - mark_base p)"
    by (simp add: assms(2) slot_count_def mark_base_def)
  moreover have "0 < mark_base p" by (simp add: mark_base_def)
  ultimately show "ok_state (length (units inp)) (slot_count prog) (at, initial_slots prog at)"
    "restr (mark_base p) (at, initial_slots prog at) = start_state p at"
    using assms(1)
    by (auto simp: ok_state_def initial_slots_def restr_def start_state_def take_update_swap
        ok_slots_def dest!: set_update_subset_insert [THEN subsetD] split: if_splits)
qed

lemma base_paths:
  assumes "icu_laws U" and "lowerable p f" and "subject_ok f inp" and "at \<le> length (units inp)"
  shows "\<exists>L. paths (base_matcher U p f inp) False 0 at (initial_slots (unmarked U p f) at) L
    \<and> map_option (restr (mark_base p)) (first_of L) = match_at U p f inp at"
proof -
  let ?cx = "base_matcher U p f inp" and ?init = "start_emitter p f" and ?e = "emitted p f"
  let ?B = "mark_base p" and ?N = "slot_count (unmarked U p f)" and ?s = "(at, initial_slots (unmarked U p f) at)"
  have g: "grows ?init ?e" unfolding emitted_def by (rule growingD [OF growing_compile])
  have h0: "here ?init = 0" "e_next_mark ?init = ?B" "e_backward ?init = False" "e_unicode ?init = is_unicode_mode f"
    by (simp_all add: start_emitter_def here_def)
  have N: "?N = e_next_mark ?e" "?B \<le> ?N"
    using growsD(4) [OF g] h0(2) by (simp_all add: slot_count_def mark_base_def)
  have cx: "ok_matcher ?cx" using assms(3) by (simp add: ok_matcher_def subject_ok_def)
  have env: "env_of ?cx = pattern_env U f inp" by (simp add: env_of_def pattern_env_def)
  have emits: "emits ?cx (e_classes ?e) ?B ?N False (compile (root p)) (outs (pattern_env U f inp) (root p) False)"
    using emits_compile [OF cx _ N(2), of "group_count p" "root p"] assms(2) env
    by (simp add: lowerable_def mark_base_def)
  note inst = folded_impl [OF assms(1), of f p _ inp]
  have all: "all_classes (class_small f) (root p)" using assms(2) by (simp add: lowerable_def)
  have "inst_insn ?cx (e_classes ?e) (e_insns ?e ! pc) pc" if "pc < here ?e" for pc
    using inst [OF all, of pc] that by (simp add: nth_append here_def)
  then have "placed ?cx (e_classes ?e) ?B ?N ?init ?e"
    using h0 N by (simp add: placed_def)
  with emitsD [OF emits h0(3) _ subset_refl]
  have code: "code ?cx ?B ?N False 0 (here ?e) (marks ?init ?e) (outs (pattern_env U f inp) (root p) False)"
    by (simp add: h0(1) emitted_def)
  have ok: "ok_state (cx_len ?cx) ?N ?s" "restr ?B ?s = start_state p at"
    using initial_ok [OF assms(4) refl, where U = U and p = p and f = f] by simp_all
  obtain os where "exits ?cx ?B ?N False 0 (here ?e) (marks ?init ?e) ?s os (outs (pattern_env U f inp) (root p) False (restr ?B ?s))"
    using code ok(1) by (rule codeE)
  then have os: "frag ?cx False 0 (here ?e) ?s os"
    "map (restr ?B) os = outs (pattern_env U f inp) (root p) False (start_state p at)"
    "\<forall>s'\<in>set os. ok_state (cx_len ?cx) ?N s'"
    by (simp_all add: exits_def ok(2))
  have B: "1 < ?B" by (simp add: mark_base_def)
  have "insn_at ?cx (here ?e) IMatch"
    using inst [OF all, of "here ?e"] by (simp add: inst_insn_def here_def)
  then have "list_all2 (\<lambda>s' L. paths ?cx False (here ?e) (fst s') (snd s') L) os (map (\<lambda>s'. [close_match s']) os)"
    using os(3) N(2) B by (auto simp: list_all2_conv_all_nth ok_state_def intro!: paths_match)
  from fragD [OF os(1) this]
  have "paths ?cx False 0 at (initial_slots (unmarked U p f) at) (map close_match os)"
    by (simp add: concat_map_singleton)
  moreover have "map_option (restr ?B) (first_of (map close_match os)) = match_at U p f inp at"
    unfolding match_at_def os(2) [symmetric]
    using B by (cases os) (auto simp: first_of_def close_match_def restr_def take_update_swap)
  ultimately show ?thesis by blast
qed

end
