(* ===== verification/Rx_Possessive.thy ===== *)
theory Rx_Possessive
  imports Rx_Lower_Correct
begin

text \<open>
  Auto-possessification (\<open>mark_possessive\<close> of \<open>ir.rs\<close>) does not change what a program matches.
  A run that is not given back loses only continuations that the instruction after it rejects
  at once, so the list of paths stays the same. The argument needs the follower test to look at
  the character the follower reads next, which \<open>follower_matches\<close> gets wrong for a literal
  sequence inside a lookbehind; \<open>directed\<close> excludes exactly that case.
\<close>

section \<open>What every emitted instruction satisfies\<close>

fun sane :: "bool \<Rightarrow> bool \<Rightarrow> insn \<Rightarrow> bool" where
  "sane uni behind (ICharSeq seq) \<longleftrightarrow> seq \<noteq> [] \<and> list_all plain_unit seq"
| "sane uni behind (IChar cp _) \<longleftrightarrow> cp \<le> MAX_CP"
| "sane uni behind (IRepeat atom _ _ possessive) \<longleftrightarrow>
    \<not> uni \<and> \<not> possessive \<and> (case atom of AtomChar cp _ \<Rightarrow> cp \<le> MAX_CP | _ \<Rightarrow> True)"
| "sane uni behind (ILook _ back _) \<longleftrightarrow> (back \<longrightarrow> behind)"
| "sane uni behind _ \<longleftrightarrow> True"

fun has_lookbehind :: "node \<Rightarrow> bool" where
  "has_lookbehind (NConcat ns) \<longleftrightarrow> list_ex has_lookbehind ns"
| "has_lookbehind (NAlternate ns) \<longleftrightarrow> list_ex has_lookbehind ns"
| "has_lookbehind (NRepeat n _) \<longleftrightarrow> has_lookbehind n"
| "has_lookbehind (NGroup (Lookbehind _) n) \<longleftrightarrow> True"
| "has_lookbehind (NGroup _ n) \<longleftrightarrow> has_lookbehind n"
| "has_lookbehind _ \<longleftrightarrow> False"

definition sane_code :: "bool \<Rightarrow> bool \<Rightarrow> emitter \<Rightarrow> bool" where
  "sane_code uni behind e \<longleftrightarrow> e_unicode e = uni \<and> (\<forall>i\<in>set (e_insns e). sane uni behind i)"

definition sane_fn :: "bool \<Rightarrow> bool \<Rightarrow> emit_fn \<Rightarrow> bool" where
  "sane_fn uni behind cmp \<longleftrightarrow> (\<forall>e. sane_code uni behind e \<longrightarrow> sane_code uni behind (cmp e))"

lemma sane_fnD: "sane_fn uni b cmp \<Longrightarrow> sane_code uni b e \<Longrightarrow> sane_code uni b (cmp e)"
  by (simp add: sane_fn_def)

lemma sane_emit: "sane_code uni b e \<Longrightarrow> sane uni b i \<Longrightarrow> sane_code uni b (emit i e)"
  by (auto simp: sane_code_def)

lemma sane_patch: "sane_code uni b e \<Longrightarrow> sane uni b i \<Longrightarrow> sane_code uni b (patch j i e)"
  by (auto simp: sane_code_def dest!: set_update_subset_insert [THEN subsetD])

lemma sane_fields [simp]:
  "sane_code uni b (e\<lparr>e_next_mark := m\<rparr>) \<longleftrightarrow> sane_code uni b e"
  "sane_code uni b (e\<lparr>e_backward := bw\<rparr>) \<longleftrightarrow> sane_code uni b e"
  "sane_code uni b (e\<lparr>e_classes := cl\<rparr>) \<longleftrightarrow> sane_code uni b e"
  by (simp_all add: sane_code_def)

lemma sane_clear: "sane_code uni b e \<Longrightarrow> sane_code uni b (clear_captures gs e)"
  unfolding clear_captures_def by (induction gs arbitrary: e) (simp_all add: sane_emit)

lemma sane_flush:
  assumes "list_all plain_unit run" and "sane_code uni b e"
  shows "sane_code uni b (flush_char_run run e)"
proof -
  define r where "r = (if e_backward e then rev run else run)"
  have "list_all plain_unit r" using assms(1) by (simp add: r_def)
  then show ?thesis
    unfolding flush_char_run_def Let_def r_def [symmetric]
    using assms(2) by (auto simp: plain_unit_def MAX_CP_def intro!: sane_emit split: list.split)
qed

lemma fusible_plain: "fusible_literal n = Some u \<Longrightarrow> plain_unit u"
  by (cases n rule: fusible_literal.cases) (auto simp: plain_unit_def split: if_splits)

lemma sane_concat_loop:
  "\<forall>(n, cmp)\<in>set ns. sane_fn uni b cmp \<Longrightarrow> list_all plain_unit run \<Longrightarrow> sane_code uni b e
    \<Longrightarrow> sane_code uni b (concat_loop ns run e)"
proof (induction ns arbitrary: run e)
  case (Cons a ns)
  then show ?case by (cases a) (auto simp: sane_flush sane_fnD fusible_plain split: option.split)
qed (simp add: sane_flush)

lemma sane_patches: "sane_code uni b e \<Longrightarrow> (\<And>j. sane uni b (\<phi> j)) \<Longrightarrow> sane_code uni b (patches \<phi> js e)"
  unfolding patches_def by (induction js arbitrary: e) (simp_all add: sane_patch)

lemma sane_alternation_loop:
  "\<forall>cmp\<in>set alts. sane_fn uni b cmp \<Longrightarrow> sane_code uni b e \<Longrightarrow> sane_code uni b (snd (alternation_loop alts xs e))"
  by (induction alts xs e rule: alternation_loop.induct) (auto simp: Let_def sane_fnD sane_emit sane_patch)

lemma sane_alternation: "\<forall>cmp\<in>set alts. sane_fn uni b cmp \<Longrightarrow> sane_fn uni b (compile_alternation alts)"
  using sane_alternation_loop [of alts uni b _ "[]"]
  by (auto simp: sane_fn_def compile_alternation_patches intro!: sane_patches split: prod.split) (metis snd_conv)

lemma sane_split_pref [simp]: "sane uni b (split_pref greedy x y)"
  by (simp add: split_pref_def)

lemma sane_star: "sane_fn uni b cmp \<Longrightarrow> sane_fn uni b (compile_star cmp consumes greedy gs)"
  by (simp add: sane_fn_def compile_star_def new_mark_def Let_def sane_patch sane_emit sane_clear)

lemma sane_bounded_loop:
  "sane_fn uni b cmp \<Longrightarrow> sane_code uni b e \<Longrightarrow> sane_code uni b (snd (bounded_loop cmp guard gs n xs e))"
proof (induction n arbitrary: xs e)
  case (Suc n)
  then show ?case
    by (cases guard) (simp_all add: Let_def new_mark_def Suc.IH sane_emit sane_fnD [of uni b cmp] sane_clear)
qed simp

lemma sane_bounded: "sane_fn uni b cmp \<Longrightarrow> sane_fn uni b (compile_bounded cmp consumes n greedy gs)"
  using sane_bounded_loop [of uni b cmp _ "\<not> consumes" gs n "[]"]
  by (auto simp: sane_fn_def compile_bounded_patches intro!: sane_patches split: prod.split) (metis snd_conv)

lemma sane_repeat:
  assumes "sane_fn uni b cmp" and "bounded_chars n"
  shows "sane_fn uni b (compile_repeat n cmp q)"
proof -
  have pow: "sane_code uni b (((\<lambda>e. cmp (clear_captures gs e)) ^^ k) e)" if "sane_code uni b e" for gs k e
    using that by (induction k arbitrary: e) (simp_all add: sane_fnD [OF assms(1)] sane_clear)
  have "sane_code uni b (emit (IRepeat atom mn g False) e')"
    if "fuseable_atom n e = Some (atom, e')" "sane_code uni b e" "\<not> e_unicode e" for atom mn g e e'
    using that assms(2)
    by (auto simp: fuseable_atom_def intern_class_def sane_code_def intro!: sane_emit split: node.splits if_splits)
  with pow show ?thesis
    using sane_star [OF assms(1)] sane_bounded [OF assms(1)]
    by (auto simp: sane_fn_def compile_repeat_def Let_def intro: sane_emit split: option.split)
qed

lemma sane_look: "sane_fn uni b cmp \<Longrightarrow> (behind \<longrightarrow> b) \<Longrightarrow> sane_fn uni b (compile_look behind negate cmp)"
  by (simp add: sane_fn_def compile_look_def Let_def sane_patch sane_emit)

lemma sane_group:
  assumes "sane_fn uni b cmp" and "\<And>neg. kind = Lookbehind neg \<Longrightarrow> b"
  shows "sane_fn uni b (compile_group kind cmp)"
  using assms sane_look [OF assms(1)]
  by (cases kind) (auto simp: sane_fn_def compile_group_def Let_def sane_emit)

lemma sane_compile: "(has_lookbehind n \<longrightarrow> b) \<Longrightarrow> bounded_chars n \<Longrightarrow> sane_fn uni b (compile n)"
proof (induction n rule: compile.induct)
  case (4 cs negate ic)
  have nb: "\<not> has_lookbehind alt \<and> bounded_chars alt" if "alt \<in> set (class_alternatives cs ic)" for alt
    using that "4.prems"(2)
    by (auto simp: class_alternatives_def list_ex_iff list_all_iff from_code_points_def split: if_splits)
  show ?case
  proof (cases "strings cs = []")
    case True
    then show ?thesis by (simp add: sane_fn_def intern_class_def sane_emit)
  next
    case False
    with 4 nb show ?thesis by (auto intro!: sane_alternation)
  qed
next
  case (5 a)
  then show ?case by (cases a) (simp_all add: sane_fn_def sane_emit compile_assertion_def)
next
  case (7 ns)
  then have "\<forall>(n, cmp)\<in>set (map (\<lambda>n. (n, compile n)) ns). sane_fn uni b cmp"
    by (auto simp: list_ex_iff list_all_iff)
  then show ?case
    using sane_concat_loop [where ns = "map (\<lambda>n. (n, compile n)) ns"]
      sane_concat_loop [where ns = "rev (map (\<lambda>n. (n, compile n)) ns)"]
    by (simp add: sane_fn_def compile_concat_def del: map_map)
next
  case (8 alts)
  then show ?case by (auto intro!: sane_alternation simp: list_ex_iff list_all_iff)
next
  case (9 n q)
  then show ?case by (auto intro: sane_repeat)
next
  case (10 kind body)
  then show ?case by (cases kind) (auto intro!: sane_group)
qed (auto simp: sane_fn_def sane_emit)

section \<open>Replacing the instructions of a program\<close>

abbreviation with_insns :: "insn list \<Rightarrow> matcher \<Rightarrow> matcher" where
  "with_insns is cx \<equiv> cx\<lparr>cx_program := (cx_program cx)\<lparr>p_insns := is\<rparr>\<rparr>"

lemma with_insns_fields:
  "cx_input (with_insns is cx) = cx_input cx" "p_unicode (cx_program (with_insns is cx)) = p_unicode (cx_program cx)"
  "p_classes (cx_program (with_insns is cx)) = p_classes (cx_program cx)" "cx_fold (with_insns is cx) = cx_fold cx"
  by simp_all

lemma with_insns_tests [simp]:
  "canon (with_insns is cx) = canon cx" "char_eq (with_insns is cx) = char_eq cx"
  "class_member (with_insns is cx) = class_member cx" "at_start (with_insns is cx) = at_start cx"
  "at_end (with_insns is cx) = at_end cx" "word_boundary (with_insns is cx) = word_boundary cx"
  "backref_loop (with_insns is cx) = backref_loop cx"
proof -
  show canon: "canon (with_insns is cx) = canon cx" by (simp add: canon_def fun_eq_iff)
  have word: "is_word_in (with_insns is cx) = is_word_in cx" by (simp add: is_word_in_def fun_eq_iff)
  have "backref_loop (with_insns is cx) ic st at n = backref_loop cx ic st at n" for ic st at n
    by (induction n arbitrary: st at) (auto simp: canon split: option.split)
  then show "backref_loop (with_insns is cx) = backref_loop cx" by (simp add: fun_eq_iff)
  show "char_eq (with_insns is cx) = char_eq cx" "class_member (with_insns is cx) = class_member cx"
    "at_start (with_insns is cx) = at_start cx" "at_end (with_insns is cx) = at_end cx"
    by (simp_all add: fun_eq_iff char_eq_def class_member_def at_start_def at_end_def canon)
  show "word_boundary (with_insns is cx) = word_boundary cx"
    unfolding fun_eq_iff word_boundary_def word with_insns_fields by (rule allI refl)+
qed

lemma with_insns_execs [simp]:
  "consume (with_insns is cx) = consume cx" "exec_char_seq (with_insns is cx) = exec_char_seq cx"
  "match_backref (with_insns is cx) = match_backref cx" "atom_test (with_insns is cx) = atom_test cx"
  unfolding fun_eq_iff consume_def exec_char_seq_def match_backref_def atom_test_def with_insns_fields with_insns_tests
  by (rule allI refl)+

lemma with_insns_repeat [simp]: "exec_repeat (with_insns is cx) = exec_repeat cx"
  by (simp add: exec_repeat_def fun_eq_iff)

lemma exec_insn_with_insns:
  "get_at is (t_pc th) = get_at (p_insns (cx_program cx)) (t_pc th)
    \<Longrightarrow> exec_insn (with_insns is cx) bw th = exec_insn cx bw th"
  by (simp add: exec_insn_def split: option.split insn.split)

section \<open>A follower that rejects\<close>

definition rejects :: "matcher \<Rightarrow> bool \<Rightarrow> nat \<Rightarrow> nat \<Rightarrow> bool" where
  "rejects cx bw pc pos \<longleftrightarrow> (\<forall>caps. exec_insn cx bw (thr pc pos caps [] []) = fail (thr pc pos caps [] []))"

lemma rejects_paths: "rejects cx bw pc pos \<Longrightarrow> paths cx bw pc pos caps L \<Longrightarrow> L = []"
  by (erule paths.cases) (auto simp: rejects_def fail_def)

text \<open>An instruction the follower search passes over leaves the offset alone.\<close>

lemma paths_next_insn:
  assumes "paths cx bw pc pos caps L" and "exec_insn cx bw (thr pc pos caps [] []) = next_insn r"
    and "\<And>th. r = Some th \<Longrightarrow> t_pc th = pc \<and> t_pos th = pos \<and> t_stack th = []"
  shows "\<exists>caps'. paths cx bw (Suc pc) pos caps' L"
proof -
  have step: "t_pc th = Suc pc \<and> t_pos th = pos \<and> t_stack th = []" if "next_insn r = Continue th" for th
    using assms(3) that by (auto simp: next_insn_def advance_def split: option.splits)
  have other: "next_insn r \<noteq> Break v th" "next_insn r \<noteq> CallLook n b e" for v th n b e
    by (auto simp: next_insn_def split: option.splits)
  from assms(1) show ?thesis
    by (cases rule: paths.cases) (auto simp: assms(2) other dest!: step)
qed

lemma write_slot_thr:
  "write_slot l i v (thr pc pos caps [] log) = Some th \<Longrightarrow> t_pc th = pc \<and> t_pos th = pos \<and> t_stack th = []"
  by (auto simp: write_slot_def split: option.splits)

lemma write_slot_two:
  "Option.bind (write_slot l i v (thr pc pos caps [] log)) (write_slot l' i' v') = Some th
    \<Longrightarrow> t_pc th = pc \<and> t_pos th = pos \<and> t_stack th = []"
  by (auto simp: write_slot_def split: option.splits Option.bind_splits)

lemma paths_test_insn:
  assumes "paths cx bw pc pos caps L" and "exec_insn cx bw (thr pc pos caps [] []) = test_insn r (thr pc pos caps [] [])"
  shows "L = [] \<or> (\<exists>caps'. paths cx bw (Suc pc) pos caps' L)"
proof -
  have step: "t_pc th = Suc pc \<and> t_pos th = pos \<and> t_stack th = []" if "test_insn r (thr pc pos c [] []) = Continue th" for c th
    using that by (auto simp: test_insn_def advance_def fail_def split: option.splits if_splits)
  have other: "test_insn r (thr pc pos caps [] []) \<noteq> Break (Some v) th"
      "test_insn r (thr pc pos caps [] []) \<noteq> CallLook n b e" for v th n b e
    by (auto simp: test_insn_def fail_def split: option.splits)
  from assms(1) show ?thesis
    by (cases rule: paths.cases) (auto simp: assms(2) other dest!: step)
qed

lemma follower_rejects:
  assumes "follower_loop n (p_insns (cx_program cx)) pc = Some fpc" and "rejects cx bw fpc pos"
    and "paths cx bw pc pos caps L"
  shows "L = []"
  using assms
proof (induction n arbitrary: pc caps L)
  case (Suc n)
  let ?is = "p_insns (cx_program cx)"
  obtain i where i: "get_at ?is pc = Some i" using Suc.prems(1) by (cases "get_at ?is pc") auto
  note IH = Suc.IH [OF _ Suc.prems(2)]
  have ex: "exec_insn cx bw (thr pc pos caps [] []) = next_insn (write_slot l s v (thr pc pos caps [] []))
      \<Longrightarrow> follower_loop n ?is (Suc pc) = Some fpc \<Longrightarrow> L = []" for l s v
    using paths_next_insn [OF Suc.prems(3), of "write_slot l s v (thr pc pos caps [] [])"] write_slot_thr IH by blast
  show ?case
  proof (cases i)
    case (ISave s)
    from Suc.prems(1) have "follower_loop n ?is (Suc pc) = Some fpc" by (simp add: i ISave)
    then show ?thesis by (intro ex) (simp_all add: exec_insn_def i ISave)
  next
    case (ISetMark s)
    from Suc.prems(1) have "follower_loop n ?is (Suc pc) = Some fpc" by (simp add: i ISetMark)
    then show ?thesis by (intro ex) (simp_all add: exec_insn_def i ISetMark)
  next
    case (IClearCapture g)
    have "exec_insn cx bw (thr pc pos caps [] [])
        = next_insn (Option.bind (write_slot True (2 * g) None (thr pc pos caps [] [])) (write_slot True (2 * g + 1) None))"
      by (simp add: exec_insn_def i IClearCapture)
    with paths_next_insn [OF Suc.prems(3)] write_slot_two obtain c where "paths cx bw (Suc pc) pos c L" by blast
    moreover from Suc.prems(1) have "follower_loop n ?is (Suc pc) = Some fpc" by (simp add: i IClearCapture)
    ultimately show ?thesis by (blast dest: IH)
  next
    case (ICheckProgress s)
    have "exec_insn cx bw (thr pc pos caps [] [])
        = test_insn (map_option (\<lambda>m. m \<noteq> Some pos) (get_at caps s)) (thr pc pos caps [] [])"
      by (simp add: exec_insn_def i ICheckProgress)
    moreover from Suc.prems(1) have "follower_loop n ?is (Suc pc) = Some fpc" by (simp add: i ICheckProgress)
    ultimately show ?thesis using paths_test_insn [OF Suc.prems(3)] by (blast dest: IH)
  next
    case (IJump t)
    then have "exec_insn cx bw (thr pc pos caps [] []) = Continue (thr t pos caps [] [])"
      by (simp add: exec_insn_def i)
    with Suc.prems(3) have "paths cx bw t pos caps L" by (cases rule: paths.cases) auto
    moreover from Suc.prems(1) have "follower_loop n ?is t = Some fpc" by (simp add: i IJump)
    ultimately show ?thesis by (blast dest: IH)
  qed (use Suc.prems(1) rejects_paths [OF Suc.prems(2)] Suc.prems(3) in \<open>simp_all add: i split: if_splits\<close>)
qed simp

section \<open>What a marked run cannot lose\<close>

text \<open>The programs the marking pass works on: no Unicode mode, finalized classes without a
  remaining \<open>ignore_case\<close> flag.\<close>

definition plain_program :: "matcher \<Rightarrow> bool" where
  "plain_program cx \<longleftrightarrow> \<not> p_unicode (cx_program cx) \<and> \<not> code_point_mode (cx_input cx) \<and> utf16 (units (cx_input cx))
    \<and> (\<forall>i\<in>set (p_insns (cx_program cx)). sane False True i
        \<and> (\<forall>k ic. class_operand i = Some (k, ic) \<longrightarrow> \<not> ic
            \<and> (\<exists>cs. get_at (p_classes (cx_program cx)) k = Some (finalize_ascii cs) \<and> cps_inv (code_points cs))))"

lemma plain_programD:
  assumes "plain_program cx"
  shows "\<not> p_unicode (cx_program cx)" "\<not> code_point_mode (cx_input cx)" "utf16 (units (cx_input cx))"
    "i \<in> set (p_insns (cx_program cx)) \<Longrightarrow> sane False True i"
  using assms by (auto simp: plain_program_def)

lemma plain_class:
  assumes "plain_program cx" and "i \<in> set (p_insns (cx_program cx))" and "class_operand i = Some (k, ic)"
  obtains cs where "\<not> ic" "get_at (p_classes (cx_program cx)) k = Some (finalize_ascii cs)"
    "p_classes (cx_program cx) ! k = finalize_ascii cs" "cps_inv (code_points cs)"
proof -
  from assms obtain cs where cs: "\<not> ic" "get_at (p_classes (cx_program cx)) k = Some (finalize_ascii cs)" "cps_inv (code_points cs)"
    unfolding plain_program_def by blast
  moreover from cs(2) have "p_classes (cx_program cx) ! k = finalize_ascii cs" by simp
  ultimately show thesis using that by blast
qed

lemma code_points_finalize [simp]: "code_points (finalize_ascii cs) = code_points cs"
  by (simp add: finalize_ascii_def)

text \<open>The unit next to an offset in the direction of matching.\<close>

abbreviation next_is :: "matcher \<Rightarrow> bool \<Rightarrow> nat \<Rightarrow> code_unit \<Rightarrow> bool" where
  "next_is cx bw q u \<equiv> unit_ok (\<lambda>v. v = u) (units (cx_input cx)) bw q"

lemma decode_next:
  assumes "\<not> code_point_mode (cx_input cx)" and "next_is cx bw q u" and "utf16 (units (cx_input cx))"
  shows "decode_dir (cx_input cx) q bw = Some (Some (u, 1))"
  using assms utf16_nth [OF assms(3), of "q - 1"]
  by (cases bw) (auto simp: decode_dir_def decode_back_def prev_codepoint_def decode_def unit_ok_def get_at_def)

lemma consume_rejects:
  assumes "plain_program cx" and "next_is cx bw (t_pos th) u" and "\<not> test u"
  shows "consume cx bw test th = fail th"
  using decode_next [OF plain_programD(2) [OF assms(1)] assms(2) plain_programD(3) [OF assms(1)]] assms(3)
  by (simp add: consume_def)

lemma repeat_rejects:
  assumes "atom_test cx atom = Some t" and "next_is cx bw (t_pos th) u" and "\<not> t u" and "1 \<le> mn"
  shows "exec_repeat cx bw atom mn greedy poss th = fail th"
proof -
  have "repeat_scan t (units (cx_input cx)) bw (t_pos th) = Some (t_pos th)"
    using assms(2,3) by (subst repeat_scan.simps) (auto simp: unit_ok_def Let_def split: if_splits)
  with assms(1,4) show ?thesis by (simp add: exec_repeat_def abs_diff_def)
qed

lemma char_matches_eq:
  "\<not> p_unicode (cx_program cx) \<Longrightarrow> char_matches (cx_fold cx) cp u ic False = char_eq cx cp u ic"
  by (simp add: char_matches_def char_eq_def fold_cp_def canon_def)

text \<open>The static test of an atom is the test of the scan loop.\<close>

lemma atom_matches_test:
  assumes "plain_program cx" and "IRepeat atom mn g poss \<in> set (p_insns (cx_program cx))"
  shows "\<exists>t. atom_test cx atom = Some t \<and> (\<forall>u. t u = atom_matches (cx_fold cx) atom (p_classes (cx_program cx)) u False)"
proof (cases atom)
  case (AtomChar cp ic)
  then show ?thesis
    using char_matches_eq [OF plain_programD(1) [OF assms(1)]] by (auto simp: atom_test_def atom_matches_def)
next
  case (AtomClass k negate ic)
  then obtain cs where cs: "\<not> ic" "get_at (p_classes (cx_program cx)) k = Some (finalize_ascii cs)"
    "p_classes (cx_program cx) ! k = finalize_ascii cs" "cps_inv (code_points cs)"
    using plain_class [OF assms, of k ic] by auto
  from atom_test_class [OF cs(2,4), of negate] obtain t where
    "atom_test cx (AtomClass k negate False) = Some t" "\<forall>u. t u = ((u \<in> class_cps cs) \<noteq> negate)" by blast
  with cs AtomClass show ?thesis by (simp add: atom_matches_def class_matches_def contains_correct)
qed (simp add: atom_test_def atom_matches_def)

lemma follower_loop_stop:
  assumes "follower_loop n insns pc = Some fpc"
  shows "fpc < length insns" and "case insns ! fpc of IChar _ _ \<Rightarrow> True | ICharSeq _ \<Rightarrow> True | IClass _ _ _ \<Rightarrow> True
    | IAnyChar _ \<Rightarrow> True | IRepeat _ mn _ _ \<Rightarrow> 1 \<le> mn | _ \<Rightarrow> False"
  using assms by (induction n insns pc rule: follower_loop.induct) (auto split: option.splits insn.splits if_splits)

lemma follower_matches_rejects:
  assumes plain: "plain_program cx" and "next_is cx bw q u"
    and fpc: "follower_loop n (p_insns (cx_program cx)) pc = Some fpc"
    and no: "\<not> follower_matches (cx_fold cx) (p_insns (cx_program cx) ! fpc) (p_classes (cx_program cx)) u False"
    and dir: "bw \<Longrightarrow> \<nexists>seq. p_insns (cx_program cx) ! fpc = ICharSeq seq"
  shows "rejects cx bw fpc q"
  unfolding rejects_def
proof
  fix caps
  let ?i = "p_insns (cx_program cx) ! fpc" and ?th = "thr fpc q caps [] []"
  note stop = follower_loop_stop [OF fpc]
  have get: "get_at (p_insns (cx_program cx)) fpc = Some ?i" using stop by simp
  have mem: "?i \<in> set (p_insns (cx_program cx))" using stop by simp
  have unit: "next_is cx bw (t_pos ?th) u" using assms(2) by simp
  note con = consume_rejects [OF plain unit]
  show "exec_insn cx bw ?th = fail ?th"
  proof (cases ?i)
    case (IChar cp ic)
    with no have "\<not> char_eq cx cp u ic"
      by (simp add: follower_matches_def char_matches_eq [OF plain_programD(1) [OF plain]])
    then show ?thesis by (simp add: exec_insn_def get IChar con)
  next
    case (IAnyChar da)
    with no show ?thesis by (simp add: exec_insn_def get IAnyChar con follower_matches_def)
  next
    case (IClass k negate ic)
    obtain cs where cs: "\<not> ic" "get_at (p_classes (cx_program cx)) k = Some (finalize_ascii cs)"
      "p_classes (cx_program cx) ! k = finalize_ascii cs" "cps_inv (code_points cs)"
      using plain_class [OF plain mem, of k ic] IClass by auto
    with no IClass have "\<not> class_member cx (finalize_ascii cs) negate u ic"
      by (simp add: follower_matches_def class_matches_def contains_correct class_member_plain)
    then show ?thesis
      using decode_next [OF plain_programD(2) [OF plain] assms(2) plain_programD(3) [OF plain]]
      by (simp add: exec_insn_def get IClass con cs(2))
  next
    case (ICharSeq seq)
    then have "\<not> bw" "seq \<noteq> []" using dir plain_programD(4) [OF plain mem] by auto
    moreover have "q < length (units (cx_input cx))" "units (cx_input cx) ! q = u" "u \<noteq> seq ! 0"
      using assms(2) no \<open>\<not> bw\<close> ICharSeq by (simp_all add: unit_ok_def follower_matches_def)
    moreover have "take (length seq) (drop q (units (cx_input cx))) \<noteq> seq"
    proof
      assume "take (length seq) (drop q (units (cx_input cx))) = seq"
      then have "take (length seq) (drop q (units (cx_input cx))) ! 0 = seq ! 0" by simp
      with calculation show False by simp
    qed
    ultimately show ?thesis
      by (auto simp: exec_insn_def get ICharSeq exec_char_seq_def Let_def)
  next
    case (IRepeat atom mn g poss)
    then obtain t where t: "atom_test cx atom = Some t"
      "\<forall>u. t u = atom_matches (cx_fold cx) atom (p_classes (cx_program cx)) u False"
      using atom_matches_test [OF plain, of atom mn g poss] mem by auto
    with no IRepeat have "\<not> t u" by (simp add: follower_matches_def)
    with repeat_rejects [OF t(1) unit] stop(2) IRepeat show ?thesis
      by (simp add: exec_insn_def get)
  qed (use stop(2) in simp_all)
qed

lemma bounded_members_set: "bounded_members s cap = Some cs \<Longrightarrow> set cs = cps_set s"
  by (auto simp: bounded_members_def cps_set_def range_set_def less_Suc_eq_le split: if_splits simp del: upt_Suc) force

text \<open>Every unit a marked run consumes is among the members the pass has checked.\<close>

lemma repeat_members:
  assumes plain: "plain_program cx" and mem: "IRepeat atom mn g poss \<in> set (p_insns (cx_program cx))"
    and "atom_test cx atom = Some t" and "t u" and "u < 0x10000"
    and "Option.bind (repeat_atom_set atom (p_classes (cx_program cx))) (\<lambda>rep. bounded_members rep REP_CAP) = Some chars"
  shows "u \<in> set chars"
proof -
  obtain rep where rep: "repeat_atom_set atom (p_classes (cx_program cx)) = Some rep" "set chars = cps_set rep"
    using assms(6) by (auto simp: bounded_members_set bind_eq_Some_conv)
  have t: "atom_matches (cx_fold cx) atom (p_classes (cx_program cx)) u False"
    using atom_matches_test [OF plain mem] assms(3,4) by auto
  show ?thesis
  proof (cases atom)
    case (AtomChar cp ic)
    with t rep have "u = cp" "rep = cps_insert cp cps_new"
      by (auto simp: repeat_atom_set_def atom_matches_def char_matches_def split: if_splits)
    with rep(2) assms(5) show ?thesis by (simp add: cps_insert_correct MAX_CP_def)
  next
    case (AtomClass k negate ic)
    obtain cs where cs: "\<not> ic" "p_classes (cx_program cx) ! k = finalize_ascii cs" "cps_inv (code_points cs)"
      using plain_class [OF plain mem, of k ic] AtomClass by auto
    have "rep = (if negate then cps_negate (code_points cs) else code_points cs)"
      using rep(1) cs AtomClass by (auto simp: repeat_atom_set_def Let_def)
    moreover have "(u \<in> class_cps cs) \<noteq> negate"
      using t cs AtomClass by (simp add: atom_matches_def class_matches_def contains_correct)
    ultimately show ?thesis
      using rep(2) cps_negate_correct(2) [OF cs(3)] assms(5) by (cases negate) (simp_all add: MAX_CP_def)
  qed (use rep in \<open>simp add: repeat_atom_set_def\<close>)
qed

lemma fpaths_last: "fpaths cx bw fr c L \<Longrightarrow> chain_frame bw fr = Some [] \<Longrightarrow> paths cx bw (fr_pc fr) (fr_pos fr) c L"
  by (erule fpaths.cases) simp_all

lemma fpaths_chain:
  "fpaths cx bw fr c L \<Longrightarrow> chain_frame bw fr = Some [fr']
    \<Longrightarrow> \<exists>L1 L2. L = L1 @ L2 \<and> paths cx bw (fr_pc fr) (fr_pos fr) c L1 \<and> fpaths cx bw fr' c L2"
  by (erule fpaths.cases) auto

lemma dead_frames:
  assumes "run_of t us bw p r" and "\<And>k L. k < r \<Longrightarrow> paths cx bw pc (walk bw p k) c L \<Longrightarrow> L = []"
  shows "mn \<le> j \<Longrightarrow> j < r \<Longrightarrow>
    fpaths cx bw \<lparr>fr_pc = pc, fr_pos = walk bw p j, fr_log_mark = l, fr_resume = RepeatGreedy (walk bw p mn)\<rparr> c L \<Longrightarrow> L = []"
proof (induction j arbitrary: L)
  case 0
  then have "mn = 0" by simp
  with 0 show ?case
    using assms(2) [of 0 L] fpaths_last [OF "0.prems"(3)] by (simp add: chain_frame_def)
next
  case (Suc j)
  let ?fr = "\<lambda>j. \<lparr>fr_pc = pc, fr_pos = walk bw p j, fr_log_mark = l, fr_resume = RepeatGreedy (walk bw p mn)\<rparr>"
  show ?case
  proof (cases "mn = Suc j")
    case True
    with Suc.prems(2) show ?thesis
      using assms(2) [of "Suc j" L] fpaths_last [OF Suc.prems(3)] by (simp add: chain_frame_def)
  next
    case False
    with Suc.prems have mn: "mn \<le> j" by simp
    have "chain_frame bw (?fr (Suc j)) = Some [?fr j]"
      using walk_inj [OF assms(1), of "Suc j" mn] Suc.prems mn assms(1)
      by (auto simp: chain_frame_def step_def walk_def run_of_def)
    from fpaths_chain [OF Suc.prems(3) this]
    obtain L1 L2 where "L = L1 @ L2" "paths cx bw pc (walk bw p (Suc j)) c L1" "fpaths cx bw (?fr j) c L2"
      by auto
    with Suc.IH [OF mn] assms(2) Suc.prems show ?thesis by auto
  qed
qed

section \<open>The marks of the pass\<close>

lemma mark_possessive_nth:
  "length (mark_possessive sf insns classes uni) = length insns"
  "pc < length insns \<Longrightarrow> mark_possessive sf insns classes uni ! pc
    = (if possessifiable sf insns classes uni pc then set_possessive (insns ! pc) else insns ! pc)"
proof -
  have "length (foldl (\<lambda>is i. is[i := set_possessive (is ! i)]) xs js) = length xs
      \<and> (distinct js \<longrightarrow> pc < length xs \<longrightarrow> foldl (\<lambda>is i. is[i := set_possessive (is ! i)]) xs js ! pc
        = (if pc \<in> set js then set_possessive (xs ! pc) else xs ! pc))" for xs js
    by (induction js arbitrary: xs) (auto, (metis nth_list_update_neq nth_list_update_eq)+)
  then show "length (mark_possessive sf insns classes uni) = length insns"
    "pc < length insns \<Longrightarrow> mark_possessive sf insns classes uni ! pc
      = (if possessifiable sf insns classes uni pc then set_possessive (insns ! pc) else insns ! pc)"
    by (auto simp: mark_possessive_def)
qed

lemma possessifiableE:
  assumes "possessifiable sf insns classes uni pc"
  obtains atom mn chars fpc where "insns ! pc = IRepeat atom mn True False"
    "Option.bind (repeat_atom_set atom classes) (\<lambda>rep. bounded_members rep REP_CAP) = Some chars"
    "follower_pc insns (Suc pc) = Some fpc"
    "\<And>c. c \<in> set chars \<Longrightarrow> \<not> follower_matches sf (insns ! fpc) classes c uni"
  using assms by (auto simp: possessifiable_def list_all_iff split: insn.splits bool.splits option.splits)

text \<open>No marked run is followed by a literal sequence, or there is no backward code at all.\<close>

definition seq_follower :: "insn list \<Rightarrow> nat \<Rightarrow> bool" where
  "seq_follower insns pc =
    (case follower_pc insns (Suc pc) of
       Some fpc \<Rightarrow> (case insns ! fpc of ICharSeq _ \<Rightarrow> True | _ \<Rightarrow> False)
     | None \<Rightarrow> False)"

definition backward_look :: "insn \<Rightarrow> bool" where
  "backward_look i = (case i of ILook _ behind _ \<Rightarrow> behind | _ \<Rightarrow> False)"

definition directed :: "(code_point \<Rightarrow> code_point) \<Rightarrow> insn list \<Rightarrow> class_set list \<Rightarrow> bool \<Rightarrow> bool" where
  "directed sf insns classes uni \<longleftrightarrow> \<not> list_ex backward_look insns
    \<or> list_all (\<lambda>pc. possessifiable sf insns classes uni pc \<longrightarrow> \<not> seq_follower insns pc) [0..<length insns]"

lemma repeat_scan_moved: "repeat_scan t us bw p = Some e \<Longrightarrow> e \<noteq> p \<Longrightarrow> p \<le> length us"
  by (subst (asm) repeat_scan.simps) (auto simp: Let_def split: if_splits)

text \<open>At a marked instruction the unmarked program either does the same, or leaves a frame none
  of whose continuations succeeds.\<close>

lemma marked_exec:
  assumes plain: "plain_program cx" and pc: "pc < length (p_insns (cx_program cx))"
    and mark: "possessifiable (cx_fold cx) (p_insns (cx_program cx)) (p_classes (cx_program cx)) False pc"
    and dir: "bw \<Longrightarrow> \<not> seq_follower (p_insns (cx_program cx)) pc"
    and ex: "exec_insn cx bw (thr pc pos caps [] []) = Continue th" "t_stack th = [fr]" and fp: "fpaths cx bw fr caps L"
  shows "L = []"
proof -
  let ?is = "p_insns (cx_program cx)" and ?us = "units (cx_input cx)" and ?cl = "p_classes (cx_program cx)"
  obtain atom mn chars fpc where m: "?is ! pc = IRepeat atom mn True False"
    "Option.bind (repeat_atom_set atom ?cl) (\<lambda>rep. bounded_members rep REP_CAP) = Some chars"
    "follower_pc ?is (Suc pc) = Some fpc"
    "\<And>c. c \<in> set chars \<Longrightarrow> \<not> follower_matches (cx_fold cx) (?is ! fpc) ?cl c False"
    using mark by (rule possessifiableE) blast
  have get: "get_at ?is pc = Some (IRepeat atom mn True False)" using pc m(1) by simp
  have mem: "IRepeat atom mn True False \<in> set ?is" using nth_mem [OF pc] m(1) by simp
  obtain t where t: "atom_test cx atom = Some t" using atom_matches_test [OF plain mem] by blast
  have ex': "exec_repeat cx bw atom mn True False (thr pc pos caps [] []) = Continue th"
    using ex(1) by (simp add: exec_insn_def get)
  have "pos \<le> length ?us"
  proof (rule ccontr)
    assume "\<not> pos \<le> length ?us"
    then have "repeat_scan t ?us bw pos = Some e \<Longrightarrow> e = pos" for e using repeat_scan_moved by blast
    with ex' ex(2) show False
      by (auto simp: exec_repeat_def t abs_diff_def fail_def step_def advance_def push_frame_def
          split: option.splits if_splits)
  qed
  then obtain r where r: "repeat_scan t ?us bw pos = Some (walk bw pos r)" "run_of t ?us bw pos r"
    using repeat_scan_run by blast
  note run = exec_repeat_run [OF t \<open>pos \<le> length ?us\<close> r(2,1), of mn True False pc caps]
  have "\<not> r < mn" "r \<noteq> mn" and
    fr: "fr = \<lparr>fr_pc = Suc pc, fr_pos = walk bw pos (r - 1), fr_log_mark = 0, fr_resume = RepeatGreedy (walk bw pos mn)\<rparr>"
    using run ex' ex(2) by (auto simp: fail_def split: if_splits)
  have "L' = []" if k: "k < r" and p: "paths cx bw (Suc pc) (walk bw pos k) caps L'" for k L'
  proof -
    have ok: "unit_ok t ?us bw (walk bw pos k)" using r(2) k by (simp add: run_of_def)
    then obtain u where u: "next_is cx bw (walk bw pos k) u" "t u" "u < 0x10000"
      using plain_programD(3) [OF plain] by (cases bw) (auto simp: unit_ok_def utf16_nth)
    have "\<not> follower_matches (cx_fold cx) (?is ! fpc) ?cl u False"
      using m(4) repeat_members [OF plain mem t u(2,3) m(2)] by blast
    moreover have "\<nexists>seq. ?is ! fpc = ICharSeq seq" if bw
      using dir [OF that] m(3) by (auto simp: seq_follower_def)
    ultimately have "rejects cx bw fpc (walk bw pos k)"
      using follower_matches_rejects [OF plain u(1)] m(3) unfolding follower_pc_def by blast
    with m(3) p show "L' = []" unfolding follower_pc_def by (intro follower_rejects)
  qed
  with fp fr \<open>\<not> r < mn\<close> \<open>r \<noteq> mn\<close> show "L = []"
    using dead_frames [OF r(2), of cx "Suc pc" caps mn "r - 1" 0 L] by auto
qed

text \<open>The possessive instruction otherwise behaves like the greedy one.\<close>

lemma possessive_exec:
  assumes "exec_repeat cx bw atom mn True False (thr pc pos caps [] []) = r" and "r \<noteq> Panicked"
  shows "exec_repeat cx bw atom mn True True (thr pc pos caps [] [])
    = (case r of Continue th \<Rightarrow> Continue (th\<lparr>t_stack := []\<rparr>) | _ \<Rightarrow> r)"
  using assms
  by (auto simp: exec_repeat_def fail_def advance_def push_frame_def split: option.splits if_splits)

definition mark_insns :: "matcher \<Rightarrow> insn list" where
  "mark_insns cx = mark_possessive (cx_fold cx) (p_insns (cx_program cx)) (p_classes (cx_program cx)) False"

lemma marked_insn:
  assumes "pc < length (p_insns (cx_program cx))"
  shows "(\<forall>bw caps pos. exec_insn (with_insns (mark_insns cx) cx) bw (thr pc pos caps [] []) = exec_insn cx bw (thr pc pos caps [] []))
    \<or> possessifiable (cx_fold cx) (p_insns (cx_program cx)) (p_classes (cx_program cx)) False pc
      \<and> (\<forall>bw caps pos r. exec_insn cx bw (thr pc pos caps [] []) = r \<longrightarrow> r \<noteq> Panicked \<longrightarrow>
          exec_insn (with_insns (mark_insns cx) cx) bw (thr pc pos caps [] [])
          = (case r of Continue th \<Rightarrow> Continue (th\<lparr>t_stack := []\<rparr>) | _ \<Rightarrow> r))"
proof (cases "possessifiable (cx_fold cx) (p_insns (cx_program cx)) (p_classes (cx_program cx)) False pc")
  case True
  then obtain atom mn where i: "p_insns (cx_program cx) ! pc = IRepeat atom mn True False"
    by (rule possessifiableE) blast
  have "get_at (p_insns (cx_program cx)) pc = Some (IRepeat atom mn True False)"
    "get_at (mark_insns cx) pc = Some (IRepeat atom mn True True)"
    using True assms by (simp_all add: i mark_insns_def mark_possessive_nth)
  then have "exec_insn cx bw (thr pc pos caps [] []) = exec_repeat cx bw atom mn True False (thr pc pos caps [] [])"
    "exec_insn (with_insns (mark_insns cx) cx) bw (thr pc pos caps [] []) = exec_repeat cx bw atom mn True True (thr pc pos caps [] [])"
    for bw caps pos
    by (simp_all add: exec_insn_def del: get_at_Some_iff)
  with True show ?thesis
    by (intro disjI2 conjI allI impI) (simp_all add: possessive_exec)
next
  case False
  then have "get_at (mark_insns cx) pc = get_at (p_insns (cx_program cx)) pc"
    using assms by (simp add: get_at_def mark_insns_def mark_possessive_nth)
  then show ?thesis by (simp add: exec_insn_with_insns)
qed

text \<open>A matching direction the program can be in.\<close>

definition runs :: "matcher \<Rightarrow> bool \<Rightarrow> bool" where
  "runs cx bw \<longleftrightarrow> (bw \<longrightarrow> list_ex backward_look (p_insns (cx_program cx)))"

lemma runs_look:
  assumes "exec_insn cx bw (thr pc pos caps [] []) = CallLook negate behind entry"
  shows "runs cx behind"
proof -
  obtain i where i: "get_at (p_insns (cx_program cx)) pc = Some i"
    using assms by (cases "get_at (p_insns (cx_program cx)) pc") (simp_all add: exec_insn_def)
  have "i = ILook negate behind entry"
    using assms
    by (cases i) (auto simp: exec_insn_def i consume_def exec_char_seq_def exec_repeat_def next_insn_def test_insn_def fail_def
        Let_def split: option.splits if_splits prod.splits)
  with i nth_mem have "ILook negate behind entry \<in> set (p_insns (cx_program cx))" by force
  then show ?thesis by (force simp: runs_def list_ex_iff backward_look_def)
qed

lemma paths_pc: "exec_insn cx bw (thr pc pos caps [] []) \<noteq> Panicked \<Longrightarrow> pc < length (p_insns (cx_program cx))"
  by (auto simp: exec_insn_def get_at_def split: if_splits)

lemma marked_paths:
  "paths cx bw pc pos caps L \<Longrightarrow> plain_program cx \<Longrightarrow> runs cx bw \<Longrightarrow>
    directed (cx_fold cx) (p_insns (cx_program cx)) (p_classes (cx_program cx)) False \<Longrightarrow>
    paths (with_insns (mark_insns cx) cx) bw pc pos caps L"
  "fpaths cx bw fr caps L \<Longrightarrow> plain_program cx \<Longrightarrow> runs cx bw \<Longrightarrow>
    directed (cx_fold cx) (p_insns (cx_program cx)) (p_classes (cx_program cx)) False \<Longrightarrow>
    fpaths (with_insns (mark_insns cx) cx) bw fr caps L"
proof (induction rule: paths_fpaths.inducts)
  case (p_fail bw pc pos caps th)
  have "exec_insn (with_insns (mark_insns cx) cx) bw (thr pc pos caps [] []) = Break None th"
    using marked_insn [OF paths_pc [of cx bw pc pos caps]] p_fail by auto
  then show ?case using p_fail by (blast intro: paths_fpaths.p_fail)
next
  case (p_accept bw pc pos caps p th)
  have "exec_insn (with_insns (mark_insns cx) cx) bw (thr pc pos caps [] []) = Break (Some p) th"
    using marked_insn [OF paths_pc [of cx bw pc pos caps]] p_accept by auto
  then show ?case by (rule paths_fpaths.p_accept)
next
  case (p_step bw pc pos caps th L)
  have "th\<lparr>t_stack := []\<rparr> = th" using p_step by (cases th) simp
  then have "exec_insn (with_insns (mark_insns cx) cx) bw (thr pc pos caps [] []) = Continue th"
    using marked_insn [OF paths_pc [of cx bw pc pos caps]] p_step by auto
  then show ?case using p_step by (blast intro: paths_fpaths.p_step)
next
  case (p_branch bw pc pos caps th fr L1 L2)
  have ex: "exec_insn cx bw (thr pc pos caps [] []) = Continue th" and pc: "pc < length (p_insns (cx_program cx))"
    using p_branch paths_pc [of cx bw pc pos caps] by auto
  from marked_insn [OF pc] show ?case
  proof
    assume "\<forall>bw caps pos. exec_insn (with_insns (mark_insns cx) cx) bw (thr pc pos caps [] []) = exec_insn cx bw (thr pc pos caps [] [])"
    then have "exec_insn (with_insns (mark_insns cx) cx) bw (thr pc pos caps [] []) = Continue th" using ex by simp
    then show ?thesis using p_branch by (blast intro: paths_fpaths.p_branch)
  next
    assume m: "possessifiable (cx_fold cx) (p_insns (cx_program cx)) (p_classes (cx_program cx)) False pc
      \<and> (\<forall>bw caps pos r. exec_insn cx bw (thr pc pos caps [] []) = r \<longrightarrow> r \<noteq> Panicked \<longrightarrow>
          exec_insn (with_insns (mark_insns cx) cx) bw (thr pc pos caps [] [])
          = (case r of Continue th \<Rightarrow> Continue (th\<lparr>t_stack := []\<rparr>) | _ \<Rightarrow> r))"
    have "bw \<Longrightarrow> \<not> seq_follower (p_insns (cx_program cx)) pc"
      using p_branch pc m by (auto simp: directed_def runs_def list_all_iff)
    with m p_branch pc have L2: "L2 = []" using marked_exec [of cx pc bw pos caps th fr L2] by blast
    have "exec_insn (with_insns (mark_insns cx) cx) bw (thr pc pos caps [] []) = Continue (th\<lparr>t_stack := []\<rparr>)"
      using m ex by simp
    then show ?thesis
      using p_branch by (auto simp: L2 intro: paths_fpaths.p_step)
  qed
next
  case (p_look_fail bw pc pos caps negate behind entry L)
  have "runs cx behind" using p_look_fail runs_look by blast
  moreover have "exec_insn (with_insns (mark_insns cx) cx) bw (thr pc pos caps [] []) = CallLook negate behind entry"
    using marked_insn [OF paths_pc [of cx bw pc pos caps]] p_look_fail by auto
  ultimately show ?case using p_look_fail by (blast intro: paths_fpaths.p_look_fail)
next
  case (p_look bw pc pos caps negate behind entry L upd L')
  have "runs cx behind" using p_look runs_look by blast
  moreover have "exec_insn (with_insns (mark_insns cx) cx) bw (thr pc pos caps [] []) = CallLook negate behind entry"
    using marked_insn [OF paths_pc [of cx bw pc pos caps]] p_look by auto
  ultimately show ?case using p_look by (blast intro: paths_fpaths.p_look)
qed (blast intro: paths_fpaths.intros)+

section \<open>Attempts of the lowered program\<close>

lemma sane_emitted:
  assumes "bounded_chars (root p)"
  shows "i \<in> set (e_insns (emit IMatch (emitted p f))) \<Longrightarrow> sane (is_unicode_mode f) (has_lookbehind (root p)) i"
proof -
  have "sane_code (is_unicode_mode f) (has_lookbehind (root p)) (start_emitter p f)"
    by (simp add: sane_code_def start_emitter_def)
  then have "sane_code (is_unicode_mode f) (has_lookbehind (root p)) (emit IMatch (emitted p f))"
    unfolding emitted_def by (intro sane_emit sane_fnD [OF sane_compile] assms) simp_all
  then show "i \<in> set (e_insns (emit IMatch (emitted p f))) \<Longrightarrow> sane (is_unicode_mode f) (has_lookbehind (root p)) i"
    by (simp only: sane_code_def)
qed

lemma sane_clear_ignore_case: "sane uni b i \<Longrightarrow> sane uni b (clear_ignore_case i)"
  by (cases i rule: clear_ignore_case.cases) simp_all

lemma sane_folded:
  assumes "lowerable p f" and "i \<in> set (fst (folded U p f))"
  shows "sane (is_unicode_mode f) (has_lookbehind (root p)) i"
proof -
  from assms(2) obtain pc where pc: "pc < length (fst (folded U p f))" "i = fst (folded U p f) ! pc"
    by (auto simp: in_set_conv_nth)
  have all: "all_classes (class_small f) (root p)" "bounded_chars (root p)" using assms(1) by (simp_all add: lowerable_def)
  note fl = folded_list(1) [OF all(1), of U]
  let ?j = "e_insns (emit IMatch (emitted p f)) ! pc"
  have len: "pc < length (e_insns (emit IMatch (emitted p f)))" using pc(1) list_all2_lengthD [OF fl] by simp
  have "i = ?j \<or> i = clear_ignore_case ?j"
    using list_all2_nthD [OF fl len] pc(2) by (auto simp: folded_at_def split: option.splits if_splits)
  with sane_emitted [OF all(2) nth_mem [OF len]] sane_clear_ignore_case show ?thesis by metis
qed

lemma folded_class:
  assumes "icu_laws U" and "all_classes (class_small f) (root p)" and "i \<in> set (fst (folded U p f))"
    and "class_operand i = Some (k, ic)"
  shows "\<not> ic \<and> (\<exists>cs. get_at (final_classes U p f) k = Some (finalize_ascii cs) \<and> cps_inv (code_points cs))"
proof -
  from assms(3) obtain pc where pc: "pc < length (fst (folded U p f))" "i = fst (folded U p f) ! pc"
    by (auto simp: in_set_conv_nth)
  note fl = folded_list [OF assms(2), of U] and ops = ops_emitted [OF assms(2)]
  let ?j = "e_insns (emit IMatch (emitted p f)) ! pc" and ?cl = "e_classes (emitted p f)"
  have len: "pc < length (e_insns (emit IMatch (emitted p f)))" using pc(1) list_all2_lengthD [OF fl(1)] by simp
  have fold: "folded_at (class_widen U f) (class_eligible f) ?cl (snd (folded U p f)) ?j i"
    using list_all2_nthD [OF fl(1) len] pc(2) by simp
  have clear: "class_operand (clear_ignore_case j) = map_option (\<lambda>(k, _). (k, False)) (class_operand j)" for j
    by (cases j rule: clear_ignore_case.cases) simp_all
  obtain ic' where op: "class_operand ?j = Some (k, ic')"
    using fold assms(4) by (auto simp: folded_at_def clear split: option.splits if_splits)
  then have k: "k < length ?cl" "class_small f (?cl ! k) ic'"
    using ops nth_mem [OF len] by (auto simp: ops_ok_def)
  have i: "i = (if ic' \<and> class_eligible f (?cl ! k) then clear_ignore_case ?j else ?j)"
    and cl: "snd (folded U p f) ! k = (if ic' \<and> class_eligible f (?cl ! k) then class_widen U f (?cl ! k) else ?cl ! k)"
    using fold op by (auto simp: folded_at_def split: if_splits)
  have "\<not> ic" using i op assms(4) k(2) by (auto simp: clear class_small_def split: if_splits)
  moreover have "cps_inv (code_points (snd (folded U p f) ! k))"
    using cl k(2) widen_inv [OF assms(1)] by (simp add: class_small_def)
  ultimately show ?thesis
    using k(1) fl(2) by (auto simp: final_classes_def)
qed

lemma plain_base:
  assumes "icu_laws U" and "lowerable p f" and "subject_ok f inp" and "\<not> is_unicode_mode f"
  shows "plain_program (base_matcher U p f inp)"
proof -
  have all: "all_classes (class_small f) (root p)" using assms(2) by (simp add: lowerable_def)
  have "sane False True i" if "i \<in> set (fst (folded U p f))" for i
    using sane_folded [OF assms(2) that] assms(4) by (cases i) auto
  then show ?thesis
    using folded_class [OF assms(1) all] assms(3,4)
    unfolding plain_program_def subject_ok_def attempt_matcher_simps unmarked_fields by blast
qed

definition direction_safe :: "icu \<Rightarrow> parsed \<Rightarrow> flags \<Rightarrow> bool" where
  "direction_safe U p f \<longleftrightarrow> is_unicode_mode f
    \<or> directed (icu_simple_fold U) (fst (folded U p f)) (final_classes U p f) False"

lemma direction_safeI:
  assumes "lowerable p f" and "\<not> has_lookbehind (root p)"
  shows "direction_safe U p f"
proof -
  have "\<not> backward_look i" if "i \<in> set (fst (folded U p f))" for i
    using sane_folded [OF assms(1) that] assms(2) by (cases i) (auto simp: backward_look_def)
  then show ?thesis by (auto simp: direction_safe_def directed_def list_ex_iff)
qed

lemma lower_unmarked: "lower U p f = (unmarked U p f)\<lparr>p_insns := p_insns (lower U p f)\<rparr>"
  by (simp add: unmarked_def)

lemma mark_possessive_unicode:
  assumes "lowerable p f" and "is_unicode_mode f"
  shows "mark_possessive sf (fst (folded U p f)) cl uni = fst (folded U p f)"
proof -
  have "\<not> possessifiable sf (fst (folded U p f)) cl uni pc" if "pc < length (fst (folded U p f))" for pc
    using sane_folded [OF assms(1) nth_mem [OF that]] assms(2) by (auto elim!: possessifiableE)
  then show ?thesis by (intro nth_equalityI) (simp_all add: mark_possessive_nth)
qed

theorem lower_paths:
  assumes "icu_laws U" and "lowerable p f" and "subject_ok f inp" and "at \<le> length (units inp)" and "direction_safe U p f"
  shows "\<exists>L. paths (attempt_matcher (icu_simple_fold U) (lower U p f) inp) False 0 at (initial_slots (lower U p f) at) L
    \<and> map_option (restr (mark_base p)) (first_of L) = match_at U p f inp at"
proof -
  let ?cx = "base_matcher U p f inp" and ?cx' = "attempt_matcher (icu_simple_fold U) (lower U p f) inp"
  obtain L where L: "paths ?cx False 0 at (initial_slots (unmarked U p f) at) L"
    "map_option (restr (mark_base p)) (first_of L) = match_at U p f inp at"
    using base_paths [OF assms(1-4)] by blast
  have slots: "initial_slots (unmarked U p f) at = initial_slots (lower U p f) at"
    by (simp add: initial_slots_def slot_count_def lower_fields)
  have "paths ?cx' False 0 at (initial_slots (unmarked U p f) at) L"
  proof (cases "is_unicode_mode f")
    case True
    then have "lower U p f = unmarked U p f"
      using lower_unmarked [of U p f] lower_fields(1) [of U p f] mark_possessive_unicode [of p f "icu_simple_fold U" U] assms(2)
      by simp
    with L show ?thesis by simp
  next
    case False
    have "?cx' = with_insns (mark_insns ?cx) ?cx"
      using lower_unmarked [of U p f] False
      by (simp add: mark_insns_def attempt_matcher_def lower_fields(1))
    moreover have "paths (with_insns (mark_insns ?cx) ?cx) False 0 at (initial_slots (unmarked U p f) at) L"
      using assms(5) False by (intro marked_paths L plain_base assms(1-3)) (simp_all add: runs_def direction_safe_def)
    ultimately show ?thesis by simp
  qed
  with L(2) slots show ?thesis by auto
qed

text \<open>A match attempt of a compiled pattern terminates without a panic and finds exactly the
  match the semantics prescribes, unless the caller's step limit stops it.\<close>

theorem attempt_lower:
  assumes "icu_laws U" and "lowerable p f" and "subject_ok f inp" and "at \<le> length (units inp)" and "direction_safe U p f"
  shows "\<exists>r. attempt (icu_simple_fold U) (lower U p f) inp at \<lparr>step_limit = None\<rparr> = Some (RunOk r)
    \<and> attempt (icu_simple_fold U) (lower U p f) inp at config \<in> {Some (RunOk r), Some (RunErr StepLimitExceeded)}
    \<and> map_option (restr (mark_base p)) r = match_at U p f inp at"
  using lower_paths [OF assms] attempt_paths by blast

text \<open>The program without the marks answers the same.\<close>

lemma attempt_unmarked:
  assumes "icu_laws U" and "lowerable p f" and "subject_ok f inp" and "at \<le> length (units inp)"
  shows "\<exists>r. attempt (icu_simple_fold U) (unmarked U p f) inp at \<lparr>step_limit = None\<rparr> = Some (RunOk r)
    \<and> map_option (restr (mark_base p)) r = match_at U p f inp at"
  using base_paths [OF assms] attempt_paths(1) by blast

end
