(* ===== verification/Rx_Prefilter.thy ===== *)
theory Rx_Prefilter
  imports Rx_Possessive
begin

text \<open>
  Soundness of the scan prefilter (\<open>compute_first_set\<close> of \<open>ir.rs\<close>, \<open>Prefilter\<close> of
  \<open>program.rs\<close>): the worklist search visits every instruction that can be reached before a
  character is consumed, so a match at an offset begins with a code point the prefilter admits.
\<close>

section \<open>The characters an instruction can begin with\<close>

definition class_members :: "class_set list \<Rightarrow> nat \<Rightarrow> bool \<Rightarrow> code_point set" where
  "class_members classes k negate =
    (if negate then {0..MAX_CP} - class_cps (classes ! k) else class_cps (classes ! k))"

fun first_members :: "class_set list \<Rightarrow> insn \<Rightarrow> code_point set" where
  "first_members classes (IChar cp _) = {cp}"
| "first_members classes (ICharSeq seq) = {seq ! 0}"
| "first_members classes (IClass k negate _) = class_members classes k negate"
| "first_members classes (IRepeat (AtomChar cp _) _ _ _) = {cp}"
| "first_members classes (IRepeat (AtomClass k negate _) _ _ _) = class_members classes k negate"
| "first_members classes _ = {}"

text \<open>The instructions the pass sees: any mode, no possessive marks, finalized classes.\<close>

definition tidy :: "bool \<Rightarrow> class_set list \<Rightarrow> insn \<Rightarrow> bool" where
  "tidy uni classes i \<longleftrightarrow> sane uni True i
    \<and> (\<forall>k ic. class_operand i = Some (k, ic) \<longrightarrow> \<not> ic
        \<and> (\<exists>cs. get_at classes k = Some (finalize_ascii cs) \<and> cps_inv (code_points cs)))"

lemma tidy_class:
  assumes "tidy uni classes i" and "class_operand i = Some (k, ic)"
  obtains cs where "\<not> ic" "get_at classes k = Some (finalize_ascii cs)" "classes ! k = finalize_ascii cs"
    "cps_inv (code_points cs)"
proof -
  from assms obtain cs where cs: "\<not> ic" "get_at classes k = Some (finalize_ascii cs)" "cps_inv (code_points cs)"
    unfolding tidy_def by blast
  moreover from cs(2) have "classes ! k = finalize_ascii cs" by simp
  ultimately show thesis using that by blast
qed

lemma class_start_correct:
  assumes "cps_inv (code_points (classes ! k))" and "cps_inv out"
  shows "cps_inv (class_start classes k negate out)
    \<and> cps_set (class_start classes k negate out) = cps_set out \<union> class_members classes k negate"
  using assms cps_negate_correct [OF assms(1)]
  by (simp add: class_start_def class_members_def Let_def cps_union_correct)

lemma first_step_adds:
  assumes "first_step classes pc i = Some (add, ic, succs)" and "tidy uni classes i" and "cps_inv out"
  shows "cps_inv (add out) \<and> cps_set (add out) = cps_set out \<union> first_members classes i"
proof -
  have inv: "cps_inv (code_points (classes ! k))" if "class_operand i = Some (k, ic')" for k ic'
    using tidy_class [OF assms(2) that] by (metis code_points_finalize)
  have seq: "seq ! 0 \<le> MAX_CP" if "i = ICharSeq seq" for seq
    using assms(2) that by (cases seq) (auto simp: tidy_def plain_unit_def MAX_CP_def)
  show ?thesis
  proof (cases i)
    case (IRepeat atom mn g poss)
    show ?thesis
    proof (cases atom)
      case (AtomChar cp ic')
      with assms IRepeat show ?thesis
        by (auto simp: first_step_def atom_start_def tidy_def cps_insert_correct)
    next
      case (AtomClass k negate ic')
      with assms(1) IRepeat have "add = class_start classes k negate"
        by (auto simp: first_step_def atom_start_def split: if_splits)
      with class_start_correct [OF inv assms(3)] IRepeat AtomClass show ?thesis by simp
    next
      case (AtomAny da)
      with assms(1) IRepeat show ?thesis by (simp add: first_step_def atom_start_def)
    qed
  next
    case (IClass k negate ic')
    with assms(1) have "add = class_start classes k negate" by (auto simp: first_step_def split: if_splits)
    with class_start_correct [OF inv assms(3)] IClass show ?thesis by simp
  next
    case (ICharSeq s)
    with assms(1) have "add = cps_insert (s ! 0)" by (simp add: first_step_def)
    with seq [OF ICharSeq] assms(3) ICharSeq show ?thesis by (simp add: cps_insert_correct)
  qed (use assms in \<open>auto simp: first_step_def tidy_def cps_insert_correct\<close>)
qed

section \<open>The worklist search\<close>

text \<open>The visited instructions are closed under the successors, except those still on the list.\<close>

definition scanned :: "insn list \<Rightarrow> class_set list \<Rightarrow> bool list \<Rightarrow> nat list \<Rightarrow> code_point set \<Rightarrow> bool \<Rightarrow> bool" where
  "scanned insns classes visited work S nc \<longleftrightarrow> length visited = length insns
    \<and> (\<forall>pc<length insns. visited ! pc \<longrightarrow>
        (\<exists>add ic succs. first_step classes pc (insns ! pc) = Some (add, ic, succs) \<and> (ic \<longrightarrow> nc)
          \<and> first_members classes (insns ! pc) \<subseteq> S
          \<and> (\<forall>q\<in>set succs. length insns \<le> q \<or> visited ! q \<or> q \<in> set work)))"

lemma scanned_visit:
  assumes "scanned insns classes visited (pc # work) S nc" and "pc < length insns"
    and "first_step classes pc (insns ! pc) = Some (add, ic, succs)"
  shows "scanned insns classes (visited[pc := True]) (succs @ work) (S \<union> first_members classes (insns ! pc)) (nc \<or> ic)"
proof -
  have "visited[pc := True] ! q \<or> q \<in> set (succs @ work)"
    if "visited ! q \<or> q \<in> set (pc # work)" "q < length insns" for q
    using that assms(1,2) by (auto simp: nth_list_update scanned_def)
  with assms show ?thesis
    unfolding scanned_def by (auto simp: nth_list_update) (metis not_le le_supI1)+
qed

lemma scanned_skip:
  assumes "scanned insns classes visited (pc # work) S nc" and "length insns \<le> pc \<or> visited ! pc"
  shows "scanned insns classes visited work S nc"
  using assms unfolding scanned_def by (metis set_ConsD)

lemma first_set_loop_scanned:
  assumes "first_set_loop insns classes visited work out nc = Some (out', nc')"
    and "scanned insns classes visited work (cps_set out) nc" and "cps_inv out"
    and "\<And>i. i \<in> set insns \<Longrightarrow> tidy uni classes i"
  shows "cps_inv out' \<and> (\<exists>V. scanned insns classes V [] (cps_set out') nc'
    \<and> (\<forall>q<length insns. visited ! q \<or> q \<in> set work \<longrightarrow> V ! q))"
  using assms
proof (induction insns classes visited work out nc rule: first_set_loop.induct)
  case (1 insns classes visited out nc)
  then show ?case by auto
next
  case (2 insns classes visited pc work out nc)
  have len: "length visited = length insns" using "2.prems"(2) by (simp add: scanned_def)
  show ?case
  proof (cases "length insns \<le> pc \<or> visited ! pc")
    case True
    with "2.prems"(1) len have "first_set_loop insns classes visited work out nc = Some (out', nc')" by auto
    with 2 True len scanned_skip [OF "2.prems"(2) True] show ?thesis by auto
  next
    case False
    with "2.prems"(1) len obtain add ic succs where st: "first_step classes pc (insns ! pc) = Some (add, ic, succs)"
      "first_set_loop insns classes (visited[pc := True]) (succs @ work) (add out) (nc \<or> ic) = Some (out', nc')"
      by (auto split: option.splits)
    have pc: "pc < length insns" using False by simp
    have add: "cps_inv (add out) \<and> cps_set (add out) = cps_set out \<union> first_members classes (insns ! pc)"
      using first_step_adds [OF st(1) "2.prems"(4) "2.prems"(3)] pc by simp
    with scanned_visit [OF "2.prems"(2) pc st(1)]
    have "scanned insns classes (visited[pc := True]) (succs @ work) (cps_set (add out)) (nc \<or> ic)" by simp
    from "2.IH"(2) [OF _ st(1) refl refl st(2) this _ "2.prems"(4)] add False len
    show ?thesis using pc by (auto simp: nth_list_update)
  qed
qed

section \<open>Matches begin with an admitted character\<close>

text \<open>The code point at an offset is one of \<open>S\<close>, up to case folding when \<open>nc\<close> holds.\<close>

definition begins :: "matcher \<Rightarrow> nat \<Rightarrow> code_point set \<Rightarrow> bool \<Rightarrow> bool" where
  "begins cx pos S nc \<longleftrightarrow>
    (\<exists>cp w c. decode (cx_input cx) pos = Some (cp, w) \<and> c \<in> S \<and> (cp = c \<or> (nc \<and> canon cx cp = canon cx c)))"

lemma beginsI:
  "decode (cx_input cx) pos = Some (cp, w) \<Longrightarrow> c \<in> S \<Longrightarrow> cp = c \<or> (nc \<and> canon cx cp = canon cx c) \<Longrightarrow> begins cx pos S nc"
  unfolding begins_def by blast

lemma begins_mono: "begins cx pos S nc \<Longrightarrow> S \<subseteq> T \<Longrightarrow> (nc \<longrightarrow> nc') \<Longrightarrow> begins cx pos T nc'"
  unfolding begins_def by blast

definition tidy_program :: "matcher \<Rightarrow> bool" where
  "tidy_program cx \<longleftrightarrow> utf16 (units (cx_input cx)) \<and> code_point_mode (cx_input cx) = p_unicode (cx_program cx)
    \<and> (\<forall>i\<in>set (p_insns (cx_program cx)). tidy (p_unicode (cx_program cx)) (p_classes (cx_program cx)) i)"

lemma consume_begins:
  assumes "consume cx False test th = r" and "\<And>cp w. decode (cx_input cx) (t_pos th) = Some (cp, w) \<Longrightarrow> test cp \<Longrightarrow> Q"
  shows "Q \<or> r = fail th"
  using assms by (auto simp: consume_def decode_dir_def step_def split: option.splits if_splits)

lemma class_test_members:
  assumes "cps_inv (code_points cs)" and "classes ! k = finalize_ascii cs" and "cp \<le> MAX_CP"
  shows "(cp \<in> class_cps cs) \<noteq> negate \<longleftrightarrow> cp \<in> class_members classes k negate"
  using assms by (auto simp: class_members_def)

lemma decode_MAX_CP: "utf16 (units inp) \<Longrightarrow> decode inp p = Some (cp, w) \<Longrightarrow> cp \<le> MAX_CP"
  using decode_dir_MAX_CP [of inp p False cp w] by (simp add: decode_dir_def)

text \<open>A scan step of a fused repeat reads a character the atom admits.\<close>

lemma atom_begins:
  assumes tidy: "tidy uni (p_classes (cx_program cx)) (IRepeat atom mn g poss)" and "atom_test cx atom = Some t"
    and "t (units (cx_input cx) ! pos)" and "pos < length (units (cx_input cx))" and "\<not> code_point_mode (cx_input cx)"
    and "utf16 (units (cx_input cx))" and "atom_start (p_classes (cx_program cx)) atom = Some (add, ic)"
  shows "begins cx pos (first_members (p_classes (cx_program cx)) (IRepeat atom mn g poss)) ic"
proof -
  let ?u = "units (cx_input cx) ! pos"
  have dec: "decode (cx_input cx) pos = Some (?u, 1)" using assms(4,5) by (simp add: decode_def get_at_def)
  show ?thesis
  proof (cases atom)
    case (AtomChar cp ic')
    with assms(2,3,7) have "?u = cp \<or> (ic \<and> canon cx ?u = canon cx cp)"
      by (auto simp: atom_test_def char_eq_def atom_start_def)
    with dec AtomChar show ?thesis by (intro beginsI [OF dec]) auto
  next
    case (AtomClass k negate ic')
    obtain cs where cs: "\<not> ic'" "get_at (p_classes (cx_program cx)) k = Some (finalize_ascii cs)"
      "p_classes (cx_program cx) ! k = finalize_ascii cs" "cps_inv (code_points cs)"
      using tidy_class [OF tidy, of k ic'] AtomClass by auto
    have "(?u \<in> class_cps cs) \<noteq> negate"
      using atom_test_class [OF cs(2,4), of negate] assms(2,3) AtomClass cs(1) by auto
    then have "?u \<in> class_members (p_classes (cx_program cx)) k negate"
      using class_test_members [OF cs(4,3)] decode_MAX_CP [OF assms(6) dec] by blast
    with AtomClass show ?thesis by (intro beginsI [OF dec]) auto
  qed (use assms(7) in \<open>simp add: atom_start_def\<close>)
qed

text \<open>One instruction the search has visited: it fails, reads an admitted character, or goes on
  at the same offset with one of its successors.\<close>

definition stays :: "nat list \<Rightarrow> nat \<Rightarrow> insn_result \<Rightarrow> bool" where
  "stays succs pos r \<longleftrightarrow>
    (case r of
       Continue th \<Rightarrow> t_pc th \<in> set succs \<and> t_pos th = pos
         \<and> (\<forall>fr\<in>set (t_stack th). fr_resume fr = At \<and> fr_pc fr \<in> set succs \<and> fr_pos fr = pos)
     | Break v _ \<Rightarrow> v = None
     | Panicked \<Rightarrow> True
     | CallLook _ _ _ \<Rightarrow> False)"

lemma stays_simps [simp]:
  "stays succs pos (fail th)" "stays succs pos Panicked"
  by (simp_all add: stays_def fail_def)

lemma stays_next:
  "(\<And>th. r = Some th \<Longrightarrow> t_pc th = pc \<and> t_pos th = pos \<and> t_stack th = []) \<Longrightarrow> stays [Suc pc] pos (next_insn r)"
  by (auto simp: stays_def next_insn_def advance_def split: option.split)

lemma stays_test: "stays [Suc pc] pos (test_insn r (thr pc pos caps [] []))"
  by (auto simp: stays_def test_insn_def advance_def fail_def split: option.split)

lemma repeat_stays:
  assumes tp: "tidy_program cx" and mem: "IRepeat atom mn g poss \<in> set (p_insns (cx_program cx))"
    and start: "atom_start (p_classes (cx_program cx)) atom = Some (add, ic)"
  shows "begins cx pos (first_members (p_classes (cx_program cx)) (IRepeat atom mn g poss)) ic
    \<or> stays (if mn = 0 then [pc + 1] else []) pos (exec_repeat cx False atom mn g poss (thr pc pos caps [] []))"
proof (cases "atom_test cx atom")
  case (Some t)
  let ?us = "units (cx_input cx)"
  have tidy: "tidy (p_unicode (cx_program cx)) (p_classes (cx_program cx)) (IRepeat atom mn g poss)"
    and cpm: "\<not> code_point_mode (cx_input cx)" and u: "utf16 ?us"
    using tp mem by (auto simp: tidy_program_def tidy_def)
  show ?thesis
  proof (cases "pos < length ?us \<and> t (?us ! pos)")
    case True
    with atom_begins [OF tidy Some _ _ cpm u start] show ?thesis by blast
  next
    case False
    then have "repeat_scan t ?us False pos = Some pos" by (subst repeat_scan.simps) (auto simp: Let_def)
    with Some show ?thesis
      by (cases mn) (auto simp: exec_repeat_def abs_diff_def step_def stays_def fail_def advance_def)
  qed
qed (simp add: exec_repeat_def)

lemma exec_stays:
  assumes tp: "tidy_program cx" and get: "get_at (p_insns (cx_program cx)) pc = Some i"
    and st: "first_step (p_classes (cx_program cx)) pc i = Some (add, ic, succs)"
  shows "begins cx pos (first_members (p_classes (cx_program cx)) i) ic
    \<or> stays succs pos (exec_insn cx False (thr pc pos caps [] []))"
proof -
  let ?cl = "p_classes (cx_program cx)" and ?th = "thr pc pos caps [] []"
  have mem: "i \<in> set (p_insns (cx_program cx))" using get by auto
  have tidy: "tidy (p_unicode (cx_program cx)) ?cl i" and u: "utf16 (units (cx_input cx))"
    using tp mem by (auto simp: tidy_program_def)
  show ?thesis
  proof (cases i)
    case (IChar cp ic')
    then have ex: "exec_insn cx False ?th = consume cx False (\<lambda>c. char_eq cx cp c ic') ?th"
      using get by (simp add: exec_insn_def del: get_at_Some_iff)
    have "begins cx pos {cp} ic" if "decode (cx_input cx) pos = Some (c, w)" "char_eq cx cp c ic'" for c w
      using that st IChar by (intro beginsI [OF that(1), of cp]) (auto simp: char_eq_def first_step_def)
    with consume_begins [OF ex [symmetric], of "begins cx pos {cp} ic"] IChar show ?thesis by auto
  next
    case (ICharSeq seq)
    have seq: "seq \<noteq> []" "plain_unit (seq ! 0)"
      using tidy ICharSeq by (auto simp: tidy_def list_all_iff)
    have ex: "exec_insn cx False ?th = exec_char_seq cx False seq ?th"
      using get ICharSeq by (simp add: exec_insn_def del: get_at_Some_iff)
    show ?thesis
    proof (cases "exec_insn cx False ?th = fail ?th")
      case False
      then have m: "pos + length seq \<le> length (units (cx_input cx))"
        "take (length seq) (drop pos (units (cx_input cx))) = seq"
        by (auto simp: ex exec_char_seq_def Let_def split: if_splits)
      have "units (cx_input cx) ! pos = seq ! 0"
        using m seq(1) nth_take [of 0 "length seq" "drop pos (units (cx_input cx))"] by auto
      then have "decode (cx_input cx) pos = Some (seq ! 0, 1)"
        using m(1) seq by (cases seq) (auto simp: decode_def get_at_def plain_unit_def is_high_surrogate_def)
      with ICharSeq show ?thesis by (intro disjI1 beginsI) auto
    qed simp
  next
    case (IClass k negate ic')
    obtain cs where cs: "\<not> ic'" "get_at ?cl k = Some (finalize_ascii cs)" "?cl ! k = finalize_ascii cs" "cps_inv (code_points cs)"
      using tidy_class [OF tidy, of k ic'] IClass by auto
    show ?thesis
    proof (cases "decode (cx_input cx) pos")
      case (Some cw)
      obtain cp w where cw: "cw = (cp, w)" by (cases cw)
      have "exec_insn cx False ?th = fail ?th \<or> class_member cx (finalize_ascii cs) negate cp ic'"
        using Some by (simp add: exec_insn_def get IClass cs(2) decode_dir_def consume_def cw)
      moreover have "begins cx pos (class_members ?cl k negate) ic" if "class_member cx (finalize_ascii cs) negate cp ic'"
        using that cs class_test_members [OF cs(4,3), of cp negate] decode_MAX_CP [OF u, of pos cp w] Some cw
        by (intro beginsI [of cx pos cp w cp]) (simp_all add: class_member_plain)
      ultimately show ?thesis using IClass by auto
    qed (simp add: exec_insn_def get IClass decode_dir_def)
  next
    case (IRepeat atom mn g poss)
    with st obtain add' where "atom_start ?cl atom = Some (add', ic)" "succs = (if mn = 0 then [pc + 1] else [])"
      by (auto simp: first_step_def split: option.splits)
    with repeat_stays [OF tp, of atom mn g poss] mem IRepeat show ?thesis
      by (simp add: exec_insn_def get)
  next
    case (IClearCapture g)
    with st show ?thesis
      by (auto simp: first_step_def exec_insn_def get intro!: stays_next write_slot_two)
  qed (use st in \<open>auto simp: first_step_def exec_insn_def get push_frame_def intro!: stays_next stays_test write_slot_thr\<close>,
       auto simp: stays_def)
qed

lemma scanned_exec:
  assumes "exec_insn cx bw (thr pc pos caps [] []) \<noteq> Panicked" and "\<not> bw" and "tidy_program cx"
    and "scanned (p_insns (cx_program cx)) (p_classes (cx_program cx)) V [] S nc"
    and "pc < length (p_insns (cx_program cx)) \<longrightarrow> V ! pc"
  shows "begins cx pos S nc \<or> (\<exists>succs. stays succs pos (exec_insn cx bw (thr pc pos caps [] []))
    \<and> (\<forall>q\<in>set succs. q < length (p_insns (cx_program cx)) \<longrightarrow> V ! q))"
proof -
  let ?is = "p_insns (cx_program cx)" and ?cl = "p_classes (cx_program cx)"
  have pc: "pc < length ?is" using assms(1) by (rule paths_pc)
  then obtain add ic succs where st: "first_step ?cl pc (?is ! pc) = Some (add, ic, succs)" "ic \<longrightarrow> nc"
    "first_members ?cl (?is ! pc) \<subseteq> S" "\<forall>q\<in>set succs. length ?is \<le> q \<or> V ! q"
    using assms(4,5) unfolding scanned_def by simp blast
  have get: "get_at ?is pc = Some (?is ! pc)" using pc by simp
  have "begins cx pos S nc \<or> stays succs pos (exec_insn cx False (thr pc pos caps [] []))"
    using exec_stays [OF assms(3) get st(1), of pos caps] begins_mono [OF _ st(3,2)] by blast
  moreover have "\<forall>q\<in>set succs. q < length ?is \<longrightarrow> V ! q" using st(4) by auto
  ultimately show ?thesis using assms(2) by (cases bw) auto
qed

lemma paths_begin:
  "paths cx bw pc pos caps L \<Longrightarrow> \<not> bw \<Longrightarrow> tidy_program cx \<Longrightarrow>
    scanned (p_insns (cx_program cx)) (p_classes (cx_program cx)) V [] S nc \<Longrightarrow>
    pc < length (p_insns (cx_program cx)) \<longrightarrow> V ! pc \<Longrightarrow> L \<noteq> [] \<Longrightarrow> begins cx pos S nc"
  "fpaths cx bw fr caps L \<Longrightarrow> \<not> bw \<Longrightarrow> tidy_program cx \<Longrightarrow>
    scanned (p_insns (cx_program cx)) (p_classes (cx_program cx)) V [] S nc \<Longrightarrow>
    fr_resume fr = At \<Longrightarrow> fr_pc fr < length (p_insns (cx_program cx)) \<longrightarrow> V ! fr_pc fr \<Longrightarrow> L \<noteq> [] \<Longrightarrow> begins cx (fr_pos fr) S nc"
proof (induction rule: paths_fpaths.inducts)
  case (p_accept bw pc pos caps p th)
  then show ?case using scanned_exec [where cx = cx and pc = pc and bw = bw and pos = pos and caps = caps and V = V and S = S and nc = nc] by (auto simp: stays_def)
next
  case (p_step bw pc pos caps th L)
  then show ?case using scanned_exec [where cx = cx and pc = pc and bw = bw and pos = pos and caps = caps and V = V and S = S and nc = nc] by (auto simp: stays_def)
next
  case (p_branch bw pc pos caps th fr L1 L2)
  then show ?case using scanned_exec [where cx = cx and pc = pc and bw = bw and pos = pos and caps = caps and V = V and S = S and nc = nc] by (auto simp: stays_def)
next
  case (p_look bw pc pos caps negate behind entry L upd L')
  then show ?case using scanned_exec [where cx = cx and pc = pc and bw = bw and pos = pos and caps = caps and V = V and S = S and nc = nc] by (auto simp: stays_def)
next
  case (f_last bw fr caps L)
  then show ?case by blast
qed (auto simp: chain_frame_def)

section \<open>Canonicalization of the first set\<close>

lemma fold_cp_MAX_CP:
  assumes "icu_laws U" and "c \<le> MAX_CP"
  shows "fold_cp (icu_simple_fold U) uni c \<le> MAX_CP"
  using assms scalar_MAX_CP [of "icu_simple_fold U c"]
  by (auto simp: fold_cp_def fold_unicode_def canonicalize_def icu_laws_def MAX_CP_def)

lemma canonicalize_set_correct:
  assumes "canonicalize_set (icu_simple_fold U) s uni = Some t" and "icu_laws U" and "cps_inv s"
  shows "cps_inv t" and "cps_set t = fold_cp (icu_simple_fold U) uni ` cps_set s"
proof -
  let ?f = "fold_cp (icu_simple_fold U) uni"
  obtain cps where cps: "bounded_members s MAX_FOLD = Some cps" "t = foldl (\<lambda>out cp. cps_insert (?f cp) out) cps_new cps"
    using assms(1) by (auto simp: canonicalize_set_def split: option.splits)
  have set: "set cps = cps_set s" using bounded_members_set [OF cps(1)] .
  have "\<forall>c\<in>set xs. ?f c \<le> MAX_CP \<Longrightarrow> cps_inv a \<Longrightarrow>
      cps_inv (foldl (\<lambda>out cp. cps_insert (?f cp) out) a xs)
      \<and> cps_set (foldl (\<lambda>out cp. cps_insert (?f cp) out) a xs) = cps_set a \<union> ?f ` set xs" for a xs
    by (induction xs arbitrary: a) (simp_all add: cps_insert_correct)
  from this [of cps cps_new] have "(\<forall>c\<in>set cps. ?f c \<le> MAX_CP) \<Longrightarrow> cps_inv t \<and> cps_set t = ?f ` cps_set s"
    by (simp add: cps(2) set)
  moreover have "\<forall>c\<in>set cps. ?f c \<le> MAX_CP"
    using cps_set_bounded [OF assms(3)] set fold_cp_MAX_CP [OF assms(2)] by auto
  ultimately show "cps_inv t" "cps_set t = ?f ` cps_set s" by blast+
qed

lemma first_step_possessive: "first_step classes pc (set_possessive i) = first_step classes pc i"
  by (cases i rule: set_possessive.cases) (simp_all add: first_step_def)

lemma first_set_loop_marks:
  assumes "length is' = length is" and "\<And>pc. pc < length is \<Longrightarrow> is' ! pc = is ! pc \<or> is' ! pc = set_possessive (is ! pc)"
  shows "first_set_loop is' classes visited work out nc = first_set_loop is classes visited work out nc"
  using assms
proof (induction "is" classes visited work out nc rule: first_set_loop.induct)
  case (2 insns classes visited pc work out nc)
  show ?case
  proof (cases "pc \<ge> length insns \<or> pc \<ge> length visited \<or> visited ! pc")
    case True
    with 2 show ?thesis by simp
  next
    case False
    then have "is' ! pc = insns ! pc \<or> is' ! pc = set_possessive (insns ! pc)" using "2.prems"(2) by simp
    then have step: "first_step classes pc (is' ! pc) = first_step classes pc (insns ! pc)"
      using first_step_possessive by auto
    show ?thesis
    proof (cases "first_step classes pc (insns ! pc)")
      case None
      with False step "2.prems"(1) show ?thesis by simp
    next
      case (Some r)
      obtain add ic succs where r: "r = (add, ic, succs)" by (cases r)
      have "first_set_loop is' classes (visited[pc := True]) (succs @ work) (add out) (nc \<or> ic)
          = first_set_loop insns classes (visited[pc := True]) (succs @ work) (add out) (nc \<or> ic)"
        using "2.IH"(2) [OF False Some r [symmetric] refl "2.prems"] by simp
      with Some r False step "2.prems"(1) show ?thesis by simp
    qed
  qed
qed simp

section \<open>The prefilter of a lowered program\<close>

declare first_set_loop.simps [simp del]

lemma compute_first_set_marks:
  "compute_first_set sf (mark_possessive sf insns classes uni) classes' ic uni' = compute_first_set sf insns classes' ic uni'"
proof -
  have "first_set_loop (mark_possessive sf insns classes uni) classes' v w out nc = first_set_loop insns classes' v w out nc"
    for v w out nc
    by (rule first_set_loop_marks) (simp_all add: mark_possessive_nth)
  then show ?thesis by (simp add: compute_first_set_def mark_possessive_nth)
qed

lemma lower_prefilter:
  "p_prefilter (lower U p f) = map_option
     (\<lambda>(set, canon). if canon then prefilter_from_set_canon set (is_unicode_mode f) else prefilter_from_set set)
     (compute_first_set (icu_simple_fold U) (fst (folded U p f)) (final_classes U p f) (ignore_case f) (is_unicode_mode f))"
proof -
  have "(if \<not> is_unicode_mode f then fold_classes fold_ascii_case (\<lambda>_. True) is cl
      else fold_classes (fold_unicode_case (icu_case_closure U)) (\<lambda>cs. code_point_count cs \<le> UNICODE_FOLD_CLASS_LIMIT) is cl)
      = fold_classes (class_widen U f) (class_eligible f) is cl" for "is" cl
    by (simp add: class_widen_def class_eligible_def [abs_def])
  note eq = lower_def [of U p f, unfolded this Let_def]
  show ?thesis
    unfolding eq
    by (simp add: compute_first_set_marks final_classes_def folded_def emitted_def start_emitter_def mark_base_def split: prod.split)
qed

lemma tidy_base:
  assumes "icu_laws U" and "lowerable p f" and "subject_ok f inp"
  shows "tidy_program (base_matcher U p f inp)"
proof -
  have all: "all_classes (class_small f) (root p)" using assms(2) by (simp add: lowerable_def)
  have "sane (is_unicode_mode f) True i" if "i \<in> set (fst (folded U p f))" for i
    using sane_folded [OF assms(2) that] by (cases i) auto
  then show ?thesis
    using folded_class [OF assms(1) all] assms(3)
    unfolding tidy_program_def tidy_def subject_ok_def attempt_matcher_simps unmarked_fields by blast
qed

lemma lower_first_set:
  assumes "icu_laws U" and "lowerable p f"
    and "first_set_loop (fst (folded U p f)) (final_classes U p f) (replicate (length (fst (folded U p f))) False) [0] cps_new ic
      = Some (out, nc)"
  obtains V where "cps_inv out" "scanned (fst (folded U p f)) (final_classes U p f) V [] (cps_set out) nc"
    "0 < length (fst (folded U p f)) \<longrightarrow> V ! 0"
proof -
  have "scanned (fst (folded U p f)) (final_classes U p f) (replicate (length (fst (folded U p f))) False) [0] (cps_set cps_new) ic"
    by (simp add: scanned_def)
  moreover have "tidy (is_unicode_mode f) (final_classes U p f) i" if "i \<in> set (fst (folded U p f))" for i
    using tidy_base [OF assms(1,2), of "\<lparr>units = [], code_point_mode = is_unicode_mode f\<rparr>"] that
    by (simp add: tidy_program_def subject_ok_def utf16_def)
  ultimately show thesis using first_set_loop_scanned [OF assms(3)] that by auto
qed

lemma base_begins:
  assumes "icu_laws U" and "lowerable p f" and "subject_ok f inp" and "at \<le> length (units inp)"
    and "first_set_loop (fst (folded U p f)) (final_classes U p f) (replicate (length (fst (folded U p f))) False) [0] cps_new ic
      = Some (out, nc)" and "match_at U p f inp at \<noteq> None"
  shows "begins (base_matcher U p f inp) at (cps_set out) nc"
proof -
  let ?cx = "base_matcher U p f inp"
  obtain L where L: "paths ?cx False 0 at (initial_slots (unmarked U p f) at) L" "L \<noteq> []"
    using base_paths [OF assms(1-4)] assms(6) by (metis first_of_def list.simps(4) option.simps(8))
  obtain V where "scanned (fst (folded U p f)) (final_classes U p f) V [] (cps_set out) nc"
      "0 < length (fst (folded U p f)) \<longrightarrow> V ! 0"
    using lower_first_set [OF assms(1,2,5)] .
  with paths_begin(1) [OF L(1) _ tidy_base [OF assms(1-3)], of V "cps_set out" nc] L(2)
  show "begins ?cx at (cps_set out) nc" by simp
qed

text \<open>The prefilter is built from a well-formed set: the first set, or its canonical image.\<close>

lemma prefilter_shape:
  assumes "icu_laws U" and "lowerable p f" and "p_prefilter (lower U p f) = Some pf"
  obtains out nc s where "cps_inv out" "cps_inv s"
    "first_set_loop (fst (folded U p f)) (final_classes U p f) (replicate (length (fst (folded U p f))) False) [0] cps_new (ignore_case f)
      = Some (out, nc)"
    "cps_set s = (if nc then fold_cp (icu_simple_fold U) (is_unicode_mode f) ` cps_set out else cps_set out)"
    "pf = prefilter_build s (if nc then Some (is_unicode_mode f) else None)"
proof -
  let ?uni = "is_unicode_mode f" and ?sf = "icu_simple_fold U"
  obtain out nc where loop: "first_set_loop (fst (folded U p f)) (final_classes U p f)
      (replicate (length (fst (folded U p f))) False) [0] cps_new (ignore_case f) = Some (out, nc)"
    using assms(3) by (auto simp: lower_prefilter compute_first_set_def split: option.splits)
  have out: "cps_inv out" by (rule lower_first_set [OF assms(1,2) loop])
  show thesis
  proof (cases nc)
    case False
    then have "pf = prefilter_build out None"
      using assms(3) loop by (auto simp: lower_prefilter compute_first_set_def prefilter_from_set_def split: if_splits)
    with that [OF out out loop] False show ?thesis by simp
  next
    case True
    then obtain s where s: "canonicalize_set ?sf out ?uni = Some s" "pf = prefilter_build s (Some ?uni)"
      using assms(3) loop
      by (auto simp: lower_prefilter compute_first_set_def prefilter_from_set_canon_def split: if_splits option.splits)
    with that [OF out _ loop] True canonicalize_set_correct [OF s(1) assms(1) out] show ?thesis by simp
  qed
qed

theorem prefilter_sound:
  assumes "icu_laws U" and "lowerable p f" and "subject_ok f inp" and "at \<le> length (units inp)"
    and "p_prefilter (lower U p f) = Some pf" and "match_at U p f inp at \<noteq> None"
  shows "\<exists>cp w. decode inp at = Some (cp, w) \<and> cp_may_start (icu_simple_fold U) pf cp"
proof -
  let ?uni = "is_unicode_mode f" and ?sf = "icu_simple_fold U" and ?cx = "base_matcher U p f inp"
  obtain out nc s where pf: "cps_inv s"
    "first_set_loop (fst (folded U p f)) (final_classes U p f) (replicate (length (fst (folded U p f))) False) [0] cps_new (ignore_case f)
      = Some (out, nc)"
    "cps_set s = (if nc then fold_cp ?sf ?uni ` cps_set out else cps_set out)"
    "pf = prefilter_build s (if nc then Some ?uni else None)"
    using prefilter_shape [OF assms(1,2,5)] by blast
  from base_begins [OF assms(1-4) pf(2) assms(6)] obtain cp w c where
    cp: "decode inp at = Some (cp, w)" "c \<in> cps_set out" "cp = c \<or> (nc \<and> canon ?cx cp = canon ?cx c)"
    by (auto simp: begins_def)
  have "canon ?cx = fold_cp ?sf ?uni" by (simp add: fun_eq_iff canon_def fold_cp_def)
  with cp pf(3) have "prefilter_fold ?sf (if nc then Some ?uni else None) cp \<in> cps_set s"
    by (auto simp: prefilter_fold_def fold_cp_def)
  with cp(1) pf(1,4) show ?thesis by (simp add: cp_may_start_correct)
qed

end
