(* ===== verification/Rx_Lead.thy ===== *)
theory Rx_Lead
  imports Rx_Prefilter
begin

text \<open>
  The run-skip of the search (\<open>lead_possessive_run\<close> of \<open>ir.rs\<close>, used by
  \<open>Matches::next\<close>): after a failed attempt whose leading instruction is a possessive run,
  the remaining offsets of that run are not tried. This is right when success behind the run
  does not depend on the slots that record where it began; a backreference breaks it.
  It also needs the prefilter, which folds case under the flag \<open>i\<close>, to admit no unit that the run
  rejects. \<open>lead_independent\<close> and \<open>lead_caseless\<close> are the conditions, \<open>lead_run_sound\<close> the result.
\<close>

section \<open>Paths that do not read the slots\<close>

fun slot_free :: "nat set \<Rightarrow> insn \<Rightarrow> bool" where
  "slot_free M (IBackRef _ _) \<longleftrightarrow> False"
| "slot_free M (ICheckProgress s) \<longleftrightarrow> s \<in> M"
| "slot_free M (ISave s) \<longleftrightarrow> 1 < s"
| "slot_free M _ \<longleftrightarrow> True"

definition agree :: "nat set \<Rightarrow> slots \<Rightarrow> slots \<Rightarrow> bool" where
  "agree M c c' \<longleftrightarrow> length c = length c' \<and> (\<forall>i\<in>M. i < length c \<longrightarrow> c ! i = c' ! i)"

definition similar :: "nat set \<Rightarrow> mstate \<Rightarrow> mstate \<Rightarrow> bool" where
  "similar M s s' \<longleftrightarrow> fst s = fst s' \<and> agree M (snd s) (snd s')"

lemma agree_update: "agree M c c' \<Longrightarrow> agree M (c[i := v]) (c'[i := v])"
  by (auto simp: agree_def) (metis nth_list_update_eq nth_list_update_neq)

lemma agree_update_out: "agree M c c' \<Longrightarrow> i \<notin> M \<Longrightarrow> agree M (c[i := v]) (c'[i := v'])"
  by (auto simp: agree_def) (metis nth_list_update_neq)

lemma agree_length: "agree M c c' \<Longrightarrow> length c' = length c"
  by (simp add: agree_def)

text \<open>Two results that differ only in slots nobody reads.\<close>

fun result_sim :: "nat set \<Rightarrow> slots \<Rightarrow> insn_result \<Rightarrow> insn_result \<Rightarrow> bool" where
  "result_sim M c' (Continue th) (Continue th') \<longleftrightarrow> t_pc th' = t_pc th \<and> t_pos th' = t_pos th
     \<and> t_stack th' = t_stack th \<and> agree M (t_caps th) (t_caps th') \<and> undoes (t_log th') (t_caps th') c'
     \<and> (t_stack th \<noteq> [] \<longrightarrow> t_log th' = [] \<and> t_caps th' = c')"
| "result_sim M c' (Break v th) (Break v' th') \<longleftrightarrow> v' = v \<and> t_stack th' = t_stack th \<and> agree M (t_caps th) (t_caps th')
     \<and> (v = None \<longrightarrow> undoes (t_log th') (t_caps th') c')"
| "result_sim M c' (CallLook n b e) (CallLook n' b' e') \<longleftrightarrow> n' = n \<and> b' = b \<and> e' = e"
| "result_sim M c' Panicked Panicked \<longleftrightarrow> True"
| "result_sim M c' _ _ \<longleftrightarrow> False"

lemma sim_fail: "agree M c c' \<Longrightarrow> result_sim M c' (fail (thr pc pos c [] [])) (fail (thr pc pos c' [] []))"
  by (simp add: fail_def)

lemma sim_consume:
  "agree M c c' \<Longrightarrow> result_sim M c' (consume cx bw test (thr pc pos c [] [])) (consume cx bw test (thr pc pos c' [] []))"
  by (auto simp: consume_def advance_def sim_fail split: option.split)

lemma sim_char_seq:
  "agree M c c' \<Longrightarrow> result_sim M c' (exec_char_seq cx bw seq (thr pc pos c [] [])) (exec_char_seq cx bw seq (thr pc pos c' [] []))"
  by (auto simp: exec_char_seq_def advance_def Let_def sim_fail)

lemma sim_repeat:
  "agree M c c' \<Longrightarrow>
    result_sim M c' (exec_repeat cx bw atom mn g poss (thr pc pos c [] [])) (exec_repeat cx bw atom mn g poss (thr pc pos c' [] []))"
  by (auto simp: exec_repeat_def advance_def push_frame_def sim_fail split: option.split)

lemma sim_test:
  "agree M c c' \<Longrightarrow> result_sim M c' (test_insn r (thr pc pos c [] [])) (test_insn r (thr pc pos c' [] []))"
  by (auto simp: test_insn_def advance_def sim_fail split: option.split)

lemma sim_write:
  "agree M c c' \<Longrightarrow>
    result_sim M c' (next_insn (write_slot True i v (thr pc pos c [] []))) (next_insn (write_slot True i v (thr pc pos c' [] [])))"
  by (auto simp: next_insn_def write_slot_def advance_def get_at_def agree_length agree_update)

lemma sim_clear:
  "agree M c c' \<Longrightarrow>
    result_sim M c' (next_insn (Option.bind (write_slot True i v (thr pc pos c [] [])) (write_slot True j w)))
      (next_insn (Option.bind (write_slot True i v (thr pc pos c' [] [])) (write_slot True j w)))"
  by (auto simp: next_insn_def write_slot_def advance_def get_at_def agree_length agree_update list_update_swap
      nth_list_update)

lemma exec_sim:
  assumes "agree M c c'" and "\<And>i. get_at (p_insns (cx_program cx)) pc = Some i \<Longrightarrow> slot_free M i"
  shows "result_sim M c' (exec_insn cx bw (thr pc pos c [] [])) (exec_insn cx bw (thr pc pos c' [] []))"
proof (cases "get_at (p_insns (cx_program cx)) pc")
  case (Some i)
  note free = assms(2) [OF Some]
  show ?thesis
  proof (cases i)
    case (ICheckProgress s)
    then have "get_at c s = get_at c' s" using free assms(1) by (auto simp: agree_def get_at_def)
    then show ?thesis by (simp add: exec_insn_def Some ICheckProgress sim_test assms(1))
  next
    case IMatch
    show ?thesis
      using agree_length [OF assms(1)] assms(1)
      by (auto simp: exec_insn_def Some IMatch write_slot_def agree_update split: option.split)
  next
    case (IClass k negate ic)
    show ?thesis
      using assms(1) by (auto simp: exec_insn_def Some IClass sim_fail sim_consume split: option.split)
  qed (use assms(1) free in \<open>simp_all add: exec_insn_def Some sim_consume sim_char_seq sim_repeat sim_test sim_write
      sim_clear sim_fail push_frame_def\<close>)
next
  case None
  show ?thesis by (simp add: exec_insn_def None)
qed

fun_cases sim_ContinueE: "result_sim M c' (Continue th) r"
fun_cases sim_BreakE: "result_sim M c' (Break v th) r"
fun_cases sim_CallLookE: "result_sim M c' (CallLook n b e) r"

lemma exec_sim_all:
  assumes "list_all (slot_free M) (p_insns (cx_program cx))" and "agree M c c'" and "exec_insn cx bw (thr pc pos c [] []) = r"
  shows "result_sim M c' r (exec_insn cx bw (thr pc pos c' [] []))"
  using assms(1) exec_sim [OF assms(2), of cx pc bw pos] by (auto simp: assms(3) list_all_length)

lemma look_verdict_sim:
  assumes "list_all2 (similar M) L L'" and "agree M c c'"
  shows "case look_verdict negate c (first_of L) of
      None \<Rightarrow> look_verdict negate c' (first_of L') = None
    | Some upd \<Rightarrow> \<exists>upd'. look_verdict negate c' (first_of L') = Some upd' \<and> agree M upd upd'"
  using assms by (cases L; cases L'; cases negate) (auto simp: look_verdict_def first_of_def similar_def split: prod.split)

lemma paths_sim:
  "paths cx bw pc pos c L \<Longrightarrow> list_all (slot_free M) (p_insns (cx_program cx)) \<Longrightarrow> agree M c c' \<Longrightarrow>
    \<exists>L'. paths cx bw pc pos c' L' \<and> list_all2 (similar M) L L'"
  "fpaths cx bw fr c L \<Longrightarrow> list_all (slot_free M) (p_insns (cx_program cx)) \<Longrightarrow> agree M c c' \<Longrightarrow>
    \<exists>L'. fpaths cx bw fr c' L' \<and> list_all2 (similar M) L L'"
proof (induction arbitrary: c' and c' rule: paths_fpaths.inducts)
  case (p_fail bw pc pos caps th)
  from exec_sim_all [OF p_fail.prems p_fail(1)] obtain th' where
    "exec_insn cx bw (thr pc pos c' [] []) = Break None th'" "t_stack th' = []" "undoes (t_log th') (t_caps th') c'"
    using p_fail by (auto elim: sim_BreakE)
  then show ?case by (auto intro: paths_fpaths.p_fail)
next
  case (p_accept bw pc pos caps p th)
  from exec_sim_all [OF p_accept.prems p_accept(1)] obtain th' where
    "exec_insn cx bw (thr pc pos c' [] []) = Break (Some p) th'" "agree M (t_caps th) (t_caps th')"
    by (auto elim: sim_BreakE)
  then show ?case by (intro exI [of _ "[(p, t_caps th')]"]) (simp add: similar_def paths_fpaths.p_accept)
next
  case (p_step bw pc pos caps th L)
  from exec_sim_all [OF p_step.prems p_step(1)] obtain th' where
    th': "exec_insn cx bw (thr pc pos c' [] []) = Continue th'" "t_pc th' = t_pc th" "t_pos th' = t_pos th" "t_stack th' = []"
      "agree M (t_caps th) (t_caps th')" "undoes (t_log th') (t_caps th') c'"
    using p_step by (auto elim: sim_ContinueE)
  obtain L' where "paths cx bw (t_pc th) (t_pos th) (t_caps th') L'" "list_all2 (similar M) L L'"
    using p_step th'(5) by blast
  with th' show ?case by (metis paths_fpaths.p_step)
next
  case (p_branch bw pc pos caps th fr L1 L2)
  from exec_sim_all [OF p_branch.prems p_branch(1)] obtain th' where
    th': "exec_insn cx bw (thr pc pos c' [] []) = Continue th'" "t_pc th' = t_pc th" "t_pos th' = t_pos th" "t_stack th' = [fr]"
      "t_log th' = []" "t_caps th' = c'"
    using p_branch by (auto elim: sim_ContinueE)
  obtain L1' L2' where L: "paths cx bw (t_pc th) (t_pos th) c' L1'" "list_all2 (similar M) L1 L1'"
    "fpaths cx bw fr c' L2'" "list_all2 (similar M) L2 L2'"
    using p_branch by blast
  have "paths cx bw pc pos c' (L1' @ L2')"
    using paths_fpaths.p_branch [OF th'(1,5,6,4)] p_branch L(1,3) th'(2,3) by simp
  with L(2,4) show ?case by (blast intro: list_all2_appendI)
next
  case (p_look_fail bw pc pos caps negate behind entry L)
  from exec_sim_all [OF p_look_fail.prems p_look_fail(1)] have ex: "exec_insn cx bw (thr pc pos c' [] []) = CallLook negate behind entry"
    by (auto elim: sim_CallLookE)
  obtain L' where L': "paths cx behind entry pos c' L'" "list_all2 (similar M) L L'"
    using p_look_fail by blast
  have "look_verdict negate c' (first_of L') = None"
    using look_verdict_sim [OF L'(2) p_look_fail.prems(2), of negate] p_look_fail by simp
  with ex L'(1) show ?case by (auto intro: paths_fpaths.p_look_fail)
next
  case (p_look bw pc pos caps negate behind entry L upd L')
  from exec_sim_all [OF p_look.prems p_look(1)] have ex: "exec_insn cx bw (thr pc pos c' [] []) = CallLook negate behind entry"
    by (auto elim: sim_CallLookE)
  obtain K where K: "paths cx behind entry pos c' K" "list_all2 (similar M) L K"
    using p_look by blast
  obtain upd' where u: "look_verdict negate c' (first_of K) = Some upd'" "agree M upd upd'"
    using look_verdict_sim [OF K(2) p_look.prems(2), of negate] p_look by auto
  have len: "length upd' = length c'" using u(2) p_look by (simp add: agree_def)
  obtain K' where "paths cx bw (Suc pc) pos upd' K'" "list_all2 (similar M) L' K'"
    using p_look u(2) by blast
  with paths_fpaths.p_look [OF ex K(1) u(1) len] show ?case by blast
next
  case (f_last bw fr caps L)
  then show ?case by (blast intro: paths_fpaths.f_last)
next
  case (f_chain bw fr fr' caps L1 L2)
  obtain L1' where "paths cx bw (fr_pc fr) (fr_pos fr) c' L1'" "list_all2 (similar M) L1 L1'"
    using f_chain by blast
  moreover obtain L2' where "fpaths cx bw fr' c' L2'" "list_all2 (similar M) L2 L2'"
    using f_chain by blast
  ultimately show ?case
    using f_chain by (blast intro: paths_fpaths.f_chain list_all2_appendI)
qed

lemma paths_unique:
  assumes "paths cx bw pc pos c L" and "paths cx bw pc pos c L'" and "cx_limit cx = - 1"
  shows "first_of L = first_of L'"
  using run_paths [OF assms(1,3), of 0] run_paths [OF assms(2,3), of 0] by auto

lemma paths_continue:
  "paths cx bw pc pos c L \<Longrightarrow> exec_insn cx bw (thr pc pos c [] []) = Continue th \<Longrightarrow> t_stack th = []
    \<Longrightarrow> paths cx bw (t_pc th) (t_pos th) (t_caps th) L"
  by (erule paths.cases) auto

lemma paths_failed: "paths cx bw pc pos c L \<Longrightarrow> exec_insn cx bw (thr pc pos c [] []) = fail (thr pc pos c [] []) \<Longrightarrow> L = []"
  by (erule paths.cases) (auto simp: fail_def)

lemma paths_written:
  assumes "paths cx bw pc pos c L" and "exec_insn cx bw (thr pc pos c [] []) = next_insn (write_slot l i v (thr pc pos c [] []))"
  shows "paths cx bw (Suc pc) pos (c[i := v]) L"
proof (cases "i < length c")
  case True
  then have "exec_insn cx bw (thr pc pos c [] []) = Continue (thr (Suc pc) pos (c[i := v]) [] (if l then [(i, c ! i)] else []))"
    using assms(2) by (simp add: next_insn_def write_slot_def get_at_def advance_def)
  from paths_continue [OF assms(1) this] show ?thesis by simp
next
  case False
  then have "exec_insn cx bw (thr pc pos c [] []) = Panicked"
    using assms(2) by (simp add: next_insn_def write_slot_def get_at_def)
  with assms(1) show ?thesis by (cases rule: paths.cases) auto
qed

lemma paths_cleared:
  assumes "paths cx bw pc pos c L" and "exec_insn cx bw (thr pc pos c [] [])
    = next_insn (Option.bind (write_slot True i v (thr pc pos c [] [])) (write_slot True j w))"
  shows "paths cx bw (Suc pc) pos (c[i := v, j := w]) L"
proof (cases "i < length c \<and> j < length c")
  case True
  then have "exec_insn cx bw (thr pc pos c [] []) = Continue (thr (Suc pc) pos (c[i := v, j := w]) [] [(j, c[i := v] ! j), (i, c ! i)])"
    using assms(2) by (simp add: next_insn_def write_slot_def get_at_def advance_def)
  from paths_continue [OF assms(1) this] show ?thesis by simp
next
  case False
  then have "exec_insn cx bw (thr pc pos c [] []) = Panicked"
    using assms(2) by (auto simp: next_insn_def write_slot_def get_at_def split: if_splits)
  with assms(1) show ?thesis by (cases rule: paths.cases) auto
qed

section \<open>The leading run\<close>

definition progress_slots :: "insn list \<Rightarrow> nat list" where
  "progress_slots insns = concat (map (\<lambda>i. case i of ICheckProgress s \<Rightarrow> [s] | _ \<Rightarrow> []) insns)"

text \<open>The walk of \<open>lead_loop\<close>, restricted to instructions that write no slot of \<open>M\<close>.\<close>

fun lead_find :: "nat list \<Rightarrow> nat \<Rightarrow> insn list \<Rightarrow> nat \<Rightarrow> nat option" where
  "lead_find M 0 insns pc = None"
| "lead_find M (Suc n) insns pc =
    (case get_at insns pc of
       None \<Rightarrow> None
     | Some i \<Rightarrow>
        (case i of
           ISave s \<Rightarrow> (if s \<in> set M then None else lead_find M n insns (pc + 1))
         | IClearCapture g \<Rightarrow>
             (if 2 * g \<in> set M \<or> 2 * g + 1 \<in> set M then None else lead_find M n insns (pc + 1))
         | ISetMark s \<Rightarrow> (if s \<in> set M then None else lead_find M n insns (pc + 1))
         | IJump t \<Rightarrow> lead_find M n insns t
         | IRepeat _ mn greedy possessive \<Rightarrow> (if greedy \<and> possessive \<and> mn \<ge> 1 then Some pc else None)
         | _ \<Rightarrow> None))"

definition lead_independent :: "insn list \<Rightarrow> bool" where
  "lead_independent insns \<longleftrightarrow>
    (let M = progress_slots insns in
     list_all (slot_free (set M)) insns \<and> 0 \<notin> set M \<and> lead_find M (length insns + 1) insns 0 \<noteq> None)"

lemma lead_find_insn:
  "lead_find M n insns pc = Some pc0 \<Longrightarrow>
    \<exists>atom mn. get_at insns pc0 = Some (IRepeat atom mn True True) \<and> 1 \<le> mn"
proof (induction M n insns pc rule: lead_find.induct)
  case (2 M n insns pc)
  then obtain i where i: "get_at insns pc = Some i" by (cases "get_at insns pc") auto
  with 2 show ?case
    by (cases i) (auto simp del: get_at_Some_iff split: if_splits)
qed simp

lemma repeat_run_same:
  assumes "atom_test cx atom = Some t" and "pos \<le> q" and "q < length (units (cx_input cx))"
    and "\<And>k. pos \<le> k \<Longrightarrow> k \<le> q \<Longrightarrow> t (units (cx_input cx) ! k)"
  obtains r where "q - pos < r" "run_of t (units (cx_input cx)) False pos r" "run_of t (units (cx_input cx)) False q (r - (q - pos))"
    "repeat_scan t (units (cx_input cx)) False pos = Some (walk False pos r)"
    "repeat_scan t (units (cx_input cx)) False q = Some (walk False q (r - (q - pos)))"
proof -
  let ?us = "units (cx_input cx)"
  obtain r where r: "repeat_scan t ?us False pos = Some (walk False pos r)" "run_of t ?us False pos r"
    using repeat_scan_run [of pos ?us t False] assms(2,3) by auto
  obtain r' where r': "repeat_scan t ?us False q = Some (walk False q r')" "run_of t ?us False q r'"
    using repeat_scan_run [of q ?us t False] assms(3) by auto
  have "q - pos < r"
  proof (rule ccontr)
    assume "\<not> q - pos < r"
    with assms(2) have "pos + r \<le> q" by simp
    with r(2) assms(3,4) show False by (auto simp: run_of_def walk_def unit_ok_def)
  qed
  moreover have "r' = r - (q - pos)"
  proof (rule ccontr)
    assume "r' \<noteq> r - (q - pos)"
    then consider "r' < r - (q - pos)" | "r - (q - pos) < r'" by linarith
    then show False
    proof cases
      case 1
      then have "pos + (q - pos + r') = q + r'" "q - pos + r' < r" using assms(2) calculation by auto
      with r(2) r'(2) show False by (auto simp: run_of_def walk_def)
    next
      case 2
      have "q + (r - (q - pos)) = pos + r" using assms(2) calculation by auto
      moreover have "unit_ok t ?us False (q + (r - (q - pos)))" using 2 r'(2) by (simp add: run_of_def walk_def)
      ultimately have "unit_ok t ?us False (pos + r)" by (simp only:)
      then show False using r(2) by (simp add: run_of_def walk_def)
    qed
  qed
  ultimately show thesis using that r r' by blast
qed

lemma lead_repeat:
  assumes at: "get_at (p_insns (cx_program cx)) pc = Some (IRepeat atom mn True True)" and t: "atom_test cx atom = Some t"
    and free: "list_all (slot_free M) (p_insns (cx_program cx))" and lim: "cx_limit cx = - 1"
    and run: "pos \<le> q" "q < length (units (cx_input cx))" "\<And>k. pos \<le> k \<Longrightarrow> k \<le> q \<Longrightarrow> t (units (cx_input cx) ! k)"
    and "agree M c c'" and p: "paths cx False pc pos c []" "paths cx False pc q c' L'"
  shows "L' = []"
proof -
  obtain r where r: "q - pos < r" "run_of t (units (cx_input cx)) False pos r" "run_of t (units (cx_input cx)) False q (r - (q - pos))"
    "repeat_scan t (units (cx_input cx)) False pos = Some (walk False pos r)"
    "repeat_scan t (units (cx_input cx)) False q = Some (walk False q (r - (q - pos)))"
    using repeat_run_same [OF t run] by blast
  have ex: "exec_insn cx False (thr pc pos c [] []) = (if r < mn then fail (thr pc pos c [] []) else Continue (thr (Suc pc) (pos + r) c [] []))"
    "exec_insn cx False (thr pc q c' [] []) = (if r - (q - pos) < mn then fail (thr pc q c' [] [])
      else Continue (thr (Suc pc) (pos + r) c' [] []))"
    using exec_repeat_run [OF t _ r(2,4), of mn True True pc c] exec_repeat_run [OF t _ r(3,5), of mn True True pc c'] run(1,2) r(1)
    by (auto simp: exec_insn_def at walk_def)
  show ?thesis
  proof (cases "r - (q - pos) < mn")
    case True
    with paths_failed [OF p(2)] ex(2) show ?thesis by simp
  next
    case False
    then have mn: "\<not> r < mn" using r(1) by simp
    have "paths cx False (Suc pc) (pos + r) c []" "paths cx False (Suc pc) (pos + r) c' L'"
      using paths_continue [OF p(1)] paths_continue [OF p(2)] ex False mn by auto
    moreover from paths_sim(1) [OF this(1) free assms(8)] have "paths cx False (Suc pc) (pos + r) c' []" by auto
    ultimately have "first_of L' = first_of []" using paths_unique lim by blast
    then show ?thesis by (cases L') (simp_all add: first_of_def)
  qed
qed

lemma lead_fails:
  assumes find: "lead_find M n (p_insns (cx_program cx)) pc = Some pc0"
    and atom: "get_at (p_insns (cx_program cx)) pc0 = Some (IRepeat atom mn True True)" "atom_test cx atom = Some t"
    and free: "list_all (slot_free (set M)) (p_insns (cx_program cx))" and lim: "cx_limit cx = - 1"
    and run: "pos \<le> q" "q < length (units (cx_input cx))" "\<And>k. pos \<le> k \<Longrightarrow> k \<le> q \<Longrightarrow> t (units (cx_input cx) ! k)"
  shows "agree (set M) c c' \<Longrightarrow> paths cx False pc pos c [] \<Longrightarrow> paths cx False pc q c' L' \<Longrightarrow> L' = []"
  using find
proof (induction n arbitrary: pc c c')
  case (Suc n)
  let ?is = "p_insns (cx_program cx)"
  obtain i where i: "get_at ?is pc = Some i" using Suc.prems(4) by (cases "get_at ?is pc") auto
  show ?case
  proof (cases i)
    case (ISave s)
    then have "s \<notin> set M" "lead_find M n ?is (Suc pc) = Some pc0"
      using Suc.prems(4) by (simp_all add: i split: if_splits)
    moreover have "paths cx False (Suc pc) pos (c[s := Some pos]) []" "paths cx False (Suc pc) q (c'[s := Some q]) L'"
      by (rule paths_written [OF Suc.prems(2)], simp add: exec_insn_def i ISave)
        (rule paths_written [OF Suc.prems(3)], simp add: exec_insn_def i ISave)
    ultimately show ?thesis using Suc.IH Suc.prems(1) agree_update_out by blast
  next
    case (ISetMark s)
    then have "s \<notin> set M" "lead_find M n ?is (Suc pc) = Some pc0"
      using Suc.prems(4) by (simp_all add: i split: if_splits)
    moreover have "paths cx False (Suc pc) pos (c[s := Some pos]) []" "paths cx False (Suc pc) q (c'[s := Some q]) L'"
      by (rule paths_written [OF Suc.prems(2)], simp add: exec_insn_def i ISetMark)
        (rule paths_written [OF Suc.prems(3)], simp add: exec_insn_def i ISetMark)
    ultimately show ?thesis using Suc.IH Suc.prems(1) agree_update_out by blast
  next
    case (IClearCapture g)
    then have "2 * g \<notin> set M" "2 * g + 1 \<notin> set M" "lead_find M n ?is (Suc pc) = Some pc0"
      using Suc.prems(4) by (simp_all add: i split: if_splits)
    moreover have "paths cx False (Suc pc) pos (c[2 * g := None, 2 * g + 1 := None]) []"
      "paths cx False (Suc pc) q (c'[2 * g := None, 2 * g + 1 := None]) L'"
      by (rule paths_cleared [OF Suc.prems(2)], simp add: exec_insn_def i IClearCapture)
        (rule paths_cleared [OF Suc.prems(3)], simp add: exec_insn_def i IClearCapture)
    ultimately show ?thesis using Suc.IH Suc.prems(1) agree_update_out by blast
  next
    case (IJump u)
    then have "exec_insn cx False (thr pc k d [] []) = Continue (thr u k d [] [])" for k d by (simp add: exec_insn_def i)
    with paths_continue [OF Suc.prems(2)] paths_continue [OF Suc.prems(3)]
    have "paths cx False u pos c []" "paths cx False u q c' L'" by auto
    moreover have "lead_find M n ?is u = Some pc0" using Suc.prems(4) by (simp add: i IJump)
    ultimately show ?thesis using Suc.IH Suc.prems(1) by blast
  next
    case (IRepeat atom' mn' g poss)
    then have "pc0 = pc" using Suc.prems(4) by (simp add: i split: if_splits)
    then have at: "get_at ?is pc = Some (IRepeat atom mn True True)" using atom(1) by simp
    show ?thesis by (rule lead_repeat [OF at atom(2) free lim run Suc.prems(1-3)])
  qed (use Suc.prems(4) in \<open>simp_all add: i\<close>)
qed simp

section \<open>The prefilter of a leading run\<close>

text \<open>The first set is the set of the leading atom.\<close>

lemma set_possessive_other: "set_possessive i = j \<Longrightarrow> (\<And>a m g p. j \<noteq> IRepeat a m g p) \<Longrightarrow> i = j"
  by (cases i rule: set_possessive.cases) auto

lemma first_set_lead:
  assumes "lead_find M n is' pc = Some pc0" and "length is' = length is"
    and "\<And>pc. pc < length is \<Longrightarrow> is' ! pc = is ! pc \<or> is' ! pc = set_possessive (is ! pc)"
    and "first_set_loop is classes visited [pc] out nc = Some (out', nc')" and "cps_inv out"
    and "\<And>i. i \<in> set is \<Longrightarrow> tidy uni classes i"
  shows "cps_inv out' \<and> cps_set out' \<subseteq> cps_set out \<union> first_members classes (is ! pc0)
    \<and> (nc' \<longrightarrow> nc \<or> (\<exists>add succs. first_step classes pc0 (is ! pc0) = Some (add, True, succs)))"
  using assms(1,4,5)
proof (induction n arbitrary: pc visited out nc)
  case (Suc n)
  show ?case
  proof (cases "pc \<ge> length is \<or> pc \<ge> length visited \<or> visited ! pc")
    case True
    with Suc.prems show ?thesis by (simp add: first_set_loop.simps)
  next
    case False
    then obtain add ic succs where st: "first_step classes pc (is ! pc) = Some (add, ic, succs)"
      "first_set_loop is classes (visited[pc := True]) succs (add out) (nc \<or> ic) = Some (out', nc')"
      using Suc.prems(2) by (auto simp: first_set_loop.simps(2) split: option.splits)
    have get: "get_at is' pc = Some (is' ! pc)" using False assms(2) by simp
    have add: "cps_inv (add out) \<and> cps_set (add out) = cps_set out \<union> first_members classes (is ! pc)"
      using first_step_adds [OF st(1) assms(6) Suc.prems(3)] False by simp
    have same: "is ! pc = is' ! pc" if "\<And>a m g p. is' ! pc \<noteq> IRepeat a m g p"
      using assms(3) [of pc] False set_possessive_other [of "is ! pc" "is' ! pc"] that by auto
    show ?thesis
    proof (cases "\<exists>a m g p. is' ! pc = IRepeat a m g p")
      case True
      then obtain a m g p where rep: "is' ! pc = IRepeat a m g p" by blast
      have pc0: "pc0 = pc" "1 \<le> m" using Suc.prems(1) by (auto simp: get rep split: if_splits)
      have "\<exists>p'. is ! pc = IRepeat a m g p'"
        using assms(3) [of pc] False rep by (cases "is ! pc" rule: set_possessive.cases) auto
      then have "succs = []" using st(1) pc0 by (auto simp: first_step_def split: option.splits)
      with st pc0 add show ?thesis by (auto simp: first_set_loop.simps)
    next
      case False
      then have eq: "is ! pc = is' ! pc" by (intro same) auto
      obtain t where "succs = [t]" "lead_find M n is' t = Some pc0" "add = id" "\<not> ic"
        using Suc.prems(1) st(1) False by (cases "is' ! pc") (auto simp: get eq first_step_def split: if_splits)
      with Suc.IH [of t "visited[pc := True]" out nc] st(2) Suc.prems(3) show ?thesis by simp
    qed
  qed
qed simp

lemma atom_first_members:
  assumes "plain_program cx" and "IRepeat atom mn g False \<in> set (p_insns (cx_program cx))"
    and "u \<in> first_members (p_classes (cx_program cx)) (IRepeat atom mn g False)"
  shows "\<exists>t. atom_test cx atom = Some t \<and> t u"
proof -
  obtain t where t: "atom_test cx atom = Some t" "t u = atom_matches (cx_fold cx) atom (p_classes (cx_program cx)) u False"
    using atom_matches_test [OF assms(1,2)] by blast
  have "atom_matches (cx_fold cx) atom (p_classes (cx_program cx)) u False"
  proof (cases atom)
    case (AtomClass k negate ic)
    obtain cs where "\<not> ic" "p_classes (cx_program cx) ! k = finalize_ascii cs" "cps_inv (code_points cs)"
      using plain_class [OF assms(1,2), of k ic] AtomClass by auto
    with AtomClass assms(3) show ?thesis
      by (auto simp: atom_matches_def class_matches_def class_members_def contains_correct split: if_splits)
  qed (use assms(3) in \<open>simp_all add: atom_matches_def char_matches_def\<close>)
  with t show ?thesis by auto
qed

section \<open>Skipping a run is sound\<close>

lemma lead_atom:
  assumes low: "lowerable p f" and at: "get_at (p_insns (lower U p f)) pc = Some (IRepeat atom mn True True)"
  shows "\<not> is_unicode_mode f" and "fst (folded U p f) ! pc = IRepeat atom mn True False" and "pc < length (fst (folded U p f))"
    and "\<nexists>add succs. first_step (final_classes U p f) pc (fst (folded U p f) ! pc) = Some (add, True, succs)"
proof -
  let ?is = "fst (folded U p f)" and ?cl = "final_classes U p f"
  show pc: "pc < length ?is" using at by (simp add: lower_fields mark_possessive_nth)
  have sane: "sane (is_unicode_mode f) (has_lookbehind (root p)) (?is ! pc)" using sane_folded [OF low nth_mem [OF pc]] .
  have "possessifiable (icu_simple_fold U) ?is ?cl (is_unicode_mode f) pc"
    using at pc sane by (auto simp: lower_fields mark_possessive_nth split: if_splits)
  moreover from this obtain atom' mn' where i: "?is ! pc = IRepeat atom' mn' True False"
    by (rule possessifiableE) blast
  ultimately show eq: "?is ! pc = IRepeat atom mn True False"
    using at pc by (simp add: lower_fields mark_possessive_nth)
  show "\<not> is_unicode_mode f" using sane eq by simp
  have "repeat_atom_set atom ?cl \<noteq> None"
    using \<open>possessifiable _ _ _ _ _\<close> eq by (auto elim!: possessifiableE simp: bind_eq_Some_conv)
  then show "\<nexists>add succs. first_step ?cl pc (?is ! pc) = Some (add, True, succs)"
    by (cases atom) (auto simp: eq first_step_def atom_start_def repeat_atom_set_def split: if_splits)
qed

text \<open>With the flag \<open>i\<close> the prefilter tests the folded unit, so it may admit units that the leading atom
  does not match, as in \<open>(?-i:a+)b\<close>. The skip needs an atom whose set is closed under ASCII case; every
  class that the lowering has widened is.\<close>

definition caseless :: "code_point set \<Rightarrow> bool" where
  "caseless A \<longleftrightarrow> (\<forall>u \<in> {0x41..0x5A}. u \<in> A \<longleftrightarrow> u + 0x20 \<in> A)"

definition lead_caseless :: "class_set list \<Rightarrow> insn list \<Rightarrow> bool" where
  "lead_caseless classes insns \<longleftrightarrow>
    (case lead_find (progress_slots insns) (length insns + 1) insns 0 of
       None \<Rightarrow> True
     | Some pc \<Rightarrow> caseless (first_members classes (insns ! pc)))"

definition lead_safe :: "icu \<Rightarrow> parsed \<Rightarrow> flags \<Rightarrow> bool" where
  "lead_safe U p f \<longleftrightarrow> p_lead_possessive_run (lower U p f) \<longrightarrow> lead_independent (p_insns (lower U p f))
     \<and> (ignore_case f \<longrightarrow> lead_caseless (p_classes (lower U p f)) (p_insns (lower U p f)))"

lemma caseless_canonical:
  assumes "caseless A" and "m \<in> A" and "canonicalize u = canonicalize m"
  shows "u \<in> A"
proof -
  have "u = m \<or> u = ascii_other_case m" using assms(3) by (simp add: canonicalize_eq_iff)
  moreover have "ascii_other_case m \<in> A"
  proof -
    have "m \<in> A \<longleftrightarrow> m + 0x20 \<in> A" if "0x41 \<le> m" "m \<le> 0x5A" using assms(1) that by (simp add: caseless_def)
    moreover have "m - 0x20 \<in> A \<longleftrightarrow> m - 0x20 + 0x20 \<in> A" if "0x61 \<le> m" "m \<le> 0x7A"
    proof -
      have "m - 0x20 \<in> {0x41..0x5A}" using that by auto
      then show ?thesis using assms(1) unfolding caseless_def by blast
    qed
    ultimately show ?thesis using assms(2) by (auto simp: ascii_other_case_def)
  qed
  ultimately show ?thesis using assms(2) by auto
qed

lemma lead_not_unicode:
  assumes "lowerable p f" and "lead_independent (p_insns (lower U p f))"
  shows "\<not> is_unicode_mode f"
proof -
  obtain M n pc where "lead_find M n (p_insns (lower U p f)) 0 = Some pc"
    using assms(2) unfolding lead_independent_def Let_def by blast
  from lead_find_insn [OF this] lead_atom(1) [OF assms(1)] show ?thesis by blast
qed

lemma lead_admits:
  assumes "icu_laws U" and "lowerable p f" and "subject_ok f inp"
    and "ignore_case f \<longrightarrow> lead_caseless (p_classes (lower U p f)) (p_insns (lower U p f))"
    and "lead_find (progress_slots (p_insns (lower U p f))) (length (p_insns (lower U p f)) + 1) (p_insns (lower U p f)) 0 = Some pc0"
    and "p_prefilter (lower U p f) = Some pf"
  obtains atom mn t where "get_at (p_insns (lower U p f)) pc0 = Some (IRepeat atom mn True True)" "\<not> is_unicode_mode f"
    "atom_test (attempt_matcher (icu_simple_fold U) (lower U p f) inp) atom = Some t"
    "\<forall>u. cp_may_start (icu_simple_fold U) pf u \<longrightarrow> t u"
proof -
  let ?is = "fst (folded U p f)" and ?cl = "final_classes U p f" and ?cx = "base_matcher U p f inp"
  let ?uni = "is_unicode_mode f" and ?sf = "icu_simple_fold U"
  obtain atom mn where at: "get_at (p_insns (lower U p f)) pc0 = Some (IRepeat atom mn True True)"
    using lead_find_insn [OF assms(5)] by blast
  note lead = lead_atom [OF assms(2) at]
  obtain out nc s where pf: "cps_inv s"
    "first_set_loop ?is ?cl (replicate (length ?is) False) [0] cps_new (ignore_case f) = Some (out, nc)"
    "cps_set s = (if nc then fold_cp ?sf ?uni ` cps_set out else cps_set out)"
    "pf = prefilter_build s (if nc then Some ?uni else None)"
    using prefilter_shape [OF assms(1,2,6)] by blast
  have tidy: "tidy ?uni ?cl i" if "i \<in> set ?is" for i
    using tidy_base [OF assms(1-3)] that by (simp add: tidy_program_def)
  have "length (p_insns (lower U p f)) = length ?is"
    "k < length ?is \<Longrightarrow> p_insns (lower U p f) ! k = ?is ! k \<or> p_insns (lower U p f) ! k = set_possessive (?is ! k)" for k
    by (simp_all add: lower_fields mark_possessive_nth)
  from first_set_lead [OF assms(5) this pf(2) cps_new_correct(1) tidy] have
    out: "cps_set out \<subseteq> first_members ?cl (?is ! pc0)" "nc \<longrightarrow> ignore_case f"
    using lead(4) by auto
  have same: "first_members ?cl (p_insns (lower U p f) ! pc0) = first_members ?cl (?is ! pc0)"
    using at by (cases atom) (simp_all add: lead(2))
  have closed: "caseless (first_members ?cl (?is ! pc0))" if nc
    using assms(4,5) out(2) that same by (simp add: lead_caseless_def lower_fields(2))
  have admits: "u \<in> first_members ?cl (?is ! pc0)" if start: "cp_may_start ?sf pf u" for u
  proof (cases nc)
    case True
    then obtain m where "m \<in> cps_set out" "canonicalize u = canonicalize m"
      using start pf(1,3,4) lead(1) by (auto simp: cp_may_start_correct prefilter_fold_def fold_cp_def)
    then show ?thesis using caseless_canonical [OF closed [OF True]] out(1) by blast
  next
    case False
    then show ?thesis using start pf(1,3,4) out(1) by (auto simp: cp_may_start_correct prefilter_fold_def)
  qed
  have plain: "plain_program ?cx" by (rule plain_base [OF assms(1-3) lead(1)])
  have mem: "IRepeat atom mn True False \<in> set (p_insns (cx_program ?cx))"
    using nth_mem [OF lead(3)] lead(2) by simp
  obtain t where t: "atom_test ?cx atom = Some t" using atom_matches_test [OF plain mem] by blast
  have "t u" if "cp_may_start ?sf pf u" for u
    using atom_first_members [OF plain mem, of u] admits [OF that] lead(2) t by auto
  moreover have "atom_test (attempt_matcher ?sf (lower U p f) inp) atom = Some t"
  proof -
    have eq: "attempt_matcher ?sf (lower U p f) inp = with_insns (p_insns (lower U p f)) ?cx"
      by (subst (1) lower_unmarked) (simp add: attempt_matcher_def)
    show ?thesis unfolding eq with_insns_execs(4) by (rule t)
  qed
  ultimately show thesis using that at lead(1) by blast
qed

theorem lead_run_sound:
  assumes hyps: "icu_laws U" "lowerable p f" "subject_ok f inp" "direction_safe U p f"
    and lead: "lead_independent (p_insns (lower U p f))"
      "ignore_case f \<longrightarrow> lead_caseless (p_classes (lower U p f)) (p_insns (lower U p f))" and pf: "p_prefilter (lower U p f) = Some pf"
    and run: "pos \<le> q" "q < length (units inp)" "\<And>k. pos \<le> k \<Longrightarrow> k \<le> q \<Longrightarrow> cp_may_start (icu_simple_fold U) pf (units inp ! k)"
    and "match_at U p f inp pos = None"
  shows "match_at U p f inp q = None"
proof -
  let ?cx = "attempt_matcher (icu_simple_fold U) (lower U p f) inp" and ?is = "p_insns (lower U p f)"
  let ?M = "progress_slots ?is"
  obtain pc0 where find: "lead_find ?M (length ?is + 1) ?is 0 = Some pc0" and free: "list_all (slot_free (set ?M)) ?is" "0 \<notin> set ?M"
    using lead(1) unfolding lead_independent_def Let_def by blast
  obtain atom mn t where t: "get_at ?is pc0 = Some (IRepeat atom mn True True)" "\<not> is_unicode_mode f"
    "atom_test ?cx atom = Some t" "\<forall>u. cp_may_start (icu_simple_fold U) pf u \<longrightarrow> t u"
    using lead_admits [OF hyps(1-3) lead(2) find pf] by blast
  obtain L where L: "paths ?cx False 0 pos (initial_slots (lower U p f) pos) L"
    "map_option (restr (mark_base p)) (first_of L) = match_at U p f inp pos"
    using lower_paths [OF hyps(1-3) _ hyps(4), of pos] run(1,2) by auto
  have "L = []" using L(2) assms(11) by (cases L) (simp_all add: first_of_def)
  obtain K where K: "paths ?cx False 0 q (initial_slots (lower U p f) q) K"
    "map_option (restr (mark_base p)) (first_of K) = match_at U p f inp q"
    using lower_paths [OF hyps(1-3) _ hyps(4), of q] run(2) by auto
  have ag: "agree (set ?M) (initial_slots (lower U p f) pos) (initial_slots (lower U p f) q)"
    unfolding initial_slots_def by (rule agree_update_out) (simp_all add: agree_def free(2))
  have "K = []"
  proof (rule lead_fails [where cx = ?cx and M = ?M and pc = 0 and n = "length ?is + 1" and pos = pos and atom = atom and t = t])
    show "lead_find ?M (length ?is + 1) (p_insns (cx_program ?cx)) 0 = Some pc0" using find by (simp only: attempt_matcher_simps)
  qed (use ag t free(1) run L(1) K(1) \<open>L = []\<close> in simp_all)
  with K(2) show ?thesis by (simp add: first_of_def)
qed

end
