(* ===== verification/Rx_Spans.thy ===== *)
theory Rx_Spans
  imports Rx_Lower_Correct
begin

text \<open>
  What a match reports about its groups. A node leaves the slots of the groups it does not
  contain alone, so the bounds of the whole match survive; and the span of every group that
  took part is a range of the subject whose start is not behind its end. Both are facts about
  a relation between the state before and after a node; the locale derives the composed
  forms from reflexivity and transitivity.
\<close>

lemma distinct_concat_inner: "distinct (concat xss) \<Longrightarrow> xs \<in> set xss \<Longrightarrow> distinct xs"
  by (induction xss) auto

section \<open>Relations kept by a node\<close>

locale state_relation =
  fixes R :: "mstate \<Rightarrow> mstate \<Rightarrow> bool"
  assumes rel_refl: "R s s" and rel_trans: "R a b \<Longrightarrow> R b c \<Longrightarrow> R a c"
begin

definition within :: "sem \<Rightarrow> bool" where
  "within f \<longleftrightarrow> (\<forall>s. \<forall>s'\<in>set (f s). R s s')"

lemma withinI: "(\<And>s s'. s' \<in> set (f s) \<Longrightarrow> R s s') \<Longrightarrow> within f"
  unfolding within_def by blast

lemma withinD: "within f \<Longrightarrow> s' \<in> set (f s) \<Longrightarrow> R s s'"
  unfolding within_def by blast

lemma within_single: "within (\<lambda>s. [s])"
  by (rule withinI) (simp add: rel_refl)

lemma within_bind: "within f \<Longrightarrow> within g \<Longrightarrow> within (\<lambda>s. concat (map g (f s)))"
  by (rule withinI) (auto intro: rel_trans dest: withinD)

lemma within_seq: "\<forall>f\<in>set fs. within f \<Longrightarrow> within (s_seq fs)"
proof (induction fs)
  case (Cons f fs)
  then show ?case by (simp add: s_seq.simps [abs_def] within_bind)
qed (simp add: s_seq.simps [abs_def] within_single)

lemma within_alt: "\<forall>f\<in>set fs. within f \<Longrightarrow> within (s_alt fs)"
  by (rule withinI) (auto simp: s_alt_def dest: withinD)

lemma within_times: "within f \<Longrightarrow> within (s_times f k)"
  by (induction k) (simp_all add: s_times.simps [abs_def] within_bind within_single)

lemma within_opt: "within f \<Longrightarrow> within (s_opt f greedy k)"
proof (induction k)
  case (Suc k)
  then have *: "within (\<lambda>s. concat (map (s_opt f greedy k) (f s)))" by (simp add: within_bind)
  show ?case
  proof (rule withinI)
    fix s s' assume "s' \<in> set (s_opt f greedy (Suc k) s)"
    then have "s' = s \<or> s' \<in> set (concat (map (s_opt f greedy k) (f s)))"
      by (auto simp: Let_def split: if_splits)
    then show "R s s'" using withinD [OF *, of s' s] rel_refl [of s] by blast
  qed
qed (simp add: s_opt.simps [abs_def] within_single)

lemma within_repeat: "within (s_iteration gs f) \<Longrightarrow> within (s_repeat len gs f q)"
  unfolding s_repeat_def [abs_def] by (intro within_bind within_times within_opt)

end

section \<open>Slots of other groups\<close>

definition group_slots :: "nat \<Rightarrow> slots \<Rightarrow> nat option option \<times> nat option option" where
  "group_slots g caps = (get_at caps (2 * g), get_at caps (2 * g + 1))"

definition same_group :: "nat \<Rightarrow> mstate \<Rightarrow> mstate \<Rightarrow> bool" where
  "same_group g s s' \<longleftrightarrow> length (snd s') = length (snd s) \<and> group_slots g (snd s') = group_slots g (snd s)"

interpretation sg: state_relation "same_group g" for g
  by unfold_locales (auto simp: same_group_def)

lemma get_at_update: "get_at (xs[i := v]) j = (if i = j \<and> j < length xs then Some v else get_at xs j)"
  by (auto simp: get_at_def)

lemma group_slots_update: "i \<noteq> 2 * g \<Longrightarrow> i \<noteq> 2 * g + 1 \<Longrightarrow> group_slots g (c[i := v]) = group_slots g c"
  by (auto simp: group_slots_def get_at_update)

lemma group_slots_clear: "g \<notin> set gs \<Longrightarrow> group_slots g (s_clear gs c) = group_slots g c"
proof (induction gs arbitrary: c)
  case (Cons h gs)
  have "2 * h \<noteq> 2 * g + 1" "2 * h + 1 \<noteq> 2 * g" by presburger+
  with Cons show ?case by (simp add: group_slots_update)
qed simp

lemma char_same: "sg.within g (s_char env bw test)"
proof (rule sg.withinI)
  fix s s' assume "s' \<in> set (s_char env bw test s)"
  then show "same_group g s s'" by (rule s_charE) (simp add: same_group_def)
qed

lemma class_same: "sg.within g (s_class env bw cs negate ic)"
  by (auto simp: s_class_def s_string_def intro!: char_same sg.within_alt sg.within_seq)

lemma assert_same: "sg.within g (s_assert env a)"
  by (rule sg.withinI) (auto simp: s_assert_def Let_def sg.rel_refl split: if_splits)

lemma backref_same: "sg.within g (s_backref env bw gs ic)"
  by (rule sg.withinI) (auto simp: s_backref_def Let_def same_group_def split: option.splits if_splits)

lemma look_same: "sg.within g f \<Longrightarrow> sg.within g (s_look negate f)"
proof (rule sg.withinI)
  fix s s' assume f: "sg.within g f" and s': "s' \<in> set (s_look negate f s)"
  show "same_group g s s'"
  proof (cases "f s")
    case (Cons a as)
    then have "same_group g s a" using sg.withinD [OF f, of a s] by simp
    with s' Cons show ?thesis by (cases a) (auto simp: s_look_def same_group_def split: if_splits)
  qed (use s' in \<open>auto simp: s_look_def sg.rel_refl split: if_splits\<close>)
qed

lemma iteration_same: "sg.within g f \<Longrightarrow> g \<notin> set gs \<Longrightarrow> sg.within g (s_iteration gs f)"
  by (rule sg.withinI) (auto simp: s_iteration_def same_group_def group_slots_clear dest: sg.withinD)

lemma capture_same:
  assumes "sg.within g f" and "g \<noteq> h"
  shows "sg.within g (s_capture bw h f)"
proof (rule sg.withinI)
  fix s s' assume s': "s' \<in> set (s_capture bw h f s)"
  let ?a = "if bw then 2 * h + 1 else 2 * h" and ?b = "if bw then 2 * h else 2 * h + 1"
  from s' obtain m where m: "m \<in> set (f (fst s, (snd s)[?a := Some (fst s)]))"
    and eq: "s' = (fst m, (snd m)[?b := Some (fst m)])"
    by (auto simp: s_capture_def split: if_splits)
  have "?a \<noteq> 2 * g" "?a \<noteq> 2 * g + 1" "?b \<noteq> 2 * g" "?b \<noteq> 2 * g + 1"
    using assms(2) by (cases bw; simp; presburger)+
  with sg.withinD [OF assms(1) m] eq show "same_group g s s'"
    by (simp add: same_group_def group_slots_update)
qed

theorem outs_same: "g \<notin> set (capture_indices n) \<Longrightarrow> sg.within g (outs env n bw)"
proof (induction n arbitrary: bw)
  case (NConcat ns)
  then show ?case by (auto simp: Let_def intro!: sg.within_seq)
next
  case (NAlternate ns)
  then show ?case by (auto intro!: sg.within_alt)
next
  case (NRepeat n q)
  then show ?case by (auto intro!: sg.within_repeat iteration_same)
next
  case (NGroup kind n)
  then show ?case by (auto intro: capture_same look_same split: group_kind.split)
qed (simp_all add: char_same class_same assert_same backref_same sg.within_single)

section \<open>Spans are ranges\<close>

text \<open>A group keeps its slots, or ends with a span whose start is not behind its end, or loses it.\<close>

definition span_ok :: "nat \<Rightarrow> slots \<Rightarrow> bool" where
  "span_ok g caps = (case group_span caps g of Some (b, e) \<Rightarrow> b \<le> e | None \<Rightarrow> True)"

definition span_step :: "nat \<Rightarrow> mstate \<Rightarrow> mstate \<Rightarrow> bool" where
  "span_step g s s' \<longleftrightarrow> group_slots g (snd s') = group_slots g (snd s) \<or> span_ok g (snd s')"

lemma span_ok_cong: "group_slots g c = group_slots g c' \<Longrightarrow> span_ok g c = span_ok g c'"
  by (simp add: span_ok_def group_span_def group_slots_def)

interpretation ss: state_relation "span_step g" for g
  by unfold_locales (auto simp: span_step_def dest: span_ok_cong)

lemma same_span: "sg.within g f \<Longrightarrow> ss.within g f"
  by (rule ss.withinI) (auto simp: same_group_def span_step_def dest: sg.withinD)

lemma look_span: "ss.within g f \<Longrightarrow> ss.within g (s_look negate f)"
proof (rule ss.withinI)
  fix s s' assume f: "ss.within g f" and s': "s' \<in> set (s_look negate f s)"
  show "span_step g s s'"
  proof (cases "f s")
    case (Cons a as)
    then have "span_step g s a" using ss.withinD [OF f, of a s] by simp
    with s' Cons show ?thesis by (cases a) (auto simp: s_look_def span_step_def split: if_splits)
  qed (use s' in \<open>auto simp: s_look_def ss.rel_refl split: if_splits\<close>)
qed

lemma clear_span: "group_slots g (s_clear gs c) = group_slots g c \<or> span_ok g (s_clear gs c)"
proof (induction gs arbitrary: c)
  case (Cons h gs)
  show ?case
  proof (cases "h = g")
    case True
    have none: "span_ok g (c[2 * g := None, 2 * g + 1 := None])"
      by (auto simp: span_ok_def group_span_def get_at_update split: option.splits)
    with Cons [of "c[2 * g := None, 2 * g + 1 := None]"] True show ?thesis
      by (auto simp: span_ok_def group_span_def group_slots_def split: option.splits)
  next
    case False
    have "2 * h \<noteq> 2 * g + 1" "2 * h + 1 \<noteq> 2 * g" by presburger+
    with Cons [of "c[2 * h := None, 2 * h + 1 := None]"] False show ?thesis by (simp add: group_slots_update)
  qed
qed simp

lemma iteration_span: "ss.within g f \<Longrightarrow> ss.within g (s_iteration gs f)"
proof (rule ss.withinI)
  fix s s' assume f: "ss.within g f" and "s' \<in> set (s_iteration gs f s)"
  then have "span_step g (fst s, s_clear gs (snd s)) s'" by (simp add: s_iteration_def ss.withinD)
  moreover have "span_step g s (fst s, s_clear gs (snd s))" using clear_span by (simp add: span_step_def)
  ultimately show "span_step g s s'" by (blast intro: ss.rel_trans)
qed

section \<open>Direction\<close>

interpretation mv: state_relation "moves bw" for bw
  by unfold_locales (auto intro: moves_trans)

lemma char_moves:
  assumes "utf16 (units (s_input env))"
  shows "mv.within bw (s_char env bw test)"
proof (rule mv.withinI)
  fix s s' assume "s' \<in> set (s_char env bw test s)"
  then obtain cp w where "decode_dir (s_input env) (fst s) bw = Some (Some (cp, w))"
    "s' = (if bw then fst s - w else fst s + w, snd s)" by (rule s_charE)
  with decode_dir_bounds [OF _ assms] show "moves bw s s'" by (auto simp: moves_def)
qed

lemma class_moves: "utf16 (units (s_input env)) \<Longrightarrow> mv.within bw (s_class env bw cs negate ic)"
  by (auto simp: s_class_def s_string_def intro!: char_moves mv.within_alt mv.within_seq)

lemma assert_moves: "mv.within bw (s_assert env a)"
  by (rule mv.withinI) (auto simp: s_assert_def Let_def split: if_splits)

lemma backref_moves: "mv.within bw (s_backref env bw gs ic)"
  by (rule mv.withinI) (auto simp: s_backref_def Let_def moves_def split: option.splits if_splits)

lemma look_moves: "mv.within bw (s_look negate f)"
  by (rule mv.withinI) (auto simp: s_look_def moves_def split: list.splits if_splits)

lemma iteration_moves: "mv.within bw f \<Longrightarrow> mv.within bw (s_iteration gs f)"
  by (rule mv.withinI) (auto simp: s_iteration_def moves_def dest!: mv.withinD split: if_splits)

lemma capture_moves: "mv.within bw f \<Longrightarrow> mv.within bw (s_capture bw g f)"
  by (rule mv.withinI) (auto simp: s_capture_def moves_def dest!: mv.withinD split: if_splits)

lemma outs_moves:
  assumes "utf16 (units (s_input env))"
  shows "mv.within bw (outs env n bw)"
proof (induction n arbitrary: bw)
  case (NConcat ns)
  then show ?case by (auto simp: Let_def intro!: mv.within_seq)
next
  case (NAlternate ns)
  then show ?case by (auto intro!: mv.within_alt)
next
  case (NRepeat n q)
  then show ?case by (auto intro!: mv.within_repeat iteration_moves)
next
  case (NGroup kind n)
  then show ?case by (auto intro: capture_moves look_moves split: group_kind.split)
qed (simp_all add: assms char_moves class_moves assert_moves backref_moves mv.within_single)

section \<open>Spans of a node\<close>

text \<open>The group itself: its body cannot touch its slots, and moves in one direction.\<close>

lemma capture_span:
  assumes "sg.within g f" and "mv.within bw f"
  shows "ss.within g (s_capture bw g f)"
proof (rule ss.withinI)
  fix s s' assume s': "s' \<in> set (s_capture bw g f s)"
  let ?a = "if bw then 2 * g + 1 else 2 * g" and ?b = "if bw then 2 * g else 2 * g + 1"
  from s' obtain m where m: "m \<in> set (f (fst s, (snd s)[?a := Some (fst s)]))"
    and eq: "s' = (fst m, (snd m)[?b := Some (fst m)])"
    by (auto simp: s_capture_def split: if_splits)
  from sg.withinD [OF assms(1) m] have "group_slots g (snd m) = group_slots g ((snd s)[?a := Some (fst s)])"
    "length (snd m) = length (snd s)" by (auto simp: same_group_def)
  moreover have "moves bw (fst s, (snd s)[?a := Some (fst s)]) m" using mv.withinD [OF assms(2) m] .
  ultimately have "span_ok g (snd s')"
    by (cases bw) (auto simp: eq span_ok_def group_span_def group_slots_def get_at_update moves_def
        split: option.splits if_splits)
  then show "span_step g s s'" by (simp add: span_step_def)
qed

lemma capture_span_other:
  assumes "ss.within g f" and "g \<noteq> h"
  shows "ss.within g (s_capture bw h f)"
proof (rule ss.withinI)
  fix s s' assume s': "s' \<in> set (s_capture bw h f s)"
  let ?a = "if bw then 2 * h + 1 else 2 * h" and ?b = "if bw then 2 * h else 2 * h + 1"
  from s' obtain m where m: "m \<in> set (f (fst s, (snd s)[?a := Some (fst s)]))"
    and eq: "s' = (fst m, (snd m)[?b := Some (fst m)])"
    by (auto simp: s_capture_def split: if_splits)
  have ne: "?a \<noteq> 2 * g" "?a \<noteq> 2 * g + 1" "?b \<noteq> 2 * g" "?b \<noteq> 2 * g + 1"
    using assms(2) by (cases bw; simp; presburger)+
  with ss.withinD [OF assms(1) m] span_ok_cong [of g "(snd m)[?b := Some (fst m)]" "snd m"]
  show "span_step g s s'" by (simp add: eq span_step_def group_slots_update)
qed

theorem outs_span:
  assumes "utf16 (units (s_input env))"
  shows "distinct (capture_indices n) \<Longrightarrow> ss.within g (outs env n bw)"
proof (induction n arbitrary: bw)
  case (NConcat ns)
  then have "ss.within g (outs env n bw)" if "n \<in> set ns" for n
    using that distinct_concat_inner [of "map capture_indices ns" "capture_indices n"] by simp
  then show ?case by (auto simp: Let_def intro!: ss.within_seq)
next
  case (NAlternate ns)
  then have "ss.within g (outs env n bw)" if "n \<in> set ns" for n
    using that distinct_concat_inner [of "map capture_indices ns" "capture_indices n"] by simp
  then show ?case by (auto intro!: ss.within_alt)
next
  case (NRepeat n q)
  then show ?case by (auto intro!: ss.within_repeat iteration_span)
next
  case (NGroup kind n)
  then show ?case
    using outs_same [of g n env bw] outs_moves [OF assms, of bw n]
    by (cases kind; cases "\<exists>x. kind = Capturing g x") (auto intro: capture_span capture_span_other look_span)
qed (simp_all add: char_same class_same assert_same backref_same same_span ss.within_single)

section \<open>The match at an offset\<close>

lemma wf_capture_indices: "wf_node G n \<Longrightarrow> g \<in> set (capture_indices n) \<Longrightarrow> 1 \<le> g \<and> g \<le> G"
  by (induction n) (auto simp: list_all_iff split: group_kind.splits)

theorem match_at_spans:
  assumes "match_at U p f inp at = Some (e, caps)" and "lowerable p f" and "subject_ok f inp"
    and "distinct (capture_indices (root p))" and "at \<le> length (units inp)"
  shows "length caps = mark_base p" and "caps ! 0 = Some at" and "caps ! 1 = Some e" and "at \<le> e"
    and "e \<le> length (units inp)" and "ok_slots (length (units inp)) caps" and "span_ok g caps"
proof -
  let ?env = "pattern_env U f inp" and ?s = "start_state p at" and ?B = "mark_base p"
  have u: "utf16 (units (s_input ?env))" using assms(3) by (simp add: subject_ok_def pattern_env_def)
  have wf: "wf_node (group_count p) (root p)" using assms(2) by (simp add: lowerable_def)
  have B: "2 \<le> ?B" by (simp add: mark_base_def)
  obtain m where m: "m \<in> set (outs ?env (root p) False ?s)" "close_match m = (e, caps)"
    using assms(1) unfolding match_at_def
    by (cases "outs ?env (root p) False ?s") (auto simp: first_of_def)
  have start: "ok_state (length (units inp)) ?B ?s"
    using assms(5) B by (auto simp: ok_state_def start_state_def ok_slots_def
        dest!: set_update_subset_insert [THEN subsetD] split: if_splits)
  have ok: "ok_state (length (units inp)) ?B m" "moves False ?s m"
    using goodD [OF good_outs [OF u] _ m(1), of ?B] start by (simp_all add: pattern_env_def)
  have "0 \<notin> set (capture_indices (root p))" using wf_capture_indices [OF wf] by fastforce
  then have "same_group 0 ?s m" using sg.withinD [OF outs_same m(1)] by blast
  then have zero: "snd m ! 0 = Some at" using B ok(1)
    by (auto simp: same_group_def group_slots_def start_state_def ok_state_def get_at_def split: if_splits)
  have ec: "e = fst m" "caps = (snd m)[1 := Some (fst m)]" using m(2) by (auto simp: close_match_def)
  show "length caps = ?B" "caps ! 0 = Some at" "caps ! 1 = Some e" "at \<le> e" "e \<le> length (units inp)"
    "ok_slots (length (units inp)) caps"
    using ok zero B by (auto simp: ec ok_state_def moves_def start_state_def intro!: ok_slots_update)
  have "span_step g ?s m" using ss.withinD [OF outs_span [OF u assms(4)] m(1)] .
  moreover have "span_ok g (snd ?s)"
    using B by (auto simp: span_ok_def group_span_def start_state_def get_at_def nth_list_update split: option.splits)
  ultimately have "span_ok g (snd m)" using span_ok_cong unfolding span_step_def by blast
  then show "span_ok g caps"
  proof (cases "g = 0")
    case True
    with zero ok B \<open>at \<le> e\<close> show ?thesis
      by (simp add: ec span_ok_def group_span_def get_at_def ok_state_def)
  next
    case False
    then show ?thesis
      using \<open>span_ok g (snd m)\<close> span_ok_cong [of g caps "snd m"] by (simp add: ec group_slots_update)
  qed
qed

end
