(* ===== verification/Rx_Api.thy ===== *)
theory Rx_Api
  imports Rx_Lead Rx_Spans
begin

text \<open>
  The public interface of \<open>api.rs\<close>: \<open>Matches::next\<close> with its prefilter scans and its
  handling of failed attempts, \<open>build_match\<close>, and the access to groups by index and by name.
  A panic is a value of the result type, and a search that would run forever is \<open>None\<close>.
  The lemmas show that the iterator finds the leftmost offset at which the pattern matches.
\<close>

section \<open>Scanning\<close>

definition decode_at :: "code_unit list \<Rightarrow> nat \<Rightarrow> bool \<Rightarrow> (code_point \<times> nat) checked" where
  "decode_at us pos uni =
    (case get_at us pos of
       None \<Rightarrow> None
     | Some hi \<Rightarrow>
        (if uni \<and> is_high_surrogate hi then
           (case get_at us (pos + 1) of
              Some lo \<Rightarrow> (if is_low_surrogate lo then Some (combine_surrogates hi lo, 2) else Some (hi, 1))
            | None \<Rightarrow> Some (hi, 1))
         else Some (hi, 1)))"

definition advance_scan :: "code_unit list \<Rightarrow> nat \<Rightarrow> bool \<Rightarrow> nat" where
  "advance_scan us pos uni =
    (case (get_at us pos, get_at us (pos + 1)) of
       (Some hi, Some lo) \<Rightarrow> (if uni \<and> is_high_surrogate hi \<and> is_low_surrogate lo then pos + 2 else pos + 1)
     | _ \<Rightarrow> pos + 1)"

lemma advance_scan_gt: "pos < advance_scan us pos uni"
  by (simp add: advance_scan_def split: option.split)

text \<open>The two scan loops: over code points in Unicode mode, over units otherwise. Both stop at
  the first position whose code point satisfies the test.\<close>

function scan_code_points :: "(code_point \<Rightarrow> bool) \<Rightarrow> code_unit list \<Rightarrow> nat \<Rightarrow> nat checked" where
  "scan_code_points stop us pos =
    (if pos < length us then
       (case decode_at us pos True of
          None \<Rightarrow> None
        | Some (cp, _) \<Rightarrow>
           (if stop cp then Some pos else scan_code_points stop us (advance_scan us pos True)))
     else Some pos)"
  by pat_completeness auto
termination
  by (relation "measure (\<lambda>(stop, us, pos). length us - pos)")
    (auto simp: diff_less_mono2 advance_scan_gt)

function scan_units :: "(code_unit \<Rightarrow> bool) \<Rightarrow> code_unit list \<Rightarrow> nat \<Rightarrow> nat" where
  "scan_units stop us pos =
    (if pos < length us \<and> \<not> stop (us ! pos) then scan_units stop us (pos + 1) else pos)"
  by pat_completeness auto
termination
  by (relation "measure (\<lambda>(stop, us, pos). length us - pos)") auto

declare scan_code_points.simps [simp del] scan_units.simps [simp del]

text \<open>The single-literal fast path: an equality scan, past the end when there is no occurrence.\<close>

definition scan_single :: "code_unit \<Rightarrow> code_unit list \<Rightarrow> nat \<Rightarrow> nat" where
  "scan_single unit us pos =
    (if pos \<le> length us \<and> unit \<in> set (drop pos us)
     then pos + length (takeWhile (\<lambda>u. u \<noteq> unit) (drop pos us))
     else length us + 1)"

definition scan_cps :: "bool \<Rightarrow> (code_point \<Rightarrow> bool) \<Rightarrow> code_unit list \<Rightarrow> nat \<Rightarrow> nat checked" where
  "scan_cps uni stop us pos =
    (if uni then scan_code_points stop us pos else Some (scan_units stop us pos))"

definition prefilter_skip :: "(code_point \<Rightarrow> code_point) \<Rightarrow> program \<Rightarrow> code_unit list \<Rightarrow> nat \<Rightarrow> nat checked" where
  "prefilter_skip simple_fold prog us pos =
    (case p_prefilter prog of
       None \<Rightarrow> Some pos
     | Some pf \<Rightarrow>
        (case pf_single pf of
           Some unit \<Rightarrow> Some (scan_single unit us pos)
         | None \<Rightarrow> scan_cps (p_unicode prog) (cp_may_start simple_fold pf) us pos))"

text \<open>The offset to try after a failed attempt.\<close>

definition after_failure :: "(code_point \<Rightarrow> code_point) \<Rightarrow> program \<Rightarrow> code_unit list \<Rightarrow> nat \<Rightarrow> nat checked" where
  "after_failure simple_fold prog us pos =
    (let e = advance_scan us pos (p_unicode prog) in
     case (p_lead_possessive_run prog, p_prefilter prog) of
       (True, Some pf) \<Rightarrow> scan_cps (p_unicode prog) (\<lambda>cp. \<not> cp_may_start simple_fold pf cp) us e
     | _ \<Rightarrow> Some e)"

lemma scan_code_points_ge: "scan_code_points stop us pos = Some e \<Longrightarrow> pos \<le> e"
proof (induction stop us pos rule: scan_code_points.induct)
  case (1 stop us pos)
  then show ?case
    using advance_scan_gt [of pos us True]
    by (subst (asm) (2) scan_code_points.simps) (fastforce split: if_splits option.splits)
qed

lemma scan_units_ge: "pos \<le> scan_units stop us pos"
proof (induction stop us pos rule: scan_units.induct)
  case (1 stop us pos)
  then show ?case by (subst scan_units.simps) auto
qed

lemma scan_cps_ge: "scan_cps uni stop us pos = Some e \<Longrightarrow> pos \<le> e"
  using scan_code_points_ge scan_units_ge by (auto simp: scan_cps_def split: if_splits)

lemma prefilter_skip_ge: "prefilter_skip sf prog us pos = Some e \<Longrightarrow> pos \<le> e \<or> length us < e"
  using scan_cps_ge by (auto simp: prefilter_skip_def scan_single_def split: option.splits if_splits)

lemma after_failure_gt: "after_failure sf prog us pos = Some e \<Longrightarrow> pos < e"
  using scan_cps_ge advance_scan_gt [of pos us "p_unicode prog"]
  by (fastforce simp: after_failure_def Let_def split: bool.splits option.splits)

section \<open>Matches\<close>

record mat =
  m_range :: "nat \<times> nat"
  m_captures :: "(nat \<times> nat) option list"
  m_group_names :: "code_point list list"

definition build_match :: "program \<Rightarrow> slots \<Rightarrow> mat checked" where
  "build_match prog caps =
    (case (get_at caps 0, get_at caps 1) of
       (Some s, Some e) \<Rightarrow>
         Some \<lparr>m_range = (case s of Some s \<Rightarrow> s | None \<Rightarrow> 0, case e of Some e \<Rightarrow> e | None \<Rightarrow> 0),
               m_captures = map (group_span caps) [1..<Suc (p_group_count prog)],
               m_group_names = p_names prog\<rparr>
     | _ \<Rightarrow> None)"

record regex =
  rx_program :: program
  rx_flags :: flags

record matches =
  ms_regex :: regex
  ms_text :: "code_unit list"
  ms_next_start :: nat
  ms_config :: exec_config
  ms_done :: bool

definition find_utf16 :: "regex \<Rightarrow> code_unit list \<Rightarrow> nat \<Rightarrow> exec_config \<Rightarrow> matches" where
  "find_utf16 rx us start config =
    \<lparr>ms_regex = rx, ms_text = us, ms_next_start = start, ms_config = config, ms_done = False\<rparr>"

datatype item = NoMatch | Found mat | Failed exec_error | Panic

text \<open>The search loop of \<open>Matches::next\<close>, from an offset; the value is the item and the state
  after it.\<close>

function search_loop :: "(code_point \<Rightarrow> code_point) \<Rightarrow> matches \<Rightarrow> nat \<Rightarrow> (item \<times> matches) option" where
  "search_loop simple_fold ms pos =
    (let prog = rx_program (ms_regex ms); us = ms_text ms;
         inp = \<lparr>units = us, code_point_mode = p_unicode prog\<rparr> in
     case prefilter_skip simple_fold prog us pos of
       None \<Rightarrow> Some (Panic, ms)
     | Some at \<Rightarrow>
        (if at > length us then Some (NoMatch, ms\<lparr>ms_done := True\<rparr>)
         else case attempt simple_fold prog inp at (ms_config ms) of
           None \<Rightarrow> None
         | Some RunPanic \<Rightarrow> Some (Panic, ms)
         | Some (RunErr e) \<Rightarrow> Some (Failed e, ms\<lparr>ms_done := True\<rparr>)
         | Some (RunOk (Some (_, caps))) \<Rightarrow>
            (case build_match prog caps of
               None \<Rightarrow> Some (Panic, ms)
             | Some mt \<Rightarrow>
                (let e = snd (m_range mt) in
                 Some (Found mt, ms\<lparr>ms_next_start := (if e > at then e else advance_scan us at (p_unicode prog))\<rparr>)))
         | Some (RunOk None) \<Rightarrow>
            (case after_failure simple_fold prog us at of
               None \<Rightarrow> Some (Panic, ms)
             | Some pos' \<Rightarrow> search_loop simple_fold ms pos')))"
  by pat_completeness auto
termination
proof (relation "measure (\<lambda>(sf, ms, pos). Suc (length (ms_text ms)) - pos)", goal_cases)
  case (2 sf ms pos prog us inp at r found pos')
  then show ?case
    using prefilter_skip_ge after_failure_gt by fastforce
qed simp

declare search_loop.simps [simp del]

definition matches_next :: "(code_point \<Rightarrow> code_point) \<Rightarrow> matches \<Rightarrow> (item \<times> matches) option" where
  "matches_next simple_fold ms =
    (if ms_done ms then Some (NoMatch, ms) else search_loop simple_fold ms (ms_next_start ms))"

section \<open>Groups\<close>

definition group :: "mat \<Rightarrow> nat \<Rightarrow> (nat \<times> nat) option" where
  "group m index =
    (if index = 0 then Some (m_range m)
     else case get_at (m_captures m) (index - 1) of Some c \<Rightarrow> c | None \<Rightarrow> None)"

fun named_loop :: "mat \<Rightarrow> code_point list \<Rightarrow> (nat \<times> code_point list) list \<Rightarrow> (nat \<times> nat) option \<Rightarrow> (nat \<times> nat) option" where
  "named_loop m name [] best = best"
| "named_loop m name ((idx, gname) # rest) best =
    (if gname = name then
       (let cap = (case get_at (m_captures m) idx of Some c \<Rightarrow> c | None \<Rightarrow> None) in
        if cap \<noteq> None then cap
        else named_loop m name rest (if best = None then cap else best))
     else named_loop m name rest best)"

definition named_group :: "mat \<Rightarrow> code_point list \<Rightarrow> (nat \<times> nat) option" where
  "named_group m name =
    (if name = [] then None else named_loop m name (enumerate 0 (m_group_names m)) None)"

record named_groups_iter =
  ng_mat :: mat
  ng_next :: nat

definition named_groups :: "mat \<Rightarrow> named_groups_iter" where
  "named_groups m = \<lparr>ng_mat = m, ng_next = 0\<rparr>"

text \<open>\<open>NamedGroups::next\<close>: skip unnamed groups and names seen before.\<close>

function named_groups_next ::
  "named_groups_iter \<Rightarrow> (code_point list \<times> (nat \<times> nat) option) option \<times> named_groups_iter" where
  "named_groups_next it =
    (let names = m_group_names (ng_mat it); idx = ng_next it in
     if idx < length names then
       (let it' = it\<lparr>ng_next := idx + 1\<rparr>; name = names ! idx in
        if name = [] \<or> name \<in> set (take idx names) then named_groups_next it'
        else (Some (name, named_group (ng_mat it) name), it'))
     else (None, it))"
  by pat_completeness auto
termination
  by (relation "measure (\<lambda>it. length (m_group_names (ng_mat it)) - ng_next it)") auto

declare named_groups_next.simps [simp del]

section \<open>The positions a scan visits\<close>

text \<open>The offsets a search tries, without any skipping.\<close>

function scan_positions :: "code_unit list \<Rightarrow> bool \<Rightarrow> nat \<Rightarrow> nat list" where
  "scan_positions us uni pos =
    (if pos \<le> length us then pos # scan_positions us uni (advance_scan us pos uni) else [])"
  by pat_completeness auto
termination
  by (relation "measure (\<lambda>(us, uni, pos). Suc (length us) - pos)")
    (auto simp: diff_less_mono2 advance_scan_gt less_Suc_eq_le)

declare scan_positions.simps [simp del]

lemma find_positions:
  "find P (scan_positions us uni pos) =
    (if length us < pos then None else if P pos then Some pos else find P (scan_positions us uni (advance_scan us pos uni)))"
  by (subst scan_positions.simps) auto

lemma decode_at_decode:
  "uni = code_point_mode inp \<Longrightarrow> decode_at (units inp) pos uni = decode inp pos"
  by (simp add: decode_at_def decode_def split: option.split)

text \<open>A scan that stops at the first admitted code point passes over no position with a match.\<close>

lemma find_scan_code_points:
  assumes "\<And>q. q < length us \<Longrightarrow> P q \<Longrightarrow> \<exists>cp w. decode_at us q True = Some (cp, w) \<and> stop cp"
  shows "\<exists>e. scan_code_points stop us pos = Some e \<and> find P (scan_positions us True pos) = find P (scan_positions us True e)"
  using assms
proof (induction stop us pos rule: scan_code_points.induct)
  case (1 stop us pos)
  show ?case
  proof (cases "pos < length us")
    case True
    then obtain cp w where d: "decode_at us pos True = Some (cp, w)"
      by (cases "decode_at us pos True") (auto simp: decode_at_def split: option.splits if_splits)
    show ?thesis
    proof (cases "stop cp")
      case False
      with d "1.prems" [of pos] True have "\<not> P pos" by auto
      then have "find P (scan_positions us True pos) = find P (scan_positions us True (advance_scan us pos True))"
        using True by (subst find_positions) simp
      with "1.IH" [OF True d refl False "1.prems"] d False True show ?thesis
        by (subst scan_code_points.simps) simp
    qed (subst scan_code_points.simps, simp add: True d)
  qed (subst scan_code_points.simps, simp)
qed

lemma advance_scan_units: "advance_scan us pos False = pos + 1"
  by (simp add: advance_scan_def split: option.split)

lemma find_scan_units:
  assumes "\<And>q. q < length us \<Longrightarrow> P q \<Longrightarrow> stop (us ! q)"
  shows "find P (scan_positions us False pos) = find P (scan_positions us False (scan_units stop us pos))"
  using assms
proof (induction stop us pos rule: scan_units.induct)
  case (1 stop us pos)
  show ?case
  proof (cases "pos < length us \<and> \<not> stop (us ! pos)")
    case True
    with 1 have "find P (scan_positions us False pos) = find P (scan_positions us False (pos + 1))"
      by (subst find_positions) (auto simp: advance_scan_units)
    with 1 True show ?thesis by (subst scan_units.simps) simp
  next
    case False
    then have "scan_units stop us pos = pos" by (subst scan_units.simps) auto
    then show ?thesis by simp
  qed
qed

lemma find_scan_cps:
  assumes "\<And>q. q < length us \<Longrightarrow> P q \<Longrightarrow> \<exists>cp w. decode_at us q uni = Some (cp, w) \<and> stop cp"
  shows "\<exists>e. scan_cps uni stop us pos = Some e \<and> find P (scan_positions us uni pos) = find P (scan_positions us uni e)"
proof (cases uni)
  case True
  with find_scan_code_points [of us P stop pos] assms show ?thesis by (simp add: scan_cps_def)
next
  case False
  have "stop (us ! q)" if "q < length us" "P q" for q
    using assms [OF that] False that(1) by (auto simp: decode_at_def get_at_def split: if_splits)
  with find_scan_units [of us P stop pos] False show ?thesis by (simp add: scan_cps_def)
qed

text \<open>The equality scan never jumps into the middle of a surrogate pair, because its unit is no
  surrogate.\<close>

lemma find_skip_units:
  assumes "\<And>q. q \<le> length us \<Longrightarrow> P q \<Longrightarrow> q < length us \<and> us ! q = unit" and "\<not> is_low_surrogate unit"
    and "pos + n \<le> length us" and "\<And>k. k < n \<Longrightarrow> us ! (pos + k) \<noteq> unit"
    and "pos + n = length us \<or> us ! (pos + n) = unit"
  shows "find P (scan_positions us uni pos) = find P (scan_positions us uni (pos + n))"
  using assms(3-5)
proof (induction n arbitrary: pos rule: less_induct)
  case (less n)
  show ?case
  proof (cases n)
    case (Suc m)
    let ?e = "advance_scan us pos uni"
    have "\<not> P pos" using assms(1) [of pos] less.prems(1) less.prems(2) [of 0] Suc by auto
    then have step: "find P (scan_positions us uni pos) = find P (scan_positions us uni ?e)"
      using less.prems(1) Suc by (subst find_positions) simp
    have "?e = pos + 1 \<or> ?e = pos + 2 \<and> 2 \<le> n"
    proof (rule ccontr)
      assume "\<not> ?thesis"
      then have e: "?e = pos + 2" "n = 1" "pos + 1 < length us" "is_low_surrogate (us ! (pos + 1))"
        using Suc by (auto simp: advance_scan_def split: option.splits if_splits)
      with less.prems(3) assms(2) show False by auto
    qed
    then obtain d where d: "?e = pos + d" "1 \<le> d" "d \<le> n" using Suc by auto
    have "find P (scan_positions us uni ?e) = find P (scan_positions us uni (?e + (n - d)))"
    proof (rule less.IH)
      show "us ! (?e + k) \<noteq> unit" if "k < n - d" for k
        using less.prems(2) [of "d + k"] that d by (simp add: add.assoc)
    qed (use less.prems d in \<open>auto simp: add.assoc\<close>)
    with step d show ?thesis by simp
  qed simp
qed

lemma find_scan_single:
  assumes "\<And>q. q \<le> length us \<Longrightarrow> P q \<Longrightarrow> q < length us \<and> us ! q = unit" and "\<not> is_low_surrogate unit"
  shows "find P (scan_positions us uni pos) = find P (scan_positions us uni (scan_single unit us pos))"
proof (cases "pos \<le> length us")
  case True
  define n where "n = length (takeWhile (\<lambda>u. u \<noteq> unit) (drop pos us))"
  have le: "pos + n \<le> length us"
    using True length_takeWhile_le [of "\<lambda>u. u \<noteq> unit" "drop pos us"] by (simp add: n_def)
  have ne: "us ! (pos + k) \<noteq> unit" if "k < n" for k
    using that nth_mem [of k "takeWhile (\<lambda>u. u \<noteq> unit) (drop pos us)"] takeWhile_nth [of k "\<lambda>u. u \<noteq> unit" "drop pos us"] le
    by (auto simp: n_def dest: set_takeWhileD)
  have at: "us ! (pos + n) = unit" if "pos + n < length us"
    using that nth_length_takeWhile [of "\<lambda>u. u \<noteq> unit" "drop pos us"] by (simp add: n_def)
  note skip = find_skip_units [OF assms le ne]
  have eq: "find P (scan_positions us uni pos) = find P (scan_positions us uni (pos + n))"
    using at le by (intro skip) (auto simp: le_less)
  show ?thesis
  proof (cases "unit \<in> set (drop pos us)")
    case True
    then show ?thesis using eq \<open>pos \<le> length us\<close> by (simp add: scan_single_def n_def)
  next
    case False
    then have "takeWhile (\<lambda>u. u \<noteq> unit) (drop pos us) = drop pos us" by (auto simp: takeWhile_eq_all_conv)
    then have "pos + n = length us" using \<open>pos \<le> length us\<close> unfolding n_def by (metis length_drop le_add_diff_inverse)
    moreover have "\<not> P (length us)" using assms(1) by blast
    then have "find P (scan_positions us uni (length us)) = None"
      using advance_scan_gt [of "length us" us uni] by (simp add: find_positions)
    ultimately show ?thesis
      using eq False by (simp add: scan_single_def find_positions [of P us uni "Suc (length us)"])
  qed
qed (simp add: scan_single_def find_positions)

section \<open>The search finds the leftmost match\<close>

definition subject :: "flags \<Rightarrow> code_unit list \<Rightarrow> input" where
  "subject f us = \<lparr>units = us, code_point_mode = is_unicode_mode f\<rparr>"

text \<open>The conditions under which the compiled program is faithful to the pattern.\<close>

definition compiled_ok :: "icu \<Rightarrow> parsed \<Rightarrow> flags \<Rightarrow> bool" where
  "compiled_ok U p f \<longleftrightarrow> icu_laws U \<and> lowerable p f \<and> direction_safe U p f \<and> lead_safe U p f
    \<and> distinct (capture_indices (root p))"

definition matches_at :: "icu \<Rightarrow> parsed \<Rightarrow> flags \<Rightarrow> code_unit list \<Rightarrow> nat \<Rightarrow> bool" where
  "matches_at U p f us at \<longleftrightarrow> match_at U p f (subject f us) at \<noteq> None"

definition leftmost :: "icu \<Rightarrow> parsed \<Rightarrow> flags \<Rightarrow> code_unit list \<Rightarrow> nat \<Rightarrow> nat option" where
  "leftmost U p f us start = find (matches_at U p f us) (scan_positions us (is_unicode_mode f) start)"

lemma subject_simps [simp]: "units (subject f us) = us" "code_point_mode (subject f us) = is_unicode_mode f"
  by (simp_all add: subject_def)

lemma compiled_okD:
  assumes "compiled_ok U p f" and "utf16 us"
  shows "icu_laws U" "lowerable p f" "subject_ok f (subject f us)" "direction_safe U p f" "lead_safe U p f"
    "distinct (capture_indices (root p))"
  using assms by (simp_all add: compiled_ok_def subject_ok_def)

lemma matches_admitted:
  assumes "compiled_ok U p f" and "utf16 us" and "p_prefilter (lower U p f) = Some pf" and "q \<le> length us" and "matches_at U p f us q"
  shows "\<exists>cp w. decode_at us q (is_unicode_mode f) = Some (cp, w) \<and> cp_may_start (icu_simple_fold U) pf cp"
  using prefilter_sound [OF compiled_okD(1-3) [OF assms(1,2)] _ assms(3)] assms(4,5)
    decode_at_decode [of "is_unicode_mode f" "subject f us" q]
  by (simp add: matches_at_def)

lemma decode_at_less: "decode_at us q uni = Some (cp, w) \<Longrightarrow> q < length us"
  by (auto simp: decode_at_def get_at_def split: option.splits if_splits)

lemma scan_code_points_stop:
  "scan_code_points stop us pos = Some e \<Longrightarrow> e < length us \<Longrightarrow> \<exists>cp w. decode_at us e True = Some (cp, w) \<and> stop cp"
proof (induction stop us pos rule: scan_code_points.induct)
  case (1 stop us pos)
  from "1.prems"(1) show ?case
    by (subst (asm) scan_code_points.simps) (use 1 in \<open>auto split: if_splits option.splits\<close>)
qed

lemma scan_units_stop: "scan_units stop us pos < length us \<Longrightarrow> stop (us ! scan_units stop us pos)"
proof (induction stop us pos rule: scan_units.induct)
  case (1 stop us pos)
  show ?case
  proof (cases "pos < length us \<and> \<not> stop (us ! pos)")
    case True
    with 1 scan_units.simps [of stop us pos] show ?thesis by simp
  next
    case False
    with 1 scan_units.simps [of stop us pos] show ?thesis by auto
  qed
qed

lemma scan_cps_stop:
  assumes "scan_cps uni stop us pos = Some e" and "e < length us"
  shows "\<exists>cp w. decode_at us e uni = Some (cp, w) \<and> stop cp"
  using assms scan_code_points_stop [of stop us pos e] scan_units_stop [of stop us pos]
  by (auto simp: scan_cps_def decode_at_def get_at_def split: if_splits)

lemma decode_at_unit:
  "decode_at us q uni = Some (unit, w) \<Longrightarrow> unit < 0x10000 \<Longrightarrow> us ! q = unit"
  by (auto simp: decode_at_def combine_surrogates_def split: option.splits if_splits)

lemma scan_single_unit: "scan_single unit us pos < length us \<Longrightarrow> us ! scan_single unit us pos = unit"
  using nth_length_takeWhile [of "\<lambda>u. u \<noteq> unit" "drop pos us"]
  by (auto simp: scan_single_def split: if_splits)

text \<open>The prefilter scan loses no match and stops at an admitted code point.\<close>

lemma prefilter_skip_find:
  assumes ok: "compiled_ok U p f" "utf16 us"
  shows "\<exists>e. prefilter_skip (icu_simple_fold U) (lower U p f) us pos = Some e
    \<and> leftmost U p f us pos = leftmost U p f us e
    \<and> (\<forall>pf. p_prefilter (lower U p f) = Some pf \<longrightarrow> e < length us \<longrightarrow>
        (\<exists>cp w. decode_at us e (is_unicode_mode f) = Some (cp, w) \<and> cp_may_start (icu_simple_fold U) pf cp))"
proof (cases "p_prefilter (lower U p f)")
  case None
  then show ?thesis by (simp add: prefilter_skip_def)
next
  case (Some pf)
  note adm = matches_admitted [OF ok Some]
  show ?thesis
  proof (cases "pf_single pf")
    case None
    then have eq: "prefilter_skip (icu_simple_fold U) (lower U p f) us pos
        = scan_cps (is_unicode_mode f) (cp_may_start (icu_simple_fold U) pf) us pos"
      by (simp add: prefilter_skip_def Some lower_fields)
    obtain e where e: "scan_cps (is_unicode_mode f) (cp_may_start (icu_simple_fold U) pf) us pos = Some e"
      "leftmost U p f us pos = leftmost U p f us e"
      using find_scan_cps [of us "matches_at U p f us" "is_unicode_mode f" "cp_may_start (icu_simple_fold U) pf" pos] adm
      by (auto simp: leftmost_def)
    with eq Some scan_cps_stop [OF e(1)] show ?thesis by auto
  next
    case (Some unit)
    obtain s c where pf: "pf = prefilter_build s c" "cps_inv s"
      using prefilter_shape [OF compiled_okD(1,2) [OF ok] \<open>p_prefilter (lower U p f) = Some pf\<close>] by blast
    note single = prefilter_single_correct [OF Some [unfolded pf(1)]]
    have may: "cp_may_start (icu_simple_fold U) pf cp \<longleftrightarrow> cp = unit" for cp
      using single(1,2) pf by (simp add: cp_may_start_correct prefilter_fold_def)
    let ?e = "scan_single unit us pos"
    have at: "q < length us \<and> us ! q = unit" if q: "q \<le> length us" "matches_at U p f us q" for q
    proof -
      from adm [OF q] may obtain w where "decode_at us q (is_unicode_mode f) = Some (unit, w)" by auto
      with decode_at_unit decode_at_less single(3) show ?thesis by blast
    qed
    have "leftmost U p f us pos = leftmost U p f us ?e"
      using find_scan_single [of us "matches_at U p f us" unit] at single(5) by (simp add: leftmost_def)
    moreover have "decode_at us ?e (is_unicode_mode f) = Some (unit, 1)" if "?e < length us"
      using that scan_single_unit [of unit us pos] single(4) by (simp add: decode_at_def get_at_def)
    ultimately show ?thesis
      using Some \<open>p_prefilter (lower U p f) = Some pf\<close> may by (auto simp: prefilter_skip_def)
  qed
qed

text \<open>After a failed attempt: one step, or over a leading run.\<close>

lemma find_run:
  assumes "\<And>q. pos \<le> q \<Longrightarrow> q < length us \<Longrightarrow> (\<And>k. pos \<le> k \<Longrightarrow> k \<le> q \<Longrightarrow> \<not> stop (us ! k)) \<Longrightarrow> \<not> P q"
  shows "find P (scan_positions us False pos) = find P (scan_positions us False (scan_units stop us pos))"
  using assms
proof (induction stop us pos rule: scan_units.induct)
  case (1 stop us pos)
  show ?case
  proof (cases "pos < length us \<and> \<not> stop (us ! pos)")
    case True
    then have "\<not> P pos" using "1.prems" [of pos] by (metis le_antisym order_refl)
    with True have "find P (scan_positions us False pos) = find P (scan_positions us False (pos + 1))"
      by (subst find_positions) (auto simp: advance_scan_units)
    moreover have "\<not> P q" if "pos + 1 \<le> q" "q < length us" "\<And>k. pos + 1 \<le> k \<Longrightarrow> k \<le> q \<Longrightarrow> \<not> stop (us ! k)" for q
    proof (rule "1.prems")
      fix k assume "pos \<le> k" "k \<le> q"
      with True that(3) show "\<not> stop (us ! k)" by (cases "k = pos") auto
    qed (use that in auto)
    ultimately show ?thesis using "1.IH" [OF True] True by (subst scan_units.simps) simp
  next
    case False
    then have "scan_units stop us pos = pos" by (subst scan_units.simps) auto
    then show ?thesis by simp
  qed
qed

lemma after_failure_find:
  assumes ok: "compiled_ok U p f" "utf16 us" and "pos \<le> length us" and fail: "\<not> matches_at U p f us pos"
    and adm: "\<And>pf. p_prefilter (lower U p f) = Some pf \<Longrightarrow> pos < length us \<Longrightarrow>
      \<exists>cp w. decode_at us pos (is_unicode_mode f) = Some (cp, w) \<and> cp_may_start (icu_simple_fold U) pf cp"
  shows "\<exists>e. after_failure (icu_simple_fold U) (lower U p f) us pos = Some e \<and> leftmost U p f us pos = leftmost U p f us e"
proof -
  let ?e = "advance_scan us pos (is_unicode_mode f)"
  have one: "leftmost U p f us pos = leftmost U p f us ?e"
    using assms(3) fail unfolding leftmost_def by (subst find_positions) simp
  show ?thesis
  proof (cases "p_lead_possessive_run (lower U p f) \<and> p_prefilter (lower U p f) \<noteq> None")
    case False
    then show ?thesis using one by (auto simp: after_failure_def lower_fields Let_def split: option.splits bool.splits)
  next
    case True
    then obtain pf where pf: "p_prefilter (lower U p f) = Some pf" by auto
    note okD = compiled_okD [OF ok]
    have lead: "lead_independent (p_insns (lower U p f))"
      "ignore_case f \<longrightarrow> lead_caseless (p_classes (lower U p f)) (p_insns (lower U p f))"
      using okD(5) True by (simp_all add: lead_safe_def)
    have uni: "\<not> is_unicode_mode f" by (rule lead_not_unicode [OF okD(2) lead(1)])
    have af: "after_failure (icu_simple_fold U) (lower U p f) us pos
        = Some (scan_units (\<lambda>cp. \<not> cp_may_start (icu_simple_fold U) pf cp) us (pos + 1))"
      using True pf uni by (simp add: after_failure_def lower_fields scan_cps_def advance_scan_units)
    have none: "\<not> matches_at U p f us q" if "pos + 1 \<le> q" "q < length us"
      "\<And>k. pos + 1 \<le> k \<Longrightarrow> k \<le> q \<Longrightarrow> \<not> \<not> cp_may_start (icu_simple_fold U) pf (us ! k)" for q
    proof -
      have "cp_may_start (icu_simple_fold U) pf (us ! k)" if "pos \<le> k" "k \<le> q" for k
      proof (cases "k = pos")
        case True
        then show ?thesis using adm [OF pf] \<open>pos + 1 \<le> q\<close> \<open>q < length us\<close> uni by (auto simp: decode_at_def get_at_def)
      qed (use that \<open>\<And>k. pos + 1 \<le> k \<Longrightarrow> k \<le> q \<Longrightarrow> _ k\<close> in auto)
      moreover have "match_at U p f (subject f us) pos = None" using fail unfolding matches_at_def by blast
      ultimately have "match_at U p f (subject f us) q = None"
        using lead_run_sound [OF okD(1-4) lead pf, of pos q] that(1,2) by simp
      then show ?thesis by (simp add: matches_at_def)
    qed
    have "leftmost U p f us (pos + 1) = leftmost U p f us (scan_units (\<lambda>cp. \<not> cp_may_start (icu_simple_fold U) pf cp) us (pos + 1))"
      unfolding leftmost_def using uni by (simp only: simp_thms) (rule find_run, rule none)
    with one af uni show ?thesis by (simp add: advance_scan_units)
  qed
qed

section \<open>Matches::next\<close>

text \<open>The match reported for the outcome of an attempt.\<close>

definition match_of :: "parsed \<Rightarrow> mstate \<Rightarrow> mat" where
  "match_of p m =
    \<lparr>m_range = (the (snd m ! 0), fst m),
     m_captures = map (group_span (snd m)) [1..<Suc (group_count p)],
     m_group_names = map (\<lambda>n. case n of Some s \<Rightarrow> s | None \<Rightarrow> []) (group_names p)\<rparr>"

lemma match_of_range: "snd (m_range (match_of p m)) = fst m"
  by (simp add: match_of_def)

lemma lower_names: "p_names (lower U p f) = map (\<lambda>n. case n of Some s \<Rightarrow> s | None \<Rightarrow> []) (group_names p)"
  by (simp add: lower_def Let_def split: prod.split)

lemma get_at_take: "get_at (take n xs) i = (if i < n then get_at xs i else None)"
  by (auto simp: get_at_def)

lemma group_span_take: "2 * g + 1 < n \<Longrightarrow> group_span (take n caps) g = group_span caps g"
  by (simp add: group_span_def get_at_take)

lemma build_match_lower:
  assumes "restr (mark_base p) (e, caps) = m" and "length (snd m) = mark_base p" and "snd m ! 0 = Some at" and "snd m ! 1 = Some (fst m)"
  shows "build_match (lower U p f) caps = Some (match_of p m)"
proof -
  have m: "snd m = take (mark_base p) caps" "fst m = e" using assms(1) by (auto simp: restr_def)
  have B: "mark_base p = 2 * (group_count p + 1)" by (simp add: mark_base_def)
  have "2 \<le> length caps" using assms(2) B m(1) by (simp add: min_def split: if_splits)
  moreover have "caps ! 0 = Some at" "caps ! 1 = Some e" using assms(3,4) m B by (simp_all add: nth_take)
  moreover have "group_span caps g = group_span (snd m) g" if g: "g \<in> set [1..<Suc (group_count p)]" for g
  proof -
    have "2 * g + 1 < mark_base p" using g B by auto
    then show ?thesis using m(1) by (simp add: group_span_take)
  qed
  ultimately show ?thesis
    using m(2) assms(3) by (cases caps) (auto simp: build_match_def match_of_def get_at_def lower_fields lower_names)
qed

text \<open>The state a call of \<open>next\<close> leaves, and the item it returns, in terms of the leftmost match.\<close>

definition next_spec :: "icu \<Rightarrow> parsed \<Rightarrow> flags \<Rightarrow> matches \<Rightarrow> nat \<Rightarrow> item \<times> matches" where
  "next_spec U p f ms start =
    (case leftmost U p f (ms_text ms) start of
       None \<Rightarrow> (NoMatch, ms\<lparr>ms_done := True\<rparr>)
     | Some at \<Rightarrow>
        (let m = the (match_at U p f (subject f (ms_text ms)) at) in
         (Found (match_of p m),
          ms\<lparr>ms_next_start := (if fst m > at then fst m else advance_scan (ms_text ms) at (is_unicode_mode f))\<rparr>)))"

lemma next_spec_cong: "leftmost U p f (ms_text ms) a = leftmost U p f (ms_text ms) b \<Longrightarrow> next_spec U p f ms a = next_spec U p f ms b"
  by (simp add: next_spec_def)

lemma attempt_compiled:
  assumes ok: "compiled_ok U p f" "utf16 us" and at: "at \<le> length us"
  obtains r where "attempt (icu_simple_fold U) (lower U p f) (subject f us) at \<lparr>step_limit = None\<rparr> = Some (RunOk r)"
    "\<And>config. attempt (icu_simple_fold U) (lower U p f) (subject f us) at config \<in> {Some (RunOk r), Some (RunErr StepLimitExceeded)}"
    "map_option (restr (mark_base p)) r = match_at U p f (subject f us) at"
proof -
  obtain L where L: "paths (attempt_matcher (icu_simple_fold U) (lower U p f) (subject f us)) False 0 at (initial_slots (lower U p f) at) L"
    "map_option (restr (mark_base p)) (first_of L) = match_at U p f (subject f us) at"
    using lower_paths [OF compiled_okD(1-3) [OF ok] _ compiled_okD(4) [OF ok], of at] at by auto
  from that [of "first_of L"] attempt_paths [OF L(1)] L(2) show thesis by blast
qed

lemma search_found:
  assumes ok: "compiled_ok U p f" "utf16 (ms_text ms)" and prog: "rx_program (ms_regex ms) = lower U p f"
    and skip: "prefilter_skip (icu_simple_fold U) (lower U p f) (ms_text ms) pos = Some at" and le: "at \<le> length (ms_text ms)"
    and att: "attempt (icu_simple_fold U) (lower U p f) (subject f (ms_text ms)) at (ms_config ms) = Some (RunOk (Some (x, caps)))"
    and m: "match_at U p f (subject f (ms_text ms)) at = Some m" "restr (mark_base p) (x, caps) = m"
  shows "search_loop (icu_simple_fold U) ms pos = Some (next_spec U p f ms at)"
proof -
  let ?us = "ms_text ms"
  have inp: "\<lparr>units = ?us, code_point_mode = p_unicode (lower U p f)\<rparr> = subject f ?us"
    by (simp add: subject_def lower_fields)
  have "length (snd m) = mark_base p" "snd m ! 0 = Some at" "snd m ! 1 = Some (fst m)"
    using match_at_spans(1-3) [of U p f "subject f ?us" at "fst m" "snd m"] m(1) compiled_okD [OF ok] le by simp_all
  from build_match_lower [OF m(2) this] have bm: "build_match (lower U p f) caps = Some (match_of p m)" .
  have "leftmost U p f ?us at = Some at"
    using le m(1) unfolding leftmost_def by (subst find_positions) (simp add: matches_at_def)
  then have "next_spec U p f ms at = (Found (match_of p m),
      ms\<lparr>ms_next_start := (if fst m > at then fst m else advance_scan ?us at (is_unicode_mode f))\<rparr>)"
    by (simp add: next_spec_def m(1))
  moreover have "search_loop (icu_simple_fold U) ms pos = Some (Found (match_of p m),
      ms\<lparr>ms_next_start := (if fst m > at then fst m else advance_scan ?us at (p_unicode (lower U p f)))\<rparr>)"
    using le by (subst search_loop.simps) (simp add: prog Let_def skip inp att bm match_of_range)
  ultimately show ?thesis by (simp add: lower_fields)
qed

lemma search_loop_correct:
  assumes ok: "compiled_ok U p f" "utf16 (ms_text ms)" and prog: "rx_program (ms_regex ms) = lower U p f"
  shows "search_loop (icu_simple_fold U) ms pos = Some (next_spec U p f ms pos)
    \<or> ms_config ms \<noteq> \<lparr>step_limit = None\<rparr>
      \<and> search_loop (icu_simple_fold U) ms pos = Some (Failed StepLimitExceeded, ms\<lparr>ms_done := True\<rparr>)"
  using assms(1-3)
proof (induction "icu_simple_fold U" ms pos rule: search_loop.induct)
  case (1 ms pos)
  let ?us = "ms_text ms" and ?sf = "icu_simple_fold U" and ?lim = "Some (Failed StepLimitExceeded, ms\<lparr>ms_done := True\<rparr>)"
  note ok = "1.prems"(1,2) and prog = "1.prems"(3)
  have inp: "\<lparr>units = ?us, code_point_mode = p_unicode (lower U p f)\<rparr> = subject f ?us"
    by (simp add: subject_def lower_fields)
  obtain at where at: "prefilter_skip ?sf (lower U p f) ?us pos = Some at" "leftmost U p f ?us pos = leftmost U p f ?us at"
    "\<And>pf. p_prefilter (lower U p f) = Some pf \<Longrightarrow> at < length ?us \<Longrightarrow>
      \<exists>cp w. decode_at ?us at (is_unicode_mode f) = Some (cp, w) \<and> cp_may_start ?sf pf cp"
    using prefilter_skip_find [OF ok, of pos] by blast
  have spec: "next_spec U p f ms pos = next_spec U p f ms at" by (rule next_spec_cong [OF at(2)])
  show ?case
  proof (cases "length ?us < at")
    case True
    then have "leftmost U p f ?us at = None" unfolding leftmost_def by (subst find_positions) simp
    with True show ?thesis unfolding spec
      by (subst search_loop.simps) (simp add: prog Let_def at(1) next_spec_def)
  next
    case False
    then have le: "at \<le> length ?us" by simp
    obtain r where r: "attempt ?sf (lower U p f) (subject f ?us) at \<lparr>step_limit = None\<rparr> = Some (RunOk r)"
      "\<And>config. attempt ?sf (lower U p f) (subject f ?us) at config \<in> {Some (RunOk r), Some (RunErr StepLimitExceeded)}"
      "map_option (restr (mark_base p)) r = match_at U p f (subject f ?us) at"
      using attempt_compiled [OF ok le] by blast
    show ?thesis
    proof (cases "attempt ?sf (lower U p f) (subject f ?us) at (ms_config ms) = Some (RunOk r)")
      case False
      then have "attempt ?sf (lower U p f) (subject f ?us) at (ms_config ms) = Some (RunErr StepLimitExceeded)"
        "ms_config ms \<noteq> \<lparr>step_limit = None\<rparr>" using r(1) r(2) [of "ms_config ms"] by auto
      with le show ?thesis by (subst search_loop.simps) (simp add: prog Let_def at(1) inp)
    next
      case att: True
      show ?thesis
      proof (cases r)
        case None
        then have fail: "\<not> matches_at U p f ?us at" using r(3) by (simp add: matches_at_def)
        obtain e where e: "after_failure ?sf (lower U p f) ?us at = Some e" "leftmost U p f ?us at = leftmost U p f ?us e"
          using after_failure_find [OF ok le fail at(3)] by blast
        have "search_loop ?sf ms pos = search_loop ?sf ms e"
          using le by (subst search_loop.simps) (simp add: prog Let_def at(1) inp att None e(1))
        moreover have "search_loop ?sf ms e = Some (next_spec U p f ms e)
            \<or> ms_config ms \<noteq> \<lparr>step_limit = None\<rparr> \<and> search_loop ?sf ms e = ?lim"
          using "1.hyps" [OF refl refl refl _ _ _ _ _ _ ok prog] at(1) le att None e(1) prog inp by simp
        ultimately show ?thesis using next_spec_cong [OF e(2)] spec by simp
      next
        case (Some ec)
        obtain x caps where ec: "ec = (x, caps)" by (cases ec)
        obtain m where m: "match_at U p f (subject f ?us) at = Some m" "restr (mark_base p) (x, caps) = m"
          using r(3) Some ec by (cases "match_at U p f (subject f ?us) at") auto
        from search_found [OF ok prog at(1) le _ m] show ?thesis using att Some ec spec by simp
      qed
    qed
  qed
qed

text \<open>A call of \<open>next\<close>: the leftmost match from \<open>next_start\<close> on, or the step limit.\<close>

theorem matches_next_correct:
  assumes "compiled_ok U p f" and "utf16 (ms_text ms)" and "rx_program (ms_regex ms) = lower U p f" and "\<not> ms_done ms"
  shows "matches_next (icu_simple_fold U) ms = Some (next_spec U p f ms (ms_next_start ms))
    \<or> ms_config ms \<noteq> \<lparr>step_limit = None\<rparr>
      \<and> matches_next (icu_simple_fold U) ms = Some (Failed StepLimitExceeded, ms\<lparr>ms_done := True\<rparr>)"
  using search_loop_correct [OF assms(1-3)] assms(4) by (simp add: matches_next_def)

section \<open>Progress of the iterator\<close>

text \<open>A call that returns a match moves \<open>next_start\<close> forward, past the match it returned. This
  holds for every program, since the loop only ever moves to the right.\<close>

lemma search_loop_advances:
  assumes "search_loop sf ms pos = Some (Found mt, ms')"
  shows "pos < ms_next_start ms' \<and> snd (m_range mt) \<le> ms_next_start ms'
    \<and> ms_text ms' = ms_text ms \<and> ms_regex ms' = ms_regex ms \<and> ms_config ms' = ms_config ms \<and> ms_done ms' = ms_done ms"
  using assms
proof (induction sf ms pos rule: search_loop.induct)
  case (1 sf ms pos)
  let ?prog = "rx_program (ms_regex ms)" and ?us = "ms_text ms"
  obtain at where at: "prefilter_skip sf ?prog ?us pos = Some at" "at \<le> length ?us"
    using "1.prems" by (subst (asm) search_loop.simps) (auto simp: Let_def not_less split: option.splits if_splits)
  then have pos: "pos \<le> at" using prefilter_skip_ge [OF at(1)] by simp
  obtain r where r: "attempt sf ?prog \<lparr>units = ?us, code_point_mode = p_unicode ?prog\<rparr> at (ms_config ms) = Some (RunOk r)"
    using "1.prems" at by (subst (asm) search_loop.simps) (auto simp: Let_def split: option.splits run_result.splits)
  show ?case
  proof (cases r)
    case None
    with "1.prems" at r obtain e where e: "after_failure sf ?prog ?us at = Some e" "search_loop sf ms e = Some (Found mt, ms')"
      by (subst (asm) search_loop.simps) (auto simp: Let_def split: option.splits)
    from "1.IH" [OF refl refl refl at(1) _ r _ None e] at(2) after_failure_gt [OF e(1)] pos show ?thesis by simp
  next
    case (Some ec)
    with "1.prems" at r obtain x caps where "ec = (x, caps)" "build_match ?prog caps = Some mt"
      "ms' = ms\<lparr>ms_next_start := (if snd (m_range mt) > at then snd (m_range mt) else advance_scan ?us at (p_unicode ?prog))\<rparr>"
      by (subst (asm) search_loop.simps) (auto simp: Let_def split: option.splits prod.splits)
    with pos advance_scan_gt [of at ?us "p_unicode ?prog"] show ?thesis by auto
  qed
qed

text \<open>The whole iteration, with a bound on the number of calls.\<close>

fun collect_items :: "nat \<Rightarrow> (code_point \<Rightarrow> code_point) \<Rightarrow> matches \<Rightarrow> item list option" where
  "collect_items 0 sf ms = None"
| "collect_items (Suc n) sf ms =
    (case matches_next sf ms of
       None \<Rightarrow> None
     | Some (it, ms') \<Rightarrow> (if it = NoMatch then Some [] else map_option (Cons it) (collect_items n sf ms')))"

definition found_matches :: "item list \<Rightarrow> mat list" where
  "found_matches items = concat (map (\<lambda>it. case it of Found m \<Rightarrow> [m] | _ \<Rightarrow> []) items)"

lemma leftmost_bounds:
  assumes "leftmost U p f us start = Some at"
  shows "start \<le> at" and "at \<le> length us" and "match_at U p f (subject f us) at \<noteq> None"
proof -
  have "find P (scan_positions us uni start) = Some at \<Longrightarrow> start \<le> at \<and> at \<le> length us \<and> P at" for P uni
  proof (induction us uni start rule: scan_positions.induct)
    case (1 us uni pos)
    then show ?case
      using advance_scan_gt [of pos us uni] by (auto simp: find_positions [of P us uni pos] split: if_splits)
  qed
  from this [of "matches_at U p f us" "is_unicode_mode f"] assms
  show "start \<le> at" "at \<le> length us" "match_at U p f (subject f us) at \<noteq> None"
    by (auto simp: leftmost_def matches_at_def)
qed

lemma next_spec_found:
  assumes ok: "compiled_ok U p f" "utf16 (ms_text ms)" and "next_spec U p f ms start = (Found mt, ms')"
  shows "start \<le> fst (m_range mt)" and "fst (m_range mt) \<le> snd (m_range mt)" and "snd (m_range mt) \<le> length (ms_text ms)"
    and "snd (m_range mt) \<le> ms_next_start ms'" and "start < ms_next_start ms'"
    and "ms_text ms' = ms_text ms" and "ms_regex ms' = ms_regex ms" and "ms_done ms' = ms_done ms"
proof -
  let ?us = "ms_text ms"
  obtain at where at: "leftmost U p f ?us start = Some at"
    using assms(3) by (cases "leftmost U p f ?us start") (auto simp: next_spec_def)
  note b = leftmost_bounds [OF at]
  obtain m where m: "match_at U p f (subject f ?us) at = Some m" using b(3) by blast
  have eq: "mt = match_of p m"
    "ms' = ms\<lparr>ms_next_start := (if fst m > at then fst m else advance_scan ?us at (is_unicode_mode f))\<rparr>"
    using assms(3) at m by (auto simp: next_spec_def Let_def)
  note sp = match_at_spans [of U p f "subject f ?us" at "fst m" "snd m"]
  have "snd m ! 0 = Some at" "at \<le> fst m" "fst m \<le> length ?us"
    using sp(2,4,5) m compiled_okD [OF ok] b(2) by simp_all
  then show "start \<le> fst (m_range mt)" "fst (m_range mt) \<le> snd (m_range mt)" "snd (m_range mt) \<le> length ?us"
    "snd (m_range mt) \<le> ms_next_start ms'" "start < ms_next_start ms'"
    "ms_text ms' = ?us" "ms_regex ms' = ms_regex ms" "ms_done ms' = ms_done ms"
    using b(1) advance_scan_gt [of at ?us "is_unicode_mode f"] by (auto simp: eq match_of_def)
qed

text \<open>What a found match says about its groups.\<close>

lemma next_spec_groups:
  assumes ok: "compiled_ok U p f" "utf16 (ms_text ms)" and found: "next_spec U p f ms start = (Found mt, ms')"
  shows "length (m_captures mt) = group_count p" and "group mt i = Some (b, e) \<Longrightarrow> b \<le> e \<and> e \<le> length (ms_text ms)"
proof -
  let ?us = "ms_text ms"
  obtain at where at: "leftmost U p f ?us start = Some at"
    using found by (cases "leftmost U p f ?us start") (auto simp: next_spec_def)
  note bounds = leftmost_bounds [OF at]
  obtain m where m: "match_at U p f (subject f ?us) at = Some m" using bounds(3) by blast
  have mt: "mt = match_of p m" using found at m by (auto simp: next_spec_def Let_def)
  note sp = match_at_spans [of U p f "subject f ?us" at "fst m" "snd m"]
  have spans: "ok_slots (length ?us) (snd m)" "span_ok g (snd m)" for g
    using sp(6,7) m compiled_okD [OF ok] bounds(2) by simp_all
  show "length (m_captures mt) = group_count p" by (simp add: mt match_of_def)
  show "b \<le> e \<and> e \<le> length ?us" if g: "group mt i = Some (b, e)"
  proof (cases i)
    case 0
    then show ?thesis using g next_spec_found(2,3) [OF ok found] by (auto simp: group_def)
  next
    case (Suc j)
    then have "group_span (snd m) i = Some (b, e)"
      using g by (auto simp: group_def mt match_of_def get_at_def split: if_splits option.splits simp del: upt_Suc)
    moreover from this have "2 * i + 1 < length (snd m)" "snd m ! (2 * i + 1) = Some e"
      by (auto simp: group_span_def get_at_def split: option.splits if_splits)
    then have "Some e \<in> set (snd m)" by (metis nth_mem)
    ultimately show ?thesis using spans(1) spans(2) [of i] by (auto simp: span_ok_def ok_slots_def)
  qed
qed

lemma next_spec_cases:
  "(\<exists>mt ms'. next_spec U p f ms start = (Found mt, ms')) \<or> next_spec U p f ms start = (NoMatch, ms\<lparr>ms_done := True\<rparr>)"
  by (auto simp: next_spec_def Let_def split: option.split)

text \<open>Every call either ends the iteration, or returns a match and moves on, or returns the one
  step-limit error after which the iterator is done.\<close>

lemma next_cases:
  assumes "compiled_ok U p f" and "utf16 (ms_text ms)" and "rx_program (ms_regex ms) = lower U p f" and "\<not> ms_done ms"
  obtains (none) "matches_next (icu_simple_fold U) ms = Some (NoMatch, ms\<lparr>ms_done := True\<rparr>)"
    | (limit) "matches_next (icu_simple_fold U) ms = Some (Failed StepLimitExceeded, ms\<lparr>ms_done := True\<rparr>)"
    | (found) mt ms' where "matches_next (icu_simple_fold U) ms = Some (Found mt, ms')"
        "next_spec U p f ms (ms_next_start ms) = (Found mt, ms')"
  using matches_next_correct [OF assms] next_spec_cases [of U p f ms "ms_next_start ms"] by force

lemma collect_done: "ms_done ms \<Longrightarrow> collect_items (Suc n) sf ms = Some []"
  by (simp add: matches_next_def)

theorem collect_terminates:
  assumes "compiled_ok U p f" and "utf16 us"
    and "ms_text ms = us" and "rx_program (ms_regex ms) = lower U p f" and "\<not> ms_done ms"
    and "Suc (length us) - ms_next_start ms + 2 \<le> n"
  shows "\<exists>items. collect_items n (icu_simple_fold U) ms = Some items"
  using assms(3-6)
proof (induction n arbitrary: ms)
  case (Suc n)
  note ok = assms(1,2) [folded Suc.prems(1)]
  from ok Suc.prems(2,3) show ?case
  proof (cases rule: next_cases)
    case limit
    with Suc.prems obtain k where "n = Suc k" by (cases n) auto
    with limit show ?thesis by (simp add: matches_next_def)
  next
    case (found mt ms')
    note sp = next_spec_found [OF ok found(2)]
    have start: "ms_next_start ms \<le> length us" using sp(1-3) Suc.prems(1) by simp
    have "\<exists>items. collect_items n (icu_simple_fold U) ms' = Some items"
      using Suc.prems sp start by (intro Suc.IH) auto
    with found show ?thesis by auto
  qed simp
qed simp

theorem collect_ordered:
  assumes "compiled_ok U p f" and "utf16 us"
    and "ms_text ms = us" and "rx_program (ms_regex ms) = lower U p f"
    and "collect_items n (icu_simple_fold U) ms = Some items"
  shows "sorted_wrt (\<lambda>a b. snd (m_range a) \<le> fst (m_range b)) (found_matches items)
    \<and> (\<forall>m\<in>set (found_matches items). ms_next_start ms \<le> fst (m_range m) \<and> fst (m_range m) \<le> snd (m_range m)
        \<and> snd (m_range m) \<le> length us)"
  using assms(3-5)
proof (induction n arbitrary: ms items)
  case (Suc n)
  note ok = assms(1,2) [folded Suc.prems(1)]
  show ?case
  proof (cases "ms_done ms")
    case True
    with Suc.prems show ?thesis by (simp add: matches_next_def found_matches_def)
  next
    case False
    from ok Suc.prems(2) False show ?thesis
    proof (cases rule: next_cases)
      case none
      with Suc.prems show ?thesis by (simp add: found_matches_def)
    next
      case limit
      with Suc.prems obtain rest where rest: "collect_items n (icu_simple_fold U) (ms\<lparr>ms_done := True\<rparr>) = Some rest"
        "items = Failed StepLimitExceeded # rest" by auto
      then have "rest = []" by (cases n) (simp_all add: matches_next_def)
      with rest show ?thesis by (simp add: found_matches_def)
    next
      case (found mt ms')
      then obtain rest where rest: "collect_items n (icu_simple_fold U) ms' = Some rest" "items = Found mt # rest"
        using Suc.prems by auto
      note sp = next_spec_found [OF ok found(2)]
      have IH: "sorted_wrt (\<lambda>a b. snd (m_range a) \<le> fst (m_range b)) (found_matches rest)"
        "\<forall>m\<in>set (found_matches rest). ms_next_start ms' \<le> fst (m_range m) \<and> fst (m_range m) \<le> snd (m_range m)
          \<and> snd (m_range m) \<le> length us"
        using Suc.IH [OF _ _ rest(1)] sp Suc.prems by simp_all
      have "found_matches items = mt # found_matches rest" by (simp add: rest(2) found_matches_def)
      with IH sp Suc.prems(1) show ?thesis by fastforce
    qed
  qed
qed simp

section \<open>Named groups\<close>

lemma named_loop_find:
  "named_loop m name xs None =
    (case find (\<lambda>(idx, gname). gname = name \<and> group m (idx + 1) \<noteq> None) xs of
       Some (idx, _) \<Rightarrow> group m (idx + 1)
     | None \<Rightarrow> None)"
proof (induction xs)
  case (Cons x xs)
  obtain idx gname where x: "x = (idx, gname)" by (cases x)
  have g: "(case get_at (m_captures m) idx of Some c \<Rightarrow> c | None \<Rightarrow> None) = group m (idx + 1)"
    by (simp add: group_def split: option.split)
  show ?case
    unfolding x named_loop.simps g Let_def using Cons by (cases "group m (idx + 1)") simp_all
qed simp

text \<open>A name refers to the first group of that name that took part in the match.\<close>

theorem named_group_first:
  assumes "name \<noteq> []"
  shows "named_group m name =
    (case find (\<lambda>i. m_group_names m ! i = name \<and> group m (i + 1) \<noteq> None) [0..<length (m_group_names m)] of
       Some i \<Rightarrow> group m (i + 1)
     | None \<Rightarrow> None)"
proof -
  let ?names = "m_group_names m"
  have "find (\<lambda>(idx, gname). gname = name \<and> group m (idx + 1) \<noteq> None) (map (\<lambda>i. (i, ?names ! i)) is)
      = map_option (\<lambda>i. (i, ?names ! i)) (find (\<lambda>i. ?names ! i = name \<and> group m (i + 1) \<noteq> None) is)" for "is"
    by (induction "is") auto
  moreover have "enumerate 0 ?names = map (\<lambda>i. (i, ?names ! i)) [0..<length ?names]"
    by (rule nth_equalityI) (simp_all add: nth_enumerate_eq)
  ultimately show ?thesis
    using assms by (simp add: named_group_def named_loop_find split: option.split)
qed

lemma named_groups_next_simps:
  "named_groups_next it =
    (let names = m_group_names (ng_mat it); idx = ng_next it; name = names ! idx; it' = it\<lparr>ng_next := idx + 1\<rparr> in
     if length names \<le> idx then (None, it)
     else if name = [] \<or> name \<in> set (take idx names) then named_groups_next it'
     else (Some (name, named_group (ng_mat it) name), it'))"
  by (subst named_groups_next.simps) (auto simp: Let_def)

lemma named_groups_next_gt:
  "named_groups_next it = (Some x, it') \<Longrightarrow> ng_next it < ng_next it' \<and> ng_next it' \<le> length (m_group_names (ng_mat it)) \<and> ng_mat it' = ng_mat it"
proof (induction it rule: named_groups_next.induct)
  case (1 it)
  from "1.prems" show ?case
    using "1.IH" [OF refl refl _ refl refl]
    by (subst (asm) named_groups_next_simps) (fastforce simp: Let_def split: if_splits)
qed

function collect_names :: "named_groups_iter \<Rightarrow> (code_point list \<times> (nat \<times> nat) option) list" where
  "collect_names it =
    (case named_groups_next it of
       (None, _) \<Rightarrow> []
     | (Some x, it') \<Rightarrow> x # collect_names it')"
  by pat_completeness auto
termination
  by (relation "measure (\<lambda>it. length (m_group_names (ng_mat it)) - ng_next it)")
    (auto dest!: named_groups_next_gt [OF sym])

declare collect_names.simps [simp del]

definition first_name :: "mat \<Rightarrow> nat \<Rightarrow> bool" where
  "first_name m i \<longleftrightarrow> m_group_names m ! i \<noteq> [] \<and> m_group_names m ! i \<notin> set (take i (m_group_names m))"

text \<open>The iterator yields every name once, in source order, with the group it refers to.\<close>

lemma collect_names_from:
  "collect_names it = map (\<lambda>i. (m_group_names (ng_mat it) ! i, named_group (ng_mat it) (m_group_names (ng_mat it) ! i)))
    (filter (first_name (ng_mat it)) [ng_next it..<length (m_group_names (ng_mat it))])"
proof (induction "length (m_group_names (ng_mat it)) - ng_next it" arbitrary: it rule: less_induct)
  case less
  let ?names = "m_group_names (ng_mat it)" and ?idx = "ng_next it" and ?it' = "it\<lparr>ng_next := ng_next it + 1\<rparr>"
  show ?case
  proof (cases "length ?names \<le> ?idx")
    case True
    then show ?thesis by (subst collect_names.simps, subst named_groups_next_simps) (simp add: Let_def)
  next
    case False
    then have up: "[?idx..<length ?names] = ?idx # [Suc ?idx..<length ?names]" by (simp add: upt_conv_Cons)
    have IH: "collect_names ?it' = map (\<lambda>i. (?names ! i, named_group (ng_mat it) (?names ! i)))
        (filter (first_name (ng_mat it)) [Suc ?idx..<length ?names])"
      using less [of ?it'] False by simp
    show ?thesis
    proof (cases "first_name (ng_mat it) ?idx")
      case True
      then have "named_groups_next it = (Some (?names ! ?idx, named_group (ng_mat it) (?names ! ?idx)), ?it')"
        using False by (subst named_groups_next_simps) (simp add: Let_def first_name_def)
      then show ?thesis using IH True by (subst collect_names.simps) (simp add: up)
    next
      case skip: False
      then have "named_groups_next it = named_groups_next ?it'"
        using False by (subst named_groups_next_simps) (auto simp: Let_def first_name_def)
      then have "collect_names it = collect_names ?it'"
        unfolding collect_names.simps [of it] collect_names.simps [of ?it'] by simp
      then show ?thesis using IH skip by (simp add: up)
    qed
  qed
qed

theorem named_groups_correct:
  "map fst (collect_names (named_groups m)) = map ((!) (m_group_names m)) (filter (first_name m) [0..<length (m_group_names m)])"
  "distinct (map fst (collect_names (named_groups m)))"
  "set (map fst (collect_names (named_groups m))) = set (m_group_names m) - {[]}"
  "\<forall>(name, range)\<in>set (collect_names (named_groups m)). range = named_group m name"
proof -
  let ?names = "m_group_names m"
  have eq: "collect_names (named_groups m) = map (\<lambda>i. (?names ! i, named_group m (?names ! i)))
      (filter (first_name m) [0..<length ?names])"
    by (simp add: collect_names_from named_groups_def)
  show order: "map fst (collect_names (named_groups m)) = map ((!) ?names) (filter (first_name m) [0..<length ?names])"
    by (simp add: eq)
  have "inj_on ((!) ?names) (set (filter (first_name m) [0..<length ?names]))"
  proof (rule linorder_inj_onI)
    fix i j assume "i < j" "i \<in> set (filter (first_name m) [0..<length ?names])" "j \<in> set (filter (first_name m) [0..<length ?names])"
    then show "?names ! i \<noteq> ?names ! j"
      by (auto simp: first_name_def in_set_conv_nth)
  qed auto
  then show "distinct (map fst (collect_names (named_groups m)))" by (simp add: order distinct_map)
  show "set (map fst (collect_names (named_groups m))) = set ?names - {[]}"
  proof (intro equalityI subsetI)
    fix x assume "x \<in> set ?names - {[]}"
    then obtain k where "k < length ?names" "?names ! k = x" "x \<noteq> []" by (auto simp: in_set_conv_nth)
    then have ex: "\<exists>k. k < length ?names \<and> ?names ! k = x" by blast
    define i where "i = (LEAST k. k < length ?names \<and> ?names ! k = x)"
    have i: "i < length ?names" "?names ! i = x" using LeastI_ex [OF ex] by (auto simp: i_def)
    have "x \<notin> set (take i ?names)"
      using not_less_Least [of _ "\<lambda>k. k < length ?names \<and> ?names ! k = x"] i(1) by (auto simp: in_set_conv_nth i_def [symmetric])
    with i \<open>x \<noteq> []\<close> show "x \<in> set (map fst (collect_names (named_groups m)))" by (auto simp: order first_name_def)
  qed (auto simp: order first_name_def)
  show "\<forall>(name, range)\<in>set (collect_names (named_groups m)). range = named_group m name" by (auto simp: eq)
qed

end
