(* ===== verification/Rx_Parser.thy ===== *)
theory Rx_Parser
  imports Rx_Class_Grammar Rx_Api
begin

text \<open>
  The pattern grammar of \<open>parser/mod.rs\<close>: atoms, groups, modifier groups, quantifiers,
  alternatives and disjunctions, the check of duplicate group names, and the entry points
  \<open>parse\<close>, \<open>Regex::compile_utf16\<close> and \<open>Regex::compile_str\<close>.

  The body of a group is parsed by the function passed as \<open>dj\<close>; \<open>parse_disjunction\<close> ties the
  knot over the nesting levels that the depth guard leaves. The loops over terms and
  alternatives carry a bound of one more than the length of the pattern.
\<close>

section \<open>Atoms\<close>

definition is_assertion_node :: "node \<Rightarrow> bool" where
  "is_assertion_node n \<longleftrightarrow>
    (case n of
       NAssert _ \<Rightarrow> True
     | NGroup (Lookahead _) _ \<Rightarrow> True
     | NGroup (Lookbehind _) _ \<Rightarrow> True
     | _ \<Rightarrow> False)"

definition parse_numeric_backref :: "parser \<Rightarrow> (node \<times> parser) presult" where
  "parse_numeric_backref s =
    (case read_decimal s of (value, s1) \<Rightarrow>
       if value \<le> ps_total_groups s1 then POk (backref_node s1 [value], s1)
       else if ps_unicode s1 then PErr (Syntax (lit ''backreference to non-existent group'') (ps_pos s))
       else
         (case peek s of
            None \<Rightarrow> PPanic
          | Some c \<Rightarrow>
             (if in_range c_1 c_7 c then
                try_p (read_legacy_octal s) (\<lambda>(cp, s). POk (char_node s cp, s))
              else POk (char_node (bump 1 s) c, bump 1 s))))"

definition parse_named_backref :: "ucd \<Rightarrow> parser \<Rightarrow> (node \<times> parser) presult" where
  "parse_named_backref D s =
    (let has_named = \<not> list_all (\<lambda>n. n = None) (ps_group_names s)
     in if (ps_unicode s \<or> has_named) \<and> peek_at s 1 = Some c_lt then
          try_p (ok_or (read_group_name D (ps_units s) (ps_pos s + 2)) (err s ''invalid backreference name''))
            (\<lambda>(name, nxt).
          let s = s\<lparr>ps_pos := nxt\<rparr>;
              indices = name_to_indices s name
          in if indices = [] then PErr (err s ''backreference to unknown group name'')
             else POk (backref_node s indices, s))
        else if ps_unicode s \<or> has_named then PErr (err s (''invalid '' @ CHR 0x5C # ''k escape''))
        else (let s = bump 1 s in POk (char_node s c_k, s)))"

definition parse_escape_atom :: "ucd \<Rightarrow> parser \<Rightarrow> (node \<times> parser) presult" where
  "parse_escape_atom D s =
    (let s = bump 1 s
     in try_p (ok_or (peek s) (err s ''trailing backslash'')) (\<lambda>c.
        if c = c_b then POk (NAssert (WordBoundary False (ignore_case (ps_flags s))), bump 1 s)
        else if c = c_B then POk (NAssert (WordBoundary True (ignore_case (ps_flags s))), bump 1 s)
        else if c = c_k then parse_named_backref D s
        else if in_range c_1 c_9 c then parse_numeric_backref s
        else if (c = c_p \<or> c = c_P) \<and> unicode_sets (ps_flags s) then
          try_p (parse_property_set_v D (c = c_P) (bump 1 s)) (\<lambda>(cs, s). POk (class_node s cs False, s))
        else
          try_p (try_class_escape_set D s) (\<lambda>(r, s).
          case r of
            Some (cps, negate) \<Rightarrow> POk (class_node s (from_code_points cps) negate, s)
          | None \<Rightarrow> try_p (parse_char_escape False s) (\<lambda>(cp, s). POk (char_node s cp, s)))))"

section \<open>Groups\<close>

type_synonym node_parser = "parser \<Rightarrow> (node \<times> parser) presult"

text \<open>The kind of the group whose \<open>(\<close> has been consumed; \<open>None\<close> for a modifier group.\<close>

definition parse_group_kind :: "ucd \<Rightarrow> parser \<Rightarrow> (group_kind option \<times> parser) presult" where
  "parse_group_kind D s =
    (case eat c_quest s of (quest, s) \<Rightarrow>
       if quest then
         (case peek s of
            None \<Rightarrow> PErr (err s ''unsupported group modifier'')
          | Some x \<Rightarrow>
             (if x = c_colon then POk (Some NonCapturing, bump 1 s)
              else if x = c_eq then POk (Some (Lookahead False), bump 1 s)
              else if x = c_bang then POk (Some (Lookahead True), bump 1 s)
              else if x = c_lt then
                (if peek_at s 1 = Some c_eq then POk (Some (Lookbehind False), bump 2 s)
                 else if peek_at s 1 = Some c_bang then POk (Some (Lookbehind True), bump 2 s)
                 else
                   try_p (ok_or (read_group_name D (ps_units s) (ps_pos s + 1)) (err s ''invalid group name''))
                     (\<lambda>(name, nxt).
                   let s = s\<lparr>ps_pos := nxt, ps_next_group := ps_next_group s + 1\<rparr>
                   in POk (Some (Capturing (ps_next_group s) (Some name)), s)))
              else if x = c_i \<or> x = c_m \<or> x = c_s \<or> x = c_dash then POk (None, s)
              else PErr (err s ''unsupported group modifier'')))
       else
         (let s = s\<lparr>ps_next_group := ps_next_group s + 1\<rparr>
          in POk (Some (Capturing (ps_next_group s) None), s)))"

text \<open>The two modifier loops; \<open>on\<close> is the value the letters set. \<open>seen\<close> holds the letters met so
  far.\<close>

definition set_modifier :: "code_unit \<Rightarrow> bool \<Rightarrow> flags \<Rightarrow> flags" where
  "set_modifier c on f =
    (if c = c_i then f\<lparr>ignore_case := on\<rparr>
     else if c = c_m then f\<lparr>multiline := on\<rparr>
     else f\<lparr>dot_all := on\<rparr>)"

function (sequential) modifier_loop ::
  "bool \<Rightarrow> code_unit list \<Rightarrow> parser \<Rightarrow> (code_unit list \<times> parser) presult" where
  "modifier_loop on seen s =
    (case peek s of
       None \<Rightarrow> POk (seen, s)
     | Some c \<Rightarrow>
        (if c = c_i \<or> c = c_m \<or> c = c_s then
           (if c \<in> set seen then PErr (err s ''duplicate modifier flag'')
            else modifier_loop on (seen @ [c]) (bump 1 (s\<lparr>ps_flags := set_modifier c on (ps_flags s)\<rparr>)))
         else POk (seen, s)))"
  by pat_completeness auto
termination
  by (relation "measure (\<lambda>(on, seen, s). length (ps_units s) - ps_pos s)") (auto dest: peek_SomeD)

declare modifier_loop.simps [simp del]

definition parse_modifiers :: "parser \<Rightarrow> parser presult" where
  "parse_modifiers s =
    try_p (modifier_loop True [] s) (\<lambda>(added, s).
    case eat c_dash s of (dash, s) \<Rightarrow>
    try_p (if dash then modifier_loop False added s else POk (added, s)) (\<lambda>(seen, s).
    if seen = [] then PErr (err s ''empty modifier group'')
    else (case eat c_colon s of (colon, s) \<Rightarrow>
      if \<not> colon then PErr (err s (''expected '' @ [CHR 0x27, CHR '':'', CHR 0x27] @ '' in modifier group'')) else POk s)))"

definition parse_modifier_group :: "node_parser \<Rightarrow> node_parser" where
  "parse_modifier_group dj s =
    (let saved = ps_flags s
     in try_p (parse_modifiers s) (\<lambda>s.
        try_p (dj s) (\<lambda>(body, s).
        case eat c_rparen s of (closed, s) \<Rightarrow>
          if \<not> closed then PErr (err s ''unterminated group'')
          else POk (NGroup NonCapturing body, s\<lparr>ps_flags := saved\<rparr>))))"

definition parse_group :: "ucd \<Rightarrow> node_parser \<Rightarrow> node_parser" where
  "parse_group D dj s =
    try_p (parse_group_kind D (bump 1 s)) (\<lambda>(kind, s).
    case kind of
      None \<Rightarrow> parse_modifier_group dj s
    | Some k \<Rightarrow>
        try_p (dj s) (\<lambda>(body, s).
        case eat c_rparen s of (closed, s) \<Rightarrow>
          if \<not> closed then PErr (err s ''unterminated group'') else POk (NGroup k body, s)))"

definition parse_atom :: "ucd \<Rightarrow> node_parser \<Rightarrow> node_parser" where
  "parse_atom D dj s =
    (case peek s of
       None \<Rightarrow> PPanic
     | Some c \<Rightarrow>
        (if c = c_caret then POk (NAssert (StartOfLine (multiline (ps_flags s))), bump 1 s)
         else if c = c_dollar then POk (NAssert (EndOfLine (multiline (ps_flags s))), bump 1 s)
         else if c = c_dot then POk (NAnyChar (dot_all (ps_flags s)), bump 1 s)
         else if c = c_lparen then parse_group D dj s
         else if c = c_lbrack then parse_class D s
         else if c = c_bslash then parse_escape_atom D s
         else if c = c_star \<or> c = c_plus \<or> c = c_quest then PErr (err s ''nothing to repeat'')
         else if c = c_lbrace then
           (if looks_like_quantifier s then PErr (err s ''nothing to repeat'')
            else if ps_unicode s then PErr (err s ''lone quantifier brace'')
            else POk (char_node (bump 1 s) c, bump 1 s))
         else if c = c_rbrack \<or> c = c_rbrace then
           (if ps_unicode s then PErr (err s ''lone bracket'')
            else POk (char_node (bump 1 s) c, bump 1 s))
         else try_p (read_pattern_codepoint s) (\<lambda>(cp, s). POk (char_node s cp, s))))"

section \<open>Quantifiers\<close>

definition quantifier_bounds :: "parser \<Rightarrow> ((nat \<times> nat option \<times> bool) option \<times> parser) presult" where
  "quantifier_bounds s =
    (case peek s of
       None \<Rightarrow> POk (None, s)
     | Some c \<Rightarrow>
        (if c = c_star then POk (Some (0, None, False), bump 1 s)
         else if c = c_plus then POk (Some (1, None, False), bump 1 s)
         else if c = c_quest then POk (Some (0, Some 1, False), bump 1 s)
         else if c = c_lbrace \<and> looks_like_quantifier s then
           try_p (parse_brace_quantifier s) (\<lambda>(q, s). POk (Some q, s))
         else POk (None, s)))"

definition maybe_quantify :: "node \<Rightarrow> parser \<Rightarrow> (node \<times> parser) presult" where
  "maybe_quantify atom s =
    (if ps_unicode s \<and> is_assertion_node atom \<and> peek_is_quantifier s
     then PErr (err s ''quantifier may not follow an assertion in unicode mode'')
     else
       try_p (quantifier_bounds s) (\<lambda>(q, s).
       case q of
         None \<Rightarrow> POk (atom, s)
       | Some (qmin, qmax, inverted) \<Rightarrow>
           (case eat c_quest s of (lazy, s) \<Rightarrow>
             if inverted then PErr (err s ''quantifier min exceeds max'')
             else POk (NRepeat atom \<lparr>q_min = qmin, q_max = qmax, q_greedy = \<not> lazy\<rparr>, s))))"

section \<open>Terms, alternatives, disjunctions\<close>

definition parse_term :: "ucd \<Rightarrow> node_parser \<Rightarrow> parser \<Rightarrow> (node option \<times> parser) presult" where
  "parse_term D dj s =
    (if peek s = None \<or> peek s = Some c_bar \<or> peek s = Some c_rparen then POk (None, s)
     else
       try_p (parse_atom D dj s) (\<lambda>(atom, s).
       try_p (maybe_quantify atom s) (\<lambda>(atom, s). POk (Some atom, s))))"

fun term_loop :: "ucd \<Rightarrow> node_parser \<Rightarrow> nat \<Rightarrow> node list \<Rightarrow> parser \<Rightarrow> (node list \<times> parser) presult" where
  "term_loop D dj 0 terms s = PFuel"
| "term_loop D dj (Suc k) terms s =
    try_p (parse_term D dj s) (\<lambda>(t, s).
    case t of None \<Rightarrow> POk (terms, s) | Some t \<Rightarrow> term_loop D dj k (terms @ [t]) s)"

definition parse_alternative :: "ucd \<Rightarrow> node_parser \<Rightarrow> node_parser" where
  "parse_alternative D dj s =
    try_p (term_loop D dj (loop_fuel s) [] s) (\<lambda>(terms, s).
    POk ((case terms of [] \<Rightarrow> NEmpty | [t] \<Rightarrow> t | _ \<Rightarrow> NConcat terms), s))"

fun alternation_parse_loop ::
  "ucd \<Rightarrow> node_parser \<Rightarrow> nat \<Rightarrow> node list \<Rightarrow> parser \<Rightarrow> (node list \<times> parser) presult" where
  "alternation_parse_loop D dj 0 alts s = PFuel"
| "alternation_parse_loop D dj (Suc k) alts s =
    (case eat c_bar s of (bar, s) \<Rightarrow>
       if bar then
         try_p (parse_alternative D dj s) (\<lambda>(alt, s). alternation_parse_loop D dj k (alts @ [alt]) s)
       else POk (alts, s))"

fun parse_disjunction :: "ucd \<Rightarrow> nat \<Rightarrow> node_parser" where
  "parse_disjunction D 0 s = PFuel"
| "parse_disjunction D (Suc n) s =
    try_p (enter s) (\<lambda>s.
    try_p (parse_alternative D (parse_disjunction D n) s) (\<lambda>(alt, s).
    try_p (alternation_parse_loop D (parse_disjunction D n) (loop_fuel s) [alt] s) (\<lambda>(alts, s).
    POk (if length alts = 1 then hd alts else NAlternate alts, leave s))))"

section \<open>Duplicate group names\<close>

text \<open>The states are the sets of names a path has met; a \<open>BTreeSet\<close> is its duplicate-free list.\<close>

definition duplicate_name :: regex_error where
  "duplicate_name = Syntax (lit ''duplicate named capturing group in the same alternative'') 0"

fun validate_names :: "node \<Rightarrow> code_point list list list \<Rightarrow> code_point list list list presult"
  and validate_concat :: "node list \<Rightarrow> code_point list list list \<Rightarrow> code_point list list list presult"
  and validate_alternate :: "node list \<Rightarrow> code_point list list list \<Rightarrow> code_point list list list presult" where
  "validate_names (NConcat nodes) states = validate_concat nodes states"
| "validate_names (NAlternate alts) states = validate_alternate alts states"
| "validate_names (NRepeat n q) states = validate_names n states"
| "validate_names (NGroup kind body) states =
    (case kind of
       Capturing index (Some name) \<Rightarrow>
         (if list_ex (\<lambda>st. name \<in> set st) states then PErr duplicate_name
          else validate_names body (map (\<lambda>st. name # st) states))
     | _ \<Rightarrow> validate_names body states)"
| "validate_names _ states = POk states"
| "validate_concat [] current = POk current"
| "validate_concat (n # ns) current = try_p (validate_names n current) (validate_concat ns)"
| "validate_alternate [] states = POk []"
| "validate_alternate (alt # alts) states =
    try_p (validate_names alt states) (\<lambda>out.
    try_p (validate_alternate alts states) (\<lambda>rest. POk (out @ rest)))"

definition validate_duplicate_named_groups_by_path :: "node \<Rightarrow> unit presult" where
  "validate_duplicate_named_groups_by_path r = try_p (validate_names r [[]]) (\<lambda>_. POk ())"

section \<open>Entry points\<close>

definition parse :: "ucd \<Rightarrow> code_unit list \<Rightarrow> flags \<Rightarrow> parsed presult" where
  "parse D us f =
    try_p (prescan D (parser_new us f)) (\<lambda>p.
    try_p (parse_disjunction D (levels p) p) (\<lambda>(r, p).
    if ps_pos p \<noteq> length (ps_units p) then PErr (err p (''unmatched '' @ [CHR 0x27, CHR '')'', CHR 0x27]))
    else
      try_p (validate_duplicate_named_groups_by_path r) (\<lambda>_.
      POk \<lparr>root = r, group_count = ps_total_groups p, group_names = ps_group_names p\<rparr>)))"

definition compile_utf16 :: "icu \<Rightarrow> ucd \<Rightarrow> code_unit list \<Rightarrow> flags \<Rightarrow> regex presult" where
  "compile_utf16 U D us f = try_p (parse D us f) (\<lambda>p. POk \<lparr>rx_program = lower U p f, rx_flags = f\<rparr>)"

definition compile_str :: "icu \<Rightarrow> ucd \<Rightarrow> code_point list \<Rightarrow> flags \<Rightarrow> regex presult" where
  "compile_str U D s f = compile_utf16 U D (encode_utf16 s) f"

end
