(* ===== verification/Rx_Class_Grammar_Correct.thy ===== *)
theory Rx_Class_Grammar_Correct
  imports Rx_Class_Grammar
begin

text \<open>
  What the class grammar guarantees: every class parser only moves the cursor, keeps the
  representation invariant of the sets it builds, never exhausts a loop bound, and panics only
  on a pattern whose last unit is a backslash or a dash. The locale is the contract of the
  recursive call for nested classes; \<open>parse_class_set\<close> fulfils it at every level.
\<close>

section \<open>Dangling patterns\<close>

definition dangling :: "code_unit list \<Rightarrow> bool" where
  "dangling us \<longleftrightarrow> us \<noteq> [] \<and> (last us = c_bslash \<or> last us = c_dash)"

lemma peek_last:
  assumes "peek s = Some c" and "peek (bump 1 s) = None"
  shows "ps_units s \<noteq> []" and "last (ps_units s) = c"
proof -
  have "ps_pos s < length (ps_units s)" "length (ps_units s) \<le> Suc (ps_pos s)" "ps_units s ! ps_pos s = c"
    using assms by (auto simp: peek_def)
  then have "ps_pos s = length (ps_units s) - 1" "ps_units s \<noteq> []" by auto
  with \<open>ps_units s ! ps_pos s = c\<close> show "ps_units s \<noteq> []" and "last (ps_units s) = c" by (simp_all add: last_conv_nth)
qed

lemma dangling_backslash: "peek s = Some c_bslash \<Longrightarrow> peek (bump 1 s) = None \<Longrightarrow> dangling (ps_units s)"
  using peek_last by (simp add: dangling_def)

lemma dangling_dash: "peek s = Some c_dash \<Longrightarrow> peek (bump 1 s) = None \<Longrightarrow> dangling (ps_units s)"
  using peek_last by (simp add: dangling_def)

section \<open>Legacy classes\<close>

lemma class_escape_next: "next_is_class_escape s \<Longrightarrow> try_class_escape_set D s \<noteq> POk (None, s')"
  by (auto simp: next_is_class_escape_def try_class_escape_set_def split: option.splits)

lemma finish_class_atom_total:
  "finish_class_atom D cps lo s \<noteq> PFuel" "finish_class_atom D cps lo s = PPanic \<Longrightarrow> dangling (ps_units s)"
proof -
  show "finish_class_atom D cps lo s \<noteq> PFuel"
    by (auto simp: finish_class_atom_def Let_def try_p_PFuel_iff class_escape_total class_char_escape_total
        pattern_codepoint_total insert_class_range_def split: option.splits if_splits)
  assume panic: "finish_class_atom D cps lo s = PPanic"
  then have dash: "peek s = Some c_dash" by (auto simp: finish_class_atom_def split: if_splits)
  have "peek (bump 1 s) = None \<or> peek (bump 1 s) = Some c_bslash \<and> peek (bump 1 (bump 1 s)) = None"
  proof (cases "peek (bump 1 s) = Some c_bslash \<and> next_is_class_escape (bump 1 (bump 1 s))")
    case True
    have "try_class_escape_set D (bump 1 (bump 1 s)) = PPanic"
    proof (rule ccontr)
      assume "try_class_escape_set D (bump 1 (bump 1 s)) \<noteq> PPanic"
      with panic dash True obtain r s1 where "try_class_escape_set D (bump 1 (bump 1 s)) = POk (r, s1)"
        and r: "(case r of None \<Rightarrow> PPanic | Some (sub, negate) \<Rightarrow>
            POk (cps_union (cps_insert c_dash (cps_insert lo cps)) (if negate then cps_negate sub else sub), s1)) = PPanic"
        by (auto simp: finish_class_atom_def Let_def try_p_PPanic_iff split: if_splits)
      moreover from this have "r \<noteq> None" using class_escape_next [of "bump 1 (bump 1 s)" D s1] True by auto
      ultimately show False by (cases r) auto
    qed
    with True show ?thesis using class_escape_total(2) by blast
  next
    case False
    then show ?thesis
      using panic class_char_escape_total(2)
      by (auto simp: finish_class_atom_def Let_def try_p_PPanic_iff pattern_codepoint_total(2) insert_class_range_def
          split: if_splits)
  qed
  then show "dangling (ps_units s)"
    using dangling_dash [OF dash] dangling_backslash [of "bump 1 s"] by auto
qed

lemma class_member_total:
  assumes "peek s = Some c"
  shows "parse_class_member D cps s \<noteq> PFuel" and "parse_class_member D cps s = PPanic \<Longrightarrow> dangling (ps_units s)"
proof -
  show "parse_class_member D cps s \<noteq> PFuel"
    by (auto simp: parse_class_member_def try_p_PFuel_iff class_escape_total class_char_escape_total
        pattern_codepoint_total finish_class_atom_total split: option.splits if_splits)
  assume panic: "parse_class_member D cps s = PPanic"
  show "dangling (ps_units s)"
  proof (cases "peek s = Some c_bslash")
    case True
    have "dangling (ps_units s)" if "try_class_escape_set D (bump 1 s) = PPanic"
      using class_escape_total(2) [OF that] dangling_backslash [OF True] by simp
    moreover have "dangling (ps_units s)" if "try_class_escape_set D (bump 1 s) = POk (None, s1)"
      "parse_class_char_escape s1 = PPanic" for s1
      using class_escape_None [OF that(1)] class_char_escape_total(2) [OF that(2)] dangling_backslash [OF True] by simp
    moreover have "dangling (ps_units s)" if "try_class_escape_set D (bump 1 s) = POk (None, s1)"
      "parse_class_char_escape s1 = POk (lo, s2)" "finish_class_atom D cps lo s2 = PPanic" for s1 s2 lo
      using class_escape_None [OF that(1)] that(2) finish_class_atom_total(2) [OF that(3)]
        skips_fields(1) [OF class_char_escape(1) [OF True, of lo s2]] by simp
    moreover have "try_class_escape_set D (bump 1 s) \<noteq> POk (Some sn, s1)" for sn s1
      using panic True by (cases sn) (auto simp: parse_class_member_def split: if_splits)
    moreover have "try_class_escape_set D (bump 1 s) = PPanic \<or> (\<exists>s1. try_class_escape_set D (bump 1 s) = POk (None, s1)
        \<and> (parse_class_char_escape s1 = PPanic \<or> (\<exists>lo s2. parse_class_char_escape s1 = POk (lo, s2)
           \<and> finish_class_atom D cps lo s2 = PPanic)))"
      using panic True calculation(4) by (auto simp: parse_class_member_def try_p_PPanic_iff)
        (metis (no_types, lifting) option.exhaust option.simps(4) try_p_PPanic_iff split_conv surj_pair)+
    ultimately show ?thesis by blast
  next
    case False
    then obtain lo s1 where "read_pattern_codepoint s = POk (lo, s1)" "finish_class_atom D cps lo s1 = PPanic"
      using panic assms by (auto simp: parse_class_member_def try_p_PPanic_iff pattern_codepoint_total)
    then show ?thesis
      using finish_class_atom_total(2) skips_fields(1) [OF pattern_codepoint(2), of s lo s1] by fastforce
  qed
qed

lemma class_loop:
  assumes "class_loop D cps s = POk (cps', s')"
  shows "reads 1 s s'"
    and "ucd_names D \<Longrightarrow> prescan_loop D (ps_units s) (ps_pos s) True n ns = prescan_loop D (ps_units s) (ps_pos s') False n ns"
    and "ucd_valid D \<Longrightarrow> utf16 (ps_units s) \<Longrightarrow> cps_inv cps \<Longrightarrow> cps_inv cps'"
proof -
  have "reads 1 s s'
    \<and> (ucd_names D \<longrightarrow> prescan_loop D (ps_units s) (ps_pos s) True n ns = prescan_loop D (ps_units s) (ps_pos s') False n ns)
    \<and> (ucd_valid D \<longrightarrow> utf16 (ps_units s) \<longrightarrow> cps_inv cps \<longrightarrow> cps_inv cps')"
    using assms
  proof (induction D cps s rule: class_loop.induct)
    case (1 D cps s)
    from 1(2) obtain c where c: "peek s = Some c" by (subst (asm) class_loop.simps) (auto split: option.splits)
    show ?case
    proof (cases "c = c_rbrack")
      case True
      with 1(2) c have "s' = bump 1 s" "cps' = cps" by (subst (asm) class_loop.simps, simp)+
      moreover have "prescan_loop D (ps_units s) (ps_pos s) True n ns = prescan_loop D (ps_units s) (ps_pos s + 1) False n ns"
        using c True by (subst prescan_loop.simps) (simp add: peek_def del: get_at_Some_iff)
      ultimately show ?thesis using reads_bump [OF c] by simp
    next
      case False
      from 1(2) c False obtain cps1 s1 where m: "parse_class_member D cps s = POk (cps1, s1)"
        and rest: "class_loop D cps1 s1 = POk (cps', s')"
        by (subst (asm) class_loop.simps) auto
      note first = class_member [OF m c False]
      from 1(1) [OF c False m refl rest] first reads_trans [OF skips_reads [OF first(1)], of 1 s' 1]
        skips_fields(1) [OF first(1)]
      show ?thesis by (auto simp: skips_def)
    qed
  qed
  then show "reads 1 s s'"
    and "ucd_names D \<Longrightarrow> prescan_loop D (ps_units s) (ps_pos s) True n ns = prescan_loop D (ps_units s) (ps_pos s') False n ns"
    and "ucd_valid D \<Longrightarrow> utf16 (ps_units s) \<Longrightarrow> cps_inv cps \<Longrightarrow> cps_inv cps'" by blast+
qed

lemma class_loop_total: "class_loop D cps s \<noteq> PFuel \<and> (class_loop D cps s = PPanic \<longrightarrow> dangling (ps_units s))"
proof (induction D cps s rule: class_loop.induct)
  case (1 D cps s)
  show ?case
  proof (cases "\<exists>c. peek s = Some c \<and> c \<noteq> c_rbrack")
    case True
    then obtain c where c: "peek s = Some c" "c \<noteq> c_rbrack" by blast
    then have eq: "class_loop D cps s = try_p (parse_class_member D cps s) (\<lambda>(cps, s). class_loop D cps s)"
      by (subst class_loop.simps) simp
    show ?thesis
    proof (cases "parse_class_member D cps s")
      case (POk r)
      obtain cps1 s1 where r: "r = (cps1, s1)" by (cases r)
      show ?thesis using 1 [OF c POk r [symmetric]] POk r eq skips_fields(1) [OF class_member(1) [OF _ c], of D cps cps1 s1]
        by simp
    qed (use class_member_total [OF c(1), of D cps] eq in auto)
  next
    case False
    then show ?thesis by (subst (1 2) class_loop.simps) (auto split: option.splits)
  qed
qed

lemma enter_Ok: "enter s = POk s' \<longleftrightarrow> ps_depth s < MAX_NESTING_DEPTH \<and> s' = s\<lparr>ps_depth := ps_depth s + 1\<rparr>"
  by (auto simp: enter_def Let_def)

lemma enter_total: "enter s \<noteq> PFuel" "enter s \<noteq> PPanic"
  by (simp_all add: enter_def Let_def)

text \<open>Entering, reading and leaving is reading.\<close>

lemma reads_level: "reads m (s\<lparr>ps_depth := ps_depth s + 1\<rparr>) s' \<Longrightarrow> reads m s (leave s')"
proof -
  assume "reads m (s\<lparr>ps_depth := ps_depth s + 1\<rparr>) s'"
  then obtain k where "m \<le> k" "s' = bump k (s\<lparr>ps_depth := ps_depth s + 1\<rparr>)"
    "k = 0 \<or> ps_pos s + k \<le> length (ps_units s)" by (auto simp: reads_def)
  then show ?thesis unfolding reads_def by (intro exI [of _ k]) (auto simp: bump_def leave_def)
qed

lemma legacy_class:
  assumes "parse_legacy_class D s = POk (n, s')" and "peek s = Some c_lbrack"
  shows "skips D False 1 s s'"
    and "\<exists>cps negate. n = NClass (from_code_points cps) negate (ignore_case (ps_flags s))
      \<and> (ucd_valid D \<longrightarrow> utf16 (ps_units s) \<longrightarrow> cps_inv cps)"
proof -
  let ?t = "s\<lparr>ps_depth := ps_depth s + 1\<rparr>"
  let ?c = "if peek (bump 1 ?t) = Some c_caret then bump 1 (bump 1 ?t) else bump 1 ?t"
  from assms(1) obtain cps s1 negate where loop: "class_loop D cps_new ?c = POk (cps, s1)"
    and res: "s' = leave s1" "n = class_node (leave s1) (from_code_points cps) negate"
    by (auto simp: parse_legacy_class_def enter_Ok Let_def split: if_splits)
  have t: "peek ?t = Some c_lbrack" using assms(2) by (simp add: peek_def)
  have caret: "skips D True 0 (bump 1 ?t) ?c"
    using skips_plain [of "bump 1 ?t" c_caret True D] by (auto simp: quiet_unit_def intro: skips_mono)
  have c: "reads 1 ?t ?c" using reads_trans [OF reads_bump [OF t] skips_reads [OF caret]] by simp
  have r: "reads 1 s s'"
    using reads_trans [OF c class_loop(1) [OF loop]] reads_level [of 1 s s1] by (simp add: res)
  have "prescan_loop D (ps_units s) (ps_pos s) False n ns = prescan_loop D (ps_units s) (ps_pos s') False n ns"
    if names: "ucd_names D" for n ns
  proof -
    have "prescan_loop D (ps_units s) (ps_pos s) False n ns = prescan_loop D (ps_units s) (ps_pos s + 1) True n ns"
      using assms(2) by (subst prescan_loop.simps) (simp add: peek_def del: get_at_Some_iff)
    also have "\<dots> = prescan_loop D (ps_units s) (ps_pos ?c) True n ns"
      using caret names by (auto simp: skips_def)
    also have "\<dots> = prescan_loop D (ps_units s) (ps_pos s') False n ns"
      using class_loop(2) [OF loop names, of n ns] skips_fields(1) [OF caret] by (simp add: res leave_def del: split_paired_All)
    finally show ?thesis .
  qed
  with r show "skips D False 1 s s'" by (simp add: skips_def)
  show "\<exists>cps negate. n = NClass (from_code_points cps) negate (ignore_case (ps_flags s))
      \<and> (ucd_valid D \<longrightarrow> utf16 (ps_units s) \<longrightarrow> cps_inv cps)"
    using res class_loop(3) [OF loop] reads_fields(2) [OF r] by (auto simp: class_node_def)
qed

lemma legacy_class_total:
  "parse_legacy_class D s \<noteq> PFuel" "parse_legacy_class D s = PPanic \<Longrightarrow> dangling (ps_units s)"
  using class_loop_total
  by (auto simp: parse_legacy_class_def try_p_PFuel_iff try_p_PPanic_iff enter_total enter_Ok Let_def split: if_splits)
    fastforce+

section \<open>String alternatives\<close>

lemma alternative_loop_total:
  "alternative_loop alt s \<noteq> PFuel \<and> (alternative_loop alt s = PPanic \<longrightarrow> dangling (ps_units s))"
proof (induction alt s rule: alternative_loop.induct)
  case (1 alt s)
  show ?case
  proof (cases "\<exists>c. peek s = Some c \<and> \<not> (c = c_bar \<or> c = c_rbrace)")
    case True
    then obtain c where c: "peek s = Some c" "\<not> (c = c_bar \<or> c = c_rbrace)" by blast
    then have eq: "alternative_loop alt s = try_p (try_class_set_character s) (\<lambda>(r, s').
        case r of None \<Rightarrow> PErr (err s' (''invalid '' @ CHR 0x5C # ''q{...} alternative''))
        | Some cp \<Rightarrow> alternative_loop (alt @ [cp]) s')"
      by (subst alternative_loop.simps) auto
    show ?thesis
    proof (cases "try_class_set_character s")
      case (POk x)
      then obtain r s1 where r: "try_class_set_character s = POk (r, s1)" by (cases x) auto
      show ?thesis
      proof (cases r)
        case None
        then show ?thesis using eq r by simp
      next
        case (Some cp)
        have "ps_units s1 = ps_units s" using reads_fields(1) [OF class_set_character(2) [OF r Some]] .
        then show ?thesis using 1 [OF c r refl Some] eq r Some by simp
      qed
    qed (use class_set_character_total [of s] eq dangling_backslash in auto)
  next
    case False
    then show ?thesis by (subst (1 2) alternative_loop.simps) (auto split: option.splits)
  qed
qed

lemma string_disjunction_loop:
  "string_disjunction_loop cs s = POk (cs', s') \<Longrightarrow>
    reads 1 s s' \<and> (utf16 (ps_units s) \<longrightarrow> class_inv cs \<longrightarrow> class_inv cs')"
proof (induction cs s rule: string_disjunction_loop.induct)
  case (1 cs s)
  from 1(2) obtain alt s1 where a: "alternative_loop [] s = POk (alt, s1)"
    and rest: "(if peek s1 = Some c_rbrace then POk (add_alternative alt cs, bump 1 s1)
      else if peek s1 = Some c_bar then string_disjunction_loop (add_alternative alt cs) (bump 1 s1)
      else PErr (err s1 (''unterminated '' @ CHR 0x5C # ''q{...}''))) = POk (cs', s')"
    by (subst (asm) string_disjunction_loop.simps) auto
  note first = alternative_loop [OF a]
  have units: "ps_units s1 = ps_units s" using first reads_fields(1) by blast
  have inv: "utf16 (ps_units s) \<longrightarrow> class_inv cs \<longrightarrow> class_inv (add_alternative alt cs)"
    using first add_alternative_correct(1) by simp
  show ?case
  proof (cases "peek s1 = Some c_rbrace")
    case True
    then have "reads 1 s (bump 1 s1)" using first reads_trans [OF _ reads_bump [OF True], of 0 s 1] by simp
    then show ?thesis using rest True inv by auto
  next
    case False
    then have bar: "peek s1 = Some c_bar" using rest by (simp split: if_splits)
    with rest False have loop: "string_disjunction_loop (add_alternative alt cs) (bump 1 s1) = POk (cs', s')" by simp
    have one: "reads 1 s (bump 1 s1)" using first reads_trans [OF _ reads_bump [OF bar], of 0 s 1] by simp
    from 1(1) [OF a refl False bar loop] show ?thesis
      using reads_trans [OF one, of 1 s' 1] units inv by simp
  qed
qed

lemma string_disjunction_loop_total:
  "string_disjunction_loop cs s \<noteq> PFuel \<and> (string_disjunction_loop cs s = PPanic \<longrightarrow> dangling (ps_units s))"
proof (induction cs s rule: string_disjunction_loop.induct)
  case (1 cs s)
  note eq = string_disjunction_loop.simps [of cs s]
  show ?case
  proof (cases "alternative_loop [] s")
    case (POk x)
    then obtain alt s1 where a: "alternative_loop [] s = POk (alt, s1)" by (cases x) auto
    have units: "ps_units s1 = ps_units s" using alternative_loop [OF a] reads_fields(1) by blast
    show ?thesis using 1 [OF a refl] a units eq by auto
  qed (use alternative_loop_total [of "[]" s] eq in auto)
qed

lemma string_disjunction:
  assumes "parse_class_string_disjunction s = POk (cs, s')"
  shows "reads 0 s s'" and "utf16 (ps_units s) \<Longrightarrow> class_inv cs"
proof -
  from assms have b: "peek s = Some c_lbrace" and l: "string_disjunction_loop class_default (bump 1 s) = POk (cs, s')"
    by (auto simp: parse_class_string_disjunction_def split: if_splits)
  show "reads 0 s s'" using reads_trans [OF reads_bump [OF b]] string_disjunction_loop [OF l] by fastforce
  show "utf16 (ps_units s) \<Longrightarrow> class_inv cs" using string_disjunction_loop [OF l] class_default_correct by simp
qed

lemma string_disjunction_total:
  "parse_class_string_disjunction s \<noteq> PFuel" "parse_class_string_disjunction s = PPanic \<Longrightarrow> dangling (ps_units s)"
  using string_disjunction_loop_total [of class_default "bump 1 s"]
  by (auto simp: parse_class_string_disjunction_def split: if_splits)

section \<open>Nested classes\<close>

lemma escape_operand:
  assumes "parse_escape_operand D s = POk (cs, s')"
    and "peek s = Some c_bslash"
  shows "reads 1 s s'" and "ucd_valid D \<Longrightarrow> utf16 (ps_units s) \<Longrightarrow> class_inv cs"
proof -
  from assms(1) obtain r s1 where r: "try_class_escape_set D (bump 1 s) = POk (r, s1)"
    "(case r of Some (sub, negate) \<Rightarrow> POk (from_code_points (if negate then cps_negate sub else sub), s1)
      | None \<Rightarrow> try_p (parse_class_char_escape s1) (\<lambda>(cp, s). POk (single_class cp, s))) = POk (cs, s')" by (auto simp: parse_escape_operand_def)
  have "reads 1 s s' \<and> (ucd_valid D \<longrightarrow> utf16 (ps_units s) \<longrightarrow> class_inv cs)"
  proof (cases r)
    case None
    then have s1: "s1 = bump 1 s" using r(1) class_escape_None by simp
    with None r(2) obtain cp where cp: "parse_class_char_escape (bump 1 s) = POk (cp, s')" "cs = single_class cp" by auto
    then show ?thesis
      using class_char_escape [OF assms(2) cp(1)] skips_reads
      by (auto simp: single_class_def from_code_points_correct cps_insert_correct)
  next
    case (Some sn)
    obtain sub negate where sn: "sn = (sub, negate)" by (cases sn)
    have esc: "try_class_escape_set D (bump 1 s) = POk (Some (sub, negate), s')"
      and cs: "cs = from_code_points (if negate then cps_negate sub else sub)" using r Some sn by auto
    show ?thesis
      using skips_reads [OF skips_mono [OF class_escape_Some(1) [OF assms(2) esc], of 1]] class_escape_Some(2) [OF assms(2) esc]
      by (auto simp: cs from_code_points_correct cps_negate_correct)
  qed
  then show "reads 1 s s'" and "ucd_valid D \<Longrightarrow> utf16 (ps_units s) \<Longrightarrow> class_inv cs" by simp_all
qed

lemma escape_operand_total:
  assumes "peek s = Some c_bslash"
  shows "parse_escape_operand D s \<noteq> PFuel" and "parse_escape_operand D s = PPanic \<Longrightarrow> dangling (ps_units s)"
proof -
  note eq = parse_escape_operand_def [of D s]
  have "parse_escape_operand D s \<noteq> PFuel \<and> (parse_escape_operand D s = PPanic \<longrightarrow> peek (bump 1 s) = None)"
  proof (cases "try_class_escape_set D (bump 1 s)")
    case (POk x)
    then obtain r s1 where r: "try_class_escape_set D (bump 1 s) = POk (r, s1)" by (cases x) auto
    show ?thesis
    proof (cases r)
      case None
      then show ?thesis using r eq class_escape_None [of D "bump 1 s" s1] class_char_escape_total [of s1]
        by (auto simp: try_p_PFuel_iff try_p_PPanic_iff)
    next
      case (Some sn)
      then show ?thesis using r eq by (cases sn) auto
    qed
  qed (use class_escape_total [of D "bump 1 s"] eq in auto)
  then show "parse_escape_operand D s \<noteq> PFuel" and "parse_escape_operand D s = PPanic \<Longrightarrow> dangling (ps_units s)"
    using dangling_backslash [OF assms] by auto
qed

lemma remaining_less_fuel: "length (ps_units s) - ps_pos s < loop_fuel s"
  by (simp add: loop_fuel_def)

locale nested_class =
  fixes D :: ucd and lv :: nat and nested :: class_set_parser
  assumes nested_ok: "nested s = POk ((cs, negate), s') \<Longrightarrow> peek s = Some c_lbrack \<Longrightarrow>
      reads 1 s s' \<and> (ucd_valid D \<longrightarrow> utf16 (ps_units s) \<longrightarrow> class_inv cs \<and> (negate \<longrightarrow> strings cs = []))"
    and nested_fuel: "ps_depth s \<le> MAX_NESTING_DEPTH \<Longrightarrow> MAX_NESTING_DEPTH < ps_depth s + lv \<Longrightarrow> nested s \<noteq> PFuel"
    and nested_panic: "nested s = PPanic \<Longrightarrow> dangling (ps_units s)"
begin

lemma operand_ok:
  assumes "parse_class_set_operand D nested s = POk (cs, s')"
  shows "reads 1 s s'" and "ucd_valid D \<Longrightarrow> utf16 (ps_units s) \<Longrightarrow> class_inv cs"
proof -
  have two: "reads 2 s (bump 2 s)" if "peek s = Some c_bslash" "peek_at s 1 = Some c" for c
    using that by (auto simp: reads_def peek_def peek_at_def)
  have "reads 1 s s' \<and> (ucd_valid D \<longrightarrow> utf16 (ps_units s) \<longrightarrow> class_inv cs)"
  proof (cases "peek s = Some c_lbrack")
    case True
    then show ?thesis using assms nested_ok by (auto simp: parse_class_set_operand_def)
  next
    case no_brack: False
    show ?thesis
    proof (cases "peek s = Some c_bslash")
      case True
      consider "peek_at s 1 = Some c_q"
        | "peek_at s 1 \<noteq> Some c_q" "peek_at s 1 = Some c_p \<or> peek_at s 1 = Some c_P" "ps_unicode s"
        | "peek_at s 1 \<noteq> Some c_q" "\<not> ((peek_at s 1 = Some c_p \<or> peek_at s 1 = Some c_P) \<and> ps_unicode s)"
        by blast
      then show ?thesis
      proof cases
        case 1
        then have "parse_class_string_disjunction (bump 2 s) = POk (cs, s')"
          using assms True by (simp add: parse_class_set_operand_def)
        then show ?thesis using string_disjunction reads_trans [OF two [OF True 1]] by fastforce
      next
        case 2
        then have "parse_property_set_v D (peek_at s 1 = Some c_P) (bump 2 s) = POk (cs, s')"
          using assms True by (simp add: parse_class_set_operand_def)
        moreover have "reads 2 s (bump 2 s)" using two [OF True] 2(2) by blast
        ultimately show ?thesis
          using property_set_v skips_reads reads_trans [of 2 s "bump 2 s" 2 s' 1] by fastforce
      next
        case 3
        then have "parse_escape_operand D s = POk (cs, s')"
          using assms True by (auto simp: parse_class_set_operand_def split: if_splits)
        then show ?thesis using escape_operand [OF _ True] by blast
      qed
    next
      case False
      then obtain cp where cp: "try_class_set_character s = POk (Some cp, s')" "cs = single_class cp"
        using assms no_brack by (auto simp: parse_class_set_operand_def)
      then show ?thesis using class_set_character(2,3) [OF cp(1) refl]
        by (auto simp: single_class_def from_code_points_correct cps_insert_correct)
    qed
  qed
  then show "reads 1 s s'" and "ucd_valid D \<Longrightarrow> utf16 (ps_units s) \<Longrightarrow> class_inv cs" by simp_all
qed

lemma operand_fuel:
  "ps_depth s \<le> MAX_NESTING_DEPTH \<Longrightarrow> MAX_NESTING_DEPTH < ps_depth s + lv \<Longrightarrow> parse_class_set_operand D nested s \<noteq> PFuel"
  using nested_fuel [of s] escape_operand_total(1) [of s D]
  by (auto simp: parse_class_set_operand_def try_p_PFuel_iff string_disjunction_total property_set_v_total
      class_set_character_total split: if_splits)

lemma operand_panic:
  assumes "parse_class_set_operand D nested s = PPanic"
  shows "dangling (ps_units s)"
  using assms nested_panic [of s] escape_operand_total(2) [of s D] string_disjunction_total(2) [of "bump 2 s"]
    class_set_character_total(2) [of s] dangling_backslash [of s]
  by (auto simp: parse_class_set_operand_def try_p_PPanic_iff property_set_v_total split: if_splits)

lemma member_ok:
  assumes "parse_class_set_union_member D nested acc s = POk (cs, s')"
  shows "reads 1 s s'" and "ucd_valid D \<Longrightarrow> utf16 (ps_units s) \<Longrightarrow> class_inv acc \<Longrightarrow> class_inv cs"
proof -
  from assms obtain r s1 where r: "try_class_set_character s = POk (r, s1)"
    and rest: "(case r of
      Some lo \<Rightarrow>
        (if peek s1 = Some c_dash \<and> peek_at s1 1 \<noteq> Some c_dash \<and> peek_at s1 1 \<noteq> Some c_rbrack then
           try_p (try_class_set_character (bump 1 s1)) (\<lambda>(r, s).
           try_p (ok_or r (err s ''character class range needs a character upper bound'')) (\<lambda>hi.
           if lo > hi then PErr (err s ''character class range out of order'')
           else POk (acc\<lparr>code_points := insert_range lo hi (code_points acc)\<rparr>, s)))
         else POk (acc\<lparr>code_points := cps_insert lo (code_points acc)\<rparr>, s1))
    | None \<Rightarrow>
        try_p (parse_class_set_operand D nested s1) (\<lambda>(operand, s). POk (class_union acc operand, s))) = POk (cs, s')"
    by (auto simp: parse_class_set_union_member_def)
  have "reads 1 s s' \<and> (ucd_valid D \<longrightarrow> utf16 (ps_units s) \<longrightarrow> class_inv acc \<longrightarrow> class_inv cs)"
  proof (cases r)
    case None
    then have "s1 = s" using class_set_character(1) [OF r] by simp
    with None rest operand_ok [of s _ s'] show ?thesis by (auto intro!: class_union_correct(1))
  next
    case (Some lo)
    note first = class_set_character(2,3) [OF r Some]
    show ?thesis
    proof (cases "peek s1 = Some c_dash \<and> peek_at s1 1 \<noteq> Some c_dash \<and> peek_at s1 1 \<noteq> Some c_rbrack")
      case True
      with Some rest obtain hi where hi: "try_class_set_character (bump 1 s1) = POk (Some hi, s')"
        "cs = acc\<lparr>code_points := insert_range lo hi (code_points acc)\<rparr>" by (auto split: if_splits)
      have "reads 1 s1 (bump 1 s1)" using True by (intro reads_bump) auto
      from reads_trans [OF reads_trans [OF first(1) this order_refl] class_set_character(2) [OF hi(1) refl], of 1]
      show ?thesis
        using class_set_character(3) [OF hi(1) refl] reads_fields(1) [OF first(1)] hi(2)
        by (auto simp: class_inv_def insert_range_correct)
    next
      case False
      then have "s' = s1" "cs = acc\<lparr>code_points := cps_insert lo (code_points acc)\<rparr>" using Some rest by auto
      then show ?thesis using first by (auto simp: class_inv_def cps_insert_correct)
    qed
  qed
  then show "reads 1 s s'" and "ucd_valid D \<Longrightarrow> utf16 (ps_units s) \<Longrightarrow> class_inv acc \<Longrightarrow> class_inv cs" by simp_all
qed

lemma member_total:
  assumes "ps_depth s \<le> MAX_NESTING_DEPTH" and "MAX_NESTING_DEPTH < ps_depth s + lv"
  shows "parse_class_set_union_member D nested acc s \<noteq> PFuel"
proof (cases "try_class_set_character s")
  case (POk x)
  then obtain r s1 where r: "try_class_set_character s = POk (r, s1)" by (cases x) auto
  show ?thesis
  proof (cases r)
    case None
    then show ?thesis using r class_set_character(1) [OF r None] operand_fuel [OF assms]
      by (simp add: parse_class_set_union_member_def try_p_PFuel_iff)
  next
    case (Some lo)
    then show ?thesis using r
      by (auto simp: parse_class_set_union_member_def try_p_PFuel_iff class_set_character_total)
  qed
qed (use class_set_character_total [of s] in \<open>auto simp: parse_class_set_union_member_def\<close>)

lemma member_panic:
  assumes "parse_class_set_union_member D nested acc s = PPanic"
  shows "dangling (ps_units s)"
proof (cases "try_class_set_character s")
  case (POk x)
  then obtain r s1 where r: "try_class_set_character s = POk (r, s1)" by (cases x) auto
  show ?thesis
  proof (cases r)
    case None
    then show ?thesis using assms r class_set_character(1) [OF r None] operand_panic [of s]
      by (auto simp: parse_class_set_union_member_def try_p_PPanic_iff)
  next
    case (Some lo)
    then show ?thesis
      using assms r reads_fields(1) [OF class_set_character(2) [OF r Some]] class_set_character_total(2) [of "bump 1 s1"]
        dangling_backslash [of "bump 1 s1"]
      by (auto simp: parse_class_set_union_member_def try_p_PPanic_iff split: if_splits)
  qed
qed (use assms class_set_character_total [of s] dangling_backslash in \<open>auto simp: parse_class_set_union_member_def\<close>)

text \<open>The operator and union loops. Each round moves the cursor, so a bound of one more than the
  remaining units is enough.\<close>

lemma operator_ok:
  assumes "operator_loop D nested c f k cs s = POk (cs', s')"
    and "\<And>x y. class_inv x \<Longrightarrow> class_inv y \<Longrightarrow> class_inv (f x y)"
  shows "reads 0 s s' \<and> (ucd_valid D \<longrightarrow> utf16 (ps_units s) \<longrightarrow> class_inv cs \<longrightarrow> class_inv cs')"
  using assms(1)
proof (induction k arbitrary: cs s)
  case (Suc k)
  show ?case
  proof (cases "peek s = Some c \<and> peek_at s 1 = Some c")
    case True
    with Suc.prems obtain d s1 where d: "parse_class_set_operand D nested (bump 2 s) = POk (d, s1)"
      "operator_loop D nested c f k (f cs d) s1 = POk (cs', s')" by auto
    have "reads 2 s (bump 2 s)" using True by (auto simp: reads_def peek_def peek_at_def)
    from reads_trans [OF this operand_ok(1) [OF d(1)] order_refl] have one: "reads (2 + 1) s s1" .
    show ?thesis
      using Suc.IH [OF d(2)] reads_trans [OF one, of 0 s' 0] operand_ok(2) [OF d(1)] assms(2) reads_fields(1) [OF one]
      by simp
  qed (use Suc.prems in auto)
qed simp

lemma operator_total:
  assumes "ps_depth s \<le> MAX_NESTING_DEPTH" and "MAX_NESTING_DEPTH < ps_depth s + lv"
    and "length (ps_units s) - ps_pos s < k"
  shows "operator_loop D nested c f k cs s \<noteq> PFuel"
  using assms
proof (induction k arbitrary: cs s)
  case (Suc k)
  have "operator_loop D nested c f k (f cs d) s1 \<noteq> PFuel"
    if "peek s = Some c" "peek_at s 1 = Some c" "parse_class_set_operand D nested (bump 2 s) = POk (d, s1)" for d s1
    using reads_fields(1,3,8) [OF operand_ok(1) [OF that(3)]] Suc.prems peek_SomeD [OF that(1)] by (intro Suc.IH) auto
  then show ?case using operand_fuel [of "bump 2 s"] Suc.prems(1,2) by (auto simp: try_p_PFuel_iff)
qed simp

lemma operator_panic: "operator_loop D nested c f k cs s = PPanic \<Longrightarrow> dangling (ps_units s)"
proof (induction k arbitrary: cs s)
  case (Suc k)
  have "dangling (ps_units s)" if "parse_class_set_operand D nested (bump 2 s) = POk (d, s1)"
    "operator_loop D nested c f k (f cs d) s1 = PPanic" for d s1
    using Suc.IH [OF that(2)] reads_fields(1) [OF operand_ok(1) [OF that(1)]] by simp
  then show ?case using Suc.prems operand_panic [of "bump 2 s"] by (auto simp: try_p_PPanic_iff split: if_splits)
qed simp

lemma union_ok:
  assumes "union_loop D nested k cs s = POk (cs', s')"
  shows "reads 0 s s' \<and> (ucd_valid D \<longrightarrow> utf16 (ps_units s) \<longrightarrow> class_inv cs \<longrightarrow> class_inv cs')"
  using assms
proof (induction k arbitrary: cs s)
  case (Suc k)
  show ?case
  proof (cases "peek s \<noteq> None \<and> peek s \<noteq> Some c_rbrack")
    case True
    with Suc.prems obtain d s1 where d: "parse_class_set_union_member D nested cs s = POk (d, s1)"
      "union_loop D nested k d s1 = POk (cs', s')" by auto
    show ?thesis
      using Suc.IH [OF d(2)] reads_trans [OF member_ok(1) [OF d(1)], of 0 s' 0] member_ok(2) [OF d(1)]
        reads_fields(1) [OF member_ok(1) [OF d(1)]] by simp
  qed (use Suc.prems in \<open>auto split: if_splits\<close>)
qed simp

lemma union_total:
  assumes "ps_depth s \<le> MAX_NESTING_DEPTH" and "MAX_NESTING_DEPTH < ps_depth s + lv"
    and "length (ps_units s) - ps_pos s < k"
  shows "union_loop D nested k cs s \<noteq> PFuel"
  using assms
proof (induction k arbitrary: cs s)
  case (Suc k)
  have "union_loop D nested k d s1 \<noteq> PFuel"
    if "peek s \<noteq> None" "parse_class_set_union_member D nested cs s = POk (d, s1)" for d s1
    using reads_fields(1,3,8) [OF member_ok(1) [OF that(2)]] Suc.prems that(1) peek_SomeD [of s] by (intro Suc.IH) auto
  then show ?case using member_total [of s cs] Suc.prems(1,2) by (auto simp: try_p_PFuel_iff)
qed simp

lemma union_panic: "union_loop D nested k cs s = PPanic \<Longrightarrow> dangling (ps_units s)"
proof (induction k arbitrary: cs s)
  case (Suc k)
  have "dangling (ps_units s)" if "parse_class_set_union_member D nested cs s = POk (d, s1)"
    "union_loop D nested k d s1 = PPanic" for d s1
    using Suc.IH [OF that(2)] reads_fields(1) [OF member_ok(1) [OF that(1)]] by simp
  then show ?case using Suc.prems member_panic [of cs s] by (auto simp: try_p_PPanic_iff split: if_splits)
qed simp

lemma rest_ok:
  assumes "class_set_rest D nested cs s = POk (cs', s')"
  shows "reads 0 s s' \<and> (ucd_valid D \<longrightarrow> utf16 (ps_units s) \<longrightarrow> class_inv cs \<longrightarrow> class_inv cs')"
  using assms operator_ok [of c_amp class_intersection _ cs s cs' s'] operator_ok [of c_dash class_difference _ cs s cs' s']
    union_ok [of _ cs s cs' s'] class_intersection_correct(1) class_difference_correct(1)
  by (auto simp: class_set_rest_def split: if_splits)

lemma rest_total:
  "ps_depth s \<le> MAX_NESTING_DEPTH \<Longrightarrow> MAX_NESTING_DEPTH < ps_depth s + lv \<Longrightarrow> class_set_rest D nested cs s \<noteq> PFuel"
  using operator_total union_total remaining_less_fuel [of s] by (auto simp: class_set_rest_def)

lemma rest_panic: "class_set_rest D nested cs s = PPanic \<Longrightarrow> dangling (ps_units s)"
  using operator_panic union_panic by (auto simp: class_set_rest_def split: if_splits)

end

lemma finish_class_set:
  "finish_class_set cs negate s = POk ((cs', negate'), s') \<Longrightarrow>
    s' = s \<and> (class_inv cs \<longrightarrow> class_inv cs') \<and> (negate' \<longrightarrow> strings cs' = [])"
  "finish_class_set cs negate s \<noteq> PFuel" "finish_class_set cs negate s \<noteq> PPanic"
  using negate_code_points_correct(1) [of cs]
  by (auto simp: finish_class_set_def negate_code_points_def split: if_splits)

text \<open>One level of a class: the opening bracket and the caret, the members, the closing bracket.\<close>

definition class_open :: "parser \<Rightarrow> parser" where
  "class_open s =
    (let t = bump 1 (s\<lparr>ps_depth := ps_depth s + 1\<rparr>) in if peek t = Some c_caret then bump 1 t else t)"

lemma class_open:
  "peek s = Some c_lbrack \<Longrightarrow> reads 1 (s\<lparr>ps_depth := ps_depth s + 1\<rparr>) (class_open s)"
  "ps_units (class_open s) = ps_units s" "ps_depth (class_open s) = ps_depth s + 1"
  using reads_bump [of "s\<lparr>ps_depth := ps_depth s + 1\<rparr>" c_lbrack]
    reads_trans [OF reads_bump reads_bump, of "s\<lparr>ps_depth := ps_depth s + 1\<rparr>" c_lbrack c_caret 1]
  by (auto simp: class_open_def Let_def peek_def)

lemma parse_class_set_Suc:
  "parse_class_set D (Suc n) s =
    (if ps_depth s < MAX_NESTING_DEPTH then
       (let neg = (peek (bump 1 s) = Some c_caret); t = class_open s
        in if peek t = Some c_rbrack then finish_class_set class_default neg (leave (bump 1 t))
           else
             try_p (parse_class_set_union_member D (parse_class_set D n) class_default t) (\<lambda>(cs, s).
             try_p (class_set_rest D (parse_class_set D n) cs s) (\<lambda>(cs, s).
             if peek s = Some c_rbrack then finish_class_set cs neg (leave (bump 1 s))
             else PErr (err s ''unterminated character class''))))
     else PErr (TooDeep MAX_NESTING_DEPTH))"
  by (auto simp: enter_def class_open_def Let_def peek_def bump_def intro!: arg_cong [of _ _ "try_p _"] ext)

declare parse_class_set.simps [simp del]

lemma class_set_step:
  assumes "nested_class D n (parse_class_set D n)"
  shows "parse_class_set D (Suc n) s = POk ((cs, negate), s') \<Longrightarrow> peek s = Some c_lbrack \<Longrightarrow>
      reads 1 s s' \<and> (ucd_valid D \<longrightarrow> utf16 (ps_units s) \<longrightarrow> class_inv cs \<and> (negate \<longrightarrow> strings cs = []))"
    and "parse_class_set D (Suc n) s = PPanic \<Longrightarrow> dangling (ps_units s)"
    and "ps_depth s \<le> MAX_NESTING_DEPTH \<Longrightarrow> MAX_NESTING_DEPTH < ps_depth s + Suc n \<Longrightarrow> parse_class_set D (Suc n) s \<noteq> PFuel"
proof -
  let ?t = "class_open s" and ?up = "s\<lparr>ps_depth := ps_depth s + 1\<rparr>"
  note member = nested_class.member_ok [OF assms] and rest = nested_class.rest_ok [OF assms]
  show "reads 1 s s' \<and> (ucd_valid D \<longrightarrow> utf16 (ps_units s) \<longrightarrow> class_inv cs \<and> (negate \<longrightarrow> strings cs = []))"
    if ok: "parse_class_set D (Suc n) s = POk ((cs, negate), s')" and b: "peek s = Some c_lbrack"
  proof (cases "peek ?t = Some c_rbrack")
    case True
    then obtain neg where f: "finish_class_set class_default neg (leave (bump 1 ?t)) = POk ((cs, negate), s')"
      using ok by (auto simp: parse_class_set_Suc Let_def split: if_splits)
    have "reads 1 s (leave (bump 1 ?t))"
      using reads_level reads_trans [OF class_open(1) [OF b] reads_bump [OF True]] by simp
    then show ?thesis using finish_class_set(1) [OF f] class_default_correct by simp
  next
    case False
    then obtain neg c1 s1 c2 s2 where m: "parse_class_set_union_member D (parse_class_set D n) class_default ?t = POk (c1, s1)"
      and r: "class_set_rest D (parse_class_set D n) c1 s1 = POk (c2, s2)" "peek s2 = Some c_rbrack"
      and f: "finish_class_set c2 neg (leave (bump 1 s2)) = POk ((cs, negate), s')"
      using ok by (auto simp: parse_class_set_Suc Let_def split: if_splits)
    have one: "reads 1 ?up s1" using reads_trans [OF class_open(1) [OF b] member(1) [OF m]] by simp
    have "reads 1 ?up s2" using reads_trans [OF one, of 0 s2 1] rest [OF r(1)] by simp
    then have "reads 1 s (leave (bump 1 s2))" using reads_level reads_trans [OF _ reads_bump [OF r(2)]] by simp
    moreover have "ucd_valid D \<longrightarrow> utf16 (ps_units s) \<longrightarrow> class_inv c2"
      using member(2) [OF m] rest [OF r(1)] class_default_correct reads_fields(1) [OF one] class_open(2) by simp
    ultimately show ?thesis using finish_class_set(1) [OF f] by simp
  qed
  let ?m = "parse_class_set_union_member D (parse_class_set D n) class_default ?t"
  show "dangling (ps_units s)" if "parse_class_set D (Suc n) s = PPanic"
  proof -
    have "?m = PPanic \<or> (\<exists>c1 s1. ?m = POk (c1, s1) \<and> class_set_rest D (parse_class_set D n) c1 s1 = PPanic)"
      using that finish_class_set(3) by (auto simp: parse_class_set_Suc Let_def try_p_PPanic_iff split: if_splits)
    then show ?thesis
      using nested_class.member_panic [OF assms, of class_default ?t] nested_class.rest_panic [OF assms]
        reads_fields(1) [OF member(1), of class_default ?t] class_open(2) [of s] by metis
  qed
  show "parse_class_set D (Suc n) s \<noteq> PFuel"
    if d: "ps_depth s \<le> MAX_NESTING_DEPTH" "MAX_NESTING_DEPTH < ps_depth s + Suc n"
  proof
    assume "parse_class_set D (Suc n) s = PFuel"
    then have less: "ps_depth s < MAX_NESTING_DEPTH"
      and "?m = PFuel \<or> (\<exists>c1 s1. ?m = POk (c1, s1) \<and> class_set_rest D (parse_class_set D n) c1 s1 = PFuel)"
      using finish_class_set(2) by (auto simp: parse_class_set_Suc Let_def try_p_PFuel_iff split: if_splits)
    moreover have "ps_depth ?t \<le> MAX_NESTING_DEPTH" "MAX_NESTING_DEPTH < ps_depth ?t + n"
      using less d class_open(3) [of s] by simp_all
    ultimately show False
      using nested_class.member_total [OF assms, of ?t class_default] nested_class.rest_total [OF assms]
        reads_fields(3) [OF member(1), of class_default ?t] by metis
  qed
qed

lemma nested_class_levels: "nested_class D n (parse_class_set D n)"
proof (induction n)
  case (Suc n)
  show ?case by unfold_locales (rule class_set_step [OF Suc.IH]; assumption)+
qed (unfold_locales, auto simp: parse_class_set.simps(1))

interpretation vset: nested_class D n "parse_class_set D n" for D n
  by (rule nested_class_levels)

section \<open>Classes as atoms\<close>

lemma strings_of_code_points: "strings (from_code_points cps) = []"
  by (simp add: from_code_points_def)

lemma class_atom:
  assumes "parse_class D s = POk (n, s')" and "peek s = Some c_lbrack"
  shows "reads 1 s s'" and "\<not> unicode_sets (ps_flags s) \<Longrightarrow> skips D False 1 s s'"
    and "\<exists>cs negate ic. n = NClass cs negate ic
      \<and> (ucd_valid D \<longrightarrow> utf16 (ps_units s) \<longrightarrow> class_inv cs \<and> (strings cs = [] \<or> \<not> negate))"
proof -
  let ?w = "\<exists>cs negate ic. n = NClass cs negate ic
      \<and> (ucd_valid D \<longrightarrow> utf16 (ps_units s) \<longrightarrow> class_inv cs \<and> (strings cs = [] \<or> \<not> negate))"
  have "reads 1 s s' \<and> (\<not> unicode_sets (ps_flags s) \<longrightarrow> skips D False 1 s s') \<and> ?w"
  proof (cases "unicode_sets (ps_flags s)")
    case True
    then obtain cs negate where "parse_class_set D (levels s) s = POk ((cs, negate), s')" "n = class_node s' cs negate"
      using assms(1) by (auto simp: parse_class_def)
    then show ?thesis using vset.nested_ok [OF _ assms(2)] True by (auto simp: class_node_def)
  next
    case False
    then have l: "parse_legacy_class D s = POk (n, s')" using assms(1) by (simp add: parse_class_def)
    show ?thesis
      using legacy_class [OF l assms(2)] skips_reads
      by (fastforce simp: from_code_points_correct(1) strings_of_code_points)
  qed
  then show "reads 1 s s'" and "\<not> unicode_sets (ps_flags s) \<Longrightarrow> skips D False 1 s s'" and ?w by blast+
qed

lemma class_atom_total:
  "ps_depth s \<le> MAX_NESTING_DEPTH \<Longrightarrow> parse_class D s \<noteq> PFuel"
  "parse_class D s = PPanic \<Longrightarrow> dangling (ps_units s)"
  using vset.nested_fuel [of s "levels s" D] vset.nested_panic [of D "levels s" s] legacy_class_total
  by (auto simp: parse_class_def try_p_PFuel_iff try_p_PPanic_iff levels_def split: if_splits)

end
