(* ===== verification/Rx_Digits.thy ===== *)
theory Rx_Digits
  imports Rx_Lex
begin

text \<open>
  The quantifier bounds of \<open>parser/mod.rs\<close> are digit strings of any length, compared exactly and
  then clamped to 32 bits. This theory relates the digit routines to the numbers they denote.
\<close>

definition dval :: "nat list \<Rightarrow> nat" where
  "dval ds = foldl (\<lambda>v d. v * 10 + d) 0 ds"

lemma foldl_digits: "foldl (\<lambda>v d. v * 10 + d) v ds = v * 10 ^ length ds + dval ds"
proof (induction ds arbitrary: v)
  case (Cons d ds)
  have "foldl (\<lambda>v d. v * 10 + d) v (d # ds) = (v * 10 + d) * 10 ^ length ds + dval ds" by (simp add: Cons.IH)
  moreover have "dval (d # ds) = d * 10 ^ length ds + dval ds" 
    using Cons.IH [of d] by (simp add: dval_def)
  ultimately show ?case by (simp add: algebra_simps)
qed (simp add: dval_def)

lemma dval_simps [simp]: "dval [] = 0" "dval (d # ds) = d * 10 ^ length ds + dval ds"
  using foldl_digits [of d ds] by (simp_all add: dval_def)

lemma dval_bound: "list_all (\<lambda>d. d < 10) ds \<Longrightarrow> dval ds < 10 ^ length ds"
proof (induction ds)
  case (Cons d ds)
  then have "d * 10 ^ length ds + dval ds < d * 10 ^ length ds + 10 ^ length ds" by simp
  also have "\<dots> = (d + 1) * 10 ^ length ds" by simp
  also have "\<dots> \<le> 10 * 10 ^ length ds" using Cons.prems by (intro mult_right_mono) auto
  finally show ?case by simp
qed simp

text \<open>The clamp saturates.\<close>

lemma digits_loop_min: "v \<le> u32_max \<Longrightarrow> digits_loop v ds = min (v * 10 ^ length ds + dval ds) u32_max"
proof (induction ds arbitrary: v)
  case (Cons d ds)
  have grow: "v * 10 + d \<le> (v * 10 + d) * 10 ^ length ds + dval ds" by (simp add: trans_le_add1)
  have eq: "v * 10 ^ length (d # ds) + dval (d # ds) = (v * 10 + d) * 10 ^ length ds + dval ds"
    by (simp add: algebra_simps)
  show ?case
  proof (cases "v * 10 + d > u32_max")
    case True
    then have "digits_loop v (d # ds) = u32_max" by simp
    then show ?thesis using True grow unfolding eq by linarith
  next
    case False
    then have "digits_loop v (d # ds) = digits_loop (v * 10 + d) ds" by simp
    then show ?thesis using Cons.IH [of "v * 10 + d"] False unfolding eq by simp
  qed
qed simp

lemma to_u32_min: "decimal_digits_to_u32 ds = min (dval ds) u32_max"
  by (simp add: decimal_digits_to_u32_def digits_loop_min)

text \<open>The comparison is numeric on digit strings without leading zeros.\<close>

definition normal_digits :: "nat list \<Rightarrow> bool" where
  "normal_digits ds \<longleftrightarrow> list_all (\<lambda>d. d < 10) ds \<and> (ds \<noteq> [] \<longrightarrow> hd ds \<noteq> 0)"

lemma lex_cmp_dval:
  "length a = length b \<Longrightarrow> list_all (\<lambda>d. d < 10) a \<Longrightarrow> list_all (\<lambda>d. d < 10) b \<Longrightarrow>
    lex_cmp a b = (if dval a < dval b then Less else if dval b < dval a then Greater else Equal)"
proof (induction a b rule: lex_cmp.induct)
  case (4 x xs y ys)
  have len: "length xs = length ys" and b: "dval xs < 10 ^ length xs" "dval ys < 10 ^ length xs"
    using 4(2,3,4) dval_bound [of xs] dval_bound [of ys] by simp_all
  have less: "dval (p # ps) < dval (q # qs)"
    if "p < q" "length ps = length qs" "dval ps < 10 ^ length qs" for p q ps qs
  proof -
    have "p * 10 ^ length qs + dval ps < (p + 1) * 10 ^ length qs" using that(3) by simp
    also have "\<dots> \<le> q * 10 ^ length qs" using that(1) by (intro mult_right_mono) auto
    finally show ?thesis using that(2) by simp
  qed
  consider "x < y" | "y < x" | "x = y" by linarith
  then show ?case
  proof cases
    case 1
    then show ?thesis using less [OF 1, of xs ys] len b by simp
  next
    case 2
    then show ?thesis using less [OF 2, of ys xs] len b by auto
  next
    case 3
    then show ?thesis using 4(1) 4(2,3,4) by auto
  qed
qed simp_all

lemma shorter_less:
  assumes "normal_digits b" and "list_all (\<lambda>d. d < 10) a" and "length a < length b"
  shows "dval a < dval b"
proof -
  obtain d ds where b: "b = d # ds" using assms(3) by (cases b) auto
  have "dval a < 10 ^ length a" by (rule dval_bound [OF assms(2)])
  also have "(10::nat) ^ length a \<le> 10 ^ length ds" using assms(3) b by (intro power_increasing) auto
  also have "\<dots> \<le> d * 10 ^ length ds + dval ds" using assms(1) b by (auto simp: normal_digits_def trans_le_add1)
  finally show ?thesis using b by simp
qed

lemma digits_cmp_less:
  assumes "normal_digits a" and "normal_digits b"
  shows "decimal_digits_cmp a b = Less \<longleftrightarrow> dval a < dval b"
proof -
  have d: "list_all (\<lambda>d. d < 10) a" "list_all (\<lambda>d. d < 10) b" using assms by (simp_all add: normal_digits_def)
  show ?thesis
    using lex_cmp_dval [OF _ d] shorter_less [OF assms(2) d(1)] shorter_less [OF assms(1) d(2)]
    by (cases "length a < length b"; cases "length b < length a") (auto simp: decimal_digits_cmp_def)
qed

lemma dval_dropWhile: "dval (dropWhile (\<lambda>d. d = 0) ds) = dval ds"
  by (induction ds) auto

lemma normal_dropWhile: "list_all (\<lambda>d. d < 10) ds \<Longrightarrow> normal_digits (dropWhile (\<lambda>d. d = 0) ds)"
proof (induction ds)
  case (Cons d ds)
  then show ?case by (auto simp: normal_digits_def)
qed (simp add: normal_digits_def)

section \<open>Reading digits\<close>

text \<open>The maximal run of digits at the cursor, as digit values.\<close>

definition digit_run :: "parser \<Rightarrow> nat list" where
  "digit_run s = map (\<lambda>c. c - c_0) (takeWhile is_digit (drop (ps_pos s) (ps_units s)))"

lemma digit_run_step:
  "digit_run s = (case peek s of Some c \<Rightarrow> (if is_digit c then (c - c_0) # digit_run (bump 1 s) else []) | None \<Rightarrow> [])"
proof (cases "ps_pos s < length (ps_units s)")
  case True
  then have "drop (ps_pos s) (ps_units s) = ps_units s ! ps_pos s # drop (Suc (ps_pos s)) (ps_units s)"
    by (simp add: Cons_nth_drop_Suc)
  then show ?thesis using True by (simp add: digit_run_def peek_def get_at_def)
qed (simp add: digit_run_def peek_def get_at_def)

lemma collect_digits_run:
  "collect_digits ds s = (ds @ digit_run s, bump (length (digit_run s)) s)"
proof (induction ds s rule: collect_digits.induct)
  case (1 ds s)
  show ?case
  proof (cases "\<exists>c. peek s = Some c \<and> is_digit c")
    case True
    then obtain c where c: "peek s = Some c" "is_digit c" by blast
    then have "digit_run s = (c - c_0) # digit_run (bump 1 s)" by (subst digit_run_step) simp
    then show ?thesis using 1 [OF c] c by (subst collect_digits.simps) (simp add: bump_def)
  next
    case False
    then have "digit_run s = []" by (subst digit_run_step) (auto split: option.splits)
    then show ?thesis using False by (subst collect_digits.simps) (auto simp: bump_def split: option.splits)
  qed
qed

lemma digit_run_small: "list_all (\<lambda>d. d < 10) (digit_run s)"
  by (auto simp: digit_run_def list_all_iff is_digit_def in_range_def dest!: set_takeWhileD)

lemma read_digits_run:
  "read_decimal_digits s = (dropWhile (\<lambda>d. d = 0) (digit_run s), bump (length (digit_run s)) s)"
  by (simp add: read_decimal_digits_def collect_digits_run)

lemma read_digits_normal: "read_decimal_digits s = (ds, s') \<Longrightarrow> normal_digits ds \<and> dval ds = dval (digit_run s)"
  by (auto simp: read_digits_run dval_dropWhile normal_dropWhile [OF digit_run_small])

text \<open>The bounds of a brace quantifier come out ordered unless they are flagged.\<close>

lemma brace_quantifier_ordered:
  assumes "parse_brace_quantifier s = POk ((qmin, qmax, inverted), s')"
  shows "\<not> inverted \<Longrightarrow> qmax = Some m \<Longrightarrow> qmin \<le> m" and "qmin \<le> u32_max" and "qmax = Some m \<Longrightarrow> m \<le> u32_max"
proof -
  let ?t = "bump 1 s"
  define ds where "ds = dropWhile (\<lambda>d. d = 0) (digit_run ?t)"
  define s1 where "s1 = bump (length (digit_run ?t)) ?t"
  define es where "es = (if peek s1 = Some c_comma then
      (if peek (bump 1 s1) = Some c_rbrace then None else Some (dropWhile (\<lambda>d. d = 0) (digit_run (bump 1 s1))))
    else Some ds)"
  note defs = parse_brace_quantifier_def eat_def read_digits_run to_u32_min Let_def
  have d: "normal_digits ds" by (simp add: ds_def normal_dropWhile digit_run_small)
  have e: "normal_digits x" if "es = Some x" for x
    using that d by (auto simp: es_def normal_dropWhile digit_run_small split: if_splits)
  have r: "qmin = min (dval ds) u32_max" "qmax = map_option (\<lambda>x. min (dval x) u32_max) es"
    "inverted = (case es of Some x \<Rightarrow> decimal_digits_cmp x ds = Less | None \<Rightarrow> False)"
    using assms unfolding es_def ds_def s1_def
    by (cases "peek (bump (length (digit_run ?t)) ?t) = Some c_comma";
        cases "peek (bump 1 (bump (length (digit_run ?t)) ?t)) = Some c_rbrace"; simp add: defs split: if_splits)+
  show "qmin \<le> m" if i: "\<not> inverted" "qmax = Some m"
  proof -
    obtain x where x: "es = Some x" "m = min (dval x) u32_max" using i(2) r(2) by (cases es) auto
    then have "\<not> dval x < dval ds" using i(1) r(3) digits_cmp_less [OF e [OF x(1)] d] by simp
    then show ?thesis using r(1) x(2) by simp
  qed
  show "qmin \<le> u32_max" and "qmax = Some m \<Longrightarrow> m \<le> u32_max" using r by (auto split: option.splits)
qed

end
