(* ===== verification/Rx_Parser_Correct.thy ===== *)
theory Rx_Parser_Correct
  imports Rx_Parser Rx_Class_Grammar_Correct Rx_Digits
begin

text \<open>
  What the pattern grammar guarantees. \<open>advances\<close> describes a stretch of parsing: the cursor
  moves on, the groups met are numbered consecutively from the parser's counter, and the
  pre-scan finds the same groups with the same names over the same units. \<open>well_formed\<close> collects
  what the lowering needs of a tree. The locale is the contract of the recursive call for
  group bodies; \<open>parse_disjunction\<close> fulfils it at every level.
\<close>

section \<open>Stretches of a pattern\<close>

fun capture_names :: "node \<Rightarrow> code_point list option list" where
  "capture_names (NGroup kind body) = (case kind of Capturing _ name \<Rightarrow> [name] | _ \<Rightarrow> []) @ capture_names body"
| "capture_names (NConcat nodes) = concat (map capture_names nodes)"
| "capture_names (NAlternate nodes) = concat (map capture_names nodes)"
| "capture_names (NRepeat n _) = capture_names n"
| "capture_names _ = []"

fun well_formed :: "nat \<Rightarrow> node \<Rightarrow> bool" where
  "well_formed G (NChar cp _) \<longleftrightarrow> cp \<le> MAX_CP"
| "well_formed G (NClass cs negate _) \<longleftrightarrow> class_inv cs \<and> (strings cs = [] \<or> \<not> negate)"
| "well_formed G (NConcat ns) \<longleftrightarrow> list_all (well_formed G) ns"
| "well_formed G (NAlternate ns) \<longleftrightarrow> ns \<noteq> [] \<and> list_all (well_formed G) ns"
| "well_formed G (NRepeat n q) \<longleftrightarrow>
    well_formed G n \<and> (case q_max q of None \<Rightarrow> True | Some m \<Rightarrow> q_min q \<le> m)"
| "well_formed G (NGroup _ n) \<longleftrightarrow> well_formed G n"
| "well_formed G (NBackRef gs _) \<longleftrightarrow> gs \<noteq> [] \<and> list_all (\<lambda>g. 1 \<le> g \<and> g \<le> G) gs"
| "well_formed G _ \<longleftrightarrow> True"

text \<open>How deep the groups of a tree are nested.\<close>

fun nesting :: "node \<Rightarrow> nat" where
  "nesting (NGroup _ n) = Suc (nesting n)"
| "nesting (NConcat ns) = fold max (map nesting ns) 0"
| "nesting (NAlternate ns) = fold max (map nesting ns) 0"
| "nesting (NRepeat n _) = nesting n"
| "nesting _ = 0"

definition same_mode :: "flags \<Rightarrow> flags \<Rightarrow> bool" where
  "same_mode f g \<longleftrightarrow> unicode f = unicode g \<and> unicode_sets f = unicode_sets g"

definition advances :: "ucd \<Rightarrow> nat \<Rightarrow> parser \<Rightarrow> nat list \<Rightarrow> code_point list option list \<Rightarrow> parser \<Rightarrow> bool" where
  "advances D m s ids nms s' \<longleftrightarrow>
    ps_units s' = ps_units s \<and> same_mode (ps_flags s) (ps_flags s') \<and> ps_depth s' = ps_depth s
    \<and> ps_total_groups s' = ps_total_groups s \<and> ps_group_names s' = ps_group_names s
    \<and> ps_pos s + m \<le> ps_pos s' \<and> (ps_pos s \<le> length (ps_units s) \<longrightarrow> ps_pos s' \<le> length (ps_units s))
    \<and> ps_next_group s \<le> ps_next_group s' \<and> ids = [Suc (ps_next_group s)..<Suc (ps_next_group s')]
    \<and> (ucd_names D \<longrightarrow> \<not> unicode_sets (ps_flags s) \<longrightarrow>
        (\<forall>ns. prescan_loop D (ps_units s) (ps_pos s) False (ps_next_group s) ns
          = prescan_loop D (ps_units s) (ps_pos s') False (ps_next_group s') (ns @ nms)))"

definition scanned_state :: "ucd \<Rightarrow> parser \<Rightarrow> bool" where
  "scanned_state D s \<longleftrightarrow> ucd_valid D \<and> utf16 (ps_units s) \<and> length (ps_group_names s) = ps_total_groups s"

definition node_ok :: "ucd \<Rightarrow> nat \<Rightarrow> parser \<Rightarrow> node \<Rightarrow> parser \<Rightarrow> bool" where
  "node_ok D m s n s' \<longleftrightarrow>
    advances D m s (capture_indices n) (capture_names n) s' \<and> ps_flags s' = ps_flags s
    \<and> (ps_depth s \<le> MAX_NESTING_DEPTH \<longrightarrow> ps_depth s + nesting n \<le> MAX_NESTING_DEPTH)
    \<and> (scanned_state D s \<longrightarrow> well_formed (ps_total_groups s) n)"

lemma same_mode_refl [simp]: "same_mode f f"
  by (simp add: same_mode_def)

lemma advances_refl [simp]: "advances D 0 s [] [] s"
  by (simp add: advances_def)

lemma advances_trans:
  assumes "advances D m s ids nms s'" and "advances D n s' ids' nms' s''" and "l \<le> m + n"
  shows "advances D l s (ids @ ids') (nms @ nms') s''"
proof -
  have "ps_next_group s \<le> ps_next_group s'" "ps_next_group s' \<le> ps_next_group s''"
    using assms(1,2) by (simp_all add: advances_def)
  then have "[Suc (ps_next_group s)..<Suc (ps_next_group s')] @ [Suc (ps_next_group s')..<Suc (ps_next_group s'')]
      = [Suc (ps_next_group s)..<Suc (ps_next_group s'')]"
    by (metis Suc_le_mono le_Suc_ex upt_add_eq_append)
  then show ?thesis using assms by (auto simp: advances_def same_mode_def simp del: upt_Suc)
qed

lemma skips_advances: "skips D False m s s' \<Longrightarrow> l \<le> m \<Longrightarrow> advances D l s [] [] s'"
  using skips_fields [of D False m s s'] by (auto simp: advances_def skips_def)

lemma reads_advances: "reads m s s' \<Longrightarrow> unicode_sets (ps_flags s) \<Longrightarrow> l \<le> m \<Longrightarrow> advances D l s [] [] s'"
  using reads_fields [of m s s'] by (auto simp: advances_def)

lemma advances_fields:
  assumes "advances D m s ids nms s'"
  shows "ps_units s' = ps_units s" "ps_depth s' = ps_depth s" "ps_total_groups s' = ps_total_groups s"
    "ps_group_names s' = ps_group_names s" "ps_pos s + m \<le> ps_pos s'"
    "unicode_sets (ps_flags s') = unicode_sets (ps_flags s)" "scanned_state D s' = scanned_state D s"
  using assms by (auto simp: advances_def same_mode_def scanned_state_def)

lemma advances_flags: "advances D m s ids nms s' \<Longrightarrow> same_mode (ps_flags s) f \<Longrightarrow> advances D m s ids nms (s'\<lparr>ps_flags := f\<rparr>)"
  by (simp add: advances_def)

text \<open>A leaf of the tree that reads its units without meeting a group.\<close>

lemma leaf_ok:
  assumes "skips D False m s s'" and "l \<le> m" and "capture_indices n = []" "capture_names n = []" "nesting n = 0"
    and "scanned_state D s \<Longrightarrow> well_formed (ps_total_groups s) n"
  shows "node_ok D l s n s'"
  using assms skips_advances [OF assms(1,2)] skips_fields(2) [OF assms(1)] by (simp add: node_ok_def)

lemma leaf_plain:
  assumes "peek s = Some c" and "quiet_unit False c" and "capture_indices n = []" "capture_names n = []" "nesting n = 0"
    and "scanned_state D s \<Longrightarrow> well_formed (ps_total_groups s) n"
  shows "node_ok D 1 s n (bump 1 s)"
  by (rule leaf_ok [OF skips_plain [OF assms(1,2)] order_refl assms(3-6)])

lemma utf16_peek: "utf16 (ps_units s) \<Longrightarrow> peek s = Some c \<Longrightarrow> c \<le> MAX_CP"
  using utf16_get_at [of "ps_units s" "ps_pos s" c] by (simp add: peek_def MAX_CP_def del: get_at_Some_iff)

section \<open>Escapes\<close>

lemma decimal_positive: "0 < v \<Longrightarrow> decimal_loop v s = (w, s') \<Longrightarrow> 0 < w"
proof (induction v s rule: decimal_loop.induct)
  case (1 v s)
  show ?case
  proof (cases "\<exists>c. peek s = Some c \<and> is_digit c")
    case True
    then obtain c where c: "peek s = Some c" "is_digit c" by blast
    from 1(3) c have "decimal_loop (min (v * 10 + (c - c_0)) u32_max) (bump 1 s) = (w, s')"
      by (subst (asm) decimal_loop.simps) simp
    from 1(1) [OF c _ this] 1(2) show ?thesis by (simp add: u32_max_def)
  next
    case False
    with 1(2,3) show ?thesis by (subst (asm) decimal_loop.simps) (auto split: option.splits if_splits)
  qed
qed

lemma numeric_value_positive:
  assumes "peek s = Some c" and "in_range c_1 c_9 c" and "read_decimal s = (v, s')"
  shows "0 < v"
proof -
  have "is_digit c" using assms(2) by (auto simp: is_digit_def in_range_def)
  then obtain w where "decimal_loop (min (c - c_0) u32_max) (bump 1 s) = (w, s')" "v = min w u32_max"
    using assms(1,3) by (auto simp: read_decimal_def decimal_loop.simps [of 0] split: prod.splits)
  then show ?thesis using decimal_positive [of "min (c - c_0) u32_max"] assms(2)
    by (auto simp: in_range_def u32_max_def)
qed

section \<open>Group names\<close>

text \<open>\<open>passes D us i j\<close>: outside classes the pre-scan gets from \<open>i\<close> to \<open>j\<close> without finding a group.\<close>

definition passes :: "ucd \<Rightarrow> code_unit list \<Rightarrow> nat \<Rightarrow> nat \<Rightarrow> bool" where
  "passes D us i j \<longleftrightarrow> (\<forall>n ns. prescan_loop D us i False n ns = prescan_loop D us j False n ns)"

lemma passes_refl [simp]: "passes D us i i"
  by (simp add: passes_def)

lemma passes_trans: "passes D us i j \<Longrightarrow> passes D us j k \<Longrightarrow> passes D us i k"
  by (simp add: passes_def)

lemma passes_quiet: "get_at us i = Some c \<Longrightarrow> quiet_unit False c \<Longrightarrow> passes D us i (i + 1)"
  by (simp add: passes_def prescan_plain del: get_at_Some_iff)

lemma passes_escape: "get_at us i = Some c_bslash \<Longrightarrow> passes D us i (i + 2)"
  by (simp add: passes_def prescan_escape del: get_at_Some_iff)

lemma get_at_bound: "get_at us i = Some c \<Longrightarrow> i + 1 \<le> length us"
  by auto

lemma group_hex_passes: "group_hex_loop n v us i = Some (w, j) \<Longrightarrow> i \<le> length us \<Longrightarrow> passes D us i j \<and> j \<le> length us"
proof (induction n arbitrary: v i)
  case (Suc n)
  then obtain c d where c: "get_at us i = Some c" "hex_digit c = Some d" "group_hex_loop n (v * 16 + d) us (i + 1) = Some (w, j)"
    by (auto split: option.splits simp del: get_at_Some_iff)
  with Suc(1) [OF c(3)] get_at_bound [OF c(1)] passes_quiet [OF c(1) plain_hex [OF c(2)], of D] show ?case
    using passes_trans by blast
qed simp

lemma group_brace_passes: "group_brace_loop us i v any = Some (ch, j) \<Longrightarrow> passes D us i j \<and> j \<le> length us"
proof (induction us i v any rule: group_brace_loop.induct)
  case (1 us i v any)
  from 1(2) obtain c where c: "get_at us i = Some c"
    by (subst (asm) group_brace_loop.simps) (auto split: option.splits simp del: get_at_Some_iff)
  show ?case
  proof (cases "c = c_rbrace")
    case True
    then have "j = i + 1" using 1(2) c
      by (subst (asm) group_brace_loop.simps) (auto split: if_splits simp del: get_at_Some_iff)
    then show ?thesis using True passes_quiet [OF c, of D] get_at_bound [OF c] by (simp add: quiet_unit_def)
  next
    case False
    then obtain d where d: "hex_digit c = Some d" "group_brace_loop us (i + 1) (v * 16 + d) True = Some (ch, j)"
        "\<not> (v * 16 > u32_max \<or> v * 16 + d > u32_max)" "\<not> v * 16 + d > 0x10FFFF"
      using 1(2) c by (subst (asm) group_brace_loop.simps) (auto split: if_splits option.splits simp del: get_at_Some_iff)
    have "passes D us (i + 1) j \<and> j \<le> length us" by (rule 1(1) [OF c False d(1,3,4,2)])
    then show ?thesis using passes_trans [OF passes_quiet [OF c plain_hex [OF d(1)]]] by blast
  qed
qed

lemma group_unicode_escape_passes:
  assumes "read_group_name_unicode_escape us i = Some (ch, j)" and "i \<le> length us"
  shows "passes D us i j \<and> j \<le> length us"
proof (cases "get_at us i = Some c_lbrace")
  case True
  then have "group_brace_loop us (i + 1) 0 False = Some (ch, j)"
    using assms(1) by (simp add: read_group_name_unicode_escape_def del: get_at_Some_iff)
  from group_brace_passes [OF this, of D] show ?thesis
    using passes_trans [OF passes_quiet [OF True]] by (auto simp: quiet_unit_def simp del: get_at_Some_iff)
next
  case False
  then obtain hi k where hi: "group_hex_loop 4 0 us i = Some (hi, k)"
    using assms(1) by (auto simp: read_group_name_unicode_escape_def read_group_name_fixed_hex_def
        simp del: get_at_Some_iff split: option.splits)
  have k: "passes D us i k" "k \<le> length us" using group_hex_passes [OF hi assms(2)] by auto
  show ?thesis
  proof (cases "if is_high_surrogate hi then group_low_surrogate us k else None")
    case None
    then show ?thesis using assms(1) False hi k
      by (auto simp: read_group_name_unicode_escape_def read_group_name_fixed_hex_def simp del: get_at_Some_iff)
  next
    case (Some p)
    then have low: "group_low_surrogate us k = Some p" by (simp split: if_splits)
    then have u: "get_at us k = Some c_bslash" "get_at us (k + 1) = Some c_u" "group_hex_loop 4 0 us (k + 2) = Some p"
      by (auto simp: group_low_surrogate_def read_group_name_fixed_hex_def simp del: get_at_Some_iff
          split: if_splits option.splits)
    have "passes D us (k + 2) (snd p) \<and> snd p \<le> length us"
      using group_hex_passes [of 4 0 us "k + 2" "fst p" "snd p" D] u(3) get_at_bound [OF u(2)] by simp
    moreover have "j = snd p" using assms(1) False hi Some
      by (cases p) (auto simp: read_group_name_unicode_escape_def read_group_name_fixed_hex_def simp del: get_at_Some_iff)
    ultimately show ?thesis using k(1) passes_escape [OF u(1), of D] passes_trans by blast
  qed
qed

lemma group_code_point_passes:
  assumes "read_group_name_code_point us i = Some (ch, j)" and "get_at us i = Some c"
    and "ch = c \<Longrightarrow> quiet_unit False c"
  shows "passes D us i j \<and> j \<le> length us"
proof -
  consider (one) "j = i + 1" "ch = c"
    | (two) lo where "j = i + 2" "get_at us (i + 1) = Some lo" "is_high_surrogate c" "is_low_surrogate lo"
    using assms(1,2) by (auto simp: read_group_name_code_point_def char_from_u32_def simp del: get_at_Some_iff
        split: option.splits if_splits)
  then show ?thesis
  proof cases
    case one
    then show ?thesis using assms(3) passes_quiet [OF assms(2)] get_at_bound [OF assms(2)] by simp
  next
    case two
    have "passes D us (i + 1) (i + 1 + 1)" by (rule passes_quiet [OF two(2) plain_pair(2) [OF two(4)]])
    with passes_quiet [OF assms(2) plain_pair(1) [OF two(3)], of D] passes_trans two(1) get_at_bound [OF two(2)]
    show ?thesis by fastforce
  qed
qed

lemma group_name_char_passes:
  assumes "group_name_char us i c = Some (ch, j)" and "get_at us i = Some c" and "ucd_names D"
    and "is_group_name_continue D ch"
  shows "passes D us i j \<and> j \<le> length us"
proof (cases "c = c_bslash \<and> get_at us (i + 1) = Some c_u")
  case True
  then have "read_group_name_unicode_escape us (i + 2) = Some (ch, j)"
    using assms(1) by (simp add: group_name_char_def del: get_at_Some_iff)
  from group_unicode_escape_passes [OF this, of D] True get_at_bound [of us "i + 1" c_u] assms(2)
  show ?thesis using passes_trans [OF passes_escape, of us i D] by (auto simp del: get_at_Some_iff)
next
  case False
  then have "read_group_name_code_point us i = Some (ch, j)"
    using assms(1) by (auto simp: group_name_char_def simp del: get_at_Some_iff)
  moreover have "quiet_unit False c" if "ch = c"
    using assms(3,4) that by (auto simp: quiet_unit_def ucd_names_def is_group_name_continue_def is_group_name_start_def)
  ultimately show ?thesis by (rule group_code_point_passes [OF _ assms(2)])
qed

lemma group_name_loop_passes:
  "group_name_loop D us i name = Some (r, j) \<Longrightarrow> (ucd_names D \<longrightarrow> passes D us i j) \<and> j \<le> length us"
proof (induction D us i name rule: group_name_loop.induct)
  case (1 D us i name)
  from 1(2) obtain c where c: "get_at us i = Some c"
    by (subst (asm) group_name_loop.simps) (auto split: option.splits simp del: get_at_Some_iff)
  show ?case
  proof (cases "c = c_gt")
    case True
    then have "j = i + 1" using 1(2) c
      by (subst (asm) group_name_loop.simps) (auto split: if_splits simp del: get_at_Some_iff)
    then show ?thesis using True passes_quiet [OF c, of D] get_at_bound [OF c] by (simp add: quiet_unit_def)
  next
    case False
    then obtain ch nxt where ch: "group_name_char us i c = Some (ch, nxt)"
        "\<not> (name = [] \<and> \<not> is_group_name_start D ch \<or> name \<noteq> [] \<and> \<not> is_group_name_continue D ch)"
        "group_name_loop D us nxt (name @ [ch]) = Some (r, j)"
      using 1(2) c by (subst (asm) group_name_loop.simps) (auto split: if_splits option.splits simp del: get_at_Some_iff)
    have cont: "is_group_name_continue D ch" using ch(2) by (auto simp: is_group_name_continue_def)
    show ?thesis using 1(1) [OF c False ch(1) refl ch(2,3)] group_name_char_passes [OF ch(1) c _ cont] passes_trans by blast
  qed
qed

lemma read_group_name_passes:
  assumes "read_group_name D us i = Some (r, j)"
  shows "ucd_names D \<Longrightarrow> passes D us i j" and "j \<le> length us" and "i < j"
  using group_name_loop_passes [of D us i "[]" r j] read_group_name_next [OF assms] assms by (simp_all add: read_group_name_def)

section \<open>Group openers\<close>

lemma peek_bump: "peek (bump k s) = peek_at s k" "peek_at (bump k s) j = peek_at s (k + j)"
  by (simp_all add: peek_def peek_at_def add.assoc)

lemma bump_update:
  "(bump k s)\<lparr>ps_next_group := n\<rparr> = bump k (s\<lparr>ps_next_group := n\<rparr>)" "(bump k s)\<lparr>ps_pos := j\<rparr> = s\<lparr>ps_pos := j\<rparr>"
  "(bump k s)\<lparr>ps_flags := f\<rparr> = bump k (s\<lparr>ps_flags := f\<rparr>)"
  by (simp_all add: bump_def)

lemma prescan_open:
  assumes "get_at us i = Some c_lparen"
  shows "get_at us (i + 1) \<noteq> Some c_quest \<Longrightarrow>
      prescan_loop D us i False n ns = prescan_loop D us (i + 1) False (n + 1) (ns @ [None])"
    and "get_at us (i + 1) = Some c_quest \<Longrightarrow> \<not> is_named_group us i \<Longrightarrow> passes D us i (i + 1)"
    and "get_at us (i + 1) = Some c_quest \<Longrightarrow> is_named_group us i \<Longrightarrow> read_group_name D us (i + 3) = Some (name, j) \<Longrightarrow>
      prescan_loop D us i False n ns = prescan_loop D us j False (n + 1) (ns @ [Some name])"
  using assms unfolding passes_def
  by (subst prescan_loop.simps; simp del: get_at_Some_iff)+

lemma advances_passes:
  assumes "passes D (ps_units s) (ps_pos s) (ps_pos s + k)" and "m \<le> k" and "ps_pos s + k \<le> length (ps_units s)"
  shows "advances D m s [] [] (bump k s)"
  using assms by (simp add: advances_def passes_def)

text \<open>The units after \<open>(?\<close> that the parser consumes before a body without a number.\<close>

lemma opener_advances:
  assumes "peek s = Some c_lparen" and "peek_at s 1 = Some c_quest" and "\<not> is_named_group (ps_units s) (ps_pos s)"
    and "passes D (ps_units s) (ps_pos s + 2) (ps_pos s + 2 + k)" and "ps_pos s + 2 + k \<le> length (ps_units s)"
  shows "advances D 1 s [] [] (bump (2 + k) s)"
proof (rule advances_passes)
  have "passes D (ps_units s) (ps_pos s) (ps_pos s + 1)"
    using prescan_open(2) assms(1,2,3) by (simp add: peek_def peek_at_def del: get_at_Some_iff)
  moreover have "passes D (ps_units s) (ps_pos s + 1) (ps_pos s + 1 + 1)"
    using assms(2) by (intro passes_quiet [of _ _ c_quest]) (simp_all add: peek_at_def quiet_unit_def del: get_at_Some_iff)
  ultimately show "passes D (ps_units s) (ps_pos s) (ps_pos s + (2 + k))"
    using assms(4) passes_trans by (metis add.assoc one_add_one)
qed (use assms(5) in auto)

definition kind_node :: "group_kind option \<Rightarrow> node" where
  "kind_node k = (case k of Some kind \<Rightarrow> NGroup kind NEmpty | None \<Rightarrow> NEmpty)"

lemma group_kind_total: "parse_group_kind D s \<noteq> PFuel" "parse_group_kind D s \<noteq> PPanic"
  by (auto simp: parse_group_kind_def ok_or_def split: option.splits)

lemma plain_opener:
  assumes "peek s = Some c_lparen" and "peek_at s 1 = Some c_quest" and "peek_at s 2 = Some x"
    and "x \<noteq> c_lt" and "quiet_unit False x"
  shows "advances D 1 s [] [] (bump 3 s)" and "advances D 1 s [] [] (bump 2 s)"
proof -
  have x: "get_at (ps_units s) (ps_pos s + 2) = Some x" using assms(3) by (simp add: peek_at_def)
  then have named: "\<not> is_named_group (ps_units s) (ps_pos s)" using assms(4) by (simp add: is_named_group_def del: get_at_Some_iff)
  have "passes D (ps_units s) (ps_pos s + 2) (ps_pos s + 2 + 1)" "ps_pos s + 2 + 1 \<le> length (ps_units s)"
    using passes_quiet [OF x assms(5)] get_at_bound [OF x] by auto
  then show "advances D 1 s [] [] (bump 3 s)" "advances D 1 s [] [] (bump 2 s)"
    using opener_advances [OF assms(1,2) named, of D 1] opener_advances [OF assms(1,2) named, of D 0] by simp_all
qed

lemma lookbehind_opener:
  assumes "peek s = Some c_lparen" and "peek_at s 1 = Some c_quest" and "peek_at s 2 = Some c_lt"
    and "peek_at s 3 = Some x" and "x = c_eq \<or> x = c_bang"
  shows "advances D 1 s [] [] (bump 4 s)"
proof -
  have x: "get_at (ps_units s) (ps_pos s + 2) = Some c_lt" "get_at (ps_units s) (ps_pos s + 2 + 1) = Some x"
    using assms(3,4) by (simp_all add: peek_at_def numeral_3_eq_3 del: get_at_Some_iff)
  have "passes D (ps_units s) (ps_pos s + 2) (ps_pos s + 2 + 1)" by (rule passes_quiet [OF x(1)]) (simp add: quiet_unit_def)
  moreover have "passes D (ps_units s) (ps_pos s + 2 + 1) (ps_pos s + 2 + 1 + 1)"
    by (rule passes_quiet [OF x(2)]) (use assms(5) in \<open>auto simp: quiet_unit_def\<close>)
  ultimately have "passes D (ps_units s) (ps_pos s + 2) (ps_pos s + 2 + 2)"
    using passes_trans by (metis add.assoc one_add_one)
  moreover have "\<not> is_named_group (ps_units s) (ps_pos s)"
    using assms(4,5) by (auto simp: is_named_group_def peek_at_def simp del: get_at_Some_iff)
  ultimately show ?thesis using opener_advances [OF assms(1,2), of D 2] get_at_bound [OF x(2)] by simp
qed

lemma named_opener:
  assumes "peek s = Some c_lparen" and "peek_at s 1 = Some c_quest" and "peek_at s 2 = Some c_lt"
    and "peek_at s 3 \<noteq> Some c_eq" "peek_at s 3 \<noteq> Some c_bang"
    and "read_group_name D (ps_units s) (ps_pos s + 3) = Some (name, j)"
  shows "advances D 1 s [ps_next_group s + 1] [Some name] (s\<lparr>ps_pos := j, ps_next_group := ps_next_group s + 1\<rparr>)"
proof -
  have "is_named_group (ps_units s) (ps_pos s)"
    using assms(3,4,5) by (simp add: is_named_group_def peek_at_def del: get_at_Some_iff)
  then have "prescan_loop D (ps_units s) (ps_pos s) False n ns = prescan_loop D (ps_units s) j False (n + 1) (ns @ [Some name])" for n ns
    using prescan_open(3) [OF _ _ _ assms(6)] assms(1,2) by (simp add: peek_def peek_at_def del: get_at_Some_iff)
  then show ?thesis using read_group_name_passes(2,3) [OF assms(6)] by (simp add: advances_def)
qed

lemma numbered_opener:
  assumes "peek s = Some c_lparen" and "peek_at s 1 \<noteq> Some c_quest"
  shows "advances D 1 s [ps_next_group s + 1] [None] (bump 1 (s\<lparr>ps_next_group := ps_next_group s + 1\<rparr>))"
proof -
  have "prescan_loop D (ps_units s) (ps_pos s) False n ns = prescan_loop D (ps_units s) (ps_pos s + 1) False (n + 1) (ns @ [None])" for n ns
    using prescan_open(1) assms by (simp add: peek_def peek_at_def del: get_at_Some_iff)
  moreover have "ps_pos s + 1 \<le> length (ps_units s)" using assms(1) by (auto simp: peek_def)
  ultimately show ?thesis by (simp add: advances_def)
qed

lemma group_kind_quest:
  assumes "peek_at s 1 = Some c_quest" and "peek_at s 2 = Some x"
  shows "parse_group_kind D (bump 1 s) =
    (if x = c_colon then POk (Some NonCapturing, bump 3 s)
     else if x = c_eq then POk (Some (Lookahead False), bump 3 s)
     else if x = c_bang then POk (Some (Lookahead True), bump 3 s)
     else if x = c_lt then
       (if peek_at s 3 = Some c_eq then POk (Some (Lookbehind False), bump 4 s)
        else if peek_at s 3 = Some c_bang then POk (Some (Lookbehind True), bump 4 s)
        else
          try_p (ok_or (read_group_name D (ps_units s) (ps_pos s + 3)) (err (bump 2 s) ''invalid group name''))
            (\<lambda>(name, nxt). POk (Some (Capturing (ps_next_group s + 1) (Some name)),
              s\<lparr>ps_pos := nxt, ps_next_group := ps_next_group s + 1\<rparr>)))
     else if x = c_i \<or> x = c_m \<or> x = c_s \<or> x = c_dash then POk (None, bump 2 s)
     else PErr (err (bump 2 s) ''unsupported group modifier''))"
proof -
  have sucs: "Suc (Suc 0) = 2" "Suc (Suc (Suc 0)) = 3" "Suc (Suc (Suc (Suc 0))) = 4" "Suc 2 = 3" "Suc 3 = 4"
    "Suc (Suc (Suc n)) = n + 3" for n by simp_all
  show ?thesis using assms
    by (simp add: parse_group_kind_def peek_bump bump_update sucs Let_def cong: if_cong)
qed

text \<open>What \<open>parse_group_kind\<close> has read when it returns, by the branch it took.\<close>

lemma group_kind_cases:
  assumes "parse_group_kind D (bump 1 s) = POk (k, s')"
  obtains (numbered) "peek_at s 1 \<noteq> Some c_quest" "k = Some (Capturing (ps_next_group s + 1) None)"
      "s' = bump 1 (s\<lparr>ps_next_group := ps_next_group s + 1\<rparr>)"
  | (plain) x where "peek_at s 1 = Some c_quest" "peek_at s 2 = Some x" "x \<noteq> c_lt" "quiet_unit False x"
      "k = Some NonCapturing \<or> (\<exists>b. k = Some (Lookahead b))" "s' = bump 3 s"
  | (modifiers) x where "peek_at s 1 = Some c_quest" "peek_at s 2 = Some x" "x \<noteq> c_lt" "quiet_unit False x"
      "k = None" "s' = bump 2 s"
  | (lookbehind) x b where "peek_at s 1 = Some c_quest" "peek_at s 2 = Some c_lt" "peek_at s 3 = Some x"
      "x = c_eq \<or> x = c_bang" "k = Some (Lookbehind b)" "s' = bump 4 s"
  | (named) name j where "peek_at s 1 = Some c_quest" "peek_at s 2 = Some c_lt" "peek_at s 3 \<noteq> Some c_eq"
      "peek_at s 3 \<noteq> Some c_bang" "read_group_name D (ps_units s) (ps_pos s + 3) = Some (name, j)"
      "k = Some (Capturing (ps_next_group s + 1) (Some name))" "s' = s\<lparr>ps_pos := j, ps_next_group := ps_next_group s + 1\<rparr>"
proof (cases "peek_at s 1 = Some c_quest")
  case False
  then show thesis using assms numbered
    by (simp add: parse_group_kind_def peek_bump Let_def bump_update)
next
  case True
  with assms obtain x where x: "peek_at s 2 = Some x"
    by (cases "peek_at s 2") (simp_all add: parse_group_kind_def peek_bump numeral_2_eq_2)
  note r = assms [unfolded group_kind_quest [OF True x]]
  show thesis
  proof (cases "x = c_lt")
    case lt: True
    show thesis
    proof (cases "peek_at s 3 = Some c_eq \<or> peek_at s 3 = Some c_bang")
      case look: True
      then have "\<exists>b. k = Some (Lookbehind b) \<and> s' = bump 4 s" using r lt by auto
      then show thesis using look lt x lookbehind [OF True] by metis
    next
      case False
      then show thesis using r lt x named [OF True] by auto
    qed
  next
    case False
    then have "(x = c_colon \<or> x = c_eq \<or> x = c_bang) \<and> (k = Some NonCapturing \<or> (\<exists>b. k = Some (Lookahead b))) \<and> s' = bump 3 s
        \<or> (x = c_i \<or> x = c_m \<or> x = c_s \<or> x = c_dash) \<and> k = None \<and> s' = bump 2 s"
      using r by (auto split: if_splits)
    then show thesis using plain [OF True x False] modifiers [OF True x False] by (auto simp: quiet_unit_def)
  qed
qed

lemma group_kind:
  assumes "peek s = Some c_lparen" and "parse_group_kind D (bump 1 s) = POk (k, s')"
  shows "advances D 1 s (capture_indices (kind_node k)) (capture_names (kind_node k)) s' \<and> ps_flags s' = ps_flags s"
  using assms(2)
proof (cases rule: group_kind_cases)
  case numbered
  then show ?thesis using numbered_opener [OF assms(1) numbered(1)] by (simp add: kind_node_def)
next
  case plain
  then show ?thesis using plain_opener(1) [OF assms(1) plain(1-4)] by (auto simp: kind_node_def)
next
  case modifiers
  then show ?thesis using plain_opener(2) [OF assms(1) modifiers(1-4)] by (auto simp: kind_node_def)
next
  case lookbehind
  then show ?thesis using lookbehind_opener [OF assms(1) lookbehind(1-4)] by (auto simp: kind_node_def)
next
  case named
  then show ?thesis using named_opener [OF assms(1) named(1-5)] by (simp add: kind_node_def)
qed

section \<open>Modifiers\<close>

lemma advances_unit:
  assumes "peek s = Some c" and "quiet_unit False c"
  shows "advances D 1 s [] [] (bump 1 s)"
  by (rule skips_advances [OF skips_plain [OF assms] order_refl])

lemma set_modifier_mode: "same_mode f (set_modifier c on f)"
  by (simp add: set_modifier_def same_mode_def)

lemma modifier_loop_advances: "modifier_loop on seen s = POk (r, s') \<Longrightarrow> advances D 0 s [] [] s'"
proof (induction on seen s rule: modifier_loop.induct)
  case (1 on seen s)
  let ?t = "\<lambda>c. bump 1 (s\<lparr>ps_flags := set_modifier c on (ps_flags s)\<rparr>)"
  show ?case
  proof (cases "\<exists>c. peek s = Some c \<and> (c = c_i \<or> c = c_m \<or> c = c_s) \<and> c \<notin> set seen")
    case True
    then obtain c where c: "peek s = Some c" "c = c_i \<or> c = c_m \<or> c = c_s" "c \<notin> set seen" by blast
    then have "modifier_loop on (seen @ [c]) (?t c) = POk (r, s')" using 1(2) by (subst (asm) modifier_loop.simps) simp
    from 1(1) [OF c this] have "advances D 0 (?t c) [] [] s'" .
    moreover have "advances D 1 s [] [] (?t c)"
      using advances_flags [OF advances_unit [OF c(1)] set_modifier_mode [of _ c on], of D] c(2) by (auto simp: quiet_unit_def bump_update)
    ultimately show ?thesis using advances_trans [of D 1 s "[]" "[]" "?t c" 0 "[]" "[]" s' 0] by simp
  next
    case False
    then have "s' = s" using 1(2) by (subst (asm) modifier_loop.simps) (auto split: option.splits if_splits)
    then show ?thesis by simp
  qed
qed

lemma modifier_loop_total: "modifier_loop on seen s \<noteq> PFuel \<and> modifier_loop on seen s \<noteq> PPanic"
proof (induction on seen s rule: modifier_loop.induct)
  case (1 on seen s)
  then show ?case by (subst (1 2) modifier_loop.simps) (auto split: option.splits)
qed

lemma modifiers_advance:
  assumes "parse_modifiers s = POk s'"
  shows "advances D 0 s [] [] s'"
proof -
  obtain added s1 where s1: "modifier_loop True [] s = POk (added, s1)" using assms by (auto simp: parse_modifiers_def)
  define s2 where "s2 = (if peek s1 = Some c_dash then bump 1 s1 else s1)"
  have two: "advances D 0 s1 [] [] s2"
    using advances_trans [OF advances_unit [of s1 c_dash D] advances_refl, of 0] by (simp add: s2_def quiet_unit_def)
  obtain seen s3 where s3: "(if peek s1 = Some c_dash then modifier_loop False added s2 else POk (added, s2)) = POk (seen, s3)"
    and colon: "peek s3 = Some c_colon" "s' = bump 1 s3"
    using assms s1 by (auto simp: parse_modifiers_def s2_def split: if_splits)
  have "advances D 0 s2 [] [] s3" using s3 modifier_loop_advances by (auto split: if_splits)
  moreover have "advances D 1 s3 [] [] s'" using advances_unit [OF colon(1), of D] colon(2) by (simp add: quiet_unit_def)
  ultimately show ?thesis
    using advances_trans [OF advances_trans [OF advances_trans [OF modifier_loop_advances [OF s1] two] ]] by fastforce
qed

lemma modifiers_total: "parse_modifiers s \<noteq> PFuel" "parse_modifiers s \<noteq> PPanic"
  using modifier_loop_total
  by (auto simp: parse_modifiers_def try_p_PPanic_iff try_p_PFuel_iff split: if_splits)

section \<open>Escape atoms\<close>

lemma name_to_indices_bounds: "g \<in> set (name_to_indices s name) \<Longrightarrow> 1 \<le> g \<and> g \<le> length (ps_group_names s)"
  by (auto simp: name_to_indices_def in_set_enumerate_eq)

lemma named_backref:
  assumes "peek s = Some c_bslash" and "peek_at s 1 = Some c_k" and "parse_named_backref D (bump 1 s) = POk (n, s')"
  shows "node_ok D 1 s n s'"
proof (cases "\<exists>name j. peek_at s 2 = Some c_lt \<and> read_group_name D (ps_units s) (ps_pos s + 3) = Some (name, j)
    \<and> name_to_indices s name \<noteq> [] \<and> n = backref_node s (name_to_indices s name) \<and> s' = s\<lparr>ps_pos := j\<rparr>")
  case True
  then obtain name j where r: "peek_at s 2 = Some c_lt" "read_group_name D (ps_units s) (ps_pos s + 3) = Some (name, j)"
      "name_to_indices s name \<noteq> []" "n = backref_node s (name_to_indices s name)" "s' = s\<lparr>ps_pos := j\<rparr>"
    by blast
  have "passes D (ps_units s) (ps_pos s + 2) (ps_pos s + 2 + 1)"
    using r(1) by (intro passes_quiet [of _ _ c_lt]) (simp_all add: peek_at_def quiet_unit_def del: get_at_Some_iff)
  with passes_escape [of "ps_units s" "ps_pos s" D] assms(1) have "passes D (ps_units s) (ps_pos s) (ps_pos s + 3)"
    by (simp add: peek_def passes_def numeral_3_eq_3 del: get_at_Some_iff)
  then have "ucd_names D \<Longrightarrow> passes D (ps_units s) (ps_pos s) j" using read_group_name_passes(1) [OF r(2)] passes_trans by blast
  then have "advances D 1 s [] [] s'" using read_group_name_passes(2,3) [OF r(2)] r(5) by (auto simp: advances_def passes_def)
  then show ?thesis using r(3,4,5) name_to_indices_bounds [of _ s name]
    by (fastforce simp: node_ok_def backref_node_def scanned_state_def list_all_iff)
next
  case False
  then have "n = char_node s c_k \<and> s' = bump 2 s"
    using assms(3)
    by (auto simp: parse_named_backref_def peek_bump bump_update char_node_def backref_node_def name_to_indices_def Let_def
        numeral_3_eq_3 numeral_2_eq_2 split: if_splits)
  then show ?thesis using assms(1,2) skips_escape [of s c_k D False]
    by (intro leaf_ok [of D 2]) (simp_all add: peek_bump char_node_def MAX_CP_def)
qed

lemma named_backref_total: "parse_named_backref D s \<noteq> PFuel" "parse_named_backref D s \<noteq> PPanic"
  by (auto simp: parse_named_backref_def try_p_PPanic_iff try_p_PFuel_iff Let_def split: if_splits)

lemma numeric_backref:
  assumes "peek s = Some c_bslash" and "peek_at s 1 = Some c" and "in_range c_1 c_9 c"
    and "parse_numeric_backref (bump 1 s) = POk (n, s')"
  shows "node_ok D 1 s n s'"
proof -
  have dig: "is_digit c" using assms(3) by (auto simp: is_digit_def in_range_def)
  have one: "skips D False 1 s (bump 1 s)"
    by (rule skips_backslash [OF assms(1) _ plain_digit(1) [OF dig]]) (use assms(2) in \<open>simp add: peek_bump\<close>)
  obtain v s1 where v: "read_decimal (bump 1 s) = (v, s1)" by fastforce
  have pos: "0 < v" by (rule numeric_value_positive [OF _ assms(3) v]) (use assms(2) in \<open>simp add: peek_bump\<close>)
  have skip: "skips D False 0 (bump 1 s) s1" by (rule skips_read_decimal [OF v])
  have c: "c < 256" using assms(3) by (simp add: in_range_def)
  have look: "peek (bump 1 s) = Some c" using assms(2) by (simp add: peek_bump)
  show ?thesis
  proof (cases "v \<le> ps_total_groups s1")
    case True
    then have "n = backref_node s1 [v]" "s' = s1" using assms(4) v by (auto simp: parse_numeric_backref_def)
    then show ?thesis using skips_trans [OF one skip, of 1] skips_fields(4) [OF skip] pos True
      by (intro leaf_ok [of D 1]) (simp_all add: backref_node_def)
  next
    case False
    show ?thesis
    proof (cases "in_range c_1 c_7 c")
      case True
      then obtain cp where cp: "read_legacy_octal (bump 1 s) = POk (cp, s')" "n = char_node s' cp"
        using assms(4) v False look by (auto simp: parse_numeric_backref_def split: if_splits)
      have "in_range c_0 c_7 c" using True by (simp add: in_range_def)
      note o = legacy_octal [OF cp(1) look this]
      show ?thesis using skips_trans [OF one skips_mono [OF o(1) zero_le], of 1] o(3) cp(2)
        by (intro leaf_ok [of D 1]) (simp_all add: char_node_def MAX_CP_def)
    next
      case other: False
      then have "n = char_node (bump 2 s) c" "s' = bump 2 s"
        using assms(4) v False look by (auto simp: parse_numeric_backref_def numeral_2_eq_2 split: if_splits)
      then show ?thesis using c skips_escape [OF assms(1) look] by (intro leaf_ok [of D 2]) (simp_all add: char_node_def MAX_CP_def)
    qed
  qed
qed

lemma numeric_backref_total:
  "parse_numeric_backref s \<noteq> PFuel" "parse_numeric_backref s = PPanic \<Longrightarrow> peek s = None"
  using legacy_octal_total [of s]
  by (auto simp: parse_numeric_backref_def try_p_PPanic_iff try_p_PFuel_iff split: prod.splits if_splits option.splits)

lemma class_leaf:
  assumes "skips D False m s s'" and "1 \<le> m" and "ucd_valid D \<Longrightarrow> utf16 (ps_units s) \<Longrightarrow> class_inv cs"
    and "strings cs = [] \<or> \<not> negate"
  shows "node_ok D 1 s (class_node t cs negate) s'"
  using assms by (intro leaf_ok [OF assms(1,2)]) (simp_all add: class_node_def scanned_state_def)

lemma char_leaf:
  assumes "skips D False m s s'" and "1 \<le> m" and "utf16 (ps_units s) \<Longrightarrow> cp \<le> MAX_CP"
  shows "node_ok D 1 s (char_node t cp) s'"
  using assms by (intro leaf_ok [OF assms(1,2)]) (simp_all add: char_node_def scanned_state_def)

lemma class_or_char_escape:
  assumes "peek s = Some c_bslash"
    and "try_p (try_class_escape_set D (bump 1 s)) (\<lambda>(r, s).
          case r of
            Some (cps, negate) \<Rightarrow> POk (class_node s (from_code_points cps) negate, s)
          | None \<Rightarrow> try_p (parse_char_escape False s) (\<lambda>(cp, s). POk (char_node s cp, s))) = POk (n, s')"
  shows "node_ok D 1 s n s'"
proof -
  obtain r t where r: "try_class_escape_set D (bump 1 s) = POk (r, t)" using assms(2) by auto
  show ?thesis
  proof (cases r)
    case None
    then have "t = bump 1 s" using class_escape_None r by blast
    then obtain cp where "parse_char_escape False (bump 1 s) = POk (cp, s')" "n = char_node s' cp"
      using assms(2) r None by auto
    then show ?thesis using char_escape [OF assms(1)] char_leaf by blast
  next
    case (Some p)
    obtain sub negate where p: "p = (sub, negate)" by fastforce
    then have n: "n = class_node t (from_code_points sub) negate" "s' = t" using assms(2) r Some by auto
    note e = class_escape_Some [OF assms(1) r [unfolded Some p]]
    show ?thesis unfolding n
      by (rule class_leaf [OF e(1)]) (use e(2) in \<open>simp_all add: strings_of_code_points from_code_points_correct\<close>)
  qed
qed

lemma escape_atom:
  assumes "peek s = Some c_bslash" and "parse_escape_atom D s = POk (n, s')"
  shows "node_ok D 1 s n s'"
proof -
  obtain c where c: "peek (bump 1 s) = Some c" using assms(2) by (auto simp: parse_escape_atom_def Let_def)
  then have at1: "peek_at s 1 = Some c" by (simp add: peek_bump)
  note two = skips_escape [OF assms(1) c, of D False]
  note run = assms(2) [unfolded parse_escape_atom_def Let_def c]
  show ?thesis
  proof (cases "c = c_b \<or> c = c_B")
    case True
    then have "n = NAssert (WordBoundary (c = c_B) (ignore_case (ps_flags s))) \<and> s' = bump 2 s"
      using run by (auto simp: ok_or_def numeral_2_eq_2)
    then show ?thesis using leaf_ok [OF two, of 1 n] by auto
  next
    case word: False
    show ?thesis
    proof (cases "c = c_k \<or> in_range c_1 c_9 c")
      case True
      then show ?thesis using run word named_backref [OF assms(1), of D n s'] numeric_backref [OF assms(1) at1, of n s' D] at1
        by (auto simp: ok_or_def in_range_def)
    next
      case ref: False
      show ?thesis
      proof (cases "(c = c_p \<or> c = c_P) \<and> unicode_sets (ps_flags s)")
        case True
        then obtain cs where cs: "parse_property_set_v D (c = c_P) (bump 2 s) = POk (cs, s')" "n = class_node s' cs False"
          using run word ref by (auto simp: ok_or_def numeral_2_eq_2)
        note p = property_set_v [OF cs(1)]
        show ?thesis unfolding cs(2) using class_leaf [OF skips_trans [OF two p(1)], of 4] p(2) by simp
      next
        case False
        then have "try_p (try_class_escape_set D (bump 1 s)) (\<lambda>(r, s).
          case r of
            Some (cps, negate) \<Rightarrow> POk (class_node s (from_code_points cps) negate, s)
          | None \<Rightarrow> try_p (parse_char_escape False s) (\<lambda>(cp, s). POk (char_node s cp, s))) = POk (n, s')"
          using run word ref by (auto simp: ok_or_def simp del: try_p_POk_iff)
        then show ?thesis by (rule class_or_char_escape [OF assms(1)])
      qed
    qed
  qed
qed

lemma escape_atom_total: "parse_escape_atom D s \<noteq> PFuel" "parse_escape_atom D s \<noteq> PPanic"
  using named_backref_total numeric_backref_total property_set_v_total class_escape_total char_escape_total
    class_escape_None [of D "bump 1 s"]
  by (fastforce simp: parse_escape_atom_def Let_def try_p_PPanic_iff try_p_PFuel_iff split: if_splits option.splits)+

section \<open>Quantifiers\<close>

lemma skips_eat: "quiet_unit b c \<Longrightarrow> skips D b 0 s (if peek s = Some c then bump 1 s else s)"
  using skips_mono [OF skips_plain [of s c b D], of 0] by simp

lemma brace_quantifier_skips:
  assumes "peek s = Some c_lbrace" and "parse_brace_quantifier s = POk (q, s')"
  shows "skips D False 0 s s'"
proof -
  obtain ds s1 where s1: "read_decimal_digits (bump 1 s) = (ds, s1)" by fastforce
  define s2 where "s2 = (if peek s1 = Some c_comma then bump 1 s1 else s1)"
  define s3 where "s3 = (if peek s1 = Some c_comma \<and> peek s2 \<noteq> Some c_rbrace then snd (read_decimal_digits s2) else s2)"
  have fin: "peek s3 = Some c_rbrace" "s' = bump 1 s3"
    using assms(2) s1 by (auto simp: parse_brace_quantifier_def s2_def s3_def Let_def split: if_splits prod.splits)
  have q: "quiet_unit False c_lbrace" "quiet_unit False c_comma" "quiet_unit False c_rbrace" by (simp_all add: quiet_unit_def)
  have "skips D False 0 s s1" using skips_trans [OF skips_plain [OF assms(1) q(1)] skips_read_decimal_digits [OF s1]] by simp
  moreover have "skips D False 0 s1 s2" unfolding s2_def by (rule skips_eat [OF q(2)])
  moreover have "skips D False 0 s2 s3"
    using skips_read_decimal_digits [of s2 "fst (read_decimal_digits s2)" "snd (read_decimal_digits s2)"] by (simp add: s3_def)
  moreover have "skips D False 1 s3 s'" unfolding fin(2) by (rule skips_plain [OF fin(1) q(3)])
  ultimately show ?thesis using skips_trans le0 by metis
qed

lemma brace_quantifier_total: "parse_brace_quantifier s \<noteq> PFuel" "parse_brace_quantifier s \<noteq> PPanic"
  by (auto simp: parse_brace_quantifier_def Let_def split: prod.splits if_splits)

lemma quantifier_bounds:
  assumes "quantifier_bounds s = POk (q, s')"
  shows "skips D False 0 s s'" and "q = Some (qmin, Some m, False) \<Longrightarrow> qmin \<le> m"
proof -
  show "skips D False 0 s s'"
  proof (cases "\<exists>c. peek s = Some c \<and> c = c_lbrace \<and> looks_like_quantifier s")
    case True
    then show ?thesis using assms brace_quantifier_skips by (auto simp: quantifier_bounds_def)
  next
    case False
    then have "s' = s \<or> (\<exists>c. peek s = Some c \<and> (c = c_star \<or> c = c_plus \<or> c = c_quest) \<and> s' = bump 1 s)"
      using assms by (auto simp: quantifier_bounds_def split: option.splits if_splits)
    then show ?thesis using skips_mono [OF skips_plain [of s _ False D], of _ 0] by (auto simp: quiet_unit_def)
  qed
  show "qmin \<le> m" if "q = Some (qmin, Some m, False)"
    using assms that brace_quantifier_ordered(1) [of s qmin "Some m" False s' m]
    by (auto simp: quantifier_bounds_def split: option.splits if_splits)
qed

lemma quantifier_bounds_total: "quantifier_bounds s \<noteq> PFuel" "quantifier_bounds s \<noteq> PPanic"
  using brace_quantifier_total
  by (auto simp: quantifier_bounds_def try_p_PPanic_iff try_p_PFuel_iff split: option.splits if_splits)

lemma node_ok_trans:
  assumes "node_ok D m s n s'" and "skips D False 0 s' s''"
  shows "node_ok D m s n s''"
  using assms advances_trans [OF _ skips_advances [OF assms(2) order_refl], of m s _ _ m] skips_fields(2) [OF assms(2)]
  by (simp add: node_ok_def)

lemma quantified:
  assumes "node_ok D m s atom t" and "maybe_quantify atom t = POk (n, s')"
  shows "node_ok D m s n s'"
proof -
  obtain q u where u: "quantifier_bounds t = POk (q, u)" using assms(2) by (auto simp: maybe_quantify_def split: if_splits)
  note b = quantifier_bounds [OF u]
  show ?thesis
  proof (cases q)
    case None
    then have "n = atom" "s' = u" using assms(2) u by (auto simp: maybe_quantify_def split: if_splits)
    then show ?thesis using node_ok_trans [OF assms(1) b(1)] by simp
  next
    case (Some p)
    obtain qmin qmax inverted where p: "p = (qmin, qmax, inverted)" by (cases p)
    then have n: "\<exists>g. n = NRepeat atom \<lparr>q_min = qmin, q_max = qmax, q_greedy = g\<rparr>" "\<not> inverted"
        "s' = (if peek u = Some c_quest then bump 1 u else u)"
      using assms(2) u Some by (auto simp: maybe_quantify_def split: if_splits)
    have "skips D False 0 t s'" using skips_trans [OF b(1) skips_eat [of False c_quest D u]] n(3) by (simp add: quiet_unit_def)
    from node_ok_trans [OF assms(1) this] have "node_ok D m s atom s'" .
    then show ?thesis using n(1,2) b(2) Some p by (auto simp: node_ok_def split: option.splits)
  qed
qed

lemma quantified_total: "maybe_quantify atom s \<noteq> PFuel" "maybe_quantify atom s \<noteq> PPanic"
  using quantifier_bounds_total
  by (auto simp: maybe_quantify_def try_p_PPanic_iff try_p_PFuel_iff split: option.splits if_splits)

end
