(* ===== verification/Rx_Grammar_Correct.thy ===== *)
theory Rx_Grammar_Correct
  imports Rx_Parser_Correct
begin

text \<open>
  The recursive part of the pattern grammar: groups, atoms, terms, alternatives and
  disjunctions. The locale is the contract of the recursive call for a group's body; the
  disjunction parser fulfils it at every nesting level.
\<close>

lemma node_ok_fields:
  assumes "node_ok D m s n s'"
  shows "ps_units s' = ps_units s" "ps_depth s' = ps_depth s" "ps_pos s + m \<le> ps_pos s'"
    "ps_total_groups s' = ps_total_groups s" "ps_flags s' = ps_flags s" "scanned_state D s' = scanned_state D s"
  using assms advances_fields [of D m s "capture_indices n" "capture_names n" s'] by (simp_all add: node_ok_def)

lemma node_ok_compose:
  assumes "node_ok D m s a t" and "node_ok D l t b s'" and "j \<le> m + l"
    and "capture_indices n = capture_indices a @ capture_indices b" "capture_names n = capture_names a @ capture_names b"
    and "nesting n \<le> max (nesting a) (nesting b)" and "\<And>G. well_formed G a \<Longrightarrow> well_formed G b \<Longrightarrow> well_formed G n"
  shows "node_ok D j s n s'"
proof -
  have "advances D j s (capture_indices n) (capture_names n) s'"
    using assms(1-5) advances_trans [of D m s "capture_indices a" "capture_names a" t l "capture_indices b" "capture_names b" s' j]
    by (simp add: node_ok_def)
  then show ?thesis using assms(1,2,6,7) node_ok_fields [OF assms(1)] by (auto simp: node_ok_def)
qed

locale body_parser =
  fixes D :: ucd and lv :: nat and dj :: node_parser
  assumes dj_ok: "dj s = POk (n, s') \<Longrightarrow> node_ok D 0 s n s'"
    and dj_fuel: "ps_depth s \<le> MAX_NESTING_DEPTH \<Longrightarrow> MAX_NESTING_DEPTH < ps_depth s + lv \<Longrightarrow> dj s \<noteq> PFuel"
    and dj_panic: "dj s = PPanic \<Longrightarrow> dangling (ps_units s)"
    and dj_depth: "dj s = POk (n, s') \<Longrightarrow> ps_depth s + nesting n < MAX_NESTING_DEPTH"
begin

lemma group_close:
  assumes "dj s = POk (n, t)" and "peek t = Some c_rparen"
  shows "node_ok D 1 s n (bump 1 t)"
proof -
  have "advances D 1 t [] [] (bump 1 t)" by (rule advances_unit [OF assms(2)]) (simp add: quiet_unit_def)
  from advances_trans [OF _ this, of 0 s "capture_indices n" "capture_names n" 1] dj_ok [OF assms(1)] show ?thesis
    by (simp add: node_ok_def)
qed

lemma modifier_group_ok:
  assumes "parse_modifier_group dj s = POk (n, s')"
  shows "node_ok D 0 s n s'"
proof -
  obtain s1 body s2 where s1: "parse_modifiers s = POk s1" and s2: "dj s1 = POk (body, s2)" "peek s2 = Some c_rparen"
    and r: "n = NGroup NonCapturing body" "s' = (bump 1 s2)\<lparr>ps_flags := ps_flags s\<rparr>"
    using assms by (auto simp: parse_modifier_group_def Let_def split: if_splits)
  note m = modifiers_advance [OF s1, of D]
  have b: "node_ok D 1 s1 body (bump 1 s2)" by (rule group_close [OF s2])
  then have "advances D 0 s (capture_indices body) (capture_names body) (bump 1 s2)"
    using advances_trans [OF m, of 1 _ _ _ 0] by (simp add: node_ok_def)
  from advances_flags [OF this same_mode_refl] show ?thesis
    using b advances_fields [OF m] r dj_depth [OF s2(1)] by (simp add: node_ok_def)
qed

lemma group_ok:
  assumes "peek s = Some c_lparen" and "parse_group D dj s = POk (n, s')"
  shows "node_ok D 1 s n s'"
proof -
  obtain k t where k: "parse_group_kind D (bump 1 s) = POk (k, t)" using assms(2) by (auto simp: parse_group_def)
  note o = group_kind [OF assms(1) k]
  show ?thesis
  proof (cases k)
    case None
    then have "node_ok D 0 t n s'" using assms(2) k modifier_group_ok [of t n s'] by (auto simp: parse_group_def)
    then show ?thesis using None o advances_trans [of D 1 s "[]" "[]" t 0 _ _ s' 1] advances_fields [of D 1 s "[]" "[]" t]
      by (simp add: node_ok_def kind_node_def)
  next
    case (Some kd)
    then obtain body u where u: "dj t = POk (body, u)" "peek u = Some c_rparen" "n = NGroup kd body" "s' = bump 1 u"
      using assms(2) k by (auto simp: parse_group_def split: if_splits)
    have "node_ok D 1 t body s'" unfolding u(4) by (rule group_close [OF u(1,2)])
    then show ?thesis
      using Some o u(3) dj_depth [OF u(1)] advances_fields [OF conjunct1 [OF o]]
        advances_trans [OF conjunct1 [OF o], of 1 "capture_indices body" "capture_names body" s' 1]
      by (simp add: node_ok_def kind_node_def)
  qed
qed

lemma group_fuel:
  assumes "peek s = Some c_lparen" and "ps_depth s \<le> MAX_NESTING_DEPTH" and "MAX_NESTING_DEPTH < ps_depth s + lv"
  shows "parse_group D dj s \<noteq> PFuel"
proof
  assume "parse_group D dj s = PFuel"
  then obtain k t where k: "parse_group_kind D (bump 1 s) = POk (k, t)"
    and r: "(case k of None \<Rightarrow> parse_modifier_group dj t = PFuel | Some kd \<Rightarrow> dj t = PFuel)"
    using group_kind_total by (auto simp: parse_group_def try_p_PFuel_iff split: option.splits if_splits)
  have depth: "ps_depth t = ps_depth s" using advances_fields(2) group_kind [OF assms(1) k] by blast
  show False
  proof (cases k)
    case None
    then obtain u where u: "parse_modifiers t = POk u" "dj u = PFuel"
      using r modifiers_total by (auto simp: parse_modifier_group_def Let_def try_p_PFuel_iff split: if_splits)
    then show False using u(2) dj_fuel [of u] depth advances_fields(2) [OF modifiers_advance [OF u(1), of D]] assms(2,3) by simp
  qed (use r dj_fuel [of t] depth assms(2,3) in simp)
qed

lemma group_panic:
  assumes "peek s = Some c_lparen" and "parse_group D dj s = PPanic"
  shows "dangling (ps_units s)"
proof -
  obtain k t where k: "parse_group_kind D (bump 1 s) = POk (k, t)"
    and r: "(case k of None \<Rightarrow> parse_modifier_group dj t = PPanic | Some kd \<Rightarrow> dj t = PPanic)"
    using assms(2) group_kind_total by (auto simp: parse_group_def try_p_PPanic_iff split: option.splits if_splits)
  have us: "ps_units t = ps_units s" using advances_fields(1) group_kind [OF assms(1) k] by blast
  show ?thesis
  proof (cases k)
    case None
    then obtain u where u: "parse_modifiers t = POk u" "dj u = PPanic"
      using r modifiers_total by (auto simp: parse_modifier_group_def Let_def try_p_PPanic_iff split: if_splits)
    then show ?thesis using u(2) dj_panic [of u] us advances_fields(1) [OF modifiers_advance [OF u(1), of D]] by simp
  qed (use r dj_panic [of t] us in simp)
qed

text \<open>Atoms that start with a unit the pre-scan passes over.\<close>

lemma quiet_atom:
  assumes "peek s = Some c" and "quiet_unit False c" and "parse_atom D dj s = POk (n, s')"
  shows "node_ok D 1 s n s'"
proof (cases "c \<in> {c_caret, c_dollar, c_dot, c_lbrace, c_rbrack, c_rbrace}")
  case True
  then have "(n = char_node (bump 1 s) c \<or> n = NAnyChar (dot_all (ps_flags s)) \<or> (\<exists>a. n = NAssert a)) \<and> s' = bump 1 s"
    using assms(1,3) by (auto simp: parse_atom_def split: if_splits)
  then show ?thesis using leaf_plain [OF assms(1,2), of n D] utf16_peek [OF _ assms(1)]
    by (auto simp: char_node_def scanned_state_def)
next
  case False
  then obtain cp where cp: "read_pattern_codepoint s = POk (cp, s')" "n = char_node s' cp"
    using assms by (auto simp: parse_atom_def quiet_unit_def split: if_splits)
  show ?thesis unfolding cp(2)
    by (rule char_leaf [OF pattern_codepoint(1) [OF cp(1) assms(1,2)] order_refl pattern_codepoint(4) [OF cp(1)]])
qed

lemma atom_ok:
  assumes "parse_atom D dj s = POk (n, s')"
  shows "node_ok D 1 s n s'"
proof -
  obtain c where c: "peek s = Some c" using assms by (auto simp: parse_atom_def split: option.splits)
  consider "c = c_lparen" | "c = c_lbrack" | "c = c_bslash" | (quiet) "quiet_unit False c" by (auto simp: quiet_unit_def)
  then show ?thesis
  proof cases
    case 1
    then show ?thesis using assms group_ok c by (simp add: parse_atom_def)
  next
    case 2
    then have r: "parse_class D s = POk (n, s')" "peek s = Some c_lbrack" using assms c by (simp_all add: parse_atom_def)
    from class_atom(3) [OF r] obtain cs negate ic where n: "n = NClass cs negate ic"
      "ucd_valid D \<Longrightarrow> utf16 (ps_units s) \<Longrightarrow> class_inv cs \<and> (strings cs = [] \<or> \<not> negate)" by blast
    have "advances D 1 s [] [] s'"
      using skips_advances [OF class_atom(2) [OF r]] reads_advances [OF class_atom(1) [OF r]] by blast
    then show ?thesis using n reads_fields(2) [OF class_atom(1) [OF r]] by (simp add: node_ok_def scanned_state_def)
  next
    case 3
    then show ?thesis using assms escape_atom c by (simp add: parse_atom_def)
  next
    case quiet
    show ?thesis by (rule quiet_atom [OF c quiet assms])
  qed
qed

lemma atom_fuel:
  assumes "ps_depth s \<le> MAX_NESTING_DEPTH" and "MAX_NESTING_DEPTH < ps_depth s + lv"
  shows "parse_atom D dj s \<noteq> PFuel"
  using group_fuel [OF _ assms] class_atom_total(1) [OF assms(1), of D] escape_atom_total(1) [of D s] pattern_codepoint_total(1) [of s]
  by (auto simp: parse_atom_def try_p_PFuel_iff split: option.splits if_splits)

lemma atom_panic:
  assumes "parse_atom D dj s = PPanic" and "peek s = Some c"
  shows "dangling (ps_units s)"
  using assms group_panic [of s] class_atom_total(2) [of D s] escape_atom_total(2) [of D s] pattern_codepoint_total(2) [of s]
  by (auto simp: parse_atom_def try_p_PPanic_iff split: if_splits)

lemma term_ok:
  assumes "parse_term D dj s = POk (r, s')"
  shows "r = None \<Longrightarrow> s' = s" and "r = Some n \<Longrightarrow> node_ok D 1 s n s'"
  using assms by (auto simp: parse_term_def simp del: One_nat_def split: if_splits intro: quantified [OF atom_ok])

lemma term_fuel:
  "ps_depth s \<le> MAX_NESTING_DEPTH \<Longrightarrow> MAX_NESTING_DEPTH < ps_depth s + lv \<Longrightarrow> parse_term D dj s \<noteq> PFuel"
  using atom_fuel [of s] quantified_total(1) by (auto simp: parse_term_def try_p_PFuel_iff split: if_splits)

lemma term_panic: "parse_term D dj s = PPanic \<Longrightarrow> dangling (ps_units s)"
  using atom_panic [of s] quantified_total(2) by (auto simp: parse_term_def try_p_PPanic_iff split: if_splits)

lemma node_ok_less:
  assumes "node_ok D 1 s n t" and "length (ps_units s) - ps_pos s < Suc k" and "ps_pos s < length (ps_units s)"
  shows "length (ps_units t) - ps_pos t < k"
  using node_ok_fields(1,3) [OF assms(1)] assms(2,3) by simp

lemma term_some: "parse_term D dj s = POk (Some n, s') \<Longrightarrow> ps_pos s < length (ps_units s)"
  by (auto simp: parse_term_def dest: peek_SomeD split: if_splits)

lemma terms_ok:
  "node_ok D 0 s0 (NConcat terms) s \<Longrightarrow> term_loop D dj k terms s = POk (ts, s') \<Longrightarrow> node_ok D 0 s0 (NConcat ts) s'"
proof (induction k arbitrary: terms s)
  case (Suc k)
  then obtain r t where r: "parse_term D dj s = POk (r, t)" by auto
  show ?case
  proof (cases r)
    case None
    then show ?thesis using Suc(2,3) r term_ok(1) [OF r] by auto
  next
    case (Some n)
    have "node_ok D 0 s0 (NConcat (terms @ [n])) t"
      by (rule node_ok_compose [OF Suc(2) term_ok(2) [OF r Some]]) simp_all
    from Suc(1) [OF this] show ?thesis using Suc(3) r Some by simp
  qed
qed simp

lemma terms_fuel:
  "ps_depth s \<le> MAX_NESTING_DEPTH \<Longrightarrow> MAX_NESTING_DEPTH < ps_depth s + lv \<Longrightarrow>
    length (ps_units s) - ps_pos s < k \<Longrightarrow> term_loop D dj k terms s \<noteq> PFuel"
proof (induction k arbitrary: terms s)
  case (Suc k)
  have "term_loop D dj k (terms @ [n]) t \<noteq> PFuel" if r: "parse_term D dj s = POk (Some n, t)" for n t
  proof -
    have ok: "node_ok D 1 s n t" by (rule term_ok(2) [OF r refl])
    show ?thesis using Suc(1) [of t "terms @ [n]"] Suc(2,3) node_ok_fields(2) [OF ok] node_ok_less [OF ok Suc(4) term_some [OF r]]
      by simp
  qed
  then show ?case using term_fuel [OF Suc(2,3)] by (auto simp: try_p_PFuel_iff split: option.splits)
qed simp

lemma terms_panic: "term_loop D dj k terms s = PPanic \<Longrightarrow> dangling (ps_units s)"
proof (induction k arbitrary: terms s)
  case (Suc k)
  show ?case
  proof (cases "parse_term D dj s = PPanic")
    case False
    with Suc(2) obtain n t where r: "parse_term D dj s = POk (Some n, t)" "term_loop D dj k (terms @ [n]) t = PPanic"
      by (auto simp: try_p_PPanic_iff split: option.splits)
    then show ?thesis using Suc(1) [OF r(2)] node_ok_fields(1) [OF term_ok(2) [OF r(1) refl]] by simp
  qed (rule term_panic)
qed simp

lemma alternative_ok:
  assumes "parse_alternative D dj s = POk (n, s')"
  shows "node_ok D 0 s n s'"
proof -
  obtain ts where ts: "term_loop D dj (loop_fuel s) [] s = POk (ts, s')"
    and n: "n = (case ts of [] \<Rightarrow> NEmpty | [t] \<Rightarrow> t | _ \<Rightarrow> NConcat ts)"
    using assms by (auto simp: parse_alternative_def)
  have "node_ok D 0 s (NConcat []) s" by (simp add: node_ok_def)
  from terms_ok [OF this ts] show ?thesis unfolding n by (auto simp: node_ok_def split: list.splits)
qed

lemma alternative_fuel:
  assumes "ps_depth s \<le> MAX_NESTING_DEPTH" and "MAX_NESTING_DEPTH < ps_depth s + lv"
  shows "parse_alternative D dj s \<noteq> PFuel"
  using terms_fuel [OF assms remaining_less_fuel] by (auto simp: parse_alternative_def try_p_PFuel_iff)

lemma alternative_panic: "parse_alternative D dj s = PPanic \<Longrightarrow> dangling (ps_units s)"
  using terms_panic by (auto simp: parse_alternative_def try_p_PPanic_iff)

lemma bar_advances: "peek s = Some c_bar \<Longrightarrow> node_ok D 1 s NEmpty (bump 1 s)"
  by (rule leaf_plain [where c = c_bar]) (simp_all add: quiet_unit_def)

lemma alternatives_ok:
  "node_ok D 0 s0 (NAlternate alts) s \<Longrightarrow> alternation_parse_loop D dj k alts s = POk (as, s') \<Longrightarrow>
    node_ok D 0 s0 (NAlternate as) s' \<and> (alts \<noteq> [] \<longrightarrow> as \<noteq> [])"
proof (induction k arbitrary: alts s)
  case (Suc k)
  show ?case
  proof (cases "peek s = Some c_bar")
    case True
    then obtain n t where n: "parse_alternative D dj (bump 1 s) = POk (n, t)"
      and loop: "alternation_parse_loop D dj k (alts @ [n]) t = POk (as, s')" using Suc(3) by auto
    have "node_ok D 0 s n t" by (rule node_ok_compose [OF bar_advances [OF True] alternative_ok [OF n]]) simp_all
    from node_ok_compose [OF Suc(2) this, of 0 "NAlternate (alts @ [n])"] have "node_ok D 0 s0 (NAlternate (alts @ [n])) t"
      by simp
    from Suc(1) [OF this loop] show ?thesis by simp
  qed (use Suc in auto)
qed simp

lemma alternatives_fuel:
  "ps_depth s \<le> MAX_NESTING_DEPTH \<Longrightarrow> MAX_NESTING_DEPTH < ps_depth s + lv \<Longrightarrow>
    length (ps_units s) - ps_pos s < k \<Longrightarrow> alternation_parse_loop D dj k alts s \<noteq> PFuel"
proof (induction k arbitrary: alts s)
  case (Suc k)
  have "alternation_parse_loop D dj k (alts @ [n]) t \<noteq> PFuel"
    if bar: "peek s = Some c_bar" and r: "parse_alternative D dj (bump 1 s) = POk (n, t)" for n t
  proof -
    have ok: "node_ok D 1 s n t" by (rule node_ok_compose [OF bar_advances [OF bar] alternative_ok [OF r]]) simp_all
    show ?thesis using Suc(1) [of t "alts @ [n]"] Suc(2,3) node_ok_fields(2) [OF ok]
        node_ok_less [OF ok Suc(4)] bar by (auto dest: peek_SomeD)
  qed
  then show ?case using alternative_fuel [of "bump 1 s"] Suc(2,3) by (auto simp: try_p_PFuel_iff)
qed simp

lemma alternatives_panic: "alternation_parse_loop D dj k alts s = PPanic \<Longrightarrow> dangling (ps_units s)"
proof (induction k arbitrary: alts s)
  case (Suc k)
  show ?case
  proof (cases "parse_alternative D dj (bump 1 s) = PPanic")
    case True
    then show ?thesis using alternative_panic [of "bump 1 s"] by simp
  next
    case False
    with Suc(2) obtain n t where r: "parse_alternative D dj (bump 1 s) = POk (n, t)" "alternation_parse_loop D dj k (alts @ [n]) t = PPanic"
      by (auto simp: try_p_PPanic_iff split: if_splits)
    then show ?thesis using Suc(1) [OF r(2)] node_ok_fields(1) [OF alternative_ok [OF r(1)]] by simp
  qed
qed simp

end

section \<open>The knot\<close>

lemma node_ok_level:
  assumes "node_ok D m (s\<lparr>ps_depth := ps_depth s + 1\<rparr>) n s'" and "ps_depth s < MAX_NESTING_DEPTH"
  shows "node_ok D m s n (leave s') \<and> ps_depth s + nesting n < MAX_NESTING_DEPTH"
  using assms by (simp add: node_ok_def advances_def leave_def scanned_state_def)

lemma disjunction_step:
  assumes "body_parser D n (parse_disjunction D n)"
  shows "parse_disjunction D (Suc n) s = POk (r, s') \<Longrightarrow> node_ok D 0 s r s' \<and> ps_depth s + nesting r < MAX_NESTING_DEPTH"
    and "parse_disjunction D (Suc n) s = PPanic \<Longrightarrow> dangling (ps_units s)"
    and "ps_depth s \<le> MAX_NESTING_DEPTH \<Longrightarrow> MAX_NESTING_DEPTH < ps_depth s + Suc n \<Longrightarrow> parse_disjunction D (Suc n) s \<noteq> PFuel"
proof -
  note body = body_parser.alternative_ok [OF assms] body_parser.alternatives_ok [OF assms]
    body_parser.alternative_panic [OF assms] body_parser.alternatives_panic [OF assms]
    body_parser.alternative_fuel [OF assms] body_parser.alternatives_fuel [OF assms _ _ remaining_less_fuel]
  let ?s = "s\<lparr>ps_depth := ps_depth s + 1\<rparr>"
  show "node_ok D 0 s r s' \<and> ps_depth s + nesting r < MAX_NESTING_DEPTH" if run: "parse_disjunction D (Suc n) s = POk (r, s')"
  proof -
    obtain a t as u where a: "parse_alternative D (parse_disjunction D n) ?s = POk (a, t)"
      and as: "alternation_parse_loop D (parse_disjunction D n) (loop_fuel t) [a] t = POk (as, u)"
      and r: "r = (if length as = 1 then hd as else NAlternate as)" "s' = leave u" and d: "ps_depth s < MAX_NESTING_DEPTH"
      using run by (auto simp: enter_Ok)
    have "node_ok D 0 ?s (NAlternate [a]) t" using body(1) [OF a] by (simp add: node_ok_def)
    from body(2) [OF this as] have "node_ok D 0 ?s (NAlternate as) u" by simp
    then have "node_ok D 0 ?s r u" unfolding r(1) by (cases as) (auto simp: node_ok_def)
    then show ?thesis unfolding r(2) using d by (rule node_ok_level)
  qed
  show "dangling (ps_units s)" if run: "parse_disjunction D (Suc n) s = PPanic"
  proof (cases "parse_alternative D (parse_disjunction D n) ?s = PPanic")
    case True
    then show ?thesis using body(3) [OF True] by simp
  next
    case False
    then obtain a t where "parse_alternative D (parse_disjunction D n) ?s = POk (a, t)"
        "alternation_parse_loop D (parse_disjunction D n) (loop_fuel t) [a] t = PPanic"
      using run enter_total by (auto simp: enter_Ok try_p_PPanic_iff)
    then show ?thesis using body(4) node_ok_fields(1) [OF body(1)] by fastforce
  qed
  show "parse_disjunction D (Suc n) s \<noteq> PFuel" if "ps_depth s \<le> MAX_NESTING_DEPTH" "MAX_NESTING_DEPTH < ps_depth s + Suc n"
  proof
    assume "parse_disjunction D (Suc n) s = PFuel"
    then consider "ps_depth s < MAX_NESTING_DEPTH" "parse_alternative D (parse_disjunction D n) ?s = PFuel"
      | a t where "ps_depth s < MAX_NESTING_DEPTH" "parse_alternative D (parse_disjunction D n) ?s = POk (a, t)"
        "alternation_parse_loop D (parse_disjunction D n) (loop_fuel t) [a] t = PFuel"
      using enter_total by (auto simp: enter_Ok try_p_PFuel_iff)
    then show False
    proof cases
      case 1
      then show False using body(5) [of ?s] that by simp
    next
      case 2
      then show False using body(6) [of t "[a]"] node_ok_fields(2) [OF body(1) [OF 2(2)]] that by simp
    qed
  qed
qed

lemma body_parser_levels: "body_parser D n (parse_disjunction D n)"
proof (induction n)
  case 0
  show ?case by unfold_locales auto
next
  case (Suc n)
  show ?case by unfold_locales (use disjunction_step [OF Suc] in blast)+
qed

interpretation body: body_parser D n "parse_disjunction D n" for D n
  by (rule body_parser_levels)

section \<open>The entry point\<close>

lemma prescan_loop_total: "prescan_loop D us i b n ns \<noteq> PFuel \<and> prescan_loop D us i b n ns \<noteq> PPanic"
proof (induction D us i b n ns rule: prescan_loop.induct)
  case (1 D us i b n ns)
  then show ?case
    by (subst (1 2) prescan_loop.simps) (simp del: get_at_Some_iff get_at_None_iff split: option.split)
qed

lemma prescan_loop_length:
  "length ns = n \<Longrightarrow> case prescan_loop D us i b n ns of POk (k, ks) \<Rightarrow> length ks = k | _ \<Rightarrow> True"
proof (induction D us i b n ns rule: prescan_loop.induct)
  case (1 D us i b n ns)
  then show ?case
    by (subst prescan_loop.simps) (simp del: get_at_Some_iff get_at_None_iff split: option.split)
qed

lemma parse_Ok:
  assumes "parse D us f = POk p"
  obtains k ks s where "prescan_loop D us 0 False 0 [] = POk (k, ks)"
    and "node_ok D 0 ((parser_new us f)\<lparr>ps_total_groups := k, ps_group_names := ks\<rparr>) (root p) s"
    and "nesting (root p) < MAX_NESTING_DEPTH" and "ps_pos s = length us" "group_count p = k" "group_names p = ks"
    and "validate_duplicate_named_groups_by_path (root p) = POk ()"
proof -
  obtain k ks r s where k: "prescan_loop D us 0 False 0 [] = POk (k, ks)"
    and r: "parse_disjunction D (levels ((parser_new us f)\<lparr>ps_total_groups := k, ps_group_names := ks\<rparr>))
        ((parser_new us f)\<lparr>ps_total_groups := k, ps_group_names := ks\<rparr>) = POk (r, s)" (is "parse_disjunction D _ ?s = _")
    and e: "ps_pos s = length (ps_units s)" "validate_duplicate_named_groups_by_path r = POk ()"
        "p = \<lparr>root = r, group_count = ps_total_groups s, group_names = ps_group_names s\<rparr>"
    using assms by (auto simp: parse_def prescan_def parser_new_def split: if_splits)
  have ok: "node_ok D 0 ?s r s" "nesting r < MAX_NESTING_DEPTH"
    using body.dj_ok [OF r] body.dj_depth [OF r] by (simp_all add: parser_new_def)
  show thesis
    by (rule that [OF k, of s]) (use ok e node_ok_fields [OF ok(1)] advances_fields [OF conjunct1 [OF ok(1) [unfolded node_ok_def]]]
      in \<open>simp_all add: parser_new_def\<close>)
qed

lemma validate_names_total:
  "validate_names n states \<noteq> PFuel \<and> validate_names n states \<noteq> PPanic"
  "validate_concat ns states \<noteq> PFuel \<and> validate_concat ns states \<noteq> PPanic"
  "validate_alternate ns states \<noteq> PFuel \<and> validate_alternate ns states \<noteq> PPanic"
  by (induction n states and ns states and ns states rule: validate_names_validate_concat_validate_alternate.induct)
    (auto simp: try_p_PFuel_iff try_p_PPanic_iff split: group_kind.splits option.splits)

lemma parse_never_out_of_fuel: "parse D us f \<noteq> PFuel"
proof
  assume run: "parse D us f = PFuel"
  have "parse_disjunction D (levels s) s \<noteq> PFuel" if "ps_depth s = 0" for s
    by (rule body.dj_fuel) (simp_all add: that levels_def)
  with run show False
    using prescan_loop_total validate_names_total
    by (auto simp: parse_def prescan_def validate_duplicate_named_groups_by_path_def try_p_PFuel_iff parser_new_def split: if_splits)
qed

lemma parse_panics_dangling:
  assumes "parse D us f = PPanic"
  shows "dangling us"
proof -
  obtain k ks where "parse_disjunction D (levels ((parser_new us f)\<lparr>ps_total_groups := k, ps_group_names := ks\<rparr>))
      ((parser_new us f)\<lparr>ps_total_groups := k, ps_group_names := ks\<rparr>) = PPanic"
    using assms prescan_loop_total validate_names_total
    by (auto simp: parse_def prescan_def validate_duplicate_named_groups_by_path_def try_p_PPanic_iff parser_new_def split: if_splits)
  from body.dj_panic [OF this] show ?thesis by (simp add: parser_new_def)
qed

lemma parse_numbering:
  assumes "parse D us f = POk p" and "ucd_names D" and "\<not> unicode_sets f"
  shows "capture_indices (root p) = [1..<Suc (group_count p)]" and "capture_names (root p) = group_names p"
    and "length (group_names p) = group_count p"
proof -
  obtain k ks s where p: "prescan_loop D us 0 False 0 [] = POk (k, ks)"
      "node_ok D 0 ((parser_new us f)\<lparr>ps_total_groups := k, ps_group_names := ks\<rparr>) (root p) s"
      "ps_pos s = length us" "group_count p = k" "group_names p = ks"
    using parse_Ok [OF assms(1)] by metis
  have adv: "capture_indices (root p) = [Suc 0..<Suc (ps_next_group s)]"
      "prescan_loop D us 0 False 0 [] = prescan_loop D us (length us) False (ps_next_group s) (capture_names (root p))"
    using p(2,3) assms(2,3) by (auto simp: node_ok_def advances_def parser_new_def simp del: upt_Suc)
  have "prescan_loop D us (length us) False n ns = POk (n, ns)" for n ns
    by (subst prescan_loop.simps) (simp add: get_at_def)
  with adv p(1) have "k = ps_next_group s" "ks = capture_names (root p)" by simp_all
  then show "capture_indices (root p) = [1..<Suc (group_count p)]" "capture_names (root p) = group_names p"
    "length (group_names p) = group_count p"
    using p(1,4,5) adv(1) prescan_loop_length [of "[]" 0 D us 0 False] by simp_all
qed

lemma parse_well_formed:
  assumes "parse D us f = POk p" and "ucd_valid D" and "utf16 us"
  shows "well_formed (group_count p) (root p)" and "nesting (root p) < MAX_NESTING_DEPTH"
proof -
  obtain k ks s where p: "prescan_loop D us 0 False 0 [] = POk (k, ks)"
      "node_ok D 0 ((parser_new us f)\<lparr>ps_total_groups := k, ps_group_names := ks\<rparr>) (root p) s"
      "group_count p = k" "nesting (root p) < MAX_NESTING_DEPTH"
    using parse_Ok [OF assms(1)] by metis
  have "length ks = k" using p(1) prescan_loop_length [of "[]" 0 D us 0 False] by simp
  then show "well_formed (group_count p) (root p)" using p(2,3) assms(2,3)
    by (simp add: node_ok_def scanned_state_def parser_new_def)
  show "nesting (root p) < MAX_NESTING_DEPTH" by (rule p(4))
qed

lemma well_formed_node:
  assumes "well_formed G n" and "\<forall>g \<in> set (capture_indices n). 1 \<le> g \<and> g \<le> G"
  shows "wf_node G n \<and> bounded_chars n"
  using assms
proof (induction G n rule: well_formed.induct)
  case (6 G kind n)
  then show ?case by (auto split: group_kind.splits)
qed (auto simp: list_all_iff class_inv_def split: option.splits)

lemma parse_wf_node:
  assumes "parse D us f = POk p" and "ucd_laws D" and "utf16 us" and "\<not> unicode_sets f"
  shows "wf_node (group_count p) (root p) \<and> bounded_chars (root p) \<and> distinct (capture_indices (root p))"
  using well_formed_node [OF parse_well_formed(1) [OF assms(1)]] parse_numbering(1) [OF assms(1)] assms(2-4)
  by (auto simp: ucd_laws_def simp del: upt_Suc)

end
