(* ===== verification/Rx_Literal.thy ===== *)
theory Rx_Literal
  imports Rx_Grammar_Correct
begin

text \<open>
  Literal text as a pattern, from its units to the first item of the match iterator:
  \<open>escape_text\<close> puts a backslash before each syntax character, such a pattern parses to the
  sequence of the text's units, and searching for it is searching for the first occurrence of
  the text.
\<close>

definition escape_text :: "code_unit list \<Rightarrow> code_unit list" where
  "escape_text w = concat (map (\<lambda>c. if is_syntax_char c then [c_bslash, c] else [c]) w)"

definition literal_tree :: "flags \<Rightarrow> code_unit list \<Rightarrow> node" where
  "literal_tree f w =
    (case map (\<lambda>c. NChar c (ignore_case f)) w of [] \<Rightarrow> NEmpty | [t] \<Rightarrow> t | ts \<Rightarrow> NConcat ts)"

text \<open>In Unicode mode two surrogate units would be read as one code point.\<close>

definition unit_text :: "flags \<Rightarrow> code_unit list \<Rightarrow> bool" where
  "unit_text f w \<longleftrightarrow> (is_unicode_mode f \<longrightarrow> list_all (\<lambda>c. \<not> is_high_surrogate c) w)"

section \<open>Parsing\<close>

lemma escape_text_simps [simp]:
  "escape_text [] = []"
  "escape_text (c # w) = (if is_syntax_char c then c_bslash # c # escape_text w else c # escape_text w)"
  by (simp_all add: escape_text_def)

lemma syntax_char_iff:
  "is_syntax_char c \<longleftrightarrow> c \<in> {c_caret, c_dollar, c_bslash, c_dot, c_star, c_plus, c_quest, c_lparen, c_rparen,
    c_lbrack, c_rbrack, c_lbrace, c_rbrace, c_bar}"
  by (cases "c < 128") (auto simp: is_syntax_char_def)

lemma syntax_char_not:
  assumes "is_syntax_char c"
  shows "c \<notin> {c_b, c_B, c_k, c_p, c_P, c_d, c_D, c_w, c_W, c_s, c_S, c_n, c_t, c_r, c_f, c_v, c_0, c_x, c_u, c_c}"
    and "\<not> in_range c_1 c_9 c" and "\<not> is_high_surrogate c"
  using assms by (auto simp: syntax_char_iff in_range_def is_high_surrogate_def)

lemma peek_drop: "peek s = (case drop (ps_pos s) (ps_units s) of [] \<Rightarrow> None | c # _ \<Rightarrow> Some c)"
  by (cases "ps_pos s < length (ps_units s)")
    (auto simp: peek_def get_at_def Cons_nth_drop_Suc [symmetric] split: list.split)

text \<open>What follows a unit of the text is never a quantifier.\<close>

lemma escape_no_quantifier:
  assumes "drop (ps_pos s) (ps_units s) = escape_text w"
  shows "quantifier_bounds s = POk (None, s)"
  using assms by (cases w) (auto simp: quantifier_bounds_def peek_drop syntax_char_iff split: if_splits)

lemma read_unit:
  assumes "peek s = Some c" and "ps_unicode s \<Longrightarrow> \<not> is_high_surrogate c"
  shows "read_pattern_codepoint s = POk (c, bump 1 s)"
  using assms by (auto simp: read_pattern_codepoint_def Let_def split: option.splits)

lemma syntax_char_escape:
  assumes "peek s = Some c_bslash" and "peek (bump 1 s) = Some c" and "is_syntax_char c"
  shows "parse_escape_atom D s = POk (char_node (bump 2 s) c, bump 2 s)"
proof -
  have "read_pattern_codepoint (bump 1 s) = POk (c, bump 2 s)"
    using read_unit [OF assms(2)] syntax_char_not(3) [OF assms(3)] by (simp add: numeral_2_eq_2)
  then have "parse_char_escape False (bump 1 s) = POk (c, bump 2 s)" "try_class_escape_set D (bump 1 s) = POk (None, bump 1 s)"
    using syntax_char_not(1) [OF assms(3)] assms(2,3) by (simp_all add: parse_char_escape_def try_class_escape_set_def)
  then show ?thesis using syntax_char_not(1,2) [OF assms(3)] assms(2) by (simp add: parse_escape_atom_def Let_def ok_or_def)
qed

lemma literal_term:
  assumes "drop (ps_pos s) (ps_units s) = escape_text (c # w)" and "unit_text (ps_flags s) (c # w)"
  shows "\<exists>k. parse_term D dj s = POk (Some (NChar c (ignore_case (ps_flags s))), bump (Suc k) s)
    \<and> drop (ps_pos s + Suc k) (ps_units s) = escape_text w \<and> ps_pos s + Suc k \<le> length (ps_units s)"
proof (cases "is_syntax_char c")
  case True
  have d: "drop (ps_pos s + 1) (ps_units s) = c # escape_text w" "drop (ps_pos s + 2) (ps_units s) = escape_text w"
    using assms(1) True by (simp_all add: drop_drop [symmetric] drop_Suc numeral_2_eq_2 tl_drop [symmetric])
  have look: "peek s = Some c_bslash" "peek (bump 1 s) = Some c" using assms(1) True d(1) by (simp_all add: peek_drop)
  show ?thesis using syntax_char_escape [OF look True, of D] escape_no_quantifier [of "bump 2 s" w] d(2) look(1) peek_SomeD [OF look(2)]
    by (intro exI [of _ 1]) (simp add: parse_term_def parse_atom_def maybe_quantify_def char_node_def is_assertion_node_def numeral_2_eq_2)
next
  case False
  have d: "drop (ps_pos s + 1) (ps_units s) = escape_text w"
    using assms(1) False by (simp add: drop_Suc tl_drop [symmetric])
  have look: "peek s = Some c" using assms(1) False by (simp add: peek_drop)
  have "read_pattern_codepoint s = POk (c, bump 1 s)"
    using read_unit [OF look] assms(2) by (simp add: unit_text_def ps_unicode_def)
  then show ?thesis using False look escape_no_quantifier [of "bump 1 s" w] d peek_SomeD [OF look]
    by (intro exI [of _ 0]) (simp add: parse_term_def parse_atom_def maybe_quantify_def char_node_def is_assertion_node_def syntax_char_iff)
qed

lemma literal_terms:
  assumes "drop (ps_pos s) (ps_units s) = escape_text w" and "unit_text (ps_flags s) w"
    and "length (ps_units s) - ps_pos s < k" and "ps_pos s \<le> length (ps_units s)"
  shows "term_loop D dj k terms s =
    POk (terms @ map (\<lambda>c. NChar c (ignore_case (ps_flags s))) w, s\<lparr>ps_pos := length (ps_units s)\<rparr>)"
  using assms
proof (induction k arbitrary: s terms w)
  case (Suc k)
  show ?case
  proof (cases w)
    case Nil
    then have e: "ps_pos s = length (ps_units s)" using Suc(2,5) by simp
    then have "s\<lparr>ps_pos := length (ps_units s)\<rparr> = s" "peek s = None" by (simp_all add: peek_drop)
    then show ?thesis using Nil by (simp add: parse_term_def)
  next
    case (Cons c v)
    from literal_term [OF Suc(2,3) [unfolded Cons], of D dj] obtain j where
      j: "parse_term D dj s = POk (Some (NChar c (ignore_case (ps_flags s))), bump (Suc j) s)"
        "drop (ps_pos s + Suc j) (ps_units s) = escape_text v" "ps_pos s + Suc j \<le> length (ps_units s)" by blast
    have "drop (ps_pos s) (ps_units s) \<noteq> []" using Suc(2) Cons by auto
    then have lt: "ps_pos s < length (ps_units s)" by simp
    then show ?thesis
      using Suc(1) [of "bump (Suc j) s" v "terms @ [NChar c (ignore_case (ps_flags s))]"] j Suc(3,4) lt Cons
      by (simp add: bump_update unit_text_def)
  qed
qed simp

lemma literal_prescan:
  "drop i us = escape_text w \<Longrightarrow> prescan_loop D us i False n ns = POk (n, ns)"
proof (induction w arbitrary: i)
  case Nil
  then show ?case by (subst prescan_loop.simps) (simp add: get_at_def)
next
  case (Cons c w)
  then have i: "i < length us" by (cases "i < length us") (auto split: if_splits)
  then have d: "us ! i # drop (Suc i) us = escape_text (c # w)" using Cons(2) by (simp add: Cons_nth_drop_Suc)
  have g: "get_at us i = Some (us ! i)" using i by (simp add: get_at_def)
  show ?case
  proof (cases "is_syntax_char c")
    case True
    then have "us ! i = c_bslash" "drop (i + 2) us = escape_text w"
      using d by (simp_all add: drop_Suc tl_drop [symmetric])
    then show ?thesis using prescan_escape [OF g [unfolded \<open>us ! i = c_bslash\<close>], of D False n ns] Cons(1) [of "i + 2"] by simp
  next
    case False
    then have "us ! i = c" "drop (i + 1) us = escape_text w" using d by simp_all
    then show ?thesis using prescan_plain [OF g, of False D n ns] False Cons(1) [of "i + 1"] by (simp add: quiet_unit_def syntax_char_iff)
  qed
qed

lemma literal_valid: "validate_duplicate_named_groups_by_path (literal_tree f w) = POk ()"
proof -
  have "validate_concat (map (\<lambda>c. NChar c ic) us) states = POk states" for us ic states
    by (induction us) simp_all
  then have "validate_names (literal_tree f w) states = POk states" for states
    by (auto simp: literal_tree_def split: list.split)
  then show ?thesis by (simp add: validate_duplicate_named_groups_by_path_def)
qed

lemma parse_literal:
  assumes "unit_text f w"
  shows "parse D (escape_text w) f = POk \<lparr>root = literal_tree f w, group_count = 0, group_names = []\<rparr>"
proof -
  let ?u = "escape_text w"
  let ?s = "(parser_new ?u f)\<lparr>ps_total_groups := 0, ps_group_names := [], ps_depth := Suc 0\<rparr>"
  have terms: "term_loop D dj (loop_fuel ?s) [] ?s
      = POk (map (\<lambda>c. NChar c (ignore_case f)) w, ?s\<lparr>ps_pos := length ?u\<rparr>)" for dj
    using literal_terms [of ?s w "loop_fuel ?s" D dj "[]"] assms by (simp add: parser_new_def loop_fuel_def)
  have alt: "parse_alternative D dj ?s = POk (literal_tree f w, ?s\<lparr>ps_pos := length ?u\<rparr>)" for dj
    by (simp add: parse_alternative_def terms literal_tree_def split: list.split)
  have peek: "peek (?s\<lparr>ps_pos := length ?u\<rparr>) = None" by (simp add: peek_def parser_new_def)
  have "parse_disjunction D (Suc n) ((parser_new ?u f)\<lparr>ps_total_groups := 0, ps_group_names := []\<rparr>)
      = POk (literal_tree f w, (parser_new ?u f)\<lparr>ps_total_groups := 0, ps_group_names := [], ps_pos := length ?u\<rparr>)" for n
    using alt peek by (simp add: enter_def leave_def loop_fuel_def parser_new_def MAX_NESTING_DEPTH_def)
  moreover have "levels ((parser_new ?u f)\<lparr>ps_total_groups := 0, ps_group_names := []\<rparr>) = Suc MAX_NESTING_DEPTH"
    by (simp add: levels_def parser_new_def)
  ultimately show ?thesis
    using literal_prescan [of 0 ?u w D 0 "[]"] literal_valid [of f w]
    by (simp add: parse_def prescan_def parser_new_def del: parse_disjunction.simps try_p_POk_iff)
qed

section \<open>Matching\<close>

definition occurs_at :: "code_unit list \<Rightarrow> code_unit list \<Rightarrow> nat \<Rightarrow> bool" where
  "occurs_at w ts k \<longleftrightarrow> take (length w) (drop k ts) = w"

lemma literal_units:
  assumes "\<not> code_point_mode (s_input env)" and "ts = units (s_input env)" and "k \<le> length ts"
  shows "s_seq (map (\<lambda>c. s_char env False (s_char_test env c False)) w) (k, caps)
    = (if occurs_at w ts k then [(k + length w, caps)] else [])"
  using assms(3)
proof (induction w arbitrary: k)
  case Nil
  then show ?case by (simp add: occurs_at_def)
next
  case (Cons c w)
  show ?case
  proof (cases "k < length ts")
    case True
    then have d: "drop k ts = ts ! k # drop (k + 1) ts" by (simp add: Cons_nth_drop_Suc)
    have "s_char env False (s_char_test env c False) (k, caps) = (if ts ! k = c then [(k + 1, caps)] else [])"
      using True assms(1,2) by (simp add: s_char_def decode_dir_def decode_def get_at_def s_char_test_def)
    then show ?thesis using Cons(1) [of "k + 1"] True d by (auto simp: occurs_at_def)
  next
    case False
    then show ?thesis using Cons(2) assms(1,2)
      by (simp add: s_char_def decode_dir_def decode_def get_at_def occurs_at_def)
  qed
qed

lemma literal_outs:
  assumes "\<not> is_unicode_mode f" and "\<not> ignore_case f" and "k \<le> length ts"
  shows "outs (pattern_env U f (subject f ts)) (literal_tree f w) False (k, caps)
    = (if occurs_at w ts k then [(k + length w, caps)] else [])"
proof -
  have "outs env (literal_tree f w) False = s_seq (map (\<lambda>c. s_char env False (s_char_test env c False)) w)" for env
  proof -
    have nil: "s_seq [] = (\<lambda>s. [s])" by (rule ext) simp
    show ?thesis using assms(2)
      by (auto simp: nil literal_tree_def fun_eq_iff comp_def concat_map_singleton split: list.split)
  qed
  moreover have "s_input (pattern_env U f (subject f ts)) = subject f ts" by (simp add: pattern_env_def)
  ultimately show ?thesis
    using literal_units [of "pattern_env U f (subject f ts)" ts k w caps] assms(1,3) by simp
qed

definition literal_pattern :: "flags \<Rightarrow> code_unit list \<Rightarrow> parsed" where
  "literal_pattern f w = \<lparr>root = literal_tree f w, group_count = 0, group_names = []\<rparr>"

lemma literal_match:
  assumes "\<not> is_unicode_mode f" and "\<not> ignore_case f" and "k \<le> length ts"
  shows "match_at U (literal_pattern f w) f (subject f ts) k
    = (if occurs_at w ts k then Some (k + length w, [Some k, Some (k + length w)]) else None)"
  using literal_outs [OF assms, of U w]
  by (simp add: match_at_def literal_pattern_def start_state_def mark_base_def first_of_def close_match_def numeral_2_eq_2)

section \<open>Compilation\<close>

definition is_repeat :: "insn \<Rightarrow> bool" where
  "is_repeat i \<longleftrightarrow> (case i of IRepeat _ _ _ _ \<Rightarrow> True | _ \<Rightarrow> False)"

lemma literal_code:
  assumes "\<forall>i\<in>set (e_insns e). \<not> is_repeat i"
  shows "\<forall>i\<in>set (e_insns (compile (literal_tree f w) e)). \<not> is_repeat i"
proof -
  have flush: "\<forall>i\<in>set (e_insns (flush_char_run run e)). \<not> is_repeat i" if "\<forall>i\<in>set (e_insns e). \<not> is_repeat i" for run e
    using that by (auto simp: flush_char_run_def Let_def emit_def is_repeat_def split: list.split)
  have loop: "\<forall>i\<in>set (e_insns (concat_loop (map (\<lambda>c. (NChar c ic, compile (NChar c ic))) us) run e)). \<not> is_repeat i"
    if "\<forall>i\<in>set (e_insns e). \<not> is_repeat i" for us run ic e
    using that
  proof (induction us arbitrary: run e)
    case (Cons u us)
    have e: "\<forall>i\<in>set (e_insns (compile (NChar u ic) (flush_char_run run e))). \<not> is_repeat i"
      using flush [OF Cons(2), of run] by (auto simp: emit_def is_repeat_def)
    show ?case using Cons(1) [OF Cons(2)] Cons(1) [OF e]
      by (cases "fusible_literal (NChar u ic)") (simp_all del: fusible_literal.simps compile.simps)
  qed (simp add: flush)
  have conc: "\<forall>i\<in>set (e_insns (compile (NConcat (map (\<lambda>c. NChar c ic) us)) e)). \<not> is_repeat i" for us ic
    using loop [OF assms, of ic us "[]"] loop [OF assms, of ic "rev us" "[]"]
    by (simp only: compile.simps compile_concat_def map_map comp_def rev_map split: if_split) simp
  consider "w = []" | c where "w = [c]" | c d us where "w = c # d # us" by (cases w rule: remdups_adj.cases) auto
  then show ?thesis
  proof cases
    case 3
    then show ?thesis using conc [of "ignore_case f" w] by (simp add: literal_tree_def del: compile.simps)
  qed (use assms in \<open>auto simp: literal_tree_def emit_def is_repeat_def\<close>)
qed

lemma folded_no_repeat:
  "\<forall>i\<in>set is. \<not> is_repeat i \<Longrightarrow> \<forall>i\<in>set (fst (fold_classes widen eligible is cl)). \<not> is_repeat i"
proof (induction "is" arbitrary: cl)
  case (Cons i "is")
  moreover have "is_repeat (clear_ignore_case i) = is_repeat i"
    by (cases i rule: clear_ignore_case.cases) (simp_all add: is_repeat_def)
  ultimately show ?case by (auto simp: Let_def split: option.split prod.split bool.split) (metis fst_conv)+
qed simp

lemma marked_no_repeat:
  assumes "\<forall>i\<in>set is. \<not> is_repeat i"
  shows "\<forall>i\<in>set (mark_possessive sf is cl uni). \<not> is_repeat i"
proof -
  have "is_repeat (set_possessive i) = is_repeat i" for i by (cases i) (simp_all add: is_repeat_def)
  then show ?thesis using assms
    by (auto simp: in_set_conv_nth mark_possessive_nth) (metis nth_mem)
qed

lemma lead_needs_repeat: "lead_loop n is pc \<Longrightarrow> \<exists>i\<in>set is. is_repeat i"
proof (induction n arbitrary: pc)
  case (Suc n)
  then obtain i where i: "get_at is pc = Some i" by (auto split: option.splits)
  then have "i \<in> set is" by auto
  moreover have "is_repeat i \<or> (\<exists>pc. lead_loop n is pc)"
    using Suc(2) i by (cases i) (auto simp: is_repeat_def simp del: get_at_Some_iff)
  ultimately show ?case using Suc(1) by blast
qed simp

lemma literal_compiled:
  assumes "icu_laws U" and "utf16 w" and "\<not> is_unicode_mode f" and "\<not> ignore_case f"
  shows "compiled_ok U (literal_pattern f w) f"
proof -
  have "c \<le> MAX_CP" if "c \<in> set w" for c using assms(2) that by (fastforce simp: utf16_def list_all_iff MAX_CP_def)
  then have low: "lowerable (literal_pattern f w) f" "\<not> has_lookbehind (literal_tree f w)" "capture_indices (literal_tree f w) = []"
    by (auto simp: lowerable_def literal_pattern_def literal_tree_def list_all_iff list_ex_iff split: list.split)
  have "\<forall>i\<in>set (e_insns (emit IMatch (emitted (literal_pattern f w) f))). \<not> is_repeat i"
    using literal_code [of "start_emitter (literal_pattern f w) f" f w]
    by (auto simp: emitted_def literal_pattern_def start_emitter_def emit_def is_repeat_def)
  then have "\<forall>i\<in>set (p_insns (lower U (literal_pattern f w) f)). \<not> is_repeat i"
    unfolding lower_fields folded_def by (intro marked_no_repeat folded_no_repeat)
  then have "\<not> lead_possessive_run (p_insns (lower U (literal_pattern f w) f))"
    unfolding lead_possessive_run_def using lead_needs_repeat by blast
  moreover have "p_lead_possessive_run (lower U (literal_pattern f w) f)
      = lead_possessive_run (p_insns (lower U (literal_pattern f w) f))"
    by (simp add: lower_def Let_def split: prod.split)
  ultimately show ?thesis
    using assms(1) low direction_safeI [OF low(1)] by (simp add: compiled_ok_def lead_safe_def literal_pattern_def)
qed

lemma scan_positions_units: "scan_positions us False k = [k..<Suc (length us)]"
proof (induction "Suc (length us) - k" arbitrary: k)
  case (Suc n)
  moreover have "advance_scan us k False = k + 1" by (simp add: advance_scan_def split: option.split)
  ultimately show ?case by (subst scan_positions.simps) (simp add: upt_conv_Cons del: upt_Suc)
qed (subst scan_positions.simps, simp)

text \<open>The item the iterator yields for the literal \<open>w\<close>.\<close>

definition literal_item :: "code_unit list \<Rightarrow> code_unit list \<Rightarrow> nat \<Rightarrow> item" where
  "literal_item w ts start =
    (case find (occurs_at w ts) [start..<Suc (length ts)] of
       None \<Rightarrow> NoMatch
     | Some k \<Rightarrow> Found \<lparr>m_range = (k, k + length w), m_captures = [], m_group_names = []\<rparr>)"

lemma literal_search:
  assumes "icu_laws U" and "utf16 w" and "utf16 ts" and "\<not> is_unicode_mode f" and "\<not> ignore_case f"
  shows "\<exists>rx ms. compile_utf16 U D (escape_text w) f = POk rx
    \<and> matches_next (icu_simple_fold U) (find_utf16 rx ts start \<lparr>step_limit = None\<rparr>) = Some (literal_item w ts start, ms)"
proof -
  let ?p = "literal_pattern f w" and ?rx = "\<lparr>rx_program = lower U (literal_pattern f w) f, rx_flags = f\<rparr>"
  let ?ms = "find_utf16 ?rx ts start \<lparr>step_limit = None\<rparr>"
  have rx: "compile_utf16 U D (escape_text w) f = POk ?rx"
    using parse_literal [of f w D] assms(4) by (simp add: compile_utf16_def literal_pattern_def unit_text_def)
  have "matches_next (icu_simple_fold U) ?ms = Some (next_spec U ?p f ?ms start)"
    using matches_next_correct [OF literal_compiled [OF assms(1,2,4,5)], of ?ms] assms(3) by (simp add: find_utf16_def)
  moreover have "fst (next_spec U ?p f ?ms start) = literal_item w ts start"
  proof -
    have at: "matches_at U ?p f ts k \<longleftrightarrow> occurs_at w ts k" if "k \<le> length ts" for k
      using literal_match [OF assms(4,5) that, of U w] by (simp add: matches_at_def)
    have "leftmost U ?p f ts start = find (occurs_at w ts) [start..<Suc (length ts)]"
      unfolding leftmost_def using assms(4) at
      by (auto simp: scan_positions_units simp del: upt_Suc intro!: find_cong)
    moreover have "k \<le> length ts \<and> occurs_at w ts k" if "find (occurs_at w ts) [start..<Suc (length ts)] = Some k" for k
      using that by (auto simp: find_Some_iff simp del: upt_Suc)
    ultimately show ?thesis
      using literal_match [OF assms(4,5), of _ ts U w]
      by (auto simp: next_spec_def literal_item_def find_utf16_def match_of_def literal_pattern_def Let_def simp del: upt_Suc split: option.split)
  qed
  ultimately show ?thesis using rx by (metis prod.collapse)
qed

end
