(* ===== verification/Rx_Duplicate_Names.thy ===== *)
theory Rx_Duplicate_Names
  imports Rx_Grammar_Correct
begin

text \<open>
  The check of duplicate group names against the rule of the language: two groups may share a
  name only when they lie in different alternatives of one disjunction, so that no match enters
  both. \<open>exclusive_names\<close> is that rule on the tree; \<open>validate_names\<close> decides it by carrying the set
  of names of every path. \<open>branches\<close> counts these paths.
\<close>

definition names_of :: "node \<Rightarrow> code_point list set" where
  "names_of n = {x. Some x \<in> set (capture_names n)}"

fun disjoint_names :: "node list \<Rightarrow> bool" where
  "disjoint_names [] = True"
| "disjoint_names (n # ns) \<longleftrightarrow> names_of n \<inter> names_of (NConcat ns) = {} \<and> disjoint_names ns"

fun exclusive_names :: "node \<Rightarrow> bool" where
  "exclusive_names (NConcat ns) \<longleftrightarrow> list_all exclusive_names ns \<and> disjoint_names ns"
| "exclusive_names (NAlternate ns) \<longleftrightarrow> list_all exclusive_names ns"
| "exclusive_names (NRepeat n _) \<longleftrightarrow> exclusive_names n"
| "exclusive_names (NGroup kind n) \<longleftrightarrow>
    exclusive_names n \<and> (case kind of Capturing _ (Some name) \<Rightarrow> name \<notin> names_of n | _ \<Rightarrow> True)"
| "exclusive_names _ \<longleftrightarrow> True"

lemma names_of_simps [simp]:
  "names_of NEmpty = {}" "names_of (NChar c i) = {}" "names_of (NAnyChar d) = {}" "names_of (NClass cs ng i) = {}"
  "names_of (NAssert a) = {}" "names_of (NBackRef gs i) = {}" "names_of (NRepeat n q) = names_of n"
  "names_of (NConcat ns) = \<Union>(names_of ` set ns)" "names_of (NAlternate ns) = \<Union>(names_of ` set ns)"
  "names_of (NGroup kind n) = (case kind of Capturing _ (Some name) \<Rightarrow> insert name (names_of n) | _ \<Rightarrow> names_of n)"
  by (auto simp: names_of_def split: group_kind.splits option.splits)

text \<open>\<open>met\<close>: the names on some path. \<open>decides r ok m out\<close>: the check \<open>r\<close> succeeds exactly when \<open>ok\<close>,
  with states that have met the names \<open>m\<close>.\<close>

definition met :: "code_point list list list \<Rightarrow> code_point list set" where
  "met states = \<Union>(set ` set states)"

definition decides :: "code_point list list list presult \<Rightarrow> bool \<Rightarrow> code_point list set \<Rightarrow> bool" where
  "decides r ok m \<longleftrightarrow>
    (if ok then \<exists>out. r = POk out \<and> out \<noteq> [] \<and> met out = m else r = PErr duplicate_name)"

lemma met_simps [simp]:
  "met [[]] = {}" "met (map (\<lambda>st. x # st) states) = (if states = [] then {} else insert x (met states))"
  "met (a @ b) = met a \<union> met b"
  by (auto simp: met_def)

lemma met_named: "list_ex (\<lambda>st. x \<in> set st) states \<longleftrightarrow> x \<in> met states"
  by (auto simp: met_def list_ex_iff)

lemma validate_names_decides:
  "well_formed G n \<Longrightarrow> states \<noteq> [] \<Longrightarrow>
    decides (validate_names n states) (exclusive_names n \<and> met states \<inter> names_of n = {}) (met states \<union> names_of n)"
  "list_all (well_formed G) ns \<Longrightarrow> states \<noteq> [] \<Longrightarrow>
    decides (validate_concat ns states) (exclusive_names (NConcat ns) \<and> met states \<inter> names_of (NConcat ns) = {})
      (met states \<union> names_of (NConcat ns))"
  "list_all (well_formed G) ns \<Longrightarrow> states \<noteq> [] \<Longrightarrow> ns \<noteq> [] \<Longrightarrow>
    decides (validate_alternate ns states) (exclusive_names (NAlternate ns) \<and> met states \<inter> names_of (NAlternate ns) = {})
      (met states \<union> names_of (NAlternate ns))"
proof (induction n states and ns states and ns states rule: validate_names_validate_concat_validate_alternate.induct)
  case (4 kind body states)
  show ?case
  proof (cases "\<exists>i name. kind = Capturing i (Some name)")
    case True
    then obtain i name where k: "kind = Capturing i (Some name)" by blast
    show ?thesis
    proof (cases "name \<in> met states")
      case True
      then show ?thesis using k by (simp add: met_named decides_def)
    next
      case False
      then have "decides (validate_names body (map (\<lambda>st. name # st) states))
          (exclusive_names body \<and> insert name (met states) \<inter> names_of body = {}) (insert name (met states) \<union> names_of body)"
        using 4 k by (simp add: met_named)
      moreover have "(exclusive_names body \<and> insert name (met states) \<inter> names_of body = {})
          \<longleftrightarrow> (exclusive_names (NGroup kind body) \<and> met states \<inter> names_of (NGroup kind body) = {})"
        using k False by auto
      ultimately show ?thesis using k False by (simp add: met_named)
    qed
  next
    case False
    then show ?thesis using 4 by (auto split: group_kind.splits option.splits)
  qed
next
  case (7 n ns current)
  then have head: "decides (validate_names n current) (exclusive_names n \<and> met current \<inter> names_of n = {}) (met current \<union> names_of n)"
    by simp
  show ?case
  proof (cases "exclusive_names n \<and> met current \<inter> names_of n = {}")
    case True
    then obtain out where out: "validate_names n current = POk out" "out \<noteq> []" "met out = met current \<union> names_of n"
      using head by (auto simp: decides_def)
    have "decides (validate_concat ns out) (exclusive_names (NConcat ns) \<and> met out \<inter> names_of (NConcat ns) = {})
        (met out \<union> names_of (NConcat ns))"
      using 7(2) [OF out(1)] 7(3) out(2) by simp
    moreover have "(exclusive_names (NConcat ns) \<and> met out \<inter> names_of (NConcat ns) = {})
        \<longleftrightarrow> (exclusive_names (NConcat (n # ns)) \<and> met current \<inter> names_of (NConcat (n # ns)) = {})"
      using True by (auto simp: out(3))
    ultimately show ?thesis using out(1,3) by (simp add: Un_assoc)
  next
    case False
    then have "validate_names n current = PErr duplicate_name"
      using head by (simp add: decides_def split: if_splits)
    moreover have "\<not> (exclusive_names (NConcat (n # ns)) \<and> met current \<inter> names_of (NConcat (n # ns)) = {})"
      using False by auto
    ultimately show ?thesis by (simp add: decides_def)
  qed
next
  case (9 alt alts states)
  have head: "decides (validate_names alt states) (exclusive_names alt \<and> met states \<inter> names_of alt = {}) (met states \<union> names_of alt)"
    using 9(1,3,4) by simp
  have rest: "alts \<noteq> [] \<Longrightarrow> decides (validate_alternate alts states) (exclusive_names (NAlternate alts) \<and> met states \<inter> names_of (NAlternate alts) = {})
      (met states \<union> names_of (NAlternate alts))" if "validate_names alt states = POk out" for out
    using 9(2) [OF that] 9(3,4) by simp
  show ?case
  proof (cases "exclusive_names alt \<and> met states \<inter> names_of alt = {}")
    case True
    then obtain out where out: "validate_names alt states = POk out" "out \<noteq> []" "met out = met states \<union> names_of alt"
      using head by (auto simp: decides_def)
    show ?thesis
    proof (cases "alts = []")
      case False
      have "(exclusive_names (NAlternate (alt # alts)) \<and> met states \<inter> names_of (NAlternate (alt # alts)) = {})
          \<longleftrightarrow> (exclusive_names (NAlternate alts) \<and> met states \<inter> names_of (NAlternate alts) = {})"
        using True by auto
      with rest [OF out(1) False] out show ?thesis by (auto simp: decides_def split: if_splits)
    qed (use True out in \<open>auto simp: decides_def\<close>)
  next
    case False
    then have "validate_names alt states = PErr duplicate_name" using head by (simp add: decides_def split: if_splits)
    with False show ?thesis by (auto simp: decides_def)
  qed
qed (auto simp: decides_def)

lemma validate_exclusive:
  assumes "well_formed G n"
  shows "validate_duplicate_named_groups_by_path n = (if exclusive_names n then POk () else PErr duplicate_name)"
  using validate_names_decides(1) [OF assms, of "[[]]"]
  by (auto simp: validate_duplicate_named_groups_by_path_def decides_def split: if_splits)

section \<open>The number of paths\<close>

fun branches :: "node \<Rightarrow> nat" where
  "branches (NConcat ns) = prod_list (map branches ns)"
| "branches (NAlternate ns) = sum_list (map branches ns)"
| "branches (NRepeat n _) = branches n"
| "branches (NGroup _ n) = branches n"
| "branches _ = 1"

lemma validate_names_length:
  "validate_names n states = POk out \<Longrightarrow> length out = length states * branches n"
  "validate_concat ns states = POk out \<Longrightarrow> length out = length states * branches (NConcat ns)"
  "validate_alternate ns states = POk out \<Longrightarrow> length out = length states * branches (NAlternate ns)"
  by (induction n states and ns states and ns states arbitrary: out and out and out
      rule: validate_names_validate_concat_validate_alternate.induct)
    (auto simp: algebra_simps split: group_kind.splits option.splits if_splits)

end
