(* ===== verification/Rx_Limits.thy ===== *)
theory Rx_Limits
  imports Rx_Literal Rx_Duplicate_Names
begin

text \<open>
  The limits of the parser at work: the nesting guard on towers of groups, the saturating
  counters of brace quantifiers, and the inputs on which the parser's behaviour departs from
  its own documentation.
\<close>

section \<open>The nesting guard\<close>

lemma group_opens:
  assumes "peek s = Some c_lparen" and "peek_at s 1 \<noteq> Some c_quest"
  shows "parse_atom D dj s =
    try_p (dj (bump 1 (s\<lparr>ps_next_group := ps_next_group s + 1\<rparr>))) (\<lambda>(n, s').
      if peek s' = Some c_rparen then POk (NGroup (Capturing (ps_next_group s + 1) None) n, bump 1 s')
      else PErr (err s' ''unterminated group''))"
proof -
  have "parse_group_kind D (bump 1 s) = POk (Some (Capturing (ps_next_group s + 1) None), bump 1 (s\<lparr>ps_next_group := ps_next_group s + 1\<rparr>))"
    using assms(2) by (simp add: parse_group_kind_def peek_bump bump_update Let_def)
  then show ?thesis using assms(1) by (auto simp: parse_atom_def parse_group_def intro!: try_p_cong)
qed

lemma tower_too_deep:
  assumes "\<And>i. i < MAX_NESTING_DEPTH \<Longrightarrow> get_at (ps_units s) i = Some c_lparen"
    and "get_at (ps_units s) MAX_NESTING_DEPTH \<noteq> Some c_quest"
    and "ps_pos s = ps_depth s" and "ps_depth s + k = MAX_NESTING_DEPTH" and "k < lv"
  shows "parse_disjunction D lv s = PErr (TooDeep MAX_NESTING_DEPTH)"
  using assms
proof (induction k arbitrary: s lv)
  case 0
  then obtain n where "lv = Suc n" by (cases lv) auto
  then show ?case using 0(4) by (simp add: enter_def)
next
  case (Suc k)
  then obtain n where n: "lv = Suc n" by (cases lv) auto
  let ?s = "s\<lparr>ps_depth := ps_depth s + 1\<rparr>"
  let ?t = "bump 1 (?s\<lparr>ps_next_group := ps_next_group s + 1\<rparr>)"
  have d: "ps_depth s < MAX_NESTING_DEPTH" using Suc(5) by simp
  have look: "peek ?s = Some c_lparen" "peek_at ?s 1 \<noteq> Some c_quest"
    using Suc(2) [OF d] Suc(2) [of "ps_depth s + 1"] Suc(3,4,5) d
    by (auto simp: peek_def peek_at_def simp del: get_at_Some_iff) (cases "k = 0"; simp del: get_at_Some_iff)
  have "parse_disjunction D n ?t = PErr (TooDeep MAX_NESTING_DEPTH)"
    by (rule Suc(1)) (use Suc(2-6) n in \<open>simp_all del: get_at_Some_iff\<close>)
  then have "parse_term D (parse_disjunction D n) ?s = PErr (TooDeep MAX_NESTING_DEPTH)"
    using look group_opens [OF look, of D "parse_disjunction D n"] by (simp add: parse_term_def)
  then show ?case using d n by (simp add: enter_def loop_fuel_def parse_alternative_def)
qed

fun tower :: "nat \<Rightarrow> nat \<Rightarrow> node" where
  "tower g 0 = NEmpty"
| "tower g (Suc j) = NGroup (Capturing (g + 1) None) (tower (g + 1) j)"

text \<open>A disjunction that is a single term, followed by the end or a closing parenthesis.\<close>

lemma closes_alternative:
  assumes "peek t = None \<or> peek t = Some c_rparen"
  shows "parse_term D dj t = POk (None, t)" and "alternation_parse_loop D dj (loop_fuel t) alts t = POk (alts, t)"
    and "quantifier_bounds t = POk (None, t)"
  using assms by (auto simp: parse_term_def loop_fuel_def quantifier_bounds_def)

lemma single_term:
  assumes "parse_term D (parse_disjunction D n) (s\<lparr>ps_depth := ps_depth s + 1\<rparr>) = POk (Some r, t)"
    and "peek t = None \<or> peek t = Some c_rparen" and "ps_units s \<noteq> []" and "ps_depth s < MAX_NESTING_DEPTH"
  shows "parse_disjunction D (Suc n) s = POk (r, leave t)"
proof -
  obtain k where "loop_fuel (s\<lparr>ps_depth := ps_depth s + 1\<rparr>) = Suc (Suc k)" using assms(3) by (cases "ps_units s") (auto simp: loop_fuel_def)
  then show ?thesis using assms(1,4) closes_alternative(1,2) [OF assms(2), of D "parse_disjunction D n"]
    by (simp add: enter_def parse_alternative_def)
qed

lemma tower_parses:
  assumes "drop (ps_pos s) (ps_units s) = replicate j c_lparen @ replicate j c_rparen @ rest"
    and "rest = [] \<or> hd rest = c_rparen" and "ps_depth s + j < MAX_NESTING_DEPTH" and "j < lv"
  shows "parse_disjunction D lv s = POk (tower (ps_next_group s) j, s\<lparr>ps_pos := ps_pos s + 2 * j, ps_next_group := ps_next_group s + j\<rparr>)"
  using assms
proof (induction j arbitrary: s lv rest)
  case 0
  obtain n where n: "lv = Suc n" using 0(4) by (cases lv) auto
  let ?s = "s\<lparr>ps_depth := ps_depth s + 1\<rparr>"
  have "peek ?s = None \<or> peek ?s = Some c_rparen" using 0(1,2) by (cases rest) (simp_all add: peek_drop)
  note c = closes_alternative [OF this]
  have "parse_alternative D (parse_disjunction D n) ?s = POk (NEmpty, ?s)" using c(1) by (simp add: parse_alternative_def loop_fuel_def)
  then show ?case using c(2) [of D "parse_disjunction D n" "[NEmpty]"] 0(3) n by (simp add: enter_def leave_def)
next
  case (Suc j)
  obtain n where n: "lv = Suc n" using Suc(5) by (cases lv) auto
  let ?s = "s\<lparr>ps_depth := ps_depth s + 1\<rparr>"
  let ?t = "bump 1 (?s\<lparr>ps_next_group := ps_next_group s + 1\<rparr>)"
  let ?u = "?t\<lparr>ps_pos := ps_pos ?t + 2 * j, ps_next_group := ps_next_group ?t + j\<rparr>"
  have d: "drop (ps_pos s + 1) (ps_units s) = replicate j c_lparen @ replicate j c_rparen @ (c_rparen # rest)"
    using arg_cong [OF Suc(2), of tl] by (simp add: drop_Suc tl_drop replicate_app_Cons_same)
  have "peek ?s = Some c_lparen" using Suc(2) by (simp add: peek_drop)
  moreover have "peek (bump 1 s) = Some c_lparen \<or> peek (bump 1 s) = Some c_rparen" using d by (cases j) (simp_all add: peek_drop)
  ultimately have look: "peek ?s = Some c_lparen" "peek_at ?s 1 \<noteq> Some c_quest" by (auto simp: peek_bump peek_at_def)
  have inner: "parse_disjunction D n ?t = POk (tower (ps_next_group s + 1) j, ?u)"
    using Suc(1) [of ?t "c_rparen # rest" n] d Suc(4,5) n by simp
  have "drop (ps_pos ?u) (ps_units ?u) = c_rparen # rest" "drop (ps_pos ?u + 1) (ps_units ?u) = rest"
    using arg_cong [OF d, of "drop (2 * j)"] arg_cong [OF d, of "drop (2 * j + 1)"] by (simp_all add: add.commute mult_2)
  then have close: "peek ?u = Some c_rparen" "peek (bump 1 ?u) = None \<or> peek (bump 1 ?u) = Some c_rparen"
    using Suc(3) by (cases rest; simp add: peek_drop)+
  have "parse_term D (parse_disjunction D n) ?s = POk (Some (tower (ps_next_group s) (Suc j)), bump 1 ?u)"
    using look group_opens [OF look, of D "parse_disjunction D n"] inner close(1) closes_alternative(3) [OF close(2)]
    by (simp add: parse_term_def maybe_quantify_def is_assertion_node_def)
  moreover have "ps_units s \<noteq> []" using Suc(2) by (cases "ps_units s") simp_all
  ultimately have "parse_disjunction D lv s = POk (tower (ps_next_group s) (Suc j), leave (bump 1 ?u))"
    unfolding n using single_term close(2) Suc(4) by simp
  moreover have "leave (bump 1 ?u) = s\<lparr>ps_pos := ps_pos s + 2 * Suc j, ps_next_group := ps_next_group s + Suc j\<rparr>"
    by (rule parser.equality) (simp_all add: leave_def)
  ultimately show ?case by simp
qed

lemma tower_prescan:
  "drop i us = replicate a c_lparen @ replicate b c_rparen \<Longrightarrow> prescan_loop D us i False n ns = POk (n + a, ns @ replicate a None)"
proof (induction "a + b" arbitrary: a b i n ns)
  case 0
  then show ?case by (subst prescan_loop.simps) (simp add: get_at_def)
next
  case (Suc k)
  then have i: "i < length us" by (cases "i < length us") auto
  then have d: "us ! i # drop (Suc i) us = replicate a c_lparen @ replicate b c_rparen" using Suc(3) by (simp add: Cons_nth_drop_Suc)
  have g: "get_at us i = Some (us ! i)" using i by (simp add: get_at_def)
  show ?case
  proof (cases a)
    case 0
    then have r: "us ! i = c_rparen" "drop (i + 1) us = replicate 0 c_lparen @ replicate (b - 1) c_rparen" using d Suc(2) by (cases b; simp)+
    have "prescan_loop D us i False n ns = prescan_loop D us (i + 1) False n ns"
      using prescan_plain [OF g [unfolded r(1)], of False D n ns] by (simp add: quiet_unit_def)
    then show ?thesis using Suc(1) [OF _ r(2)] Suc(2) 0 by simp
  next
    case (Suc m)
    then have r: "us ! i = c_lparen" "drop (i + 1) us = replicate m c_lparen @ replicate b c_rparen" using d by simp_all
    have "x \<in> set (drop (i + 1) us)" if "get_at us (i + 1) = Some x" for x
      using that by (auto simp: Cons_nth_drop_Suc [symmetric])
    then have "get_at us (i + 1) \<noteq> Some c_quest" unfolding r(2) by (auto simp del: get_at_Some_iff)
    then have "prescan_loop D us i False n ns = prescan_loop D us (i + 1) False (n + 1) (ns @ [None])"
      by (rule prescan_open(1) [OF g [unfolded r(1)]])
    then show ?thesis using Suc.hyps(1) [OF _ r(2)] Suc.hyps(2) Suc by (simp add: replicate_app_Cons_same)
  qed
qed

lemma tower_valid: "validate_names (tower g j) states = POk states"
  by (induction j arbitrary: g) simp_all

lemma tower_parse:
  "parse D (replicate k c_lparen @ replicate k c_rparen) f =
    (if k < MAX_NESTING_DEPTH then POk \<lparr>root = tower 0 k, group_count = k, group_names = replicate k None\<rparr>
     else PErr (TooDeep MAX_NESTING_DEPTH))"
proof -
  let ?us = "replicate k c_lparen @ replicate k c_rparen"
  let ?s = "(parser_new ?us f)\<lparr>ps_total_groups := k, ps_group_names := replicate k None\<rparr>"
  have scan: "prescan D (parser_new ?us f) = POk ?s"
    using tower_prescan [of 0 ?us k k D 0 "[]"] by (simp add: prescan_def parser_new_def)
  have lv: "levels ?s = Suc MAX_NESTING_DEPTH" by (simp add: levels_def parser_new_def)
  show ?thesis
  proof (cases "k < MAX_NESTING_DEPTH")
    case True
    then have "parse_disjunction D (levels ?s) ?s = POk (tower 0 k, ?s\<lparr>ps_pos := 2 * k, ps_next_group := k\<rparr>)"
      using tower_parses [of ?s k "[]" "levels ?s" D] lv by (simp add: parser_new_def)
    then show ?thesis using True scan tower_valid [of 0 k "[[]]"]
      by (simp add: parse_def validate_duplicate_named_groups_by_path_def parser_new_def mult_2 del: parse_disjunction.simps try_p_POk_iff)
  next
    case False
    have "parse_disjunction D (levels ?s) ?s = PErr (TooDeep MAX_NESTING_DEPTH)"
      by (rule tower_too_deep [of _ MAX_NESTING_DEPTH])
        (use False lv in \<open>auto simp: parser_new_def get_at_def nth_append not_less split: if_splits\<close>)
    then show ?thesis using False scan by (simp add: parse_def del: parse_disjunction.simps)
  qed
qed

section \<open>Counts of brace quantifiers\<close>

fun decimal :: "nat \<Rightarrow> code_unit list" where
  "decimal n = (if n < 10 then [c_0 + n] else decimal (n div 10) @ [c_0 + n mod 10])"

declare decimal.simps [simp del]

lemma dval_append: "dval (ds @ [d]) = dval ds * 10 + d"
  by (simp add: dval_def)

lemma decimal_digits: "list_all is_digit (decimal n) \<and> dval (map (\<lambda>c. c - c_0) (decimal n)) = n"
proof (induction n rule: decimal.induct)
  case (1 n)
  show ?case
  proof (cases "n < 10")
    case True
    then have "decimal n = [c_0 + n]" by (subst decimal.simps) simp
    then show ?thesis using True by (simp add: is_digit_def in_range_def)
  next
    case False
    then have "decimal n = decimal (n div 10) @ [c_0 + n mod 10]" by (subst decimal.simps) simp
    then show ?thesis using 1 [OF False] by (simp add: dval_append is_digit_def in_range_def)
  qed
qed

lemma decimal_run:
  assumes "drop (ps_pos s) (ps_units s) = decimal n @ c # rest" and "\<not> is_digit c"
  shows "digit_run s = map (\<lambda>c. c - c_0) (decimal n)" and "dval (digit_run s) = n"
    and "drop (ps_pos s + length (digit_run s)) (ps_units s) = c # rest"
proof -
  show run: "digit_run s = map (\<lambda>c. c - c_0) (decimal n)"
    using assms decimal_digits [of n] by (simp add: digit_run_def takeWhile_append2 list_all_iff)
  show "dval (digit_run s) = n" using run decimal_digits [of n] by simp
  show "drop (ps_pos s + length (digit_run s)) (ps_units s) = c # rest"
    unfolding run using arg_cong [OF assms(1), of "drop (length (decimal n))"] by (simp add: add.commute)
qed

lemma drop_step: "drop (ps_pos s) (ps_units s) = c # rest \<Longrightarrow> drop (ps_pos (bump 1 s)) (ps_units (bump 1 s)) = rest"
  by (metis bump_simps(1,2) drop_drop drop_Suc_Cons drop0 One_nat_def add.commute)

lemma decimal_to_u32:
  assumes "dval (digit_run s) = n"
  shows "decimal_digits_to_u32 (dropWhile (\<lambda>d. d = 0) (digit_run s)) = min n u32_max"
  using assms by (simp add: to_u32_min dval_dropWhile)

lemma brace_range:
  assumes "drop (ps_pos s) (ps_units s) = c_lbrace # decimal a @ c_comma # decimal b @ c_rbrace # rest"
  shows "\<exists>s'. parse_brace_quantifier s = POk ((min a u32_max, Some (min b u32_max), b < a), s')
    \<and> drop (ps_pos s') (ps_units s') = rest"
proof -
  let ?t = "bump 1 s"
  let ?t2 = "bump (length (digit_run ?t)) ?t"
  let ?u = "bump 1 ?t2"
  let ?u2 = "bump (length (digit_run ?u)) ?u"
  have nd: "\<not> is_digit c_comma" "\<not> is_digit c_rbrace" by (simp_all add: is_digit_def in_range_def)
  note r1 = decimal_run [OF drop_step [OF assms] nd(1)]
  have d2: "drop (ps_pos ?t2) (ps_units ?t2) = c_comma # decimal b @ c_rbrace # rest" using r1(3) by simp
  note r2 = decimal_run [OF drop_step [OF d2] nd(2)]
  have d4: "drop (ps_pos ?u2) (ps_units ?u2) = c_rbrace # rest" using r2(3) by (simp add: add.assoc)
  have dec: "\<exists>x xs. decimal b = x # xs \<and> x \<noteq> c_rbrace" using decimal_digits [of b]
    by (cases "decimal b") (auto simp: is_digit_def in_range_def, subst (asm) decimal.simps, simp split: if_splits)
  have peeks: "peek ?t2 = Some c_comma" "peek ?u \<noteq> Some c_rbrace" "peek ?u2 = Some c_rbrace"
    using d2 d4 dec drop_step [OF d2] by (auto simp: peek_drop)
  have norm: "decimal_digits_cmp (dropWhile (\<lambda>d. d = 0) (digit_run ?u)) (dropWhile (\<lambda>d. d = 0) (digit_run ?t)) = Less \<longleftrightarrow> b < a"
    using r1(2) r2(2) by (subst digits_cmp_less) (simp_all add: normal_dropWhile digit_run_small dval_dropWhile)
  show ?thesis
    using peeks norm decimal_to_u32 [OF r1(2)] decimal_to_u32 [OF r2(2)] drop_step [OF d4]
    by (simp add: parse_brace_quantifier_def read_digits_run Let_def)
qed

end
