(* ===== verification/Rx_Class_Text.thy ===== *)
theory Rx_Class_Text
  imports Rx_Limits
begin

text \<open>
  Printing a set of code units as a class, each range as two \<open>\uXXXX\<close> escapes around a dash, and
  reading it back: the parser returns a class node for the same set.
\<close>

definition hex_unit :: "nat \<Rightarrow> code_unit" where
  "hex_unit d = (if d < 10 then c_0 + d else c_a + (d - 10))"

definition escape_unit :: "code_unit \<Rightarrow> code_unit list" where
  "escape_unit n = [c_bslash, c_u, hex_unit (n div 4096), hex_unit (n div 256 mod 16), hex_unit (n div 16 mod 16), hex_unit (n mod 16)]"

definition range_text :: "cp_range \<Rightarrow> code_unit list" where
  "range_text r = escape_unit (fst r) @ [c_dash] @ escape_unit (snd r)"

definition class_text :: "cp_range list \<Rightarrow> code_unit list" where
  "class_text rs = [c_lbrack] @ concat (map range_text rs) @ [c_rbrack]"

lemma hex_unit_digit: "d < 16 \<Longrightarrow> hex_digit (hex_unit d) = Some d"
  by (auto simp: hex_unit_def hex_digit_def in_range_def)

lemma peek_of_drop: "drop (ps_pos s) (ps_units s) = c # rest \<Longrightarrow> peek s = Some c"
  by (simp add: peek_drop)

lemma hex_digits_value:
  assumes "n < 0x10000"
  shows "((n div 4096 * 16 + n div 256 mod 16) * 16 + n div 16 mod 16) * 16 + n mod 16 = (n :: nat)"
proof -
  have "n div 16 div 16 div 16 = n div 4096" "n div 16 div 16 = n div 256" by (simp_all add: div_mult2_eq [symmetric])
  then show ?thesis using div_mult_mod_eq [of n 16] div_mult_mod_eq [of "n div 16" 16] div_mult_mod_eq [of "n div 256" 16]
    by (metis mult.commute)
qed

lemma read_escape_digits:
  assumes "drop (ps_pos s) (ps_units s) = [hex_unit (n div 4096), hex_unit (n div 256 mod 16), hex_unit (n div 16 mod 16), hex_unit (n mod 16)] @ rest"
    and "n < 0x10000"
  shows "read_fixed_hex 4 s = POk (n, bump 4 s)"
proof -
  have d: "drop (ps_pos (bump 1 s)) (ps_units (bump 1 s)) = [hex_unit (n div 256 mod 16), hex_unit (n div 16 mod 16), hex_unit (n mod 16)] @ rest"
    using drop_step assms(1) by simp
  have d2: "drop (ps_pos (bump 2 s)) (ps_units (bump 2 s)) = [hex_unit (n div 16 mod 16), hex_unit (n mod 16)] @ rest"
    using drop_step [of "bump 1 s"] d by simp
  have d3: "drop (ps_pos (bump 3 s)) (ps_units (bump 3 s)) = [hex_unit (n mod 16)] @ rest"
    using drop_step [of "bump 2 s"] d2 by simp
  have p: "peek s = Some (hex_unit (n div 4096))" "peek (bump 1 s) = Some (hex_unit (n div 256 mod 16))"
    "peek (bump 2 s) = Some (hex_unit (n div 16 mod 16))" "peek (bump 3 s) = Some (hex_unit (n mod 16))"
    using assms(1) d d2 d3 by (simp_all add: peek_of_drop)
  have h: "n div 4096 < 16" using assms(2) by simp
  have four: "4 = Suc (Suc (Suc (Suc 0)))" by simp
  from p [unfolded numeral_2_eq_2 numeral_3_eq_3] h hex_digits_value [OF assms(2)] show ?thesis
    unfolding read_fixed_hex_def four by (simp add: hex_unit_digit)
qed

text \<open>One escape, one range, the whole class.\<close>

lemma read_escape:
  assumes "drop (ps_pos s) (ps_units s) = escape_unit n @ rest" and "n < 0x10000" and "\<not> is_unicode_mode (ps_flags s)"
  shows "peek s = Some c_bslash" and "peek (bump 1 s) = Some c_u"
    and "parse_class_char_escape (bump 1 s) = POk (n, bump 6 s)" and "drop (ps_pos (bump 6 s)) (ps_units (bump 6 s)) = rest"
proof -
  have d1: "drop (ps_pos (bump 1 s)) (ps_units (bump 1 s)) = tl (escape_unit n @ rest)"
    using drop_step [of s] assms(1) by (simp add: escape_unit_def)
  have d2: "drop (ps_pos (bump 2 s)) (ps_units (bump 2 s)) = drop 2 (escape_unit n @ rest)"
    using drop_step [of "bump 1 s"] d1 by (simp add: escape_unit_def)
  show "peek s = Some c_bslash" and u: "peek (bump 1 s) = Some c_u"
    using assms(1) d1 by (simp_all add: escape_unit_def peek_of_drop)
  have hex: "read_fixed_hex 4 (bump 2 s) = POk (n, bump 6 s)"
    using read_escape_digits [of "bump 2 s" n rest] d2 assms(2) by (simp add: escape_unit_def)
  have "peek (bump 2 s) \<noteq> Some c_lbrace"
    using d2 assms(2) hex_unit_digit [of "n div 4096"] by (auto simp: escape_unit_def peek_drop hex_unit_def split: if_splits)
  with hex have "read_unicode_escape (bump 2 s) = POk (n, bump 6 s)"
    using assms(3) by (simp add: read_unicode_escape_def ps_unicode_def)
  then show "parse_class_char_escape (bump 1 s) = POk (n, bump 6 s)"
    using u assms(3) by (simp add: parse_class_char_escape_def parse_char_escape_def in_range_def ps_unicode_def Let_def numeral_2_eq_2)
  show "drop (ps_pos (bump 6 s)) (ps_units (bump 6 s)) = rest"
    using arg_cong [OF assms(1), of "drop 6"] by (simp add: escape_unit_def add.commute)
qed

lemma escape_not_set:
  assumes "peek s = Some c_u"
  shows "try_class_escape_set D s = POk (None, s)" and "\<not> next_is_class_escape s"
  using assms by (simp_all add: try_class_escape_set_def next_is_class_escape_def)

lemma read_range:
  assumes "drop (ps_pos s) (ps_units s) = range_text (lo, hi) @ rest" and "lo \<le> hi" and "hi < 0x10000"
    and "\<not> is_unicode_mode (ps_flags s)"
  shows "parse_class_member D cps s = POk (insert_range lo hi cps, bump 13 s)"
    and "drop (ps_pos (bump 13 s)) (ps_units (bump 13 s)) = rest"
proof -
  have lo: "lo < 0x10000" using assms(2,3) by simp
  have "drop (ps_pos s) (ps_units s) = escape_unit lo @ (c_dash # escape_unit hi @ rest)"
    using assms(1) by (simp add: range_text_def)
  note a = read_escape [OF this lo assms(4)]
  have "drop (ps_pos (bump 7 s)) (ps_units (bump 7 s)) = escape_unit hi @ rest" using drop_step [OF a(4)] by simp
  note b = read_escape [OF this assms(3), unfolded bump_simps, OF assms(4)]
  have dash: "peek (bump 6 s) = Some c_dash" "peek_at (bump 6 s) 1 = Some c_bslash"
    using b(1) peek_of_drop [OF a(4)] by (simp_all add: peek_bump(2)) (simp add: peek_bump)
  have "finish_class_atom D cps lo (bump 6 s) = POk (insert_range lo hi cps, bump 13 s)"
    using dash b(1,2,3) escape_not_set(2) [OF b(2)] assms(2) by (simp add: finish_class_atom_def insert_class_range_def)
  then show "parse_class_member D cps s = POk (insert_range lo hi cps, bump 13 s)"
    using a(1,3) escape_not_set(1) [OF a(2), of D] by (simp add: parse_class_member_def)
  show "drop (ps_pos (bump 13 s)) (ps_units (bump 13 s)) = rest" using b(4) by (simp add: add.commute)
qed

definition unit_range :: "cp_range \<Rightarrow> bool" where
  "unit_range r \<longleftrightarrow> fst r \<le> snd r \<and> snd r < 0x10000"

definition insert_ranges :: "cp_range list \<Rightarrow> code_point_set \<Rightarrow> code_point_set" where
  "insert_ranges rs s = foldl (\<lambda>s r. insert_range (fst r) (snd r) s) s rs"

lemma insert_ranges_correct:
  "cps_inv s \<Longrightarrow> list_all unit_range rs \<Longrightarrow> cps_inv (insert_ranges rs s) \<and> cps_set (insert_ranges rs s) = cps_set s \<union> range_set rs"
proof (induction rs arbitrary: s)
  case (Cons r rs)
  then have "snd r \<le> MAX_CP" by (simp add: unit_range_def MAX_CP_def)
  with Cons insert_range_correct [of s "snd r" "fst r"] show ?case by (auto simp: insert_ranges_def)
qed (simp add: insert_ranges_def)

lemma read_ranges:
  assumes "drop (ps_pos s) (ps_units s) = concat (map range_text rs) @ c_rbrack # rest" and "list_all unit_range rs"
    and "\<not> is_unicode_mode (ps_flags s)"
  shows "class_loop D cps s = POk (insert_ranges rs cps, bump (13 * length rs + 1) s)"
  using assms
proof (induction rs arbitrary: s cps)
  case Nil
  then show ?case by (subst class_loop.simps) (simp add: peek_drop insert_ranges_def)
next
  case (Cons r rs)
  have "drop (ps_pos s) (ps_units s) = range_text (fst r, snd r) @ concat (map range_text rs) @ c_rbrack # rest"
    using Cons(2) by simp
  note r = read_range [OF this _ _ Cons(4)]
  have m: "parse_class_member D cps s = POk (insert_range (fst r) (snd r) cps, bump 13 s)"
    using r(1) Cons(3) by (simp add: unit_range_def)
  have "peek s = Some c_bslash" using Cons(2) by (simp add: peek_drop range_text_def escape_unit_def)
  then have "class_loop D cps s = class_loop D (insert_range (fst r) (snd r) cps) (bump 13 s)"
    using m by (subst class_loop.simps) simp
  also have "\<dots> = POk (insert_ranges rs (insert_range (fst r) (snd r) cps), bump (13 * length rs + 1) (bump 13 s))"
    by (rule Cons(1)) (use r(2) Cons(3,4) in \<open>simp_all add: unit_range_def\<close>)
  finally show ?case by (simp add: insert_ranges_def)
qed

lemma class_text_parses:
  assumes "list_all unit_range rs" and "\<not> is_unicode_mode f" and "ucd_names D"
  shows "parse D (class_text rs) f = POk \<lparr>root = NClass (from_code_points (insert_ranges rs cps_new)) False (ignore_case f),
    group_count = 0, group_names = []\<rparr>"
proof -
  let ?us = "class_text rs" and ?n = "NClass (from_code_points (insert_ranges rs cps_new)) False (ignore_case f)"
  let ?p = "parser_new ?us f"
  let ?s = "?p\<lparr>ps_depth := ps_depth ?p + 1\<rparr>"
  have len: "length ?us = 13 * length rs + 2"
    by (induction rs) (simp_all add: class_text_def range_text_def escape_unit_def)
  have d: "drop (ps_pos ?s) (ps_units ?s) = c_lbrack # concat (map range_text rs) @ c_rbrack # []"
    by (simp add: parser_new_def class_text_def)
  let ?t = "bump 1 (?s\<lparr>ps_depth := ps_depth ?s + 1\<rparr>)"
  have "peek ?t \<noteq> Some c_caret"
    using drop_step [OF d] by (cases rs) (auto simp: peek_drop range_text_def escape_unit_def)
  moreover have "class_loop D cps_new ?t = POk (insert_ranges rs cps_new, bump (13 * length rs + 1) ?t)"
    by (rule read_ranges) (use drop_step [OF d] assms(1,2) in \<open>simp_all add: parser_new_def\<close>)
  ultimately have cls: "parse_legacy_class D ?s = POk (?n, bump (length ?us) ?s)"
    using len by (simp add: parse_legacy_class_def enter_Ok [THEN iffD2] class_node_def leave_def bump_def parser_new_def MAX_NESTING_DEPTH_def)
  have look: "peek ?s = Some c_lbrack" by (rule peek_of_drop [OF d])
  have "parse_term D dj ?s = POk (Some ?n, bump (length ?us) ?s)" for dj
    using cls look assms(2)
    by (simp add: parse_term_def parse_atom_def parse_class_def is_unicode_mode_def maybe_quantify_def is_assertion_node_def
        quantifier_bounds_def peek_drop parser_new_def)
  from single_term [OF this, of MAX_NESTING_DEPTH] have
    dj: "parse_disjunction D (Suc MAX_NESTING_DEPTH) ?p = POk (?n, leave (bump (length ?us) ?s))"
    using len by (simp add: peek_drop parser_new_def MAX_NESTING_DEPTH_def class_text_def del: parse_disjunction.simps)
  have "skips D False 1 ?s (bump (length ?us) ?s)" by (rule legacy_class(1) [OF cls look])
  then have "prescan_loop D ?us 0 False 0 [] = prescan_loop D ?us (length ?us) False 0 []"
    using assms(3) by (simp add: skips_def parser_new_def)
  also have "\<dots> = POk (0, [])" by (subst prescan_loop.simps) (simp add: get_at_def)
  finally have "prescan D ?p = POk ?p" by (simp add: prescan_def parser_new_def)
  moreover have "levels ?p = Suc MAX_NESTING_DEPTH" by (simp add: levels_def parser_new_def)
  ultimately show ?thesis using dj
    by (simp add: parse_def validate_duplicate_named_groups_by_path_def parser_new_def leave_def del: parse_disjunction.simps try_p_POk_iff)
qed

section \<open>UTF-16\<close>

lemma lossy_scalar_unit:
  assumes "is_scalar_value c" and "c < 0x10000"
  shows "from_utf16_lossy (c # us) = c # from_utf16_lossy us"
  using assms by (cases us) (auto simp: is_scalar_value_def is_high_surrogate_def is_low_surrogate_def)

lemma lossy_pair:
  assumes "0x10000 \<le> c" and "c \<le> MAX_CP"
  shows "from_utf16_lossy ((0xD800 + (c - 0x10000) div 1024) # (0xDC00 + (c - 0x10000) mod 1024) # us) = c # from_utf16_lossy us"
proof -
  have "(c - 0x10000) div 1024 < 1024" using assms by (simp add: MAX_CP_def)
  then have "is_high_surrogate (0xD800 + (c - 0x10000) div 1024)" "is_low_surrogate (0xDC00 + (c - 0x10000) mod 1024)"
    using mod_less_divisor [of 1024 "c - 0x10000"] by (simp_all add: is_high_surrogate_def is_low_surrogate_def less_eq_iff_succ_less)
  moreover have "combine_surrogates (0xD800 + (c - 0x10000) div 1024) (0xDC00 + (c - 0x10000) mod 1024) = c"
    using assms div_mult_mod_eq [of "c - 0x10000" 1024] by (simp add: combine_surrogates_def)
  ultimately show ?thesis by simp
qed

lemma lossy_encode: "list_all is_scalar_value s \<Longrightarrow> from_utf16_lossy (encode_utf16 s) = s"
proof (induction s)
  case (Cons c s)
  have e: "encode_utf16 (c # s) = encode_char c @ encode_utf16 s" by (simp add: encode_utf16_def)
  show ?case
  proof (cases "c < 0x10000")
    case True
    then show ?thesis using Cons lossy_scalar_unit [of c "encode_utf16 s"] unfolding e by (simp add: encode_char_def)
  next
    case False
    then have "from_utf16_lossy (encode_char c @ encode_utf16 s) = c # from_utf16_lossy (encode_utf16 s)"
      using Cons(2) lossy_pair [of c "encode_utf16 s"] by (simp add: encode_char_def is_scalar_value_def MAX_CP_def del: from_utf16_lossy.simps)
    then show ?thesis using Cons unfolding e by simp
  qed
qed (simp add: encode_utf16_def)

section \<open>Property names\<close>

lemma property_loop_run:
  assumes "drop (ps_pos s) (ps_units s) = us @ rest" and "list_all (\<lambda>u. u \<noteq> c_rbrace \<and> (eq = None \<longrightarrow> u \<noteq> c_eq)) us"
  shows "property_loop eq s = property_loop eq (bump (length us) s)"
  using assms
proof (induction us arbitrary: s)
  case (Cons u us)
  have "peek s = Some u" using Cons(2) by (simp add: peek_drop)
  then have "property_loop eq s = property_loop eq (bump 1 s)"
    using Cons(3) by (subst property_loop.simps) auto
  also have "\<dots> = property_loop eq (bump (length us) (bump 1 s))"
    by (rule Cons(1)) (use drop_step [of s u "us @ rest"] Cons(2,3) in simp_all)
  finally show ?case by simp
qed simp

lemma encode_units:
  assumes "list_all (\<lambda>c. is_scalar_value c \<and> c \<noteq> k) s" and "k < 128"
  shows "list_all (\<lambda>u. u \<noteq> k) (encode_utf16 s)"
  using assms by (induction s) (auto simp: encode_utf16_def encode_char_def)

definition property_text :: "code_point list \<Rightarrow> code_point list option \<Rightarrow> code_unit list" where
  "property_text name val =
    [c_lbrace] @ encode_utf16 name @ (case val of Some v \<Rightarrow> c_eq # encode_utf16 v | None \<Rightarrow> []) @ [c_rbrace]"

definition property_word :: "code_point list \<Rightarrow> bool" where
  "property_word s \<longleftrightarrow> list_all (\<lambda>c. is_scalar_value c \<and> c \<noteq> c_eq \<and> c \<noteq> c_rbrace) s"

lemma property_word_units:
  assumes "property_word s"
  shows "list_all (\<lambda>u. u \<noteq> c_rbrace \<and> u \<noteq> c_eq) (encode_utf16 s)" and "from_utf16_lossy (encode_utf16 s) = s"
  using assms encode_units [of c_rbrace s] encode_units [of c_eq s] lossy_encode [of s]
  by (auto simp: property_word_def list_all_iff)

lemma slice_of_drop: "drop (ps_pos s) (ps_units s) = us @ rest \<Longrightarrow> slice_str t (ps_pos s) (ps_pos s + length us) = from_utf16_lossy us"
  if "ps_units t = ps_units s"
  using that by (simp add: slice_str_def)

lemma property_name_reads_back:
  assumes "drop (ps_pos s) (ps_units s) = property_text name val @ rest" and "property_word name"
    and "\<And>v. val = Some v \<Longrightarrow> property_word v"
  shows "\<exists>s'. read_property_name_body s = POk ((name, val), s') \<and> drop (ps_pos s') (ps_units s') = rest"
proof -
  note n = property_word_units [OF assms(2)]
  have look: "peek s = Some c_lbrace" using assms(1) by (simp add: peek_drop property_text_def)
  let ?a = "bump 1 s" and ?b = "bump (length (encode_utf16 name)) (bump 1 s)"
  have da: "drop (ps_pos ?a) (ps_units ?a) = encode_utf16 name @ (case val of Some v \<Rightarrow> c_eq # encode_utf16 v | None \<Rightarrow> []) @ [c_rbrace] @ rest"
    using drop_step [of s c_lbrace] assms(1) by (simp add: property_text_def)
  have db: "drop (ps_pos ?b) (ps_units ?b) = (case val of Some v \<Rightarrow> c_eq # encode_utf16 v | None \<Rightarrow> []) @ [c_rbrace] @ rest"
    using arg_cong [OF da, of "drop (length (encode_utf16 name))"] by (simp add: add.commute)
  have loop: "property_loop None ?a = property_loop None ?b"
    by (rule property_loop_run [OF da]) (use n(1) in \<open>simp add: list_all_iff\<close>)
  have name: "slice_str t (ps_pos ?a) (ps_pos ?b) = name" if "ps_units t = ps_units s" for t
    using slice_of_drop [OF _ da, of t] that n(2) by simp
  show ?thesis
  proof (cases val)
    case None
    then have d: "drop (ps_pos ?b) (ps_units ?b) = c_rbrace # rest" using db by simp
    then have "peek ?b = Some c_rbrace" by (rule peek_of_drop)
    moreover from this have "property_loop None ?b = (None, ?b)" by (subst property_loop.simps) simp
    ultimately show ?thesis using look loop name [of "bump 1 ?b"] None drop_step [OF d]
      by (simp add: read_property_name_body_def Let_def)
  next
    case (Some v)
    note w = property_word_units [OF assms(3) [OF Some]]
    let ?c = "bump 1 ?b" and ?d = "bump (length (encode_utf16 v)) (bump 1 ?b)"
    have d: "drop (ps_pos ?b) (ps_units ?b) = c_eq # encode_utf16 v @ c_rbrace # rest" using db Some by simp
    note dc = drop_step [OF d]
    have dd: "drop (ps_pos ?d) (ps_units ?d) = c_rbrace # rest"
      using arg_cong [OF dc, of "drop (length (encode_utf16 v))"] by (simp add: ac_simps)
    have "property_loop None ?b = property_loop (Some (ps_pos ?b)) ?c"
      using peek_of_drop [OF d] by (subst property_loop.simps) simp
    also have "\<dots> = property_loop (Some (ps_pos ?b)) ?d"
      by (rule property_loop_run [OF dc]) (use w(1) in \<open>simp add: list_all_iff\<close>)
    also have "\<dots> = (Some (ps_pos ?b), ?d)" using peek_of_drop [OF dd] by (subst property_loop.simps) simp
    finally have fin: "property_loop None ?a = (Some (ps_pos ?b), ?d)" using loop by simp
    have "slice_str (bump 1 ?d) (ps_pos ?c) (ps_pos ?d) = v"
      using slice_of_drop [OF _ dc, of "bump 1 ?d"] w(2) by (simp add: add.assoc)
    then show ?thesis using look fin name [of "bump 1 ?d"] Some peek_of_drop [OF dd] drop_step [OF dd]
      by (simp add: read_property_name_body_def Let_def)
  qed
qed

end
