(* ===== verification/Rx_Pipeline.thy ===== *)
theory Rx_Pipeline
  imports Rx_Class_Text
begin

text \<open>
  The whole pipeline: from the units of a pattern through parsing and lowering to the items of
  the match iterator. \<open>within_limits\<close> names what the pattern must respect for the lowered
  program to be faithful: repeat counts below the cap, case-insensitive classes small enough to
  be folded, and the shapes on which possessive marking (\<open>direction_safe\<close>) and the run skip (\<open>lead_safe\<close>)
  are sound.
\<close>

definition within_limits :: "icu \<Rightarrow> parsed \<Rightarrow> flags \<Rightarrow> bool" where
  "within_limits U p f \<longleftrightarrow> small_counts (root p) \<and> all_classes (class_small f) (root p)
    \<and> direction_safe U p f \<and> lead_safe U p f"

lemma parsed_compiled_ok:
  assumes "parse D us f = POk p" and "icu_laws U" and "ucd_laws D" and "utf16 us" and "\<not> unicode_sets f" and "within_limits U p f"
  shows "compiled_ok U p f"
  using parse_wf_node [OF assms(1,3,4,5)] assms(2,6) by (simp add: compiled_ok_def lowerable_def within_limits_def)

lemma compile_search:
  assumes "compile_utf16 U D us f = POk rx" and "icu_laws U" and "ucd_laws D" and "utf16 us" and "\<not> unicode_sets f"
    and "\<And>p. parse D us f = POk p \<Longrightarrow> within_limits U p f" and "utf16 ts"
  shows "\<exists>p. parse D us f = POk p \<and> compiled_ok U p f
    \<and> matches_next (icu_simple_fold U) (find_utf16 rx ts start \<lparr>step_limit = None\<rparr>)
        = Some (next_spec U p f (find_utf16 rx ts start \<lparr>step_limit = None\<rparr>) start)"
proof -
  obtain p where p: "parse D us f = POk p" "rx = \<lparr>rx_program = lower U p f, rx_flags = f\<rparr>"
    using assms(1) by (auto simp: compile_utf16_def)
  note ok = parsed_compiled_ok [OF p(1) assms(2-5) assms(6) [OF p(1)]]
  show ?thesis using p ok matches_next_correct [OF ok, of "find_utf16 rx ts start \<lparr>step_limit = None\<rparr>"] assms(7)
    by (auto simp: find_utf16_def)
qed

lemma find_scan_before: "k \<in> set (scan_positions us uni pos) \<Longrightarrow> P k \<Longrightarrow> \<exists>j. find P (scan_positions us uni pos) = Some j \<and> j \<le> k"
proof (induction us uni pos rule: scan_positions.induct)
  case (1 us uni pos)
  show ?case
  proof (cases "pos \<le> length us")
    case True
    have le: "pos \<le> x" if "x \<in> set (scan_positions us uni pos)" for x
      using that
    proof (induction us uni pos rule: scan_positions.induct)
      case (1 us uni pos)
      then show ?case using advance_scan_gt [of pos us uni]
        by (subst (asm) (2) scan_positions.simps) (fastforce split: if_splits)
    qed
    show ?thesis
    proof (cases "P pos")
      case found: True
      then show ?thesis using True le [OF 1(2)] by (simp add: find_positions)
    next
      case False
      then have "k \<in> set (scan_positions us uni (advance_scan us pos uni))"
        using 1(2,3) True by (subst (asm) scan_positions.simps) auto
      then show ?thesis using 1(1) [OF True] 1(3) False True by (simp add: find_positions [of P us uni pos])
    qed
  qed (use 1(2) in \<open>subst (asm) scan_positions.simps, simp\<close>)
qed

lemma match_starts_at:
  assumes "compiled_ok U p f" and "utf16 us" and "at \<le> length us" and "match_at U p f (subject f us) at = Some m"
  shows "fst (m_range (match_of p m)) = at"
  using match_at_spans(2) [of U p f "subject f us" at "fst m" "snd m"] assms compiled_okD [OF assms(1,2)]
  by (simp add: match_of_def)

lemma search_finds_existing:
  assumes "compiled_ok U p f" and "utf16 (ms_text ms)" and "rx_program (ms_regex ms) = lower U p f" and "\<not> ms_done ms"
    and "ms_config ms = \<lparr>step_limit = None\<rparr>" and "k \<in> set (scan_positions (ms_text ms) (is_unicode_mode f) (ms_next_start ms))"
    and "match_at U p f (subject f (ms_text ms)) k \<noteq> None"
  shows "\<exists>m ms'. matches_next (icu_simple_fold U) ms = Some (Found m, ms') \<and> ms_next_start ms \<le> fst (m_range m) \<and> fst (m_range m) \<le> k"
proof -
  obtain j where j: "leftmost U p f (ms_text ms) (ms_next_start ms) = Some j" "j \<le> k"
    using find_scan_before [OF assms(6), of "matches_at U p f (ms_text ms)"] assms(7) by (auto simp: leftmost_def matches_at_def)
  note b = leftmost_bounds [OF j(1)]
  obtain m where m: "match_at U p f (subject f (ms_text ms)) j = Some m" using b(3) by blast
  have "fst (next_spec U p f ms (ms_next_start ms)) = Found (match_of p m)" using j(1) m by (simp add: next_spec_def Let_def)
  moreover have "matches_next (icu_simple_fold U) ms = Some (next_spec U p f ms (ms_next_start ms))"
    using matches_next_correct [OF assms(1-4)] assms(5) by simp
  ultimately show ?thesis using match_starts_at [OF assms(1,2) b(2) m] j(2) b(1) by (metis prod.collapse)
qed

end
