(* ===== verification/Rx_Examples.thy ===== *)
theory Rx_Examples
  imports Rx_Parser
begin

text \<open>
  Concrete instances: Unicode data restricted to ASCII that satisfies the laws the engine
  relies on, and patterns whose trees and programs are evaluated.
\<close>

definition ascii_icu :: icu where
  "ascii_icu = \<lparr>icu_simple_fold = canonicalize,
    icu_case_closure = (\<lambda>c. if is_scalar_value c then [ascii_other_case c] else [])\<rparr>"

lemma ascii_icu_laws: "icu_laws ascii_icu"
  by (auto simp: icu_laws_def ascii_icu_def canonicalize_eq_iff ascii_fold.canon_idem
      is_scalar_value_def canonicalize_def ascii_other_case_def MAX_CP_def split: if_splits)

definition ascii_ucd :: ucd where
  "ascii_ucd = \<lparr>is_xid_start = (\<lambda>c. in_range c_A c_Z c \<or> in_range c_a c_z c), is_xid_continue = word_char,
    new_for_ecma262 = (\<lambda>n. if n = lit ''ASCII'' then Some [(0, 127)] else None),
    parse_gc = (\<lambda>_. None), gc_ranges = (\<lambda>_. []), gc_group_ranges = (\<lambda>_. []),
    parse_script = (\<lambda>_. None), script_ranges = (\<lambda>_. []), script_extensions_ranges = (\<lambda>_. []),
    emoji_ranges = (\<lambda>_. []), emoji_strings = (\<lambda>_. [])\<rparr>"

lemma ascii_ucd_laws: "ucd_laws ascii_ucd"
  by (auto simp: ucd_laws_def ucd_names_def ucd_valid_def ascii_ucd_def word_char_def lit_def is_digit_def in_range_def
      valid_range_def MAX_CP_def)

lemma default_flags_simps [simp]:
  "ignore_case default_flags = False" "multiline default_flags = False" "dot_all default_flags = False"
  "unicode default_flags = False" "unicode_sets default_flags = False" "is_unicode_mode default_flags = False"
  by (simp_all add: default_flags_def is_unicode_mode_def)

lemma replicate_small: "replicate 2 x = [x, x]" "replicate 4 x = [x, x, x, x]"
  by (simp_all add: eval_nat_numeral)

definition run_pattern :: parsed where
  "run_pattern = \<lparr>root = NConcat [NRepeat (NChar 97 False) \<lparr>q_min = 1, q_max = None, q_greedy = True\<rparr>, NChar 98 False],
    group_count = 0, group_names = []\<rparr>"

lemmas emission_simps = compile.simps compile_concat_def emit_def compile_group_def compile_look_def flush_char_run_def
  compile_repeat_def fuseable_atom_def patch_def here_def Let_def MAX_REPEAT_def

lemma run_pattern_code:
  "e_insns (emit IMatch (emitted run_pattern default_flags)) =
    [IRepeat (AtomChar 97 False) 1 True False, IChar 98 False, IMatch]"
  by (simp add: emitted_def start_emitter_def run_pattern_def emission_simps)

lemmas pass_simps = fold_classes.simps class_operand.simps lower_fields mark_possessive_def possessifiable_def
  repeat_atom_set_def bounded_members_def follower_pc_def follower_matches_def atom_matches_def char_matches_def
  cps_insert_def insert_range_def normalize_def cps_new_def REP_CAP_def get_at_def

lemma run_pattern_folded: "folded ascii_icu run_pattern default_flags
    = ([IRepeat (AtomChar 97 False) 1 True False, IChar 98 False, IMatch], [])"
  by (simp add: folded_def run_pattern_code)
    (simp add: emitted_def start_emitter_def run_pattern_def emission_simps)

lemma run_pattern_insns: "p_insns (lower ascii_icu run_pattern default_flags)
    = [IRepeat (AtomChar 97 False) 1 True True, IChar 98 False, IMatch]"
  by (simp add: pass_simps run_pattern_folded)

lemma run_pattern_classes: "final_classes ascii_icu run_pattern default_flags = []"
  by (simp add: final_classes_def run_pattern_folded)

lemma run_pattern_prefilter:
  "p_prefilter (lower ascii_icu run_pattern default_flags) = Some (prefilter_build (cps_insert 97 cps_new) None)"
  by (simp add: lower_prefilter run_pattern_folded run_pattern_classes compute_first_set_def first_set_loop.simps first_step_def
      atom_start_def cps_is_empty_def cps_insert_def insert_range_def normalize_def
      cps_new_def prefilter_from_set_def)

lemma run_pattern_lowerable: "lowerable run_pattern default_flags"
  by (simp add: lowerable_def run_pattern_def MAX_REPEAT_def MAX_CP_def)

lemma run_pattern_compiled: "compiled_ok ascii_icu run_pattern default_flags"
proof -
  have "direction_safe ascii_icu run_pattern default_flags"
    using run_pattern_lowerable by (rule direction_safeI) (simp add: run_pattern_def)
  moreover have "lead_safe ascii_icu run_pattern default_flags"
    by (simp add: lead_safe_def run_pattern_insns
        lead_independent_def progress_slots_def Let_def get_at_def)
  ultimately show ?thesis
    by (simp add: compiled_ok_def ascii_icu_laws run_pattern_lowerable) (simp add: run_pattern_def)
qed

text \<open>Evaluation of the specification on a concrete subject.\<close>

lemmas match_simps = match_at_def pattern_env_def subject_def start_state_def mark_base_def close_match_def first_of_def
  s_repeat_def s_iteration_def s_clear_def s_char_def s_char_test_def s_alt_def s_capture_def s_look_def s_backref_def
  s_any_test_def find_span.simps group_span_def slice_def decode_dir_def decode_def get_at_def Let_def replicate_small

lemma run_pattern_match: "match_at ascii_icu run_pattern default_flags (subject default_flags [97, 97, 98]) 0
    = Some (3, [Some 0, Some 3])"
  by (simp add: match_simps run_pattern_def)

lemma run_pattern_lead: "p_lead_possessive_run (lower ascii_icu run_pattern default_flags)"
proof -
  have "p_lead_possessive_run (lower ascii_icu run_pattern default_flags)
      = lead_possessive_run (p_insns (lower ascii_icu run_pattern default_flags))"
    by (simp add: lower_def Let_def split: prod.split)
  then show ?thesis by (simp add: run_pattern_insns lead_possessive_run_def get_at_def)
qed

definition run_regex :: regex where
  "run_regex = \<lparr>rx_program = lower ascii_icu run_pattern default_flags, rx_flags = default_flags\<rparr>"

end
