(* ===== verification/Rx_Departures.thy ===== *)
theory Rx_Departures
  imports Rx_Limits Rx_Examples
begin

text \<open>
  Inputs on which the engine departs from its documentation or from the language: classes
  negated twice under the \<open>v\<close> flag, patterns that end inside a class, braces that are no
  quantifier, the growth of the duplicate-name check, counts above the repeat limit, and two
  optimisations that lose matches: the run skip, with a back reference or with a case modifier, and
  possessive marking inside a lookbehind.
\<close>

section \<open>Classes\<close>

definition v_flags :: flags where
  "v_flags = default_flags\<lparr>unicode_sets := True\<rparr>"

lemma v_flags_simps [simp]:
  "unicode_sets v_flags = True" "ignore_case v_flags = False" "is_unicode_mode v_flags = True"
  by (simp_all add: v_flags_def is_unicode_mode_def)

lemma levels_at:
  "ps_depth s = 0 \<Longrightarrow> levels s = Suc MAX_NESTING_DEPTH" "ps_depth s = Suc 0 \<Longrightarrow> levels s = Suc (MAX_NESTING_DEPTH - 1)"
  by (simp_all add: levels_def MAX_NESTING_DEPTH_def)

lemma enter_at:
  "ps_depth s = 0 \<Longrightarrow> enter s = POk (s\<lparr>ps_depth := 1\<rparr>)" "ps_depth s = Suc 0 \<Longrightarrow> enter s = POk (s\<lparr>ps_depth := 2\<rparr>)"
  by (simp_all add: enter_def MAX_NESTING_DEPTH_def)

lemma depth_limit: "Suc 0 < MAX_NESTING_DEPTH" "0 < MAX_NESTING_DEPTH"
  by (simp_all add: MAX_NESTING_DEPTH_def)

lemmas parse_simps = depth_limit parse_def prescan_def prescan_loop.simps parser_new_def levels_at enter_at leave_def loop_fuel_def
  parse_alternative_def parse_term_def parse_atom_def peek_def peek_at_def get_at_def bump_def Let_def
  maybe_quantify_def quantifier_bounds_def is_assertion_node_def ps_unicode_def
  parse_class_def parse_legacy_class_def class_loop.simps parse_class_member_def finish_class_atom_def
  try_class_escape_set_def read_pattern_codepoint_def parse_class_char_escape_def parse_char_escape_def
  next_is_class_escape_def

lemma v_negated_class_set:
  assumes "ps_units s = [c_lbrack, c_caret, c_a, c_rbrack]" and "ps_pos s = 0" and "ps_flags s = v_flags" and "ps_depth s = 1"
  shows "parse_class_set D (Suc n) s = POk ((negate_code_points (single_class c_a), True), bump 4 s)"
proof -
  have open': "class_open s = bump 2 (s\<lparr>ps_depth := 2\<rparr>)" "peek (bump 1 s) = Some c_caret"
    using assms by (simp_all add: class_open_def peek_def get_at_def Let_def numeral_2_eq_2)
  have "parse_class_set_union_member D (parse_class_set D n) class_default (bump 2 (s\<lparr>ps_depth := 2\<rparr>))
      = POk (single_class c_a, bump 3 (s\<lparr>ps_depth := 2\<rparr>))"
    using assms by (simp add: parse_class_set_union_member_def try_class_set_character_def read_pattern_codepoint_def
        peek_def get_at_def Let_def single_class_def class_default_def from_code_points_def ps_unicode_def is_high_surrogate_def)
  moreover have "class_set_rest D (parse_class_set D n) (single_class c_a) (bump 3 (s\<lparr>ps_depth := 2\<rparr>))
      = POk (single_class c_a, bump 3 (s\<lparr>ps_depth := 2\<rparr>))"
    using assms by (simp add: class_set_rest_def loop_fuel_def peek_def get_at_def)
  moreover have "peek (bump 2 (s\<lparr>ps_depth := 2\<rparr>)) = Some c_a" "peek (bump 3 (s\<lparr>ps_depth := 2\<rparr>)) = Some c_rbrack"
    using assms by (simp_all add: peek_def get_at_def)
  moreover have "leave (bump 1 (bump 3 (s\<lparr>ps_depth := 2\<rparr>))) = bump 4 s"
    using assms by (simp add: leave_def bump_def)
  moreover have "\<not> may_contain_strings (single_class c_a)"
    by (simp add: may_contain_strings_def single_class_def from_code_points_def)
  ultimately show ?thesis
    using open' assms(4) by (simp only: parse_class_set_Suc) (simp add: depth_limit finish_class_set_def)
qed

lemma v_negated_class:
  "parse D [c_lbrack, c_caret, c_a, c_rbrack] v_flags
    = POk \<lparr>root = NClass (negate_code_points (single_class c_a)) True False, group_count = 0, group_names = []\<rparr>"
proof -
  let ?us = "[c_lbrack, c_caret, c_a, c_rbrack]" and ?n = "NClass (negate_code_points (single_class c_a)) True False"
  let ?p = "parser_new ?us v_flags"
  let ?s = "?p\<lparr>ps_depth := ps_depth ?p + 1\<rparr>"
  have s: "ps_units ?s = ?us" "ps_pos ?s = 0" "ps_flags ?s = v_flags" "ps_depth ?s = 1" by (simp_all add: parser_new_def)
  have "parse_atom D dj ?s = POk (?n, bump 4 ?s)" for dj
    using v_negated_class_set [OF s, of D] levels_at(2) [of ?s] s
    by (simp add: parse_atom_def parse_class_def class_node_def peek_def get_at_def del: parse_class_set.simps)
  then have "parse_term D dj ?s = POk (Some ?n, bump 4 ?s)" for dj
    using s by (simp add: parse_term_def maybe_quantify_def is_assertion_node_def quantifier_bounds_def peek_def get_at_def)
  from single_term [OF this, of MAX_NESTING_DEPTH] have
    "parse_disjunction D (Suc MAX_NESTING_DEPTH) ?p = POk (?n, leave (bump 4 ?s))"
    using depth_limit by (simp add: peek_def get_at_def parser_new_def del: parse_disjunction.simps)
  moreover have "prescan D ?p = POk ?p" by (simp add: prescan_def prescan_loop.simps parser_new_def get_at_def)
  ultimately show ?thesis
    by (simp add: parse_def levels_at validate_duplicate_named_groups_by_path_def parser_new_def leave_def
        del: parse_disjunction.simps try_p_POk_iff)
qed






theorem unfinished_class_panics:
  "parse D [c_lbrack, c_bslash] default_flags = PPanic \<and> parse D [c_lbrack, c_a, c_dash] default_flags = PPanic
    \<and> parse D [c_lbrack, c_a, c_dash, c_bslash] default_flags = PPanic"
  by (simp add: parse_simps)

section \<open>Braces\<close>

theorem brace_text_is_rejected:
  "parse D [c_a, c_lbrace, c_1, c_comma, c_x, c_rbrace] default_flags = PErr (Syntax (lit ''unterminated quantifier'') 4)"
  by (simp add: parse_simps looks_like_quantifier_def skip_digits.simps parse_brace_quantifier_def read_decimal_digits_def
      collect_digits.simps is_digit_def in_range_def err_def)

section \<open>Growth\<close>

theorem name_check_is_exponential:
  "\<exists>out. validate_names (NConcat (replicate n (NGroup NonCapturing (NAlternate [NEmpty, NEmpty])))) [[]] = POk out \<and> length out = 2 ^ n"
proof -
  let ?t = "NConcat (replicate n (NGroup NonCapturing (NAlternate [NEmpty, NEmpty])))"
  have "well_formed 0 ?t" by (simp add: list_all_iff)
  moreover have "exclusive_names ?t" by (induction n) simp_all
  ultimately obtain out where "validate_names ?t [[]] = POk out"
    using validate_names_decides(1) [of 0 ?t "[[]]"] by (auto simp: decides_def)
  moreover have "branches ?t = 2 ^ n" by (induction n) simp_all
  ultimately show ?thesis using validate_names_length(1) [of ?t "[[]]"] by auto
qed

text \<open>Evaluation of the executor on a concrete program and subject.\<close>

lemmas run_simps = attempt_def run_loop.simps exec_insn_def first_frame_def resume_frame_def chain_frame_def look_verdict_def
  exec_repeat_def exec_char_seq_def consume_def write_slot_def next_insn_def test_insn_def push_frame_def abs_diff_def
  atom_test_def repeat_scan.simps char_eq_def step_def advance_def fail_def decode_dir_def decode_def get_at_def Let_def
  subject_def match_backref_def group_span_def

section \<open>Counts above the repeat limit\<close>

text \<open>\<open>/a{k}/\<close>.\<close>

definition count_pattern :: "nat \<Rightarrow> parsed" where
  "count_pattern k = \<lparr>root = NRepeat (NChar 97 False) \<lparr>q_min = k, q_max = Some k, q_greedy = True\<rparr>,
    group_count = 0, group_names = []\<rparr>"

lemma count_folded:
  assumes "MAX_REPEAT < k"
  shows "folded ascii_icu (count_pattern k) default_flags = ([IFail, IMatch], [])"
proof -
  have "compile (root (count_pattern k)) e = emit IFail e" for e
    using assms by (simp add: count_pattern_def compile_repeat_def)
  then show ?thesis by (simp add: folded_def emitted_def start_emitter_def emit_def)
qed

lemma count_lowered:
  assumes "MAX_REPEAT < k"
  shows "p_insns (lower ascii_icu (count_pattern k) default_flags) = [IFail, IMatch]"
  by (simp add: pass_simps count_folded [OF assms])

lemma count_attempt:
  assumes "MAX_REPEAT < k"
  shows "attempt canonicalize (lower ascii_icu (count_pattern k) default_flags) (subject default_flags us) at \<lparr>step_limit = None\<rparr>
    = Some (RunOk None)"
  by (simp add: run_simps count_lowered [OF assms])

lemma times_run:
  assumes "at + k \<le> length us" and "\<And>i. at \<le> i \<Longrightarrow> i < at + k \<Longrightarrow> us ! i = 97"
  shows "s_times (s_iteration [] (s_char (pattern_env U default_flags (subject default_flags us)) False
      (s_char_test env 97 False))) k (at, caps) = [(at + k, caps)]"
  using assms
proof (induction k arbitrary: at)
  case (Suc k)
  have "us ! at = 97" "at < length us" using Suc.prems by simp_all
  then show ?case
    using Suc.IH [of "Suc at"] Suc.prems
    by (simp add: s_iteration_def s_clear_def s_char_def s_char_test_def pattern_env_def subject_def decode_dir_def decode_def get_at_def)
qed simp

lemma count_match: "match_at ascii_icu (count_pattern k) default_flags (subject default_flags (replicate k 97)) 0
    = Some (k, [Some 0, Some k])"
  using times_run [of 0 k "replicate k 97"]
  by (simp add: match_at_def count_pattern_def start_state_def mark_base_def s_repeat_def first_of_def close_match_def replicate_small)

theorem large_counts_never_match:
  assumes "MAX_REPEAT < k"
  shows "attempt canonicalize (lower ascii_icu (count_pattern k) default_flags) (subject default_flags us) at \<lparr>step_limit = None\<rparr>
      = Some (RunOk None)
    \<and> match_at ascii_icu (count_pattern k) default_flags (subject default_flags (replicate k 97)) 0 = Some (k, [Some 0, Some k])"
  using count_attempt [OF assms] count_match by simp

section \<open>Repeats in lookbehinds\<close>

text \<open>\<open>/(?<=bcc*)d/\<close>.\<close>

definition behind_pattern :: parsed where
  "behind_pattern = \<lparr>root = NConcat [NGroup (Lookbehind False) (NConcat [NChar 98 False, NChar 99 False,
      NRepeat (NChar 99 False) \<lparr>q_min = 0, q_max = None, q_greedy = True\<rparr>]), NChar 100 False],
    group_count = 0, group_names = []\<rparr>"

lemma behind_folded: "folded ascii_icu behind_pattern default_flags
    = ([ILook False True (Suc (Suc 0)), IJump (Suc (Suc (Suc (Suc (Suc 0))))), IRepeat (AtomChar 99 False) 0 True False, ICharSeq [98, 99],
      ILookMatch, IChar 100 False, IMatch], [])"
  by (simp add: folded_def emitted_def start_emitter_def behind_pattern_def emission_simps)

lemma behind_insns: "p_insns (lower ascii_icu behind_pattern default_flags)
    = [ILook False True (Suc (Suc 0)), IJump (Suc (Suc (Suc (Suc (Suc 0))))), IRepeat (AtomChar 99 False) 0 True True, ICharSeq [98, 99],
      ILookMatch, IChar 100 False, IMatch]"
  by (simp add: pass_simps behind_folded)

lemma behind_match: "match_at ascii_icu behind_pattern default_flags (subject default_flags [98, 99, 100]) 2
    \<noteq> None"
  by (simp add: match_simps behind_pattern_def decode_back_def prev_codepoint_def)

lemma behind_slots: "slot_count (lower ascii_icu behind_pattern default_flags) = 2"
  by (simp add: slot_count_def lower_fields emitted_def start_emitter_def behind_pattern_def emission_simps mark_base_def)

lemma behind_attempt: "attempt canonicalize (lower ascii_icu behind_pattern default_flags) (subject default_flags [98, 99, 100]) 2 \<lparr>step_limit = None\<rparr>
    = Some (RunOk None)"
  by (simp add: run_simps behind_insns behind_slots)

text \<open>In \<open>/(?<=bcc*)d/\<close> the repeat is marked possessive although the sequence after it, matched
  backwards, starts with \<open>c\<close>: the executor finds no match at offset 2 of \<open>bcd\<close>, where the reference
  semantics has one. This is the case the direction hypothesis of the refinement excludes.\<close>

theorem lookbehind_run_loses_match:
  "attempt canonicalize (lower ascii_icu behind_pattern default_flags) (subject default_flags [98, 99, 100]) 2 \<lparr>step_limit = None\<rparr>
      = Some (RunOk None)
    \<and> match_at ascii_icu behind_pattern default_flags (subject default_flags [98, 99, 100]) 2 \<noteq> None"
  using behind_attempt behind_match by simp

section \<open>Skipping the run of a leading repeat\<close>

text \<open>\<open>/(a+)b\1/\<close>.\<close>

definition run_backref :: parsed where
  "run_backref = \<lparr>root = NConcat [NGroup (Capturing 1 None) (NRepeat (NChar 97 False) \<lparr>q_min = 1, q_max = None, q_greedy = True\<rparr>),
      NChar 98 False, NBackRef [1] False], group_count = 1, group_names = [None]\<rparr>"

lemma backref_folded: "folded ascii_icu run_backref default_flags
    = ([ISave 2, IRepeat (AtomChar 97 False) 1 True False, ISave 3, IChar 98 False, IBackRef [1] False, IMatch], [])"
  by (simp add: folded_def emitted_def start_emitter_def run_backref_def emission_simps)

lemma backref_insns: "p_insns (lower ascii_icu run_backref default_flags)
    = [ISave 2, IRepeat (AtomChar 97 False) 1 True True, ISave 3, IChar 98 False, IBackRef [1] False, IMatch]"
  by (simp add: pass_simps backref_folded)

lemma backref_prefilter:
  "p_prefilter (lower ascii_icu run_backref default_flags) = Some (prefilter_build (cps_insert 97 cps_new) None)"
  by (simp add: lower_prefilter backref_folded final_classes_def compute_first_set_def first_set_loop.simps first_step_def
      atom_start_def cps_is_empty_def cps_insert_def insert_range_def normalize_def
      cps_new_def prefilter_from_set_def)

lemma backref_lead: "p_lead_possessive_run (lower ascii_icu run_backref default_flags)"
proof -
  have "p_lead_possessive_run (lower ascii_icu run_backref default_flags)
      = lead_possessive_run (p_insns (lower ascii_icu run_backref default_flags))"
    by (simp add: lower_def Let_def split: prod.split)
  then show ?thesis by (simp add: backref_insns lead_possessive_run_def get_at_def)
qed

lemma backref_slots: "slot_count (lower ascii_icu run_backref default_flags) = 4"
  by (simp add: slot_count_def lower_fields emitted_def start_emitter_def run_backref_def emission_simps mark_base_def)

lemma backref_attempt:
  "attempt canonicalize (lower ascii_icu run_backref default_flags) (subject default_flags [97, 97, 98, 97, 98]) 0 \<lparr>step_limit = None\<rparr> = Some (RunOk None)"
  "attempt canonicalize (lower ascii_icu run_backref default_flags) (subject default_flags [97, 97, 98, 97, 98]) 3 \<lparr>step_limit = None\<rparr> = Some (RunOk None)"
  by (simp add: run_simps backref_insns backref_slots replicate_small)+

lemma backref_match: "match_at ascii_icu run_backref default_flags (subject default_flags [97, 97, 98, 97, 98]) 1
    = Some (4, [Some 1, Some 4, Some 1, Some 2])"
  by (simp add: match_simps run_backref_def)

lemma starts_a: "cp_may_start sf (prefilter_build (cps_insert 97 cps_new) None) cp \<longleftrightarrow> cp = 97"
  by (subst cp_may_start_correct) (auto simp: cps_insert_correct MAX_CP_def prefilter_fold_def)

lemma starts_a_single: "pf_single (prefilter_build (cps_insert 97 cps_new) None) = Some 97"
  by (simp add: prefilter_build_def cps_insert_def insert_range_def normalize_def cps_new_def)

text \<open>For \<open>/(a+)b\1/\<close> the search on \<open>aabab\<close> skips the run after the failure at 0 and reports no match,
  although the pattern matches at 1. This is the case the hypothesis on the continuation of the leading
  repeat excludes.\<close>

theorem run_skip_loses_match:
  "\<exists>ms. matches_next canonicalize (find_utf16 \<lparr>rx_program = lower ascii_icu run_backref default_flags, rx_flags = default_flags\<rparr>
        [97, 97, 98, 97, 98] 0 \<lparr>step_limit = None\<rparr>) = Some (NoMatch, ms)
    \<and> match_at ascii_icu run_backref default_flags (subject default_flags [97, 97, 98, 97, 98]) 1
        = Some (4, [Some 1, Some 4, Some 1, Some 2])"
proof -
  let ?p = "lower ascii_icu run_backref default_flags" and ?us = "[97, 97, 98, 97, 98] :: nat list"
  have skip: "prefilter_skip canonicalize ?p ?us 0 = Some 0" "prefilter_skip canonicalize ?p ?us 2 = Some 3"
    "prefilter_skip canonicalize ?p ?us 4 = Some 6"
    by (simp_all add: prefilter_skip_def backref_prefilter starts_a_single scan_single_def)
  have after: "after_failure canonicalize ?p ?us 0 = Some 2" "after_failure canonicalize ?p ?us 3 = Some 4"
    by (simp_all add: after_failure_def backref_prefilter backref_lead scan_cps_def starts_a scan_units.simps lower_fields
        advance_scan_def get_at_def)
  show ?thesis using skip after backref_match
    by (simp add: matches_next_def find_utf16_def search_loop.simps backref_attempt [unfolded subject_def default_flags_simps]
        lower_fields(4))
qed

text \<open>\<open>/(?-i:a+)b/i\<close>: the prefilter folds case, the leading repeat does not. On \<open>Aab\<close> both letters of the
  run pass the prefilter, the attempt at 0 fails, and the pattern matches at 1. This is the case the
  case condition of \<open>lead_safe\<close> excludes.\<close>

definition modifier_run :: parsed where
  "modifier_run = \<lparr>root = NConcat [NRepeat (NChar 97 False) \<lparr>q_min = 1, q_max = None, q_greedy = True\<rparr>, NChar 98 True],
    group_count = 0, group_names = []\<rparr>"

definition i_flags :: flags where
  "i_flags = default_flags\<lparr>ignore_case := True\<rparr>"

lemma i_flags_simps [simp]: "ignore_case i_flags = True" "is_unicode_mode i_flags = False"
  by (simp_all add: i_flags_def is_unicode_mode_def)

lemma modifier_folded: "folded ascii_icu modifier_run i_flags
    = ([IRepeat (AtomChar 97 False) 1 True False, IChar 98 True, IMatch], [])"
  by (simp add: folded_def emitted_def start_emitter_def modifier_run_def emission_simps)

lemma modifier_insns: "p_insns (lower ascii_icu modifier_run i_flags)
    = [IRepeat (AtomChar 97 False) 1 True True, IChar 98 True, IMatch]"
  by (simp add: pass_simps modifier_folded fold_cp_def canonicalize_def)

theorem modifier_run_not_caseless:
  "p_lead_possessive_run (lower ascii_icu modifier_run i_flags) \<and> \<not> lead_safe ascii_icu modifier_run i_flags"
proof -
  have "p_lead_possessive_run (lower ascii_icu modifier_run i_flags)
      = lead_possessive_run (p_insns (lower ascii_icu modifier_run i_flags))"
    by (simp add: lower_def Let_def split: prod.split)
  then show ?thesis
    by (simp add: lead_safe_def lead_caseless_def caseless_def modifier_insns lead_possessive_run_def get_at_def)
qed

lemma modifier_prefilter:
  "p_prefilter (lower ascii_icu modifier_run i_flags) = Some (prefilter_build (cps_insert 97 cps_new) (Some False))"
  by (simp add: lower_prefilter modifier_folded final_classes_def compute_first_set_def first_set_loop.simps first_step_def
      atom_start_def cps_is_empty_def cps_insert_def insert_range_def normalize_def canonicalize_set_def bounded_members_def
      fold_cp_def canonicalize_def MAX_FOLD_def cps_new_def prefilter_from_set_canon_def)

lemma starts_a_folded: "cp_may_start sf (prefilter_build (cps_insert 97 cps_new) (Some False)) cp \<longleftrightarrow> cp = 97 \<or> cp = 65"
  by (subst cp_may_start_correct) (auto simp: cps_insert_correct MAX_CP_def prefilter_fold_def canonicalize_def)

lemma modifier_attempt:
  "attempt canonicalize (lower ascii_icu modifier_run i_flags) (subject i_flags [65, 97, 98]) 0 \<lparr>step_limit = None\<rparr> = Some (RunOk None)"
proof -
  have "slot_count (lower ascii_icu modifier_run i_flags) = 2"
    by (simp add: slot_count_def lower_fields emitted_def start_emitter_def modifier_run_def emission_simps mark_base_def)
  then show ?thesis by (simp add: run_simps modifier_insns)
qed

theorem modifier_run_loses_match:
  "\<exists>ms. matches_next canonicalize (find_utf16 \<lparr>rx_program = lower ascii_icu modifier_run i_flags, rx_flags = i_flags\<rparr>
        [65, 97, 98] 0 \<lparr>step_limit = None\<rparr>) = Some (NoMatch, ms)
    \<and> match_at ascii_icu modifier_run i_flags (subject i_flags [65, 97, 98]) 1 = Some (3, [Some 1, Some 3])"
proof -
  let ?p = "lower ascii_icu modifier_run i_flags" and ?us = "[65, 97, 98] :: nat list"
  have single: "pf_single (prefilter_build (cps_insert 97 cps_new) (Some False)) = None"
    by (simp add: prefilter_build_def)
  have skip: "prefilter_skip canonicalize ?p ?us 0 = Some 0" "prefilter_skip canonicalize ?p ?us 2 = Some 3"
    by (simp_all add: prefilter_skip_def modifier_prefilter single scan_cps_def starts_a_folded scan_units.simps lower_fields)
  have after: "after_failure canonicalize ?p ?us 0 = Some 2" "after_failure canonicalize ?p ?us 3 = Some 4"
    "prefilter_skip canonicalize ?p ?us 4 = Some 4"
    using modifier_run_not_caseless
    by (simp_all add: after_failure_def prefilter_skip_def modifier_prefilter single scan_cps_def starts_a_folded
        scan_units.simps lower_fields advance_scan_def get_at_def)
  have "match_at ascii_icu modifier_run i_flags (subject i_flags ?us) 1 = Some (3, [Some 1, Some 3])"
    by (simp add: match_simps modifier_run_def)
  moreover have "attempt canonicalize ?p (subject i_flags ?us) 3 \<lparr>step_limit = None\<rparr> = Some (RunOk None)"
    by (simp add: run_simps modifier_insns)
  ultimately show ?thesis using skip after
    by (simp add: matches_next_def find_utf16_def search_loop.simps modifier_attempt [unfolded subject_def i_flags_simps]
        subject_def lower_fields(4))
qed

text \<open>\<open>/[a]+b/i\<close>: the class has been widened, so the condition holds.\<close>

definition class_run :: parsed where
  "class_run = \<lparr>root = NConcat [NRepeat (NClass (single_class 97) False True) \<lparr>q_min = 1, q_max = None, q_greedy = True\<rparr>,
    NChar 98 True], group_count = 0, group_names = []\<rparr>"

lemma class_run_folded: "folded ascii_icu class_run i_flags
    = ([IRepeat (AtomClass 0 False False) 1 True False, IChar 98 True, IMatch], [fold_ascii_case (single_class 97)])"
  by (simp add: folded_def emitted_def start_emitter_def class_run_def emission_simps single_class_def from_code_points_def
      intern_class_def class_eligible_def class_widen_def)

lemma class_run_insns: "\<exists>poss. p_insns (lower ascii_icu class_run i_flags)
    = [IRepeat (AtomClass 0 False False) 1 True poss, IChar 98 True, IMatch]"
  by (simp add: lower_fields mark_possessive_def class_run_folded possessifiable_def) blast

lemma class_run_members: "caseless (class_cps (finalize_ascii (fold_ascii_case (single_class 97))))"
proof -
  have "cps_inv (code_points (single_class 97))" "class_cps (single_class 97) = {97}"
    using cps_insert_correct [of cps_new 97] by (simp_all add: single_class_def from_code_points_def MAX_CP_def)
  then have "class_cps (fold_ascii_case (single_class 97)) = {97, 65}"
    by (auto simp: fold_ascii_case_correct ascii_other_case_def)
  then show ?thesis by (auto simp: caseless_def finalize_ascii_def)
qed

lemma class_run_lead_safe: "lead_safe ascii_icu class_run i_flags"
proof -
  obtain poss where i: "p_insns (lower ascii_icu class_run i_flags) = [IRepeat (AtomClass 0 False False) 1 True poss, IChar 98 True, IMatch]"
    using class_run_insns by blast
  have "p_lead_possessive_run (lower ascii_icu class_run i_flags)
      = lead_possessive_run (p_insns (lower ascii_icu class_run i_flags))"
    by (simp add: lower_def Let_def split: prod.split)
  then show ?thesis
    using class_run_members
    by (auto simp: lead_safe_def lead_independent_def lead_caseless_def progress_slots_def i lead_possessive_run_def get_at_def
        lower_fields(2) final_classes_def class_run_folded class_members_def Let_def)
qed

end
