(* ===== verification/Bc_Prelude.thy ===== *)
theory Bc_Prelude
  imports Rx_Prelude
begin

text \<open>
  Shared vocabulary of the bytecode theories: results that are a value, an error of the source's
  error enum, or a panic (a failed \<open>expect\<close>, \<open>assert!\<close>, \<open>unreachable!\<close> or slice index), the
  sequencing of such results, and the little-endian images of machine words.
\<close>

section \<open>Outcomes\<close>

datatype ('e, 'a) outcome = Ok 'a | Err 'e | Panic

fun try_o :: "('e, 'a) outcome \<Rightarrow> ('a \<Rightarrow> ('e, 'b) outcome) \<Rightarrow> ('e, 'b) outcome" where
  "try_o (Ok x) f = f x"
| "try_o (Err e) f = Err e"
| "try_o Panic f = Panic"

text \<open>\<open>expect\<close> on an option, and \<open>ok_or\<close>.\<close>

fun expect_o :: "'a option \<Rightarrow> ('e, 'a) outcome" where
  "expect_o None = Panic"
| "expect_o (Some x) = Ok x"

fun ok_or_o :: "'a option \<Rightarrow> 'e \<Rightarrow> ('e, 'a) outcome" where
  "ok_or_o None e = Err e"
| "ok_or_o (Some x) e = Ok x"

fun map_err_o :: "('e \<Rightarrow> 'f) \<Rightarrow> ('e, 'a) outcome \<Rightarrow> ('f, 'a) outcome" where
  "map_err_o f (Ok x) = Ok x"
| "map_err_o f (Err e) = Err (f e)"
| "map_err_o f Panic = Panic"

lemma try_o_Ok_iff [simp]: "try_o m f = Ok y \<longleftrightarrow> (\<exists>x. m = Ok x \<and> f x = Ok y)"
  by (cases m) auto

lemma map_err_o_Ok_iff [simp]: "map_err_o f m = Ok x \<longleftrightarrow> m = Ok x"
  by (cases m) auto

lemma expect_o_Ok_iff [simp]: "expect_o m = Ok x \<longleftrightarrow> m = Some x"
  by (cases m) auto

lemma ok_or_o_Ok_iff [simp]: "ok_or_o m e = Ok x \<longleftrightarrow> m = Some x"
  by (cases m) auto

lemma try_o_cong [fundef_cong]:
  "m = m' \<Longrightarrow> (\<And>x. m' = Ok x \<Longrightarrow> f x = g x) \<Longrightarrow> try_o m f = try_o m' g"
  by (cases m') auto

lemma try_o_assoc: "try_o (try_o m f) g = try_o m (\<lambda>x. try_o (f x) g)"
  by (cases m) auto

text \<open>A \<open>for\<close> loop whose body may leave with an error.\<close>

fun each_o :: "('a \<Rightarrow> ('e, unit) outcome) \<Rightarrow> 'a list \<Rightarrow> ('e, unit) outcome" where
  "each_o f [] = Ok ()"
| "each_o f (x # xs) = try_o (f x) (\<lambda>_. each_o f xs)"

lemma each_o_Ok_iff: "each_o f xs = Ok () \<longleftrightarrow> (\<forall>x \<in> set xs. f x = Ok ())"
  by (induction xs) auto

lemma each_o_cong [fundef_cong]:
  "xs = ys \<Longrightarrow> (\<And>x. x \<in> set ys \<Longrightarrow> f x = g x) \<Longrightarrow> each_o f xs = each_o g ys"
  by (induction xs arbitrary: ys) auto

text \<open>\<open>collect\<close> of a mapping that may leave with an error.\<close>

fun collect_o :: "('a \<Rightarrow> ('e, 'b) outcome) \<Rightarrow> 'a list \<Rightarrow> ('e, 'b list) outcome" where
  "collect_o f [] = Ok []"
| "collect_o f (x # xs) = try_o (f x) (\<lambda>y. try_o (collect_o f xs) (\<lambda>ys. Ok (y # ys)))"

lemma collect_o_map:
  assumes "\<And>x. x \<in> set xs \<Longrightarrow> f x = Ok (g x)"
  shows "collect_o f xs = Ok (map g xs)"
  using assms by (induction xs) auto

lemma collect_o_cong [fundef_cong]:
  "xs = ys \<Longrightarrow> (\<And>x. x \<in> set ys \<Longrightarrow> f x = g x) \<Longrightarrow> collect_o f xs = collect_o g ys"
  by (induction xs arbitrary: ys) auto

section \<open>Little-endian bytes\<close>

type_synonym u8 = "8 word"
type_synonym u16 = "16 word"
type_synonym u32 = "32 word"

definition to_le_bytes_u16 :: "u16 \<Rightarrow> u8 list" where
  "to_le_bytes_u16 w = [ucast w, ucast (drop_bit 8 w)]"

definition to_le_bytes_u32 :: "u32 \<Rightarrow> u8 list" where
  "to_le_bytes_u32 w = [ucast w, ucast (drop_bit 8 w), ucast (drop_bit 16 w), ucast (drop_bit 24 w)]"

definition from_le_bytes_u16 :: "u8 list \<Rightarrow> u16" where
  "from_le_bytes_u16 bs = of_nat (unat (bs ! 0) + 256 * unat (bs ! 1))"

definition from_le_bytes_u32 :: "u8 list \<Rightarrow> u32" where
  "from_le_bytes_u32 bs =
    of_nat (unat (bs ! 0) + 256 * unat (bs ! 1) + 65536 * unat (bs ! 2) + 16777216 * unat (bs ! 3))"

lemma le_bytes_length [simp]: "length (to_le_bytes_u16 w) = 2" "length (to_le_bytes_u32 v) = 4"
  by (simp_all add: to_le_bytes_u16_def to_le_bytes_u32_def)

lemma ucast_byte_unat: "unat (ucast (w :: 'a :: len word) :: u8) = unat w mod 256"
  by (simp add: unsigned_ucast_eq take_bit_eq_mod)

lemma unat_drop_bit_div: "unat (drop_bit k w) = unat w div 2 ^ k"
  unfolding unat_drop_bit_eq by (rule drop_bit_eq_div)

lemma from_to_le_bytes_u16 [simp]: "from_le_bytes_u16 (to_le_bytes_u16 w) = w"
proof -
  have "unat w < 2 ^ 16" using unsigned_less [of w] by simp
  then have "unat w div 256 < 256" by (simp add: div_less_iff_less_mult)
  then have "unat w mod 256 + 256 * (unat w div 256 mod 256) = unat w" by simp
  then show ?thesis
    by (simp add: from_le_bytes_u16_def to_le_bytes_u16_def ucast_byte_unat unat_drop_bit_div
        del: of_nat_add of_nat_mult)
qed

lemma from_to_le_bytes_u32 [simp]: "from_le_bytes_u32 (to_le_bytes_u32 w) = w"
proof -
  let ?a = "unat w" and ?b = "unat w div 256" and ?c = "unat w div 65536" and ?d = "unat w div 16777216"
  have "?a < 2 ^ 32" using unsigned_less [of w] by simp
  then have "?d < 256" by (simp add: div_less_iff_less_mult)
  moreover have "?c = ?b div 256" "?d = ?c div 256" by (simp_all add: div_mult2_eq [symmetric])
  ultimately have "?c = ?c mod 256 + 256 * ?d" "?b = ?b mod 256 + 256 * ?c" "?a = ?a mod 256 + 256 * ?b" "?d mod 256 = ?d"
    by simp_all
  then have "?a mod 256 + 256 * (?b mod 256) + 65536 * (?c mod 256) + 16777216 * ?d = ?a" "?d mod 256 = ?d" by linarith+
  then show ?thesis
    by (simp add: from_le_bytes_u32_def to_le_bytes_u32_def ucast_byte_unat unat_drop_bit_div
        del: of_nat_add of_nat_mult)
qed

end
