(* ===== verification/Bc_Schema.thy ===== *)
theory Bc_Schema
  imports Bc_Prelude
begin

text \<open>
  The opcode schema of \<open>otter-bytecode\<close> (\<open>opcode_schema.rs\<close>): the byte table, the operand shape of
  every opcode, its normal and exceptional successors, its effects, and the encoding of operands as
  untagged 32-bit words. An opcode is the name of its variant of \<open>Op\<close>; the first column of the
  table lists them all. Constant slices of the source are abbreviations.
\<close>

type_synonym op = string

section \<open>Operands\<close>

text \<open>An \<open>i32\<close> is a 32-bit word, read by \<^const>\<open>sint\<close>.\<close>

datatype operand = Register u16 | ConstIndex u32 | Imm32 u32

datatype operand_kind = KRegister | KConstIndex | KImm32

fun operand_kind_of :: "operand \<Rightarrow> operand_kind" where
  "operand_kind_of (Register _) = KRegister"
| "operand_kind_of (ConstIndex _) = KConstIndex"
| "operand_kind_of (Imm32 _) = KImm32"

datatype register_access = AccessNone | AccessRead | AccessWrite

datatype register_source = RegisterOperand | Imm32RegisterIndex

record operand_spec =
  sp_kind :: operand_kind
  sp_register_access :: register_access
  sp_register_source :: "register_source option"

definition spec_value :: "operand_kind \<Rightarrow> operand_spec" where
  "spec_value k = \<lparr>sp_kind = k, sp_register_access = AccessNone, sp_register_source = None\<rparr>"

definition spec_register :: "register_access \<Rightarrow> operand_spec" where
  "spec_register a = \<lparr>sp_kind = KRegister, sp_register_access = a, sp_register_source = Some RegisterOperand\<rparr>"

definition spec_local_index :: "register_access \<Rightarrow> operand_spec" where
  "spec_local_index a = \<lparr>sp_kind = KImm32, sp_register_access = a, sp_register_source = Some Imm32RegisterIndex\<rparr>"

datatype shape_spec =
    Fixed "operand_spec list"
  | Variadic "operand_spec list" nat operand_spec

fun shape_prefix :: "shape_spec \<Rightarrow> operand_spec list" where
  "shape_prefix (Fixed specs) = specs"
| "shape_prefix (Variadic specs _ _) = specs"

fun shape_variadic :: "shape_spec \<Rightarrow> (nat \<times> operand_spec) option" where
  "shape_variadic (Fixed _) = None"
| "shape_variadic (Variadic _ i t) = Some (i, t)"

datatype shape_error =
    ShapeCount nat nat
  | ShapeKind nat operand_kind operand_kind
  | VariadicCountOverflow u32

section \<open>Control flow\<close>

datatype control_flow_class = CF_Fallthrough | CF_Jump | CF_Branch | CF_Call | CF_Return | CF_Throw | CF_Suspend | CF_ExceptionRegion

datatype relative_target_base = AfterOpcode

datatype successor_spec = Fallthrough | RelativeTarget nat relative_target_base | FrameReturn

datatype exception_successor =
    OptionalRelativeTarget nat relative_target_base u32
  | DynamicFrameHandlerOrCaller
  | ResumeParkedAbruptCompletion
  | RunFinallyHandlersToFloor nat

datatype feedback_kind = FB_None | FB_Arithmetic | FB_Property | FB_Element | FB_Call | FB_Global

datatype tier_support = Tier_Partial | Tier_Fallback | Tier_ExperimentalOnly

record opcode_effects =
  may_throw :: bool
  may_allocate :: bool
  may_trigger_gc :: bool
  may_reenter_javascript :: bool
  safepoint_required :: bool

text \<open>\<open>i32::MIN\<close>, the offset of an absent handler.\<close>

definition NO_HANDLER_OFFSET :: u32 where
  "NO_HANDLER_OFFSET = 0x80000000"

section \<open>The table\<close>

definition OP_BYTE_TABLE :: "(op \<times> nat) list" where
  "OP_BYTE_TABLE = [
    (''Nop'', 0x00), (''LoadUndefined'', 0x01), (''LoadHole'', 0x02), (''Return'', 0x03), (''LoadString'', 0x04),
    (''LoadNumber'', 0x05), (''LoadInt32'', 0x06), (''LoadBigInt'', 0x07), (''LoadRegExp'', 0x08),
    (''QueueMicrotask'', 0x09), (''PromiseNew'', 0x0A), (''PromiseCall'', 0x0B), (''LoadTrue'', 0x0C),
    (''LoadFalse'', 0x0D), (''LoadLength'', 0x0E), (''GetStringIndex'', 0x0F), (''CallMethodValue'', 0x10),
    (''Add'', 0x11), (''Sub'', 0x12), (''Mul'', 0x13), (''Div'', 0x14), (''Rem'', 0x15), (''Neg'', 0x16),
    (''Pow'', 0x17), (''BitwiseAnd'', 0x18), (''BitwiseOr'', 0x19), (''BitwiseXor'', 0x1A), (''BitwiseNot'', 0x1B),
    (''Shl'', 0x1C), (''Shr'', 0x1D), (''Ushr'', 0x1E), (''ToNumber'', 0x1F), (''Equal'', 0x20),
    (''NotEqual'', 0x21), (''LessThan'', 0x22), (''LessEq'', 0x23), (''GreaterThan'', 0x24), (''GreaterEq'', 0x25),
    (''LoadNull'', 0x26), (''LogicalNot'', 0x27), (''ToBoolean'', 0x28), (''Jump'', 0x29), (''JumpIfTrue'', 0x2A),
    (''JumpIfFalse'', 0x2B), (''JumpIfNullish'', 0x2C), (''LoadLocal'', 0x2D), (''StoreLocal'', 0x2E),
    (''TdzError'', 0x2F), (''MakeFunction'', 0x30), (''MakeClosure'', 0x31), (''LoadUpvalue'', 0x32),
    (''StoreUpvalue'', 0x33), (''Call'', 0x34), (''CallWithThis'', 0x35), (''BindFunction'', 0x36),
    (''LoadThis'', 0x37), (''LoadNewTarget'', 0x38), (''Throw'', 0x39), (''EnterTry'', 0x3A), (''LeaveTry'', 0x3B),
    (''EndFinally'', 0x3C), (''NewError'', 0x3D), (''GetIterator'', 0x3E), (''IteratorNext'', 0x3F),
    (''ArrayPush'', 0x40), (''CallSpread'', 0x41), (''New'', 0x42), (''NewSpread'', 0x43),
    (''SuperConstructSpread'', 0x44), (''MakeClass'', 0x45), (''MathLoad'', 0x46), (''CollectRest'', 0x47),
    (''ReturnValue'', 0x48), (''ReturnUndefined'', 0x49), (''NewObject'', 0x4A), (''LoadProperty'', 0x4B),
    (''StoreProperty'', 0x4C), (''DeleteProperty'', 0x4D), (''GetPrototype'', 0x4E), (''SetPrototype'', 0x4F),
    (''NewArray'', 0x50), (''LoadElement'', 0x51), (''StoreElement'', 0x52), (''ArrayLength'', 0x53),
    (''HasProperty'', 0x54), (''Instanceof'', 0x55), (''Eval'', 0x56), (''NewFunction'', 0x57),
    (''LoadGlobalThis'', 0x58), (''LoadGlobalOrThrow'', 0x59), (''CollectArguments'', 0x5A),
    (''LoadGlobalOrUndefined'', 0x5B), (''DefineGlobalVar'', 0x5C), (''ImportMetaResolve'', 0x5D),
    (''ImportNamespaceDynamic'', 0x5E), (''ImportNamespace'', 0x5F), (''PromiseFulfilledOf'', 0x60),
    (''TemporalLoad'', 0x61), (''NewCollection'', 0x62), (''NewWeakRef'', 0x63), (''NewFinalizationRegistry'', 0x64),
    (''SymbolLoad'', 0x65), (''TypeOf'', 0x66), (''DeleteElement'', 0x67), (''Await'', 0x68), (''SameValue'', 0x69),
    (''IsArray'', 0x6A), (''LooseEqual'', 0x6B), (''LooseNotEqual'', 0x6C), (''NewBuiltinError'', 0x6D),
    (''LoadBuiltinError'', 0x6E), (''BigIntCall'', 0x6F), (''ArrayConstruct'', 0x70), (''ArrayFrom'', 0x71),
    (''ArrayOf'', 0x72), (''ArrayBufferCall'', 0x73), (''DataViewCall'', 0x74), (''Yield'', 0x75),
    (''SharedArrayBufferCall'', 0x76), (''ToPrimitive'', 0x77), (''ForInKeys'', 0x78),
    (''CopyDataProperties'', 0x79), (''DefineOwnProperty'', 0x7A), (''IteratorClose'', 0x7B),
    (''IteratorCloseStart'', 0x7C), (''IteratorCloseEnd'', 0x7D), (''GeneratorStart'', 0x7E),
    (''GetAsyncIterator'', 0x7F), (''BindThisValue'', 0x80), (''LoadSuperProperty'', 0x81),
    (''LoadSuperElement'', 0x82), (''SetSuperProperty'', 0x83), (''SetSuperElement'', 0x84),
    (''JumpViaFinally'', 0x85), (''FreshUpvalue'', 0x86), (''ImportNamespaceDeferred'', 0x87),
    (''EvaluateModule'', 0x88), (''MarkModuleEvaluated'', 0x89), (''StarReexport'', 0x8A),
    (''ModuleNamespaceObject'', 0x8B), (''LoadImportBinding'', 0x8C), (''StoreUpvalueChecked'', 0x8D),
    (''DeclareGlobalVar'', 0x8E), (''LoadDynamic'', 0x8F), (''StoreDynamic'', 0x90), (''TypeofDynamic'', 0x91),
    (''DefineGlobalFunction'', 0x92), (''DeclareGlobalLex'', 0x93), (''StoreGlobalBinding'', 0x94),
    (''InitGlobalLex'', 0x95), (''ValidateGlobalDecl'', 0x96), (''ToObject'', 0x97), (''ToNumeric'', 0x98),
    (''PrivateGet'', 0x99), (''PrivateSet'', 0x9A), (''YieldDelegate'', 0x9B), (''DefineDataProperty'', 0x9C),
    (''SetFunctionName'', 0x9D), (''ClassCheck'', 0x9E), (''ToPropertyKey'', 0x9F), (''Increment'', 0xA0),
    (''PrivateBrandCheck'', 0xA1), (''LoadShadowedUpvalue'', 0xA2), (''GetTemplateObject'', 0xA3),
    (''DeleteDynamic'', 0xA4), (''NewPrivateName'', 0xA5), (''MathCall'', 0xA6), (''TailCall'', 0xA7),
    (''IsEvalIntrinsic'', 0xA8), (''PopParkedFinally'', 0xA9), (''GlobalBindingExists'', 0xAA),
    (''StoreGlobalChecked'', 0xAB), (''AddImm'', 0xAC), (''SubImm'', 0xAD), (''BitwiseAndImm'', 0xAE),
    (''LessThanImm'', 0xAF), (''EqualImm'', 0xB0), (''NotEqualImm'', 0xB1)]"

definition schema_index :: "op \<Rightarrow> nat" where
  "schema_index op = the (map_of OP_BYTE_TABLE op)"

text \<open>The opcodes: the variants of \<open>Op\<close>.\<close>

definition is_op :: "op \<Rightarrow> bool" where
  "is_op op \<longleftrightarrow> op \<in> set (map fst OP_BYTE_TABLE)"

section \<open>Operand shapes\<close>

definition spec_W :: operand_spec where "spec_W = spec_register AccessWrite"

definition spec_R :: operand_spec where "spec_R = spec_register AccessRead"

definition spec_IMM :: operand_spec where "spec_IMM = spec_value KImm32"

definition spec_CONST :: operand_spec where "spec_CONST = spec_value KConstIndex"

definition spec_LOCAL_R :: operand_spec where "spec_LOCAL_R = spec_local_index AccessRead"

definition spec_LOCAL_W :: operand_spec where "spec_LOCAL_W = spec_local_index AccessWrite"

lemmas spec_defs = spec_W_def spec_R_def spec_IMM_def spec_CONST_def spec_LOCAL_R_def spec_LOCAL_W_def
  spec_value_def spec_register_def spec_local_index_def

abbreviation (input) "EMPTY \<equiv> [] :: operand_spec list"
abbreviation (input) "WRITE \<equiv> [spec_W]"
abbreviation (input) "WRITE_CONST \<equiv> [spec_W, spec_CONST]"
abbreviation (input) "WRITE_IMM \<equiv> [spec_W, spec_IMM]"
abbreviation (input) "WRITE_READ \<equiv> [spec_W, spec_R]"
abbreviation (input) "WRITE_READ_READ \<equiv> [spec_W, spec_R, spec_R]"
abbreviation (input) "LOAD_LOCAL \<equiv> [spec_W, spec_LOCAL_R]"
abbreviation (input) "STORE_LOCAL \<equiv> [spec_R, spec_LOCAL_W]"
abbreviation (input) "JUMP \<equiv> [spec_IMM]"
abbreviation (input) "BRANCH \<equiv> [spec_IMM, spec_R]"
abbreviation (input) "CALL_PREFIX \<equiv> [spec_W, spec_R, spec_CONST]"
abbreviation (input) "CALL_WITH_THIS_PREFIX \<equiv> [spec_W, spec_R, spec_R, spec_CONST]"
abbreviation (input) "COUNTED_VALUES_PREFIX \<equiv> [spec_W, spec_CONST]"
abbreviation (input) "METHOD_CALL_PREFIX \<equiv> [spec_W, spec_R, spec_CONST, spec_CONST]"
abbreviation (input) "NAMESPACE_CALL_PREFIX \<equiv> [spec_W, spec_CONST, spec_CONST]"
abbreviation (input) "ENTER_TRY \<equiv> [spec_IMM, spec_IMM, spec_W]"
abbreviation (input) "WRITE_READ_CONST \<equiv> [spec_W, spec_R, spec_CONST]"
abbreviation (input) "WRITE_CONST_CONST \<equiv> [spec_W, spec_CONST, spec_CONST]"
abbreviation (input) "READ_CONST_READ_WRITE \<equiv> [spec_R, spec_CONST, spec_R, spec_W]"
abbreviation (input) "READ_READ \<equiv> [spec_R, spec_R]"
abbreviation (input) "READ_READ_READ \<equiv> [spec_R, spec_R, spec_R]"
abbreviation (input) "WRITE_WRITE_READ \<equiv> [spec_W, spec_W, spec_R]"
abbreviation (input) "WRITE_CONST_IMM \<equiv> [spec_W, spec_CONST, spec_IMM]"
abbreviation (input) "JUMP_VIA_FINALLY \<equiv> [spec_IMM, spec_IMM]"
abbreviation (input) "READ_CONST \<equiv> [spec_R, spec_CONST]"
abbreviation (input) "CONST_READ \<equiv> [spec_CONST, spec_R]"
abbreviation (input) "WRITE_READ_WRITE \<equiv> [spec_W, spec_R, spec_W]"
abbreviation (input) "WRITE_READ_READ_READ \<equiv> [spec_W, spec_R, spec_R, spec_R]"
abbreviation (input) "WRITE_FOUR_READS \<equiv> [spec_W, spec_R, spec_R, spec_R, spec_R]"
abbreviation (input) "WRITE_READ_IMM \<equiv> [spec_W, spec_R, spec_IMM]"
abbreviation (input) "CONST_READ_IMM \<equiv> [spec_CONST, spec_R, spec_IMM]"
abbreviation (input) "CONST_IMM \<equiv> [spec_CONST, spec_IMM]"
abbreviation (input) "READ_CONST_IMM \<equiv> [spec_R, spec_CONST, spec_IMM]"

text \<open>The last arm of the source's exhaustive match is the last branch.\<close>

definition operand_shape :: "op \<Rightarrow> shape_spec" where
  "operand_shape op =
    (if op = ''Nop'' then Fixed EMPTY
     else if op \<in>
        {''LoadUndefined'', ''LoadHole'', ''LoadNull'', ''LoadTrue'', ''LoadFalse'', ''LoadThis'', ''LoadNewTarget'',
        ''LoadGlobalThis''} then Fixed WRITE
     else if op \<in> {''LoadString'', ''LoadNumber'', ''LoadBigInt'', ''LoadRegExp''} then Fixed WRITE_CONST
     else if op = ''LoadInt32'' then Fixed WRITE_IMM
     else if op = ''Jump'' then Fixed JUMP
     else if op \<in> {''JumpIfTrue'', ''JumpIfFalse'', ''JumpIfNullish''} then Fixed BRANCH
     else if op \<in> {''Return'', ''ReturnValue''} then Fixed [spec_R]
     else if op = ''ReturnUndefined'' then Fixed EMPTY
     else if op \<in> {''Call'', ''TailCall''} then Variadic CALL_PREFIX 2 spec_R
     else if op = ''CallWithThis'' then Variadic CALL_WITH_THIS_PREFIX 3 spec_R
     else if op = ''New'' then Variadic CALL_PREFIX 2 spec_R
     else if op = ''BindFunction'' then Variadic CALL_WITH_THIS_PREFIX 3 spec_R
     else if op \<in>
        {''NewArray'', ''ArrayConstruct'', ''ArrayFrom'', ''ArrayOf'',
        ''NewFunction''} then Variadic COUNTED_VALUES_PREFIX 1 spec_R
     else if op = ''CallMethodValue'' then Variadic METHOD_CALL_PREFIX 3 spec_R
     else if op = ''MathCall'' then Variadic NAMESPACE_CALL_PREFIX 2 spec_R
     else if op = ''Throw'' then Fixed [spec_R]
     else if op = ''EnterTry'' then Fixed ENTER_TRY
     else if op = ''EndFinally'' then Fixed EMPTY
     else if op = ''NewObject'' then Fixed WRITE
     else if op \<in> {''LoadProperty'', ''DeleteProperty''} then Fixed WRITE_READ_CONST
     else if op = ''StoreProperty'' then Fixed READ_CONST_READ_WRITE
     else if op \<in> {''GetPrototype'', ''ArrayLength'', ''GetIterator'', ''GetAsyncIterator''} then Fixed WRITE_READ
     else if op \<in> {''SetPrototype'', ''ArrayPush'', ''CopyDataProperties''} then Fixed READ_READ
     else if op \<in> {''LoadElement'', ''DeleteElement'', ''HasProperty'', ''Instanceof''} then Fixed WRITE_READ_READ
     else if op = ''StoreElement'' then Fixed READ_READ_READ
     else if op = ''IteratorNext'' then Fixed WRITE_WRITE_READ
     else if op \<in> {''IteratorClose'', ''IteratorCloseStart'', ''IteratorCloseEnd''} then Fixed [spec_R]
     else if op = ''ForInKeys'' then Fixed WRITE_READ
     else if op = ''LoadUpvalue'' then Fixed WRITE_IMM
     else if op \<in> {''StoreUpvalue'', ''StoreUpvalueChecked''} then Fixed [spec_R, spec_IMM]
     else if op = ''FreshUpvalue'' then Fixed [spec_IMM]
     else if op = ''LoadShadowedUpvalue'' then Fixed WRITE_CONST_IMM
     else if op = ''JumpViaFinally'' then Fixed JUMP_VIA_FINALLY
     else if op = ''PopParkedFinally'' then Fixed [spec_IMM]
     else if op = ''QueueMicrotask'' then Variadic [spec_R, spec_CONST] 1 spec_R
     else if op = ''PromiseNew'' then Fixed WRITE_READ_WRITE
     else if op \<in>
        {''PromiseCall'', ''BigIntCall'', ''ArrayBufferCall'', ''DataViewCall'',
        ''SharedArrayBufferCall''} then Variadic NAMESPACE_CALL_PREFIX 2 spec_R
     else if op \<in> {''LoadLength'', ''TypeOf'', ''Await'', ''IsArray'', ''IsEvalIntrinsic''} then Fixed WRITE_READ
     else if op \<in>
        {''GetStringIndex'', ''SameValue'', ''LooseEqual'', ''LooseNotEqual''} then Fixed WRITE_READ_READ
     else if op = ''TdzError'' then Fixed [spec_IMM]
     else if op \<in>
        {''MakeFunction'', ''MathLoad'', ''LoadGlobalOrThrow'', ''LoadGlobalOrUndefined'', ''ImportNamespace'',
        ''ImportNamespaceDeferred'', ''ModuleNamespaceObject'', ''TemporalLoad'', ''SymbolLoad'',
        ''LoadBuiltinError'', ''GetTemplateObject'', ''NewPrivateName'', ''EvaluateModule''} then Fixed WRITE_CONST
     else if op = ''MakeClosure'' then Variadic NAMESPACE_CALL_PREFIX 2 spec_IMM
     else if op \<in> {''LeaveTry'', ''GeneratorStart''} then Fixed EMPTY
     else if op \<in>
        {''NewError'', ''ImportMetaResolve'', ''ImportNamespaceDynamic'', ''PromiseFulfilledOf'', ''NewWeakRef'',
        ''NewFinalizationRegistry'', ''Yield''} then Fixed WRITE_READ
     else if op = ''CallSpread'' then Fixed WRITE_READ_READ_READ
     else if op \<in> {''NewSpread'', ''SuperConstructSpread''} then Fixed WRITE_READ_READ
     else if op = ''MakeClass'' then Fixed WRITE_FOUR_READS
     else if op \<in> {''CollectRest'', ''CollectArguments''} then Fixed WRITE
     else if op \<in> {''Eval'', ''Increment''} then Fixed WRITE_READ_IMM
     else if op = ''DefineGlobalVar'' then Fixed CONST_READ
     else if op \<in> {''NewCollection'', ''NewBuiltinError''} then Fixed [spec_W, spec_CONST, spec_R]
     else if op = ''ToPrimitive'' then Fixed WRITE_READ_CONST
     else if op \<in>
        {''DefineOwnProperty'', ''PrivateSet'', ''DefineDataProperty''} then Fixed [spec_R, spec_R, spec_R]
     else if op = ''YieldDelegate'' then Fixed WRITE_WRITE_READ
     else if op = ''SetFunctionName'' then Fixed [spec_R, spec_R, spec_CONST]
     else if op = ''StoreGlobalChecked'' then Fixed [spec_R, spec_CONST, spec_R]
     else if op = ''BindThisValue'' then Fixed [spec_R]
     else if op = ''LoadSuperProperty'' then Fixed WRITE_READ_CONST
     else if op = ''LoadSuperElement'' then Fixed WRITE_READ_READ
     else if op = ''SetSuperProperty'' then Fixed [spec_R, spec_CONST, spec_R]
     else if op = ''SetSuperElement'' then Fixed [spec_R, spec_R, spec_R]
     else if op = ''MarkModuleEvaluated'' then Fixed [spec_CONST]
     else if op = ''DeclareGlobalVar'' then Fixed CONST_IMM
     else if op = ''StarReexport'' then Fixed READ_READ
     else if op = ''LoadImportBinding'' then Fixed WRITE_CONST_CONST
     else if op \<in> {''LoadDynamic'', ''TypeofDynamic'', ''DeleteDynamic''} then Fixed WRITE_CONST
     else if op \<in> {''StoreDynamic'', ''InitGlobalLex''} then Fixed READ_CONST
     else if op = ''DefineGlobalFunction'' then Fixed CONST_READ_IMM
     else if op \<in> {''DeclareGlobalLex'', ''ValidateGlobalDecl''} then Fixed CONST_IMM
     else if op = ''StoreGlobalBinding'' then Fixed READ_CONST_IMM
     else if op \<in> {''ToObject'', ''ToNumeric'', ''ToPropertyKey''} then Fixed WRITE_READ
     else if op = ''ClassCheck'' then Fixed [spec_IMM, spec_R]
     else if op = ''PrivateGet'' then Fixed WRITE_READ_READ
     else if op = ''PrivateBrandCheck'' then Fixed READ_READ
     else if op = ''GlobalBindingExists'' then Fixed WRITE_CONST
     else if op = ''LoadLocal'' then Fixed LOAD_LOCAL
     else if op = ''StoreLocal'' then Fixed STORE_LOCAL
     else if op \<in> {''Neg'', ''BitwiseNot'', ''ToNumber'', ''LogicalNot'', ''ToBoolean''} then Fixed WRITE_READ
     else if op \<in>
        {''Add'', ''Sub'', ''Mul'', ''Div'', ''Rem'', ''Pow'', ''BitwiseAnd'', ''BitwiseOr'', ''BitwiseXor'',
        ''Shl'', ''Shr'', ''Ushr'', ''Equal'', ''NotEqual'', ''LessThan'', ''LessEq'', ''GreaterThan'',
        ''GreaterEq''} then Fixed WRITE_READ_READ
     else Fixed WRITE_READ_IMM)"

section \<open>Successors and effects\<close>

definition control_flow :: "op \<Rightarrow> control_flow_class" where
  "control_flow op =
    (if op \<in> {''Jump'', ''JumpViaFinally''} then CF_Jump
     else if op \<in> {''JumpIfTrue'', ''JumpIfFalse'', ''JumpIfNullish''} then CF_Branch
     else if op \<in> {''Return'', ''ReturnValue'', ''ReturnUndefined'', ''TailCall''} then CF_Return
     else if op = ''Throw'' then CF_Throw
     else if op \<in> {''EnterTry'', ''LeaveTry'', ''EndFinally'', ''PopParkedFinally''} then CF_ExceptionRegion
     else if op \<in> {''Await'', ''Yield'', ''YieldDelegate'', ''GeneratorStart''} then CF_Suspend
     else if op \<in>
        {''Call'', ''CallWithThis'', ''CallMethodValue'', ''CallSpread'', ''New'', ''NewSpread'',
        ''SuperConstructSpread'', ''Eval'', ''MathCall'', ''PromiseCall''} then CF_Call
     else CF_Fallthrough)"

abbreviation "RELATIVE_TARGET \<equiv> RelativeTarget 0 AfterOpcode"

text \<open>The source's \<open>unreachable!\<close> for the remaining classes is the empty list: every opcode of such
  a class has an arm above (\<open>successor_shape_reachable\<close>).\<close>

definition successor_shape :: "op \<Rightarrow> successor_spec list" where
  "successor_shape op =
    (if op = ''Jump'' then [RELATIVE_TARGET]
     else if op \<in> {''JumpIfTrue'', ''JumpIfFalse'', ''JumpIfNullish''} then [RELATIVE_TARGET, Fallthrough]
     else if op \<in> {''Return'', ''ReturnValue'', ''ReturnUndefined''} then [FrameReturn]
     else if op = ''TailCall'' then [FrameReturn, Fallthrough]
     else if op \<in> {''EnterTry'', ''LeaveTry'', ''EndFinally'', ''PopParkedFinally''} then [Fallthrough]
     else if op = ''Throw'' then []
     else if op = ''JumpViaFinally'' then [RELATIVE_TARGET]
     else if op \<in> {''Await'', ''Yield'', ''YieldDelegate'', ''GeneratorStart''} then [Fallthrough]
     else (case control_flow op of CF_Fallthrough \<Rightarrow> [Fallthrough] | CF_Call \<Rightarrow> [Fallthrough] | _ \<Rightarrow> []))"

definition effects :: "op \<Rightarrow> opcode_effects" where
  "effects op = (let leaf = op \<in>
    {''Nop'', ''LoadUndefined'', ''LoadHole'', ''LoadTrue'', ''LoadFalse'', ''LoadNull'', ''LoadLocal'',
    ''StoreLocal'', ''LoadThis'', ''LoadNewTarget'', ''Jump'', ''JumpIfTrue'', ''JumpIfFalse'', ''JumpIfNullish'',
    ''LeaveTry'', ''Return'', ''ReturnValue'', ''ReturnUndefined''}
    in \<lparr>may_throw = \<not> leaf, may_allocate = \<not> leaf, may_trigger_gc = \<not> leaf, may_reenter_javascript = \<not> leaf,
      safepoint_required = \<not> leaf\<rparr>)"

definition exception_successor_shape :: "op \<Rightarrow> exception_successor list" where
  "exception_successor_shape op =
    (if op = ''EnterTry'' then
       [OptionalRelativeTarget 0 AfterOpcode NO_HANDLER_OFFSET, OptionalRelativeTarget 1 AfterOpcode NO_HANDLER_OFFSET]
     else if op = ''Throw'' then [DynamicFrameHandlerOrCaller]
     else if op = ''EndFinally'' then [ResumeParkedAbruptCompletion]
     else if op = ''JumpViaFinally'' then [RunFinallyHandlersToFloor 1]
     else if op = ''PopParkedFinally'' then []
     else if \<not> may_throw (effects op) then []
     else [DynamicFrameHandlerOrCaller])"

definition feedback :: "op \<Rightarrow> feedback_kind" where
  "feedback op =
    (if op \<in>
        {''Add'', ''Sub'', ''Mul'', ''Div'', ''Rem'', ''Pow'', ''Increment'', ''LessThan'', ''LessEq'',
        ''GreaterThan'', ''GreaterEq''} then FB_Arithmetic
     else if op \<in> {''LoadProperty'', ''StoreProperty'', ''HasProperty'', ''DeleteProperty''} then FB_Property
     else if op \<in> {''LoadElement'', ''StoreElement'', ''DeleteElement'', ''ArrayLength''} then FB_Element
     else if op \<in> {''Call'', ''CallWithThis'', ''CallMethodValue'', ''TailCall''} then FB_Call
     else if op \<in>
        {''LoadGlobalOrThrow'', ''LoadGlobalOrUndefined'', ''StoreGlobalBinding'', ''LoadDynamic'',
        ''StoreDynamic''} then FB_Global
     else FB_None)"

definition baseline_support :: "op \<Rightarrow> tier_support" where
  "baseline_support op =
    (if op \<in>
        {''Nop'', ''LoadUndefined'', ''LoadTrue'', ''LoadFalse'', ''LoadNull'', ''LoadString'', ''LoadNumber'',
        ''LoadInt32'', ''Add'', ''Sub'', ''Mul'', ''Div'', ''Rem'', ''Neg'', ''Equal'', ''NotEqual'', ''LessThan'',
        ''LessEq'', ''GreaterThan'', ''GreaterEq'', ''Jump'', ''JumpIfTrue'', ''JumpIfFalse'', ''JumpIfNullish'',
        ''LoadLocal'', ''StoreLocal'', ''LoadProperty'', ''StoreProperty'', ''LoadElement'', ''StoreElement'',
        ''ArrayLength'', ''Call'', ''CallWithThis'', ''CallMethodValue'', ''Return'', ''ReturnValue'',
        ''ReturnUndefined''} then Tier_Partial
     else Tier_Fallback)"

record opcode_row =
  os_op :: op
  os_byte :: nat
  os_operand_shape :: shape_spec
  os_control_flow :: control_flow_class
  os_successors :: "successor_spec list"
  os_exception_successors :: "exception_successor list"
  os_feedback :: feedback_kind
  os_effects :: opcode_effects
  os_baseline :: tier_support
  os_optimizer :: tier_support

definition opcode_row_new :: "op \<Rightarrow> nat \<Rightarrow> opcode_row" where
  "opcode_row_new op b =
    \<lparr>os_op = op, os_byte = b, os_operand_shape = operand_shape op, os_control_flow = control_flow op,
     os_successors = successor_shape op, os_exception_successors = exception_successor_shape op,
     os_feedback = feedback op, os_effects = effects op, os_baseline = baseline_support op,
     os_optimizer = Tier_ExperimentalOnly\<rparr>"

definition OPCODE_SCHEMA :: "opcode_row list" where
  "OPCODE_SCHEMA = map (\<lambda>(op, b). opcode_row_new op b) OP_BYTE_TABLE"

definition opcode_schema :: "op \<Rightarrow> opcode_row" where
  "opcode_schema op = OPCODE_SCHEMA ! schema_index op"

section \<open>Operand kinds and words\<close>

definition operand_kind_at :: "op \<Rightarrow> nat \<Rightarrow> operand_kind option" where
  "operand_kind_at op i =
    (let shape = os_operand_shape (opcode_schema op); prefix = shape_prefix shape
     in if i < length prefix then Some (sp_kind (prefix ! i))
        else case shape_variadic shape of Some (_, t) \<Rightarrow> Some (sp_kind t) | None \<Rightarrow> None)"

definition register_access_at :: "op \<Rightarrow> nat \<Rightarrow> register_access" where
  "register_access_at op i =
    (let shape = os_operand_shape (opcode_schema op); prefix = shape_prefix shape
     in if i < length prefix then sp_register_access (prefix ! i)
        else case shape_variadic shape of Some (_, t) \<Rightarrow> sp_register_access t | None \<Rightarrow> AccessNone)"

text \<open>\<open>Op::operand_count\<close>: the table after the early return is never reached, since every shape has a prefix.\<close>

definition op_operand_count :: "op \<Rightarrow> nat" where
  "op_operand_count op = length (shape_prefix (os_operand_shape (opcode_schema op)))"

fun encode_operand_word :: "operand \<Rightarrow> u32" where
  "encode_operand_word (Register v) = ucast v"
| "encode_operand_word (ConstIndex v) = v"
| "encode_operand_word (Imm32 v) = v"

fun decode_operand_word :: "operand_kind \<Rightarrow> u32 \<Rightarrow> operand option" where
  "decode_operand_word KRegister w = (if unat w < 2 ^ 16 then Some (Register (ucast w)) else None)"
| "decode_operand_word KConstIndex w = Some (ConstIndex w)"
| "decode_operand_word KImm32 w = Some (Imm32 w)"

text \<open>\<open>operands.iter().enumerate()\<close> against the repeated list of specs.\<close>

fun verify_specs_from :: "operand list \<Rightarrow> nat \<Rightarrow> operand_spec list \<Rightarrow> nat \<Rightarrow> (shape_error, unit) outcome" where
  "verify_specs_from [] offset expected base = Ok ()"
| "verify_specs_from (x # xs) offset expected base =
    (if expected = [] then Panic
     else let spec = expected ! (offset mod length expected) in
       if operand_kind_of x \<noteq> sp_kind spec
       then Err (ShapeKind (base + offset) (sp_kind spec) (operand_kind_of x))
       else verify_specs_from xs (Suc offset) expected base)"

definition verify_operand_specs :: "operand list \<Rightarrow> operand_spec list \<Rightarrow> nat \<Rightarrow> (shape_error, unit) outcome" where
  "verify_operand_specs xs expected base = verify_specs_from xs 0 expected base"

text \<open>\<open>usize\<close> has 64 bits, so the checked addition of a 32-bit count cannot overflow.\<close>

definition verify_operand_shape :: "op \<Rightarrow> operand list \<Rightarrow> (shape_error, unit) outcome" where
  "verify_operand_shape op xs =
    (let shape = os_operand_shape (opcode_schema op); prefix = shape_prefix shape; n = length prefix in
     if length xs < n then Err (ShapeCount n (length xs))
     else try_o (verify_operand_specs (take n xs) prefix 0) (\<lambda>_.
       case shape_variadic shape of
         None \<Rightarrow> (if length xs \<noteq> n then Err (ShapeCount n (length xs)) else Ok ())
       | Some (count_operand_index, t) \<Rightarrow>
           (case get_at xs count_operand_index of
              Some (ConstIndex count) \<Rightarrow>
                if n + unat count \<ge> 2 ^ 64 then Err (VariadicCountOverflow count)
                else if length xs \<noteq> n + unat count then Err (ShapeCount (n + unat count) (length xs))
                else verify_operand_specs (drop n xs) [t] n
            | _ \<Rightarrow> Panic)))"

section \<open>Facts about the table\<close>

lemma table_length [simp]: "length OP_BYTE_TABLE = 178"
  by (simp add: OP_BYTE_TABLE_def)

lemma table_bytes: "map snd OP_BYTE_TABLE = [0..<178]"
  by (simp add: OP_BYTE_TABLE_def upt_rec)

lemma table_snd: "i < 178 \<Longrightarrow> snd (OP_BYTE_TABLE ! i) = i"
  using arg_cong [OF table_bytes, of "\<lambda>xs. xs ! i"] by simp

lemma table_at_schema_index:
  assumes "is_op op"
  shows "schema_index op < 178 \<and> OP_BYTE_TABLE ! schema_index op = (op, schema_index op)"
proof -
  obtain b where b: "map_of OP_BYTE_TABLE op = Some b"
    using assms by (metis is_op_def map_of_eq_None_iff not_None_eq set_map)
  then obtain i where i: "i < 178" "OP_BYTE_TABLE ! i = (op, b)"
    using map_of_SomeD [OF b] by (auto simp: in_set_conv_nth)
  then have "b = i" using table_snd [of i] by simp
  then show ?thesis using b i by (simp add: schema_index_def)
qed

lemma opcode_schema_row: "is_op op \<Longrightarrow> opcode_schema op = opcode_row_new op (schema_index op)"
  using table_at_schema_index [of op] by (simp add: opcode_schema_def OPCODE_SCHEMA_def)

lemma schema_fields [simp]:
  assumes "is_op op"
  shows "os_operand_shape (opcode_schema op) = operand_shape op" "os_successors (opcode_schema op) = successor_shape op"
    "os_exception_successors (opcode_schema op) = exception_successor_shape op"
  using opcode_schema_row [OF assms] by (simp_all add: opcode_row_new_def)

text \<open>The opcodes of the classes without a default successor have an arm of their own.\<close>

lemma successor_shape_reachable:
  "successor_shape op = [] \<longleftrightarrow> op = ''Throw''"
  by (simp add: successor_shape_def control_flow_def)

text \<open>The count operand of a variadic shape lies in the prefix and is an unsigned operand.\<close>

definition shape_ok :: "shape_spec \<Rightarrow> bool" where
  "shape_ok shape = (case shape_variadic shape of
     None \<Rightarrow> True
   | Some (i, t) \<Rightarrow> i < length (shape_prefix shape) \<and> sp_kind (shape_prefix shape ! i) = KConstIndex)"

lemma shape_ok_if: "shape_ok a \<Longrightarrow> shape_ok b \<Longrightarrow> shape_ok (if c then a else b)"
  by simp

lemma shape_ok_operand_shape: "shape_ok (operand_shape op)"
  unfolding operand_shape_def by (intro shape_ok_if; simp add: shape_ok_def spec_defs)

section \<open>Operand verification\<close>

lemma verify_specs_from_Ok:
  assumes "expected \<noteq> [] \<or> xs = []"
  shows "verify_specs_from xs k expected base = Ok () \<longleftrightarrow>
    (\<forall>i < length xs. operand_kind_of (xs ! i) = sp_kind (expected ! ((k + i) mod length expected)))"
  using assms
proof (induction xs arbitrary: k)
  case (Cons x xs)
  have split: "(\<forall>i < length (x # xs). P i) \<longleftrightarrow> P 0 \<and> (\<forall>i < length xs. P (Suc i))" for P
    by (auto simp: less_Suc_eq_0_disj)
  show ?case
    unfolding split using Cons by (simp add: Let_def)
qed simp

lemma verify_specs_not_panic: "expected \<noteq> [] \<Longrightarrow> verify_specs_from xs k expected base \<noteq> Panic"
  by (induction xs arbitrary: k) (auto simp: Let_def)

lemma verify_prefix_Ok:
  assumes "length xs = length specs"
  shows "verify_operand_specs xs specs base = Ok () \<longleftrightarrow> (\<forall>i < length xs. operand_kind_of (xs ! i) = sp_kind (specs ! i))"
proof -
  have "specs \<noteq> [] \<or> xs = []" using assms by auto
  from verify_specs_from_Ok [OF this, of 0 base] show ?thesis using assms by (simp add: verify_operand_specs_def)
qed

lemma verify_tail_Ok:
  "verify_operand_specs xs [t] base = Ok () \<longleftrightarrow> (\<forall>i < length xs. operand_kind_of (xs ! i) = sp_kind t)"
  using verify_specs_from_Ok [of "[t]" xs 0 base] by (simp add: verify_operand_specs_def)

text \<open>Accepted operands have the kinds of the schema, position by position.\<close>

definition kinds_ok :: "op \<Rightarrow> operand list \<Rightarrow> bool" where
  "kinds_ok op xs \<longleftrightarrow> (\<forall>i < length xs. operand_kind_at op i = Some (operand_kind_of (xs ! i)))"

lemma verify_operand_shape_kinds:
  assumes op: "is_op op" and ok: "verify_operand_shape op xs = Ok ()"
  shows "kinds_ok op xs" and "length (shape_prefix (operand_shape op)) \<le> length xs"
    and "shape_variadic (operand_shape op) = None \<Longrightarrow> length xs = length (shape_prefix (operand_shape op))"
proof -
  let ?s = "operand_shape op" and ?n = "length (shape_prefix (operand_shape op))"
  have n: "?n \<le> length xs" and pre: "verify_operand_specs (take ?n xs) (shape_prefix ?s) 0 = Ok ()"
    using op ok by (auto simp: verify_operand_shape_def Let_def split: if_splits)
  then have kinds: "\<forall>i < ?n. operand_kind_of (xs ! i) = sp_kind (shape_prefix ?s ! i)"
    by (simp add: verify_prefix_Ok)
  have "length xs = ?n \<or> (\<exists>k t. shape_variadic ?s = Some (k, t)
      \<and> (\<forall>i < length xs - ?n. operand_kind_of (xs ! (?n + i)) = sp_kind t))"
    using op ok n by (auto simp: verify_operand_shape_def Let_def verify_tail_Ok
        split: if_splits option.splits operand.splits)
  then have "operand_kind_at op i = Some (operand_kind_of (xs ! i))" if "i < length xs" for i
  proof (cases "i < ?n")
    case False
    then have "i = ?n + (i - ?n)" "i - ?n < length xs - ?n" using that n by simp_all
    then show ?thesis
      using \<open>length xs = ?n \<or> _\<close> False that op by (auto simp: operand_kind_at_def Let_def)
  qed (use kinds op in \<open>simp add: operand_kind_at_def Let_def\<close>)
  then show "kinds_ok op xs" by (simp add: kinds_ok_def)
  show "?n \<le> length xs" by (fact n)
  show "length xs = ?n" if "shape_variadic ?s = None"
    using op ok that by (auto simp: verify_operand_shape_def Let_def split: if_splits)
qed

text \<open>Verification never reaches the \<open>unreachable!\<close> of the counted tail.\<close>

lemma verify_operand_shape_not_panic:
  assumes "is_op op"
  shows "verify_operand_shape op xs \<noteq> Panic"
proof
  assume panic: "verify_operand_shape op xs = Panic"
  let ?s = "operand_shape op" and ?n = "length (shape_prefix (operand_shape op))"
  have n: "?n \<le> length xs" using panic assms by (auto simp: verify_operand_shape_def Let_def split: if_splits)
  have "verify_operand_specs (take ?n xs) (shape_prefix ?s) 0 \<noteq> Panic"
    by (cases "shape_prefix ?s") (simp_all add: verify_operand_specs_def verify_specs_not_panic)
  then have pre: "verify_operand_specs (take ?n xs) (shape_prefix ?s) 0 = Ok ()"
    using panic n assms by (cases "verify_operand_specs (take ?n xs) (shape_prefix ?s) 0")
      (auto simp: verify_operand_shape_def Let_def)
  then obtain k t where kt: "shape_variadic ?s = Some (k, t)"
    using panic n assms by (auto simp: verify_operand_shape_def Let_def split: option.splits if_splits)
  then have "k < ?n" "sp_kind (shape_prefix ?s ! k) = KConstIndex"
    using shape_ok_operand_shape [of op] by (simp_all add: shape_ok_def)
  then have "operand_kind_of (xs ! k) = KConstIndex" "k < length xs"
    using pre n by (auto simp: verify_prefix_Ok)
  then obtain c where "get_at xs k = Some (ConstIndex c)"
    by (cases "xs ! k") simp_all
  moreover have "verify_operand_specs ys [t] base \<noteq> Panic" for ys base
    by (simp add: verify_operand_specs_def verify_specs_not_panic)
  ultimately show False
    using panic pre kt n assms by (auto simp: verify_operand_shape_def Let_def split: if_splits simp del: get_at_Some_iff)
qed

section \<open>Operand words\<close>

lemma decode_encode_operand_word [simp]:
  "decode_operand_word (operand_kind_of x) (encode_operand_word x) = Some x"
proof (cases x)
  case (Register v)
  have v: "unat v < 65536" using unsigned_less [of v] by simp
  have u: "unat (ucast v :: u32) = unat v"
    unfolding unsigned_ucast_eq using v by (intro take_bit_nat_eq_self) simp
  have "unat (ucast (ucast v :: u32) :: u16) = unat v"
    unfolding unsigned_ucast_eq [where ?'b = 32 and ?'c = 16] u using v by (intro take_bit_nat_eq_self) simp
  then have "(ucast (ucast v :: u32) :: u16) = v" by (simp only: word_unat_eq_iff)
  then show ?thesis using Register v u by (simp only: operand_kind_of.simps encode_operand_word.simps decode_operand_word.simps) simp
qed simp_all

lemma decode_operand_word_kind: "decode_operand_word k w = Some x \<Longrightarrow> operand_kind_of x = k"
  by (cases k) (auto split: if_splits)

lemma kinds_ok_update:
  assumes "kinds_ok op xs" and "operand_kind_at op i = Some (operand_kind_of x)"
  shows "kinds_ok op (xs[i := x])"
  unfolding kinds_ok_def
proof (intro allI impI)
  fix j
  assume "j < length (xs[i := x])"
  then show "operand_kind_at op j = Some (operand_kind_of (xs[i := x] ! j))"
    using assms by (cases "j = i") (simp_all add: kinds_ok_def)
qed

end
