(* ===== verification/Bc_Wordcode.thy ===== *)
theory Bc_Wordcode
  imports Bc_Schema
begin

text \<open>
  Compiler wordcode (\<open>wordcode.rs\<close>): compact instructions that hold up to four operand words inline
  and longer operand lists in one overflow table per function, the builder that emits and patches
  them, and the frozen function body. The builder is shown to implement the list of
  \<open>(opcode, operands)\<close> pairs it stands for.
\<close>

section \<open>Instructions and bodies\<close>

definition INLINE_OPERAND_WORDS :: nat where
  "INLINE_OPERAND_WORDS = 4"

definition NO_OVERFLOW_OPERANDS :: nat where
  "NO_OVERFLOW_OPERANDS = u32_max"

record winstr =
  wi_op :: op
  wi_operand_count :: nat
  wi_inline_words :: "u32 list"
  wi_overflow_offset :: nat

definition operands_are_inline :: "winstr \<Rightarrow> bool" where
  "operands_are_inline i \<longleftrightarrow> wi_overflow_offset i = NO_OVERFLOW_OPERANDS"

definition operand_word :: "u32 list \<Rightarrow> winstr \<Rightarrow> nat \<Rightarrow> u32 option" where
  "operand_word overflow i j =
    (if wi_operand_count i \<le> j then None
     else if operands_are_inline i then get_at (wi_inline_words i) j
     else get_at overflow (wi_overflow_offset i + j))"

record function_code =
  fc_instructions :: "winstr list"
  fc_overflow :: "u32 list"

text \<open>The decoding shared by \<open>FunctionCode::operand\<close> and \<open>FunctionCodeBuilder::operand\<close>.\<close>

definition decode_operand_at :: "u32 list \<Rightarrow> winstr \<Rightarrow> nat \<Rightarrow> operand option" where
  "decode_operand_at overflow i j =
    Option.bind (operand_word overflow i j) (\<lambda>w.
    Option.bind (operand_kind_at (wi_op i) j) (\<lambda>k. decode_operand_word k w))"

definition fc_operand :: "function_code \<Rightarrow> winstr \<Rightarrow> nat \<Rightarrow> operand option" where
  "fc_operand code i j = decode_operand_at (fc_overflow code) i j"

definition operand_view :: "function_code \<Rightarrow> winstr \<Rightarrow> ('e, operand list) outcome" where
  "operand_view code i = collect_o (\<lambda>j. expect_o (fc_operand code i j)) [0..<wi_operand_count i]"

section \<open>The builder\<close>

record code_builder =
  b_instructions :: "winstr list"
  b_overflow :: "u32 list"

definition builder_new :: code_builder where
  "builder_new = \<lparr>b_instructions = [], b_overflow = []\<rparr>"

definition to_builder :: "function_code \<Rightarrow> code_builder" where
  "to_builder code = \<lparr>b_instructions = fc_instructions code, b_overflow = fc_overflow code\<rparr>"

definition finish :: "code_builder \<Rightarrow> function_code" where
  "finish b = \<lparr>fc_instructions = b_instructions b, fc_overflow = b_overflow b\<rparr>"

definition next_pc :: "code_builder \<Rightarrow> (unit, nat) outcome" where
  "next_pc b = (if u32_max < length (b_instructions b) then Panic else Ok (length (b_instructions b)))"

definition push :: "op \<Rightarrow> operand list \<Rightarrow> code_builder \<Rightarrow> (unit, nat \<times> code_builder) outcome" where
  "push op operands b =
    (if verify_operand_shape op operands \<noteq> Ok () then Panic
     else try_o (next_pc b) (\<lambda>pc.
       if 255 < length operands then Panic
       else if length operands \<le> INLINE_OPERAND_WORDS then
         let ws = map encode_operand_word operands @ replicate (INLINE_OPERAND_WORDS - length operands) 0;
           i = \<lparr>wi_op = op, wi_operand_count = length operands, wi_inline_words = ws, wi_overflow_offset = NO_OVERFLOW_OPERANDS\<rparr>
         in Ok (pc, b\<lparr>b_instructions := b_instructions b @ [i]\<rparr>)
       else if u32_max < length (b_overflow b) then Panic
       else
         let i = \<lparr>wi_op = op, wi_operand_count = length operands, wi_inline_words = replicate INLINE_OPERAND_WORDS 0,
             wi_overflow_offset = length (b_overflow b)\<rparr>
         in Ok (pc, \<lparr>b_instructions = b_instructions b @ [i],
             b_overflow = b_overflow b @ map encode_operand_word operands\<rparr>)))"

definition builder_op :: "code_builder \<Rightarrow> nat \<Rightarrow> op option" where
  "builder_op b pc = map_option wi_op (get_at (b_instructions b) pc)"

definition builder_operand_count :: "code_builder \<Rightarrow> nat \<Rightarrow> nat option" where
  "builder_operand_count b pc = map_option wi_operand_count (get_at (b_instructions b) pc)"

definition builder_operand :: "code_builder \<Rightarrow> nat \<Rightarrow> nat \<Rightarrow> operand option" where
  "builder_operand b pc j = Option.bind (get_at (b_instructions b) pc) (\<lambda>i. decode_operand_at (b_overflow b) i j)"

text \<open>Assignment through an index, which panics out of range.\<close>

definition set_at :: "'a list \<Rightarrow> nat \<Rightarrow> 'a \<Rightarrow> (unit, 'a list) outcome" where
  "set_at xs i x = (if i < length xs then Ok (xs[i := x]) else Panic)"

definition set_operand :: "code_builder \<Rightarrow> nat \<Rightarrow> nat \<Rightarrow> operand \<Rightarrow> (unit, bool \<times> code_builder) outcome" where
  "set_operand b pc j x =
    (case get_at (b_instructions b) pc of
       None \<Rightarrow> Ok (False, b)
     | Some i \<Rightarrow>
         if wi_operand_count i \<le> j then Ok (False, b)
         else (case operand_kind_at (wi_op i) j of
             None \<Rightarrow> Ok (False, b)
           | Some k \<Rightarrow>
               if operand_kind_of x \<noteq> k then Ok (False, b)
               else if operands_are_inline i then
                 try_o (set_at (wi_inline_words i) j (encode_operand_word x)) (\<lambda>ws.
                   Ok (True, b\<lparr>b_instructions := (b_instructions b)[pc := i\<lparr>wi_inline_words := ws\<rparr>]\<rparr>))
               else
                 try_o (set_at (b_overflow b) (wi_overflow_offset i + j) (encode_operand_word x)) (\<lambda>ov.
                   Ok (True, b\<lparr>b_overflow := ov\<rparr>))))"

text \<open>The operands of an instruction, decoded with \<open>expect\<close> at every step.\<close>

definition decode_all :: "u32 list \<Rightarrow> winstr \<Rightarrow> (unit, operand list) outcome" where
  "decode_all overflow i = collect_o (\<lambda>j.
     try_o (expect_o (operand_word overflow i j)) (\<lambda>w.
     try_o (expect_o (operand_kind_at (wi_op i) j)) (\<lambda>k.
     expect_o (decode_operand_word k w)))) [0..<wi_operand_count i]"

fun replace_loop :: "code_builder \<Rightarrow> nat \<Rightarrow> op \<Rightarrow> operand list \<Rightarrow> nat list \<Rightarrow> code_builder \<Rightarrow> (unit, code_builder) outcome" where
  "replace_loop b index op operands [] rebuilt = Ok rebuilt"
| "replace_loop b index op operands (current # rest) rebuilt =
    (if current = index
     then try_o (push op operands rebuilt) (\<lambda>(_, rebuilt). replace_loop b index op operands rest rebuilt)
     else
       let i = b_instructions b ! current in
       try_o (decode_all (b_overflow b) i) (\<lambda>decoded.
       try_o (push (wi_op i) decoded rebuilt) (\<lambda>(_, rebuilt). replace_loop b index op operands rest rebuilt)))"

definition replace :: "code_builder \<Rightarrow> nat \<Rightarrow> op \<Rightarrow> operand list \<Rightarrow> (unit, bool \<times> code_builder) outcome" where
  "replace b pc op operands =
    (if length (b_instructions b) \<le> pc then Ok (False, b)
     else try_o (replace_loop b pc op operands [0..<length (b_instructions b)] builder_new) (\<lambda>rebuilt. Ok (True, rebuilt)))"

text \<open>The decoded instruction of \<open>lib.rs\<close>, and \<open>FunctionCode::from\<close>.\<close>

record instruction =
  di_pc :: nat
  di_op :: op
  di_operands :: "operand list"

fun push_all :: "instruction list \<Rightarrow> code_builder \<Rightarrow> (unit, code_builder) outcome" where
  "push_all [] b = Ok b"
| "push_all (i # is) b = try_o (push (di_op i) (di_operands i) b) (\<lambda>(_, b). push_all is b)"

definition from_decoded :: "instruction list \<Rightarrow> (unit, function_code) outcome" where
  "from_decoded is = try_o (push_all is builder_new) (\<lambda>b. Ok (finish b))"

section \<open>The program a body stands for\<close>

type_synonym abs_program = "(op \<times> operand list) list"

text \<open>
  One instruction holds the operands \<open>xs\<close>; the overflow words of successive instructions fill the
  table from left to right without gaps or overlaps.
\<close>

definition holds :: "u32 list \<Rightarrow> nat \<Rightarrow> winstr \<Rightarrow> op \<times> operand list \<Rightarrow> bool" where
  "holds ov off i e \<longleftrightarrow> (case e of (op, xs) \<Rightarrow>
     wi_op i = op \<and> is_op op \<and> kinds_ok op xs \<and> wi_operand_count i = length xs \<and> length (wi_inline_words i) = INLINE_OPERAND_WORDS
     \<and> (if operands_are_inline i
        then length xs \<le> INLINE_OPERAND_WORDS \<and> take (length xs) (wi_inline_words i) = map encode_operand_word xs
        else INLINE_OPERAND_WORDS < length xs \<and> wi_overflow_offset i = off
          \<and> take (length xs) (drop off ov) = map encode_operand_word xs))"

definition abs_words :: "op \<times> operand list \<Rightarrow> nat" where
  "abs_words e = (if length (snd e) \<le> INLINE_OPERAND_WORDS then 0 else length (snd e))"

fun stores :: "u32 list \<Rightarrow> nat \<Rightarrow> winstr list \<Rightarrow> abs_program \<Rightarrow> nat \<Rightarrow> bool" where
  "stores ov off [] [] e \<longleftrightarrow> off = e"
| "stores ov off (i # is) (x # xs) e \<longleftrightarrow> holds ov off i x \<and> stores ov (off + abs_words x) is xs e"
| "stores ov off _ _ _ \<longleftrightarrow> False"

definition builds :: "code_builder \<Rightarrow> abs_program \<Rightarrow> bool" where
  "builds b p \<longleftrightarrow> stores (b_overflow b) 0 (b_instructions b) p (length (b_overflow b))"

text \<open>Programs within the limits of the representation: 32-bit program counters, 8-bit operand counts,
  and an overflow table whose offsets stay below the sentinel.\<close>

definition fits :: "abs_program \<Rightarrow> bool" where
  "fits p \<longleftrightarrow> length p \<le> u32_max \<and> (\<forall>e \<in> set p. length (snd e) \<le> 255) \<and> sum_list (map abs_words p) < u32_max"

definition verified :: "abs_program \<Rightarrow> bool" where
  "verified p \<longleftrightarrow> (\<forall>e \<in> set p. is_op (fst e) \<and> verify_operand_shape (fst e) (snd e) = Ok ())"

section \<open>Reading\<close>

lemma take_eq_map_nth:
  assumes "take (length xs) ys = map f xs" and "j < length xs"
  shows "j < length ys \<and> ys ! j = f (xs ! j)"
proof -
  have "length (take (length xs) ys) = length xs" using assms(1) by simp
  then have "length xs \<le> length ys" by simp
  moreover have "take (length xs) ys ! j = f (xs ! j)" using assms by simp
  ultimately show ?thesis using assms(2) by simp
qed

lemma holds_word:
  assumes "holds ov off i (op, xs)"
  shows "operand_word ov i j = (if j < length xs then Some (encode_operand_word (xs ! j)) else None)"
proof (cases "operands_are_inline i")
  case True
  then show ?thesis
    using assms take_eq_map_nth [of xs "wi_inline_words i" encode_operand_word j]
    by (auto simp: operand_word_def holds_def)
next
  case False
  then show ?thesis
    using assms take_eq_map_nth [of xs "drop off ov" encode_operand_word j]
    by (auto simp: operand_word_def holds_def)
qed

lemma holds_kind: "holds ov off i (op, xs) \<Longrightarrow> j < length xs \<Longrightarrow> operand_kind_at (wi_op i) j = Some (operand_kind_of (xs ! j))"
  by (simp add: holds_def kinds_ok_def)

lemma holds_operand:
  assumes "holds ov off i (op, xs)"
  shows "decode_operand_at ov i j = get_at xs j"
  using holds_word [OF assms, of j] holds_kind [OF assms, of j] by (simp add: decode_operand_at_def get_at_def)

lemma map_nth_upt: "map ((!) xs) [0..<length xs] = xs"
  by (rule map_nth)

lemma holds_decode_all:
  assumes "holds ov off i (op, xs)"
  shows "decode_all ov i = Ok xs"
proof -
  have "wi_operand_count i = length xs" using assms by (simp add: holds_def)
  moreover have "collect_o (\<lambda>j. try_o (expect_o (operand_word ov i j)) (\<lambda>w.
      try_o (expect_o (operand_kind_at (wi_op i) j)) (\<lambda>k. expect_o (decode_operand_word k w)))) [0..<length xs]
    = Ok (map ((!) xs) [0..<length xs])"
    by (rule collect_o_map) (simp add: holds_word [OF assms] holds_kind [OF assms])
  ultimately show ?thesis by (simp add: decode_all_def map_nth_upt)
qed

lemma holds_view:
  assumes "holds (fc_overflow code) off i (op, xs)"
  shows "operand_view code i = Ok xs"
proof -
  have "wi_operand_count i = length xs" using assms by (simp add: holds_def)
  moreover have "collect_o (\<lambda>j. expect_o (fc_operand code i j)) [0..<length xs] = Ok (map ((!) xs) [0..<length xs])"
    by (rule collect_o_map) (simp add: fc_operand_def holds_operand [OF assms] get_at_def)
  ultimately show ?thesis by (simp add: operand_view_def map_nth_upt)
qed

lemma stores_length: "stores ov off is es e \<Longrightarrow> length is = length es"
  by (induction ov off "is" es e rule: stores.induct) auto

lemma stores_nth:
  assumes "stores ov off is es e" and "k < length es"
  shows "\<exists>off'. off \<le> off' \<and> holds ov off' (is ! k) (es ! k)"
  using assms
proof (induction ov off "is" es e arbitrary: k rule: stores.induct)
  case (2 ov off i "is" x xs e)
  show ?case
  proof (cases k)
    case (Suc m)
    with 2 obtain off' where "off + abs_words x \<le> off'" "holds ov off' (is ! m) (xs ! m)" by fastforce
    then show ?thesis using Suc by (intro exI [of _ off']) simp
  qed (use 2 in auto)
qed auto

lemma stores_end: "stores ov off is es e \<Longrightarrow> e = off + sum_list (map abs_words es)"
  by (induction ov off "is" es e rule: stores.induct) auto

lemma builds_length: "builds b p \<Longrightarrow> length (b_instructions b) = length p"
  by (simp add: builds_def stores_length)

lemma builds_nth:
  assumes "builds b p" and "k < length p"
  obtains off where "holds (b_overflow b) off (b_instructions b ! k) (p ! k)"
  using assms stores_nth unfolding builds_def by metis

section \<open>Writing\<close>

lemma stores_append:
  "stores ov off (is @ js) (xs @ ys) e \<longleftrightarrow> (\<exists>m. stores ov off is xs m \<and> stores ov m js ys e)" if "length is = length xs"
  using that by (induction ov off "is" xs e rule: stores.induct) auto

lemma take_drop_append:
  assumes "take n (drop off ov) = ws" and "length ws = n"
  shows "take n (drop off (ov @ zs)) = ws"
proof -
  have "n \<le> length ov - off" using assms by auto
  then show ?thesis using assms by (cases "off \<le> length ov") auto
qed

lemma holds_extend: "holds ov off i x \<Longrightarrow> holds (ov @ ws) off i x"
  using take_drop_append [of "length (snd x)" off ov] by (auto simp: holds_def split: prod.splits)

lemma stores_extend: "stores ov off is xs e \<Longrightarrow> stores (ov @ ws) off is xs e"
  by (induction ov off "is" xs e rule: stores.induct) (auto intro: holds_extend)

lemma builder_new_builds: "builds builder_new []"
  by (simp add: builds_def builder_new_def)

lemma builds_overflow_length: "builds b p \<Longrightarrow> length (b_overflow b) = sum_list (map abs_words p)"
  using stores_end by (fastforce simp: builds_def)

theorem push_builds:
  assumes b: "builds b p" and op: "is_op op" and ok: "verify_operand_shape op xs = Ok ()" and fit: "fits (p @ [(op, xs)])"
  shows "\<exists>b'. push op xs b = Ok (length p, b') \<and> builds b' (p @ [(op, xs)])"
proof -
  have len: "length (b_instructions b) = length p" "length (b_overflow b) = sum_list (map abs_words p)"
    using b by (simp_all add: builds_length builds_overflow_length)
  have lim: "length p < u32_max" "length xs \<le> 255" "length (b_overflow b) < u32_max"
    using fit len by (auto simp: fits_def)
  have st: "stores (b_overflow b) 0 (b_instructions b) p (length (b_overflow b))" using b by (simp add: builds_def)
  have kinds: "kinds_ok op xs" using verify_operand_shape_kinds(1) [OF op ok] .
  show ?thesis
  proof (cases "length xs \<le> INLINE_OPERAND_WORDS")
    case True
    let ?i = "\<lparr>wi_op = op, wi_operand_count = length xs,
      wi_inline_words = map encode_operand_word xs @ replicate (INLINE_OPERAND_WORDS - length xs) 0,
      wi_overflow_offset = NO_OVERFLOW_OPERANDS\<rparr>"
    have "holds ov off ?i (op, xs)" for ov off
      using True op kinds by (simp add: holds_def operands_are_inline_def)
    then have "builds (b\<lparr>b_instructions := b_instructions b @ [?i]\<rparr>) (p @ [(op, xs)])"
      using st len True by (simp add: builds_def stores_append abs_words_def)
    then show ?thesis using ok lim len True by (simp add: push_def next_pc_def Let_def)
  next
    case False
    let ?ws = "map encode_operand_word xs" and ?off = "length (b_overflow b)"
    let ?i = "\<lparr>wi_op = op, wi_operand_count = length xs, wi_inline_words = replicate INLINE_OPERAND_WORDS 0,
      wi_overflow_offset = ?off\<rparr>"
    have "holds (b_overflow b @ ?ws) ?off ?i (op, xs)"
      using False op kinds lim by (simp add: holds_def operands_are_inline_def NO_OVERFLOW_OPERANDS_def)
    then have "builds \<lparr>b_instructions = b_instructions b @ [?i], b_overflow = b_overflow b @ ?ws\<rparr> (p @ [(op, xs)])"
      using stores_extend [OF st, of ?ws] len False by (auto simp: builds_def stores_append abs_words_def)
    then show ?thesis using ok lim len False by (simp add: push_def next_pc_def Let_def)
  qed
qed

text \<open>Patching an inline word changes one instruction, patching an overflow word one region of the table.\<close>

lemma stores_update:
  assumes "stores ov off is es e" and "k < length es" and "abs_words x = abs_words (es ! k)"
    and "\<And>off'. holds ov off' (is ! k) (es ! k) \<Longrightarrow> holds ov off' i x"
  shows "stores ov off (is[k := i]) (es[k := x]) e"
  using assms
proof (induction ov off "is" es e arbitrary: k rule: stores.induct)
  case (2 ov off j "is" y ys e)
  then show ?case by (cases k) auto
qed auto

lemma holds_disjoint:
  assumes "holds ov off i x" and "p < off \<or> off + abs_words x \<le> p"
  shows "holds (ov[p := w]) off i x"
proof -
  have "take n (drop off (ov[p := w])) = take n (drop off ov)" if "p < off \<or> off + n \<le> p" for n
    using that by (intro nth_equalityI) (auto simp: nth_list_update)
  then show ?thesis using assms by (auto simp: holds_def abs_words_def split: prod.splits)
qed

lemma stores_disjoint: "stores ov off is es e \<Longrightarrow> p < off \<Longrightarrow> stores (ov[p := w]) off is es e"
proof (induction ov off "is" es e rule: stores.induct)
  case (2 ov off i "is" x xs e)
  then show ?case using holds_disjoint [of ov off i x p w] by simp
qed auto

lemma holds_overflow_update:
  assumes "holds ov off i (op, xs)" and "\<not> operands_are_inline i" and "j < length xs"
    and "operand_kind_at op j = Some (operand_kind_of x)"
  shows "holds (ov[off + j := encode_operand_word x]) off i (op, xs[j := x])"
proof -
  have "take n (drop off (ov[off + j := w])) = (take n (drop off ov))[j := w]" if "j < n" for n w
    by (simp add: drop_update_swap take_update_swap)
  then show ?thesis
    using assms kinds_ok_update [of op xs j x] by (auto simp: holds_def map_update)
qed

lemma stores_overflow_update:
  assumes "stores ov off is es e" and "k < length es" and "es ! k = (op, xs)" and "\<not> operands_are_inline (is ! k)"
    and "j < length xs" and "operand_kind_at op j = Some (operand_kind_of x)"
  shows "stores (ov[wi_overflow_offset (is ! k) + j := encode_operand_word x]) off is (es[k := (op, xs[j := x])]) e"
  using assms
proof (induction ov off "is" es e arbitrary: k rule: stores.induct)
  case (2 ov off i "is" y ys e)
  show ?case
  proof (cases k)
    case 0
    with 2 have i: "holds ov off i (op, xs)" "\<not> operands_are_inline i" "y = (op, xs)" by auto
    then have off: "wi_overflow_offset i = off" "abs_words (op, xs) = length xs"
      by (auto simp: holds_def abs_words_def)
    from i(3) off(2) 2(2) have "stores ov (off + length xs) is ys e" by simp
    then have "stores (ov[off + j := encode_operand_word x]) (off + length xs) is ys e"
      using 2(6) by (intro stores_disjoint) auto
    then show ?thesis
      using 0 off holds_overflow_update [OF i(1,2)] 2(6,7) by (simp add: abs_words_def split: if_splits)
  next
    case (Suc m)
    have rest: "stores ov (off + abs_words y) is ys e" "m < length ys" using 2 Suc by auto
    from stores_nth [OF this] obtain off' where "off + abs_words y \<le> off'" "holds ov off' (is ! m) (ys ! m)" by auto
    then have "off + abs_words y \<le> wi_overflow_offset (is ! m)" using 2 Suc by (auto simp: holds_def)
    then have "holds (ov[wi_overflow_offset (is ! m) + j := encode_operand_word x]) off i y"
      using 2 by (intro holds_disjoint) auto
    then show ?thesis using 2 Suc by auto
  qed
qed auto

text \<open>The effect of \<open>set_operand\<close> on the program: the operand is replaced when its position exists and
  the kinds agree.\<close>

definition abs_set_operand :: "abs_program \<Rightarrow> nat \<Rightarrow> nat \<Rightarrow> operand \<Rightarrow> bool \<times> abs_program" where
  "abs_set_operand p pc j x =
    (if pc < length p \<and> j < length (snd (p ! pc)) \<and> operand_kind_of x = operand_kind_of (snd (p ! pc) ! j)
     then (True, p[pc := (fst (p ! pc), (snd (p ! pc))[j := x])])
     else (False, p))"

lemma holds_inline_update:
  assumes "holds ov off i (op, xs)" and "operands_are_inline i" and "j < length xs"
    and "operand_kind_at op j = Some (operand_kind_of x)"
  shows "holds ov off (i\<lparr>wi_inline_words := (wi_inline_words i)[j := encode_operand_word x]\<rparr>) (op, xs[j := x])"
  using assms kinds_ok_update [of op xs j x]
  by (auto simp: holds_def map_update take_update_swap operands_are_inline_def)

theorem set_operand_builds:
  assumes b: "builds b p"
  shows "\<exists>b'. set_operand b pc j x = Ok (fst (abs_set_operand p pc j x), b') \<and> builds b' (snd (abs_set_operand p pc j x))"
proof (cases "pc < length p")
  case False
  then have "get_at (b_instructions b) pc = None" using builds_length [OF b] by simp
  then show ?thesis using b False by (simp add: set_operand_def abs_set_operand_def del: get_at_None_iff)
next
  case True
  let ?i = "b_instructions b ! pc"
  obtain op xs where e: "p ! pc = (op, xs)" by force
  obtain off where off: "holds (b_overflow b) off ?i (op, xs)" using builds_nth [OF b True] e by metis
  have get: "get_at (b_instructions b) pc = Some ?i" and count: "wi_operand_count ?i = length xs" and op: "wi_op ?i = op"
    using builds_length [OF b] True off by (simp_all add: holds_def)
  show ?thesis
  proof (cases "j < length xs \<and> operand_kind_of x = operand_kind_of (xs ! j)")
    case False
    then have "set_operand b pc j x = Ok (False, b)"
      using get count holds_kind [OF off, of j] by (auto simp: set_operand_def simp del: get_at_Some_iff)
    moreover have "abs_set_operand p pc j x = (False, p)" using False e by (auto simp: abs_set_operand_def)
    ultimately show ?thesis using b by simp
  next
    case ok: True
    have kind: "operand_kind_at op j = Some (operand_kind_of x)" using holds_kind [OF off, of j] ok op by simp
    have abs: "abs_set_operand p pc j x = (True, p[pc := (op, xs[j := x])])"
      using True ok e by (simp add: abs_set_operand_def)
    have st: "stores (b_overflow b) 0 (b_instructions b) p (length (b_overflow b))" using b by (simp add: builds_def)
    show ?thesis
    proof (cases "operands_are_inline ?i")
      case inl: True
      let ?j = "?i\<lparr>wi_inline_words := (wi_inline_words ?i)[j := encode_operand_word x]\<rparr>"
      have "j < length (wi_inline_words ?i)" using off inl ok by (auto simp: holds_def)
      then have "set_operand b pc j x = Ok (True, b\<lparr>b_instructions := (b_instructions b)[pc := ?j]\<rparr>)"
        using get count ok kind op inl by (simp add: set_operand_def set_at_def del: get_at_Some_iff)
      moreover have "stores (b_overflow b) 0 ((b_instructions b)[pc := ?j]) (p[pc := (op, xs[j := x])]) (length (b_overflow b))"
        using st True by (rule stores_update) (use e ok kind inl holds_inline_update in \<open>auto simp: abs_words_def\<close>)
      ultimately show ?thesis using abs by (simp add: builds_def)
    next
      case out: False
      let ?ov = "(b_overflow b)[wi_overflow_offset ?i + j := encode_operand_word x]"
      have "wi_overflow_offset ?i + j < length (b_overflow b)"
        using off out ok take_eq_map_nth [of xs "drop off (b_overflow b)" encode_operand_word j] by (auto simp: holds_def)
      then have "set_operand b pc j x = Ok (True, b\<lparr>b_overflow := ?ov\<rparr>)"
        using get count ok kind op out by (simp add: set_operand_def set_at_def del: get_at_Some_iff)
      moreover have "stores ?ov 0 (b_instructions b) (p[pc := (op, xs[j := x])]) (length (b_overflow b))"
        using stores_overflow_update [OF st True e out _ kind] ok by simp
      ultimately show ?thesis using abs by (simp add: builds_def)
    qed
  qed
qed

lemma fits_take: "fits p \<Longrightarrow> fits (take k p)"
proof -
  assume "fits p"
  moreover have "sum_list (map abs_words p) = sum_list (map abs_words (take k p)) + sum_list (map abs_words (drop k p))"
    by (metis append_take_drop_id map_append sum_list_append)
  ultimately show ?thesis by (auto simp: fits_def dest: in_set_takeD)
qed

lemma push_next:
  assumes "builds r (take m q)" and "m < length q" and "verified q" and "fits q" and "q ! m = (op, xs)"
  shows "\<exists>r'. push op xs r = Ok (m, r') \<and> builds r' (take (Suc m) q)"
proof -
  have "is_op op" "verify_operand_shape op xs = Ok ()" using assms by (auto simp: verified_def dest!: nth_mem)
  moreover have "take m q @ [(op, xs)] = take (Suc m) q" using assms by (simp add: take_Suc_conv_app_nth)
  ultimately show ?thesis using push_builds [OF assms(1), of op xs] fits_take [OF assms(4), of "Suc m"] assms(2) by simp
qed

lemma replace_loop_builds:
  assumes "builds b p" and "q = p[pc := (op, xs)]" and "verified q" and "fits q" and "builds r (take m q)" and "m \<le> length p"
  shows "\<exists>b'. replace_loop b pc op xs [m..<length p] r = Ok b' \<and> builds b' q"
  using assms(5,6)
proof (induction "length p - m" arbitrary: m r)
  case 0
  then show ?case using assms(2) by simp
next
  case (Suc n)
  then have m: "m < length p" "m < length q" using assms(2) by simp_all
  have upt: "[m..<length p] = m # [Suc m..<length p]" using m by (simp add: upt_conv_Cons)
  obtain op' xs' where e: "q ! m = (op', xs')" by force
  obtain r' where r': "push op' xs' r = Ok (m, r')" "builds r' (take (Suc m) q)"
    using push_next [OF Suc.prems(1) m(2) assms(3,4) e] by auto
  have "replace_loop b pc op xs [m..<length p] r = replace_loop b pc op xs [Suc m..<length p] r'"
  proof (cases "m = pc")
    case True
    then show ?thesis using e m assms(2) r' upt by simp
  next
    case False
    then have "p ! m = (op', xs')" using e assms(2) by simp
    moreover obtain off where "holds (b_overflow b) off (b_instructions b ! m) (p ! m)" using builds_nth [OF assms(1) m(1)] .
    ultimately have "decode_all (b_overflow b) (b_instructions b ! m) = Ok xs'" "wi_op (b_instructions b ! m) = op'"
      using holds_decode_all by (auto simp: holds_def)
    then show ?thesis using False r' upt by (simp add: Let_def)
  qed
  moreover have "n = length p - Suc m" "Suc m \<le> length p" using Suc.hyps(2) m by simp_all
  ultimately show ?case using Suc.hyps(1) [of "Suc m" r'] r' by simp
qed

theorem replace_builds:
  assumes "builds b p" and "pc < length p \<longrightarrow> verified (p[pc := (op, xs)]) \<and> fits (p[pc := (op, xs)])"
  shows "\<exists>b'. replace b pc op xs = Ok (pc < length p, b') \<and> builds b' (p[pc := (op, xs)])"
proof (cases "pc < length p")
  case True
  then show ?thesis
    using replace_loop_builds [OF assms(1) refl, of pc op xs builder_new 0] assms builder_new_builds
    by (auto simp: replace_def builds_length)
qed (use assms in \<open>simp add: replace_def builds_length list_update_beyond\<close>)

theorem builder_operand_builds:
  assumes "builds b p"
  shows "builder_operand b pc j = (if pc < length p then get_at (snd (p ! pc)) j else None)"
proof (cases "pc < length p")
  case True
  obtain off where "holds (b_overflow b) off (b_instructions b ! pc) (p ! pc)" using builds_nth [OF assms True] .
  then have "decode_operand_at (b_overflow b) (b_instructions b ! pc) j = get_at (snd (p ! pc)) j"
    using holds_operand by (metis prod.collapse)
  moreover have "get_at (b_instructions b) pc = Some (b_instructions b ! pc)" using builds_length [OF assms] True by simp
  ultimately show ?thesis using True by (simp add: builder_operand_def del: get_at_Some_iff)
next
  case False
  then have "get_at (b_instructions b) pc = None" using builds_length [OF assms] by simp
  then show ?thesis using False by (simp add: builder_operand_def del: get_at_None_iff)
qed

section \<open>The contract of a code store\<close>

text \<open>
  What a compiler relies on when it emits and patches code: emission appends, patching replaces one
  operand, replacement replaces one instruction, and reading gives what was last written.
\<close>

locale code_store =
  fixes rep :: "'b \<Rightarrow> abs_program \<Rightarrow> bool"
    and empty_code :: 'b
    and emit_code :: "op \<Rightarrow> operand list \<Rightarrow> 'b \<Rightarrow> (unit, nat \<times> 'b) outcome"
    and patch_code :: "'b \<Rightarrow> nat \<Rightarrow> nat \<Rightarrow> operand \<Rightarrow> (unit, bool \<times> 'b) outcome"
    and replace_code :: "'b \<Rightarrow> nat \<Rightarrow> op \<Rightarrow> operand list \<Rightarrow> (unit, bool \<times> 'b) outcome"
    and read_code :: "'b \<Rightarrow> nat \<Rightarrow> nat \<Rightarrow> operand option"
  assumes rep_empty: "rep empty_code []"
    and rep_emit: "rep b p \<Longrightarrow> verified [(op, xs)] \<Longrightarrow> fits (p @ [(op, xs)]) \<Longrightarrow>
      \<exists>b'. emit_code op xs b = Ok (length p, b') \<and> rep b' (p @ [(op, xs)])"
    and rep_patch: "rep b p \<Longrightarrow> \<exists>b'. patch_code b pc j x = Ok (fst (abs_set_operand p pc j x), b')
      \<and> rep b' (snd (abs_set_operand p pc j x))"
    and rep_replace: "rep b p \<Longrightarrow> pc < length p \<Longrightarrow> verified (p[pc := (op, xs)]) \<Longrightarrow> fits (p[pc := (op, xs)]) \<Longrightarrow>
      \<exists>b'. replace_code b pc op xs = Ok (True, b') \<and> rep b' (p[pc := (op, xs)])"
    and rep_read: "rep b p \<Longrightarrow> read_code b pc j = (if pc < length p then get_at (snd (p ! pc)) j else None)"
begin

fun emit_list :: "abs_program \<Rightarrow> 'b \<Rightarrow> (unit, 'b) outcome" where
  "emit_list [] b = Ok b"
| "emit_list (e # es) b = try_o (emit_code (fst e) (snd e) b) (\<lambda>(_, b). emit_list es b)"

lemma rep_emit_list:
  assumes "rep b p" and "verified q" and "fits (p @ q)"
  shows "\<exists>b'. emit_list q b = Ok b' \<and> rep b' (p @ q)"
  using assms
proof (induction q arbitrary: b p)
  case (Cons e q)
  have "fits (take (Suc (length p)) (p @ e # q))" using Cons.prems(3) by (rule fits_take)
  then have "fits (p @ [(fst e, snd e)])" by simp
  moreover have "verified [(fst e, snd e)]" "verified q" using Cons.prems(2) by (simp_all add: verified_def)
  ultimately obtain b' where b': "emit_code (fst e) (snd e) b = Ok (length p, b')" "rep b' (p @ [e])"
    using rep_emit [OF Cons.prems(1)] by fastforce
  from Cons.IH [OF b'(2) \<open>verified q\<close>] Cons.prems(3) b'(1) show ?case by auto
qed simp

text \<open>A forward jump: its operand is emitted as a placeholder and patched once the target is known.
  The patched operand reads back, every other operand reads as it was emitted.\<close>

lemma forward_patch:
  assumes "verified (q @ (op, xs) # q')" and "fits (q @ (op, xs) # q')"
    and "j < length xs" and "operand_kind_of x = operand_kind_of (xs ! j)"
  shows "\<exists>b b'. emit_list (q @ (op, xs) # q') empty_code = Ok b \<and> patch_code b (length q) j x = Ok (True, b')
    \<and> read_code b' (length q) j = Some x
    \<and> (\<forall>pc k. (pc, k) \<noteq> (length q, j) \<longrightarrow> read_code b' pc k = read_code b pc k)"
proof -
  let ?p = "q @ (op, xs) # q'"
  obtain b where b: "emit_list ?p empty_code = Ok b" "rep b ?p"
    using rep_emit_list [OF rep_empty assms(1)] assms(2) by auto
  have abs: "abs_set_operand ?p (length q) j x = (True, q @ (op, xs[j := x]) # q')"
    using assms(3,4) by (simp add: abs_set_operand_def)
  then obtain b' where b': "patch_code b (length q) j x = Ok (True, b')" "rep b' (q @ (op, xs[j := x]) # q')"
    using rep_patch [OF b(2), of "length q" j x] by auto
  have "read_code b' pc k = read_code b pc k" if "(pc, k) \<noteq> (length q, j)" for pc k
    using that unfolding rep_read [OF b(2)] rep_read [OF b'(2)] by (auto simp: nth_append get_at_def nth_Cons')
  moreover have "read_code b' (length q) j = Some x" using rep_read [OF b'(2)] assms(3) by simp
  ultimately show ?thesis using b(1) b'(1) by blast
qed

end

interpretation builder: code_store builds builder_new push set_operand replace builder_operand
proof
  show "\<exists>b'. push op xs b = Ok (length p, b') \<and> builds b' (p @ [(op, xs)])"
    if "builds b p" "verified [(op, xs)]" "fits (p @ [(op, xs)])" for b p op xs
    using push_builds that by (simp add: verified_def)
  show "\<exists>b'. replace b pc op xs = Ok (True, b') \<and> builds b' (p[pc := (op, xs)])"
    if "builds b p" "pc < length p" "verified (p[pc := (op, xs)])" "fits (p[pc := (op, xs)])" for b p pc op xs
    using replace_builds [of b p pc op xs] that by simp
qed (use builder_new_builds set_operand_builds builder_operand_builds in auto)

section \<open>Frozen bodies\<close>

definition code_of :: "function_code \<Rightarrow> abs_program \<Rightarrow> bool" where
  "code_of code p \<longleftrightarrow> builds (to_builder code) p"

lemma code_of_finish: "code_of (finish b) p \<longleftrightarrow> builds b p"
  by (simp add: code_of_def finish_def to_builder_def builds_def)

abbreviation entries :: "instruction list \<Rightarrow> abs_program" where
  "entries is \<equiv> map (\<lambda>i. (di_op i, di_operands i)) is"

lemma push_all_emit: "push_all is b = builder.emit_list (entries is) b"
  by (induction "is" arbitrary: b) (simp_all add: split_beta')

theorem from_decoded_code:
  assumes "verified (entries is)" and "fits (entries is)"
  shows "\<exists>code. from_decoded is = Ok code \<and> code_of code (entries is)"
  using builder.rep_emit_list [OF builder_new_builds assms(1)] assms(2)
  by (auto simp: from_decoded_def push_all_emit code_of_finish)

lemma code_of_length: "code_of code p \<Longrightarrow> length (fc_instructions code) = length p"
  using builds_length by (fastforce simp: code_of_def to_builder_def)

lemma code_of_nth:
  assumes "code_of code p" and "k < length p"
  obtains off where "holds (fc_overflow code) off (fc_instructions code ! k) (p ! k)"
  using builds_nth [of "to_builder code" p k] assms by (auto simp: code_of_def to_builder_def)

theorem code_of_view:
  assumes "code_of code p" and "k < length p"
  shows "operand_view code (fc_instructions code ! k) = Ok (snd (p ! k)) \<and> wi_op (fc_instructions code ! k) = fst (p ! k)
    \<and> fc_operand code (fc_instructions code ! k) j = get_at (snd (p ! k)) j"
proof -
  obtain op xs where e: "p ! k = (op, xs)" by force
  obtain off where h: "holds (fc_overflow code) off (fc_instructions code ! k) (op, xs)"
    using code_of_nth [OF assms] e by metis
  show ?thesis using holds_view [OF h] holds_operand [OF h, of j] h e by (simp add: fc_operand_def holds_def)
qed

end
