(* ===== verification/Bc_Encoding.thy ===== *)
theory Bc_Encoding
  imports Bc_Wordcode
begin

text \<open>
  The wire format of function bodies (\<open>encoding.rs\<close>): the verifiers of logical instructions and of
  wordcode, the byte layout, the two-pass encoder that rewrites branch operands from instruction
  deltas to byte deltas, and the decoder with its control-flow check. Offsets are natural numbers
  with the 32-bit limits written out; bytes are 8-bit words.
\<close>

section \<open>Errors\<close>

datatype verify_error =
    FunctionTooLarge
  | InvalidOperandShape nat shape_error
  | InvalidControlFlowTarget nat int
  | InvalidControlFlowOperand nat nat int

datatype decode_error =
    UnexpectedEnd nat
  | UnknownOpcode nat u8
  | UnknownOperandKind nat u8
  | DecodedOperandShape nat shape_error
  | DecodedControlFlowTarget nat int
  | DecodedControlFlowOperand nat nat int

section \<open>Verification of wordcode\<close>

definition verify_wordcode_target ::
  "function_code \<Rightarrow> nat \<Rightarrow> nat \<Rightarrow> u32 option \<Rightarrow> int \<Rightarrow> (verify_error, unit) outcome" where
  "verify_wordcode_target code index operand_index absent count =
    (case get_at (fc_instructions code) index of
       None \<Rightarrow> Panic
     | Some i \<Rightarrow>
         (case fc_operand code i operand_index of
            Some (Imm32 delta) \<Rightarrow>
              if absent = Some delta then Ok ()
              else let target = int index + 1 + sint delta in
                if \<not> (0 \<le> target \<and> target \<le> count) then Err (InvalidControlFlowTarget index target) else Ok ()
          | _ \<Rightarrow> Panic))"

definition verify_wordcode_instr :: "function_code \<Rightarrow> int \<Rightarrow> nat \<times> winstr \<Rightarrow> (verify_error, unit) outcome" where
  "verify_wordcode_instr code count = (\<lambda>(index, i).
    try_o (operand_view code i) (\<lambda>operands.
    try_o (map_err_o (InvalidOperandShape index) (verify_operand_shape (wi_op i) operands)) (\<lambda>_.
    let row = opcode_schema (wi_op i) in
    try_o (each_o (\<lambda>successor. case successor of
        RelativeTarget j _ \<Rightarrow> verify_wordcode_target code index j None count
      | _ \<Rightarrow> Ok ()) (os_successors row)) (\<lambda>_.
    each_o (\<lambda>successor. case successor of
        OptionalRelativeTarget j _ absent \<Rightarrow> verify_wordcode_target code index j (Some absent) count
      | RunFinallyHandlersToFloor j \<Rightarrow>
          (case fc_operand code i j of
             Some (Imm32 floor) \<Rightarrow>
               if sint floor < 0 then Err (InvalidControlFlowOperand index j (sint floor)) else Ok ()
           | _ \<Rightarrow> Panic)
      | _ \<Rightarrow> Ok ()) (os_exception_successors row)))))"

definition verify_wordcode_function :: "function_code \<Rightarrow> (verify_error, unit) outcome" where
  "verify_wordcode_function code =
    each_o (verify_wordcode_instr code (int (length (fc_instructions code)))) (enumerate 0 (fc_instructions code))"

section \<open>Verification of logical instructions\<close>

definition verify_logical_target ::
  "instruction list \<Rightarrow> nat \<Rightarrow> nat \<Rightarrow> u32 option \<Rightarrow> int \<Rightarrow> (verify_error, unit) outcome" where
  "verify_logical_target is index operand_index absent count =
    (case get_at is index of
       None \<Rightarrow> Panic
     | Some i \<Rightarrow>
         (case get_at (di_operands i) operand_index of
            Some (Imm32 delta) \<Rightarrow>
              if absent = Some delta then Ok ()
              else let target = int index + 1 + sint delta in
                if \<not> (0 \<le> target \<and> target \<le> count) then Err (InvalidControlFlowTarget index target) else Ok ()
          | _ \<Rightarrow> Panic))"

definition verify_logical_instr :: "instruction list \<Rightarrow> int \<Rightarrow> nat \<times> instruction \<Rightarrow> (verify_error, unit) outcome" where
  "verify_logical_instr is count = (\<lambda>(index, i).
    try_o (map_err_o (InvalidOperandShape index) (verify_operand_shape (di_op i) (di_operands i))) (\<lambda>_.
    let row = opcode_schema (di_op i) in
    try_o (each_o (\<lambda>successor. case successor of
        RelativeTarget j _ \<Rightarrow> verify_logical_target is index j None count
      | _ \<Rightarrow> Ok ()) (os_successors row)) (\<lambda>_.
    each_o (\<lambda>successor. case successor of
        OptionalRelativeTarget j _ absent \<Rightarrow> verify_logical_target is index j (Some absent) count
      | RunFinallyHandlersToFloor j \<Rightarrow>
          (case get_at (di_operands i) j of
             Some (Imm32 floor) \<Rightarrow>
               if sint floor < 0 then Err (InvalidControlFlowOperand index j (sint floor)) else Ok ()
           | _ \<Rightarrow> Panic)
      | _ \<Rightarrow> Ok ()) (os_exception_successors row))))"

definition verify_logical_function :: "instruction list \<Rightarrow> (verify_error, unit) outcome" where
  "verify_logical_function is = each_o (verify_logical_instr is (int (length is))) (enumerate 0 is)"

section \<open>Layout\<close>

record function_layout =
  total_bytes :: nat
  layout_byte_pcs :: "nat list"

fun operand_len :: "operand \<Rightarrow> nat" where
  "operand_len (Register _) = 3"
| "operand_len (ConstIndex _) = 5"
| "operand_len (Imm32 _) = 5"

definition checked_add_u32 :: "nat \<Rightarrow> nat \<Rightarrow> (verify_error, nat) outcome" where
  "checked_add_u32 a b = (if u32_max < a + b then Err FunctionTooLarge else Ok (a + b))"

fun operands_len :: "operand list \<Rightarrow> nat \<Rightarrow> (verify_error, nat) outcome" where
  "operands_len [] byte_len = Ok byte_len"
| "operands_len (x # xs) byte_len = try_o (checked_add_u32 byte_len (operand_len x)) (operands_len xs)"

fun layout_loop :: "operand list list \<Rightarrow> nat \<Rightarrow> nat list \<Rightarrow> (verify_error, function_layout) outcome" where
  "layout_loop [] byte_pc pcs = Ok \<lparr>total_bytes = byte_pc, layout_byte_pcs = pcs\<rparr>"
| "layout_loop (xs # rest) byte_pc pcs =
    try_o (operands_len xs 2) (\<lambda>byte_len.
    try_o (checked_add_u32 byte_pc byte_len) (\<lambda>next. layout_loop rest next (pcs @ [byte_pc])))"

definition layout_function :: "instruction list \<Rightarrow> (verify_error, function_layout) outcome" where
  "layout_function is = try_o (verify_logical_function is) (\<lambda>_. layout_loop (map di_operands is) 0 [])"

fun measure_loop :: "function_code \<Rightarrow> winstr list \<Rightarrow> nat \<Rightarrow> nat list \<Rightarrow> (verify_error, function_layout) outcome" where
  "measure_loop code [] byte_pc pcs = Ok \<lparr>total_bytes = byte_pc, layout_byte_pcs = pcs\<rparr>"
| "measure_loop code (i # rest) byte_pc pcs =
    try_o (operand_view code i) (\<lambda>xs.
    try_o (operands_len xs 2) (\<lambda>byte_len.
    try_o (checked_add_u32 byte_pc byte_len) (\<lambda>next. measure_loop code rest next (pcs @ [byte_pc]))))"

definition measure_wordcode_function :: "function_code \<Rightarrow> (verify_error, function_layout) outcome" where
  "measure_wordcode_function code = measure_loop code (fc_instructions code) 0 []"

definition layout_wordcode_function :: "function_code \<Rightarrow> (verify_error, function_layout) outcome" where
  "layout_wordcode_function code = try_o (verify_wordcode_function code) (\<lambda>_. measure_wordcode_function code)"

section \<open>Writing\<close>

definition OPERAND_KIND_REGISTER :: u8 where "OPERAND_KIND_REGISTER = 0"

definition OPERAND_KIND_CONST_INDEX :: u8 where "OPERAND_KIND_CONST_INDEX = 1"

definition OPERAND_KIND_IMM32 :: u8 where "OPERAND_KIND_IMM32 = 2"

fun position :: "('a \<Rightarrow> bool) \<Rightarrow> 'a list \<Rightarrow> nat option" where
  "position f [] = None"
| "position f (x # xs) = (if f x then Some 0 else map_option Suc (position f xs))"

definition op_to_byte :: "op \<Rightarrow> u8 option" where
  "op_to_byte op = map_option of_nat (position (\<lambda>(candidate, _). candidate = op) OP_BYTE_TABLE)"

definition op_from_byte :: "u8 \<Rightarrow> op option" where
  "op_from_byte b = map_option fst (get_at OP_BYTE_TABLE (unat b))"

definition writer_pc :: "u8 list \<Rightarrow> (verify_error, nat) outcome" where
  "writer_pc bytes = (if u32_max < length bytes then Panic else Ok (length bytes))"

fun write_operand :: "operand \<Rightarrow> u8 list" where
  "write_operand (Register r) = OPERAND_KIND_REGISTER # to_le_bytes_u16 r"
| "write_operand (ConstIndex c) = OPERAND_KIND_CONST_INDEX # to_le_bytes_u32 c"
| "write_operand (Imm32 v) = OPERAND_KIND_IMM32 # to_le_bytes_u32 v"

definition writer_write :: "instruction \<Rightarrow> u8 list \<Rightarrow> (verify_error, u8 list) outcome" where
  "writer_write i bytes =
    try_o (expect_o (op_to_byte (di_op i))) (\<lambda>b.
    if 255 < length (di_operands i) then Panic
    else Ok (bytes @ [b, of_nat (length (di_operands i))] @ concat (map write_operand (di_operands i))))"

definition branch_imm32_operand_slots :: "op \<Rightarrow> nat list" where
  "branch_imm32_operand_slots op =
    (if op \<in> {''Jump'', ''JumpIfTrue'', ''JumpIfFalse'', ''JumpIfNullish'', ''JumpViaFinally''} then [0]
     else if op = ''EnterTry'' then [0, 1]
     else [])"

record jump_fixup =
  jf_jump_idx :: nat
  jf_jump_byte_pc :: nat
  jf_imm32_offset :: nat

text \<open>The length of the buffer is cast to \<open>u32\<close> without a check here; \<open>writer_pc\<close> checks it between
  instructions and at the end.\<close>

fun write_operands :: "op \<Rightarrow> nat \<Rightarrow> nat \<Rightarrow> (nat \<times> operand) list \<Rightarrow> u8 list \<Rightarrow> jump_fixup list
    \<Rightarrow> (verify_error, u8 list \<times> jump_fixup list) outcome" where
  "write_operands op jump_idx jump_pc [] bytes fixups = Ok (bytes, fixups)"
| "write_operands op jump_idx jump_pc ((j, x) # rest) bytes fixups =
    (let start = length bytes mod 2 ^ 32; bytes = bytes @ write_operand x in
     if j \<in> set (branch_imm32_operand_slots op) then
       (if operand_kind_of x \<noteq> KImm32 then Panic
        else write_operands op jump_idx jump_pc rest bytes
          (fixups @ [\<lparr>jf_jump_idx = jump_idx, jf_jump_byte_pc = jump_pc, jf_imm32_offset = (start + 1) mod 2 ^ 32\<rparr>]))
     else write_operands op jump_idx jump_pc rest bytes fixups)"

definition write_instruction :: "instruction \<Rightarrow> nat \<Rightarrow> nat \<Rightarrow> u8 list \<Rightarrow> jump_fixup list
    \<Rightarrow> (verify_error, u8 list \<times> jump_fixup list) outcome" where
  "write_instruction i jump_idx jump_pc bytes fixups =
    try_o (expect_o (op_to_byte (di_op i))) (\<lambda>b.
    if 255 < length (di_operands i) then Panic
    else write_operands (di_op i) jump_idx jump_pc (enumerate 0 (di_operands i))
      (bytes @ [b, of_nat (length (di_operands i))]) fixups)"

definition resolve_jump_fixup :: "nat list \<Rightarrow> nat \<Rightarrow> nat \<Rightarrow> jump_fixup \<Rightarrow> u8 list \<Rightarrow> (verify_error, u8 list) outcome" where
  "resolve_jump_fixup byte_pcs size_total count fx bytes =
    (let start = jf_imm32_offset fx in
     if length bytes < start + 4 then Panic
     else let raw = from_le_bytes_u32 (take 4 (drop start bytes)) in
       if raw = NO_HANDLER_OFFSET then Ok bytes
       else let target = int (jf_jump_idx fx) + 1 + sint raw in
         if target < 0 then Panic
         else try_o (if nat target = count then Ok size_total else expect_o (get_at byte_pcs (nat target))) (\<lambda>target_pc.
           let delta = int target_pc - (int (jf_jump_byte_pc fx) + 1) in
           if delta < - (2 ^ 31) \<or> 2 ^ 31 \<le> delta then Panic
           else Ok (take start bytes @ to_le_bytes_u32 (word_of_int delta) @ drop (start + 4) bytes)))"

record encoded_function =
  ef_code :: "u8 list"
  ef_byte_pcs :: "nat list"

fun encode_loop :: "instruction list \<Rightarrow> nat \<Rightarrow> u8 list \<Rightarrow> nat list \<Rightarrow> jump_fixup list
    \<Rightarrow> (verify_error, u8 list \<times> nat list \<times> jump_fixup list) outcome" where
  "encode_loop [] idx bytes pcs fixups = Ok (bytes, pcs, fixups)"
| "encode_loop (i # is) idx bytes pcs fixups =
    try_o (writer_pc bytes) (\<lambda>byte_pc.
    try_o (write_instruction i idx byte_pc bytes fixups) (\<lambda>(bytes, fixups).
    encode_loop is (Suc idx) bytes (pcs @ [byte_pc]) fixups))"

fun resolve_loop :: "nat list \<Rightarrow> nat \<Rightarrow> nat \<Rightarrow> jump_fixup list \<Rightarrow> u8 list \<Rightarrow> (verify_error, u8 list) outcome" where
  "resolve_loop byte_pcs size_total count [] bytes = Ok bytes"
| "resolve_loop byte_pcs size_total count (fx # fxs) bytes =
    try_o (resolve_jump_fixup byte_pcs size_total count fx bytes) (resolve_loop byte_pcs size_total count fxs)"

definition try_encode_function :: "instruction list \<Rightarrow> (verify_error, encoded_function) outcome" where
  "try_encode_function is =
    try_o (verify_logical_function is) (\<lambda>_.
    try_o (encode_loop is 0 [] [] []) (\<lambda>(bytes, pcs, fixups).
    try_o (writer_pc bytes) (\<lambda>size_total.
    try_o (resolve_loop pcs size_total (length is) fixups bytes) (\<lambda>bytes.
    Ok \<lparr>ef_code = bytes, ef_byte_pcs = pcs\<rparr>))))"

definition encode_function :: "instruction list \<Rightarrow> (verify_error, encoded_function) outcome" where
  "encode_function is = (case try_encode_function is of Ok ef \<Rightarrow> Ok ef | _ \<Rightarrow> Panic)"

section \<open>Source spans\<close>

record span_entry =
  se_pc :: nat
  se_span :: "nat \<times> nat"

definition translate_spans_to_byte_pcs :: "span_entry list \<Rightarrow> nat list \<Rightarrow> nat \<Rightarrow> span_entry list" where
  "translate_spans_to_byte_pcs spans byte_pcs size_total =
    map (\<lambda>e. \<lparr>se_pc = (case get_at byte_pcs (se_pc e) of Some pc \<Rightarrow> pc | None \<Rightarrow> size_total), se_span = se_span e\<rparr>) spans"

section \<open>Reading\<close>

definition take_n :: "nat \<Rightarrow> u8 list \<Rightarrow> nat \<Rightarrow> (decode_error, u8 list) outcome" where
  "take_n n code pc = (if pc + n \<le> length code then Ok (take n (drop pc code)) else Err (UnexpectedEnd pc))"

definition decode_operand :: "u8 list \<Rightarrow> nat \<Rightarrow> (decode_error, operand \<times> nat) outcome" where
  "decode_operand code pc =
    try_o (ok_or_o (get_at code pc) (UnexpectedEnd pc)) (\<lambda>kind.
    if kind = OPERAND_KIND_REGISTER then
      try_o (take_n 2 code (pc + 1)) (\<lambda>bytes. Ok (Register (from_le_bytes_u16 bytes), pc + 3))
    else if kind = OPERAND_KIND_CONST_INDEX then
      try_o (take_n 4 code (pc + 1)) (\<lambda>bytes. Ok (ConstIndex (from_le_bytes_u32 bytes), pc + 5))
    else if kind = OPERAND_KIND_IMM32 then
      try_o (take_n 4 code (pc + 1)) (\<lambda>bytes. Ok (Imm32 (from_le_bytes_u32 bytes), pc + 5))
    else Err (UnknownOperandKind pc kind))"

fun decode_operands :: "u8 list \<Rightarrow> nat \<Rightarrow> nat \<Rightarrow> (decode_error, operand list \<times> nat) outcome" where
  "decode_operands code 0 cursor = Ok ([], cursor)"
| "decode_operands code (Suc n) cursor =
    try_o (decode_operand code cursor) (\<lambda>(x, next).
    try_o (decode_operands code n next) (\<lambda>(xs, cursor). Ok (x # xs, cursor)))"

definition decode_instruction :: "u8 list \<Rightarrow> nat \<Rightarrow> (decode_error, instruction \<times> nat) outcome" where
  "decode_instruction code pc =
    try_o (ok_or_o (get_at code pc) (UnexpectedEnd pc)) (\<lambda>opcode_byte.
    try_o (ok_or_o (op_from_byte opcode_byte) (UnknownOpcode pc opcode_byte)) (\<lambda>op.
    try_o (ok_or_o (get_at code (pc + 1)) (UnexpectedEnd (pc + 1))) (\<lambda>operand_count.
    try_o (decode_operands code (unat operand_count) (pc + 2)) (\<lambda>(operands, cursor).
    if u32_max < pc then Panic
    else try_o (map_err_o (DecodedOperandShape pc) (verify_operand_shape op operands)) (\<lambda>_.
      Ok (\<lparr>di_pc = pc, di_op = op, di_operands = operands\<rparr>, cursor))))))"

lemma decode_operand_advances: "decode_operand code pc = Ok (x, next) \<Longrightarrow> pc < next"
  by (auto simp: decode_operand_def split: if_splits)

lemma decode_operands_advances: "decode_operands code n cursor = Ok (xs, next) \<Longrightarrow> cursor \<le> next"
proof (induction n arbitrary: cursor xs)
  case (Suc n)
  then obtain x c ys where "decode_operand code cursor = Ok (x, c)" "decode_operands code n c = Ok (ys, next)" by auto
  then show ?case using decode_operand_advances Suc.IH by fastforce
qed simp

lemma decode_instruction_advances: "decode_instruction code pc = Ok (i, next) \<Longrightarrow> pc < next"
  by (auto simp: decode_instruction_def split: if_splits dest!: decode_operands_advances)

function decode_loop :: "u8 list \<Rightarrow> nat \<Rightarrow> (decode_error, instruction list) outcome" where
  "decode_loop code pc =
    (if pc < length code then
       try_o (decode_instruction code pc) (\<lambda>(i, next).
       try_o (decode_loop code next) (\<lambda>is. Ok (i # is)))
     else Ok [])"
  by auto
termination
  by (relation "measure (\<lambda>(code, pc). length code - pc)") (auto dest!: decode_instruction_advances)

declare decode_loop.simps [simp del]

text \<open>\<open>binary_search\<close> of a slice, reduced to whether the value was found.\<close>

function search_from :: "nat list \<Rightarrow> nat \<Rightarrow> nat \<Rightarrow> nat \<Rightarrow> bool" where
  "search_from xs x lo hi =
    (if lo < hi then
       let mid = (lo + hi) div 2 in
       if xs ! mid = x then True
       else if xs ! mid < x then search_from xs x (Suc mid) hi
       else search_from xs x lo mid
     else False)"
  by auto
termination
  by (relation "measure (\<lambda>(xs, x, lo, hi). hi - lo)") auto

declare search_from.simps [simp del]

definition binary_search :: "nat list \<Rightarrow> nat \<Rightarrow> bool" where
  "binary_search xs x = search_from xs x 0 (length xs)"

definition verify_relative_target ::
  "instruction \<Rightarrow> nat \<Rightarrow> relative_target_base \<Rightarrow> u32 option \<Rightarrow> nat list \<Rightarrow> nat \<Rightarrow> (decode_error, unit) outcome" where
  "verify_relative_target i operand_index base absent boundaries code_len =
    (case get_at (di_operands i) operand_index of
       Some (Imm32 delta) \<Rightarrow>
         if absent = Some delta then Ok ()
         else
           let base = (case base of AfterOpcode \<Rightarrow> int (di_pc i) + 1); target = base + sint delta;
             valid = (target = int code_len
               \<or> (0 \<le> target \<and> target < int code_len \<and> binary_search boundaries (nat (target mod 2 ^ 32))))
           in if \<not> valid then Err (DecodedControlFlowTarget (di_pc i) target) else Ok ()
     | _ \<Rightarrow> Panic)"

definition verify_decoded_instr :: "nat list \<Rightarrow> nat \<Rightarrow> instruction \<Rightarrow> (decode_error, unit) outcome" where
  "verify_decoded_instr boundaries code_len i =
    (let row = opcode_schema (di_op i) in
    try_o (each_o (\<lambda>successor. case successor of
        RelativeTarget j base \<Rightarrow> verify_relative_target i j base None boundaries code_len
      | _ \<Rightarrow> Ok ()) (os_successors row)) (\<lambda>_.
    each_o (\<lambda>successor. case successor of
        OptionalRelativeTarget j base absent \<Rightarrow> verify_relative_target i j base (Some absent) boundaries code_len
      | RunFinallyHandlersToFloor j \<Rightarrow>
          (case get_at (di_operands i) j of
             Some (Imm32 floor) \<Rightarrow>
               if sint floor < 0 then Err (DecodedControlFlowOperand (di_pc i) j (sint floor)) else Ok ()
           | _ \<Rightarrow> Panic)
      | _ \<Rightarrow> Ok ()) (os_exception_successors row)))"

definition verify_control_flow_targets :: "instruction list \<Rightarrow> nat \<Rightarrow> (decode_error, unit) outcome" where
  "verify_control_flow_targets is code_len = each_o (verify_decoded_instr (map di_pc is) code_len) is"

definition decode_function :: "u8 list \<Rightarrow> (decode_error, instruction list) outcome" where
  "decode_function code =
    try_o (decode_loop code 0) (\<lambda>is.
    try_o (verify_control_flow_targets is (length code)) (\<lambda>_. Ok is))"

end
