(* ===== verification/Bc_Roundtrip.thy ===== *)
theory Bc_Roundtrip
  imports Bc_Encoding
begin

text \<open>
  Correctness of the wire format: what the encoder writes, the decoder reads back, with every branch
  operand rewritten from an instruction delta to the byte delta of the same target.
\<close>

section \<open>Opcodes\<close>

lemma position_Some: "position f xs = Some i \<Longrightarrow> i < length xs \<and> f (xs ! i)"
  by (induction xs arbitrary: i) (auto split: if_splits)

lemma position_exists: "x \<in> set xs \<Longrightarrow> f x \<Longrightarrow> \<exists>i. position f xs = Some i"
  by (induction xs) auto

lemma op_byte_round_trip:
  assumes "is_op op"
  shows "\<exists>b. op_to_byte op = Some b \<and> op_from_byte b = Some op"
proof -
  obtain b where "(op, b) \<in> set OP_BYTE_TABLE" using assms by (auto simp: is_op_def)
  then obtain i where i: "position (\<lambda>(candidate, _). candidate = op) OP_BYTE_TABLE = Some i"
    using position_exists [of _ _ "\<lambda>(candidate, _). candidate = op"] by fastforce
  then have at: "i < 178" "fst (OP_BYTE_TABLE ! i) = op" using position_Some [OF i] by (auto split: prod.splits)
  have "unat (of_nat i :: u8) = i" using at(1) by (simp add: unsigned_of_nat take_bit_nat_eq_self)
  then show ?thesis using i at by (simp add: op_to_byte_def op_from_byte_def get_at_def) (metis prod.collapse)
qed

lemma op_from_byte_is_op: "op_from_byte b = Some op \<Longrightarrow> is_op op"
  by (auto simp: op_from_byte_def is_op_def get_at_def split: if_splits) (metis fst_conv image_eqI nth_mem table_length)

section \<open>Bytes of a program\<close>

definition opcode_byte :: "op \<Rightarrow> u8" where
  "opcode_byte op = the (op_to_byte op)"

lemma opcode_byte [simp]: "is_op op \<Longrightarrow> op_to_byte op = Some (opcode_byte op) \<and> op_from_byte (opcode_byte op) = Some op"
  using op_byte_round_trip [of op] by (auto simp: opcode_byte_def)

definition operands_bytes :: "operand list \<Rightarrow> u8 list" where
  "operands_bytes xs = concat (map write_operand xs)"

definition instr_bytes :: "op \<times> operand list \<Rightarrow> u8 list" where
  "instr_bytes e = opcode_byte (fst e) # of_nat (length (snd e)) # operands_bytes (snd e)"

definition program_bytes :: "abs_program \<Rightarrow> u8 list" where
  "program_bytes p = concat (map instr_bytes p)"

definition instr_size :: "op \<times> operand list \<Rightarrow> nat" where
  "instr_size e = 2 + sum_list (map operand_len (snd e))"

definition byte_pc :: "abs_program \<Rightarrow> nat \<Rightarrow> nat" where
  "byte_pc p k = sum_list (map instr_size (take k p))"

lemma write_operand_length [simp]: "length (write_operand x) = operand_len x"
  by (cases x) simp_all

lemma operands_bytes_simps [simp]:
  "operands_bytes [] = []" "operands_bytes (x # xs) = write_operand x @ operands_bytes xs"
  "operands_bytes (xs @ ys) = operands_bytes xs @ operands_bytes ys"
  by (simp_all add: operands_bytes_def)

lemma program_bytes_simps [simp]:
  "program_bytes [] = []" "program_bytes (e # p) = instr_bytes e @ program_bytes p"
  "program_bytes (p @ q) = program_bytes p @ program_bytes q"
  by (simp_all add: program_bytes_def)

lemma operands_bytes_length: "length (operands_bytes xs) = sum_list (map operand_len xs)"
  by (induction xs) simp_all

lemma instr_bytes_length [simp]: "length (instr_bytes e) = instr_size e"
  by (simp add: instr_bytes_def instr_size_def operands_bytes_length)

lemma program_bytes_length: "length (program_bytes p) = sum_list (map instr_size p)"
  by (induction p) simp_all

lemma program_bytes_take_length: "length (program_bytes (take k p)) = byte_pc p k"
  by (simp add: program_bytes_length byte_pc_def)

lemma byte_pc_simps [simp]: "byte_pc p 0 = 0" "k < length p \<Longrightarrow> byte_pc p (Suc k) = byte_pc p k + instr_size (p ! k)"
  by (simp_all add: byte_pc_def take_Suc_conv_app_nth)

lemma byte_pc_all: "byte_pc p (length p) = length (program_bytes p)"
  by (simp add: byte_pc_def program_bytes_length)

lemma byte_pc_mono: "i \<le> j \<Longrightarrow> byte_pc p i \<le> byte_pc p j"
proof -
  assume "i \<le> j"
  then have "take j p = take i p @ take (j - i) (drop i p)" by (metis le_add_diff_inverse take_add)
  then show ?thesis by (simp add: byte_pc_def)
qed

lemma byte_pc_step: "k < length p \<Longrightarrow> byte_pc p k + 2 \<le> byte_pc p (Suc k)"
  by (simp add: instr_size_def)

lemma byte_pc_strict: "i < j \<Longrightarrow> j \<le> length p \<Longrightarrow> byte_pc p i < byte_pc p j"
  using byte_pc_step [of i p] byte_pc_mono [of "Suc i" j p] by linarith

lemma byte_pc_le_bytes: "byte_pc p k \<le> length (program_bytes p)"
  using byte_pc_mono [of k "max k (length p)" p] by (simp add: byte_pc_def program_bytes_length max_def split: if_splits)

section \<open>Reading back\<close>

lemma get_at_append_length [simp]: "get_at (pre @ x # post) (length pre) = Some x"
  by simp

lemma take_n_append: "length ws = n \<Longrightarrow> pc = length pre \<Longrightarrow> take_n n (pre @ ws @ post) pc = Ok ws"
  by (simp add: take_n_def)

lemma decode_operand_write:
  "decode_operand (pre @ write_operand x @ post) (length pre) = Ok (x, length pre + operand_len x)"
proof (cases x)
  case (Register r)
  have "take_n 2 (pre @ OPERAND_KIND_REGISTER # to_le_bytes_u16 r @ post) (Suc (length pre)) = Ok (to_le_bytes_u16 r)"
    using take_n_append [of "to_le_bytes_u16 r" 2 "Suc (length pre)" "pre @ [OPERAND_KIND_REGISTER]" post] by simp
  then show ?thesis using Register by (simp add: decode_operand_def)
next
  case (ConstIndex c)
  have "take_n 4 (pre @ OPERAND_KIND_CONST_INDEX # to_le_bytes_u32 c @ post) (Suc (length pre)) = Ok (to_le_bytes_u32 c)"
    using take_n_append [of "to_le_bytes_u32 c" 4 "Suc (length pre)" "pre @ [OPERAND_KIND_CONST_INDEX]" post] by simp
  then show ?thesis
    using ConstIndex by (simp add: decode_operand_def OPERAND_KIND_REGISTER_def OPERAND_KIND_CONST_INDEX_def)
next
  case (Imm32 v)
  have "take_n 4 (pre @ OPERAND_KIND_IMM32 # to_le_bytes_u32 v @ post) (Suc (length pre)) = Ok (to_le_bytes_u32 v)"
    using take_n_append [of "to_le_bytes_u32 v" 4 "Suc (length pre)" "pre @ [OPERAND_KIND_IMM32]" post] by simp
  then show ?thesis
    using Imm32 by (simp add: decode_operand_def OPERAND_KIND_REGISTER_def OPERAND_KIND_CONST_INDEX_def OPERAND_KIND_IMM32_def)
qed

lemma decode_operands_write:
  "decode_operands (pre @ operands_bytes xs @ post) (length xs) (length pre)
    = Ok (xs, length pre + sum_list (map operand_len xs))"
proof (induction xs arbitrary: pre)
  case (Cons x xs)
  have "decode_operand (pre @ operands_bytes (x # xs) @ post) (length pre) = Ok (x, length pre + operand_len x)"
    using decode_operand_write [of pre x "operands_bytes xs @ post"] by simp
  moreover have "decode_operands (pre @ operands_bytes (x # xs) @ post) (length xs) (length pre + operand_len x)
      = Ok (xs, length pre + operand_len x + sum_list (map operand_len xs))"
    using Cons.IH [of "pre @ write_operand x"] by simp
  ultimately show ?case by simp
qed simp

lemma decode_instruction_write:
  assumes "is_op op" and "verify_operand_shape op xs = Ok ()" and "length xs \<le> 255" and "length pre \<le> u32_max"
  shows "decode_instruction (pre @ instr_bytes (op, xs) @ post) (length pre)
    = Ok (\<lparr>di_pc = length pre, di_op = op, di_operands = xs\<rparr>, length pre + instr_size (op, xs))"
proof -
  let ?n = "of_nat (length xs) :: u8" and ?code = "pre @ instr_bytes (op, xs) @ post"
  have n: "unat ?n = length xs" using assms(3) by (simp add: unsigned_of_nat take_bit_nat_eq_self)
  have at: "get_at ?code (length pre) = Some (opcode_byte op)" "get_at ?code (length pre + 1) = Some ?n"
    by (simp_all add: instr_bytes_def get_at_def nth_append)
  have "decode_operands ?code (length xs) (length pre + 2) = Ok (xs, length pre + 2 + sum_list (map operand_len xs))"
    using decode_operands_write [of "pre @ [opcode_byte op, ?n]" xs post] by (simp add: instr_bytes_def)
  then show ?thesis
    unfolding decode_instruction_def at using assms n by (simp add: instr_size_def)
qed

lemma decode_loop_write:
  assumes "verified p" and "\<forall>e \<in> set p. length (snd e) \<le> 255" and "length pre + length (program_bytes p) \<le> Suc u32_max"
  shows "decode_loop (pre @ program_bytes p) (length pre)
    = Ok (map (\<lambda>k. \<lparr>di_pc = length pre + byte_pc p k, di_op = fst (p ! k), di_operands = snd (p ! k)\<rparr>) [0..<length p])"
  using assms
proof (induction p arbitrary: pre)
  case Nil
  then show ?case by (simp add: decode_loop.simps)
next
  case (Cons e p)
  let ?pre = "pre @ instr_bytes e"
  have e: "is_op (fst e)" "verify_operand_shape (fst e) (snd e) = Ok ()" "length (snd e) \<le> 255" "length pre \<le> u32_max"
    using Cons.prems by (simp_all add: verified_def instr_size_def)
  have first: "decode_instruction (pre @ program_bytes (e # p)) (length pre)
      = Ok (\<lparr>di_pc = length pre, di_op = fst e, di_operands = snd e\<rparr>, length ?pre)"
    using decode_instruction_write [OF e, of "program_bytes p"] by simp
  have rest: "decode_loop (pre @ program_bytes (e # p)) (length ?pre)
      = Ok (map (\<lambda>k. \<lparr>di_pc = length ?pre + byte_pc p k, di_op = fst (p ! k), di_operands = snd (p ! k)\<rparr>) [0..<length p])"
    using Cons.IH [of ?pre] Cons.prems by (simp add: verified_def)
  let ?f = "\<lambda>k. \<lparr>di_pc = length pre + byte_pc (e # p) k, di_op = fst ((e # p) ! k), di_operands = snd ((e # p) ! k)\<rparr>"
  have "map ?f [0..<Suc (length p)] = ?f 0 # map (\<lambda>k. ?f (Suc k)) [0..<length p]"
    by (simp add: upt_conv_Cons map_Suc_upt [symmetric] del: upt_Suc)
  moreover have "?f (Suc k) = \<lparr>di_pc = length ?pre + byte_pc p k, di_op = fst (p ! k), di_operands = snd (p ! k)\<rparr>" for k
    by (simp add: byte_pc_def)
  moreover have "length pre < length (pre @ program_bytes (e # p))" by (simp add: instr_size_def)
  ultimately show ?case
    by (subst decode_loop.simps) (simp only: first rest try_o.simps prod.case if_True list.size(4) add_0 One_nat_def
        add_Suc_right add_0_right byte_pc_simps(1) nth_Cons_0)
qed

section \<open>Branch slots\<close>

lemma slots_cases:
  obtains "branch_imm32_operand_slots op = []" | "branch_imm32_operand_slots op = [0]" | "branch_imm32_operand_slots op = [0, 1]"
  unfolding branch_imm32_operand_slots_def by presburger

text \<open>The slots the encoder rewrites are exactly the target operands of the schema.\<close>

lemma default_successors: "RelativeTarget j base \<notin> set (case cf of CF_Fallthrough \<Rightarrow> [Fallthrough] | CF_Call \<Rightarrow> [Fallthrough] | _ \<Rightarrow> [])"
  by (cases cf) simp_all

lemma target_if: "RelativeTarget j base \<notin> set a \<Longrightarrow> RelativeTarget j base \<notin> set b \<Longrightarrow> RelativeTarget j base \<notin> set (if c then a else b)"
  by simp

lemma relative_target_iff:
  "RelativeTarget j base \<in> set (successor_shape op) \<longleftrightarrow>
    op \<in> {''Jump'', ''JumpIfTrue'', ''JumpIfFalse'', ''JumpIfNullish'', ''JumpViaFinally''} \<and> j = 0 \<and> base = AfterOpcode"
proof (cases "op \<in> {''Jump'', ''JumpIfTrue'', ''JumpIfFalse'', ''JumpIfNullish'', ''JumpViaFinally''}")
  case True
  then have "RelativeTarget j base \<in> set (successor_shape op) \<longleftrightarrow> j = 0 \<and> base = AfterOpcode"
    by (elim insertE emptyE; hypsubst; simp add: successor_shape_def)
  then show ?thesis using True by blast
next
  case False
  then have "op \<noteq> ''Jump''" "op \<notin> {''JumpIfTrue'', ''JumpIfFalse'', ''JumpIfNullish''}" "op \<noteq> ''JumpViaFinally''" by simp_all
  then have "RelativeTarget j base \<notin> set (successor_shape op)"
    unfolding successor_shape_def by (simp only: if_False) (intro target_if default_successors; simp)
  then show ?thesis using False by blast
qed

lemma optional_target_iff:
  "OptionalRelativeTarget j base absent \<in> set (exception_successor_shape op) \<longleftrightarrow>
    op = ''EnterTry'' \<and> j \<in> {0, 1} \<and> base = AfterOpcode \<and> absent = NO_HANDLER_OFFSET"
  unfolding exception_successor_shape_def by (simp split: if_split) blast

lemma finally_floor_iff:
  "RunFinallyHandlersToFloor j \<in> set (exception_successor_shape op) \<longleftrightarrow> op = ''JumpViaFinally'' \<and> j = 1"
  unfolding exception_successor_shape_def by (simp split: if_split)

lemma slots_are_targets:
  "j \<in> set (branch_imm32_operand_slots op) \<longleftrightarrow>
    RelativeTarget j AfterOpcode \<in> set (successor_shape op)
    \<or> OptionalRelativeTarget j AfterOpcode NO_HANDLER_OFFSET \<in> set (exception_successor_shape op)"
  unfolding relative_target_iff optional_target_iff by (auto simp: branch_imm32_operand_slots_def)

section \<open>The first pass\<close>

fun slot_fixups :: "op \<Rightarrow> nat \<Rightarrow> nat \<Rightarrow> nat \<Rightarrow> nat \<Rightarrow> operand list \<Rightarrow> jump_fixup list" where
  "slot_fixups op idx pc j start [] = []"
| "slot_fixups op idx pc j start (x # xs) =
    (if j \<in> set (branch_imm32_operand_slots op)
     then [\<lparr>jf_jump_idx = idx, jf_jump_byte_pc = pc, jf_imm32_offset = start + 1\<rparr>] else [])
    @ slot_fixups op idx pc (Suc j) (start + operand_len x) xs"

definition slots_imm32 :: "op \<times> operand list \<Rightarrow> bool" where
  "slots_imm32 e \<longleftrightarrow> (\<forall>j \<in> set (branch_imm32_operand_slots (fst e)). j < length (snd e) \<and> operand_kind_of (snd e ! j) = KImm32)"

lemma write_operands_bytes:
  assumes "length bytes + sum_list (map operand_len xs) \<le> u32_max"
    and "\<And>i. i < length xs \<Longrightarrow> j + i \<in> set (branch_imm32_operand_slots op) \<Longrightarrow> operand_kind_of (xs ! i) = KImm32"
  shows "write_operands op idx pc (enumerate j xs) bytes fixups
    = Ok (bytes @ operands_bytes xs, fixups @ slot_fixups op idx pc j (length bytes) xs)"
  using assms
proof (induction xs arbitrary: j bytes fixups)
  case (Cons x xs)
  have "operand_len x > 0" by (cases x) simp_all
  then have "length bytes mod 2 ^ 32 = length bytes" "(length bytes + 1) mod 2 ^ 32 = length bytes + 1"
    using Cons.prems(1) by (simp_all add: u32_max_def)
  moreover have "j \<in> set (branch_imm32_operand_slots op) \<Longrightarrow> operand_kind_of x = KImm32" using Cons.prems(2) [of 0] by simp
  moreover have "write_operands op idx pc (enumerate (Suc j) xs) (bytes @ write_operand x) fx
      = Ok ((bytes @ write_operand x) @ operands_bytes xs, fx @ slot_fixups op idx pc (Suc j) (length (bytes @ write_operand x)) xs)" for fx
    using Cons.prems(1) Cons.prems(2) [of "Suc i" for i] by (intro Cons.IH) simp_all
  ultimately show ?case by (simp add: Let_def)
qed simp

lemma write_instruction_bytes:
  assumes "is_op (di_op i)" and "length (di_operands i) \<le> 255" and "slots_imm32 (di_op i, di_operands i)"
    and "length bytes + instr_size (di_op i, di_operands i) \<le> u32_max"
  shows "write_instruction i idx pc bytes fixups = Ok (bytes @ instr_bytes (di_op i, di_operands i),
    fixups @ slot_fixups (di_op i) idx pc 0 (length bytes + 2) (di_operands i))"
proof -
  let ?b = "bytes @ [opcode_byte (di_op i), of_nat (length (di_operands i))]"
  have "write_operands (di_op i) idx pc (enumerate 0 (di_operands i)) ?b fixups
      = Ok (?b @ operands_bytes (di_operands i), fixups @ slot_fixups (di_op i) idx pc 0 (length ?b) (di_operands i))"
    using assms by (intro write_operands_bytes) (auto simp: instr_size_def slots_imm32_def)
  then show ?thesis using assms by (simp add: write_instruction_def instr_bytes_def)
qed

definition all_fixups :: "abs_program \<Rightarrow> nat \<Rightarrow> nat \<Rightarrow> jump_fixup list" where
  "all_fixups p from_idx to_idx = concat (map (\<lambda>k. slot_fixups (fst (p ! k)) k (byte_pc p k) 0 (byte_pc p k + 2) (snd (p ! k))) [from_idx..<to_idx])"

lemma encode_loop_bytes:
  assumes p: "p = entries (pre @ is)" and "\<forall>e \<in> set p. is_op (fst e) \<and> length (snd e) \<le> 255 \<and> slots_imm32 e"
    and "length (program_bytes p) \<le> u32_max"
  shows "encode_loop is (length pre) (program_bytes (entries pre)) (map (byte_pc p) [0..<length pre]) (all_fixups p 0 (length pre))
    = Ok (program_bytes p, map (byte_pc p) [0..<length p], all_fixups p 0 (length p))"
  using assms
proof (induction "is" arbitrary: pre)
  case (Cons i "is")
  let ?n = "length pre" and ?e = "(di_op i, di_operands i)"
  have n: "p ! ?n = ?e" "?n < length p" "byte_pc p ?n = length (program_bytes (entries pre))"
    using Cons.prems(1) by (simp_all add: nth_append byte_pc_def program_bytes_length)
  have e: "is_op (di_op i)" "length (di_operands i) \<le> 255" "slots_imm32 ?e"
    using Cons.prems(1,2) by auto
  have size: "length (program_bytes (entries pre)) + instr_size ?e \<le> u32_max" using Cons.prems(1,3) by simp
  have fix_step: "all_fixups p 0 ?n @ slot_fixups (di_op i) ?n (byte_pc p ?n) 0 (byte_pc p ?n + 2) (di_operands i)
      = all_fixups p 0 (Suc ?n)"
    using n(1) by (simp add: all_fixups_def)
  have "encode_loop is (length (pre @ [i])) (program_bytes (entries (pre @ [i]))) (map (byte_pc p) [0..<length (pre @ [i])])
      (all_fixups p 0 (length (pre @ [i]))) = Ok (program_bytes p, map (byte_pc p) [0..<length p], all_fixups p 0 (length p))"
    using Cons.prems by (intro Cons.IH) simp_all
  then show ?case
    using write_instruction_bytes [OF e size, of ?n "byte_pc p ?n" "all_fixups p 0 ?n"] size n(3) fix_step
    by (simp add: writer_pc_def)
qed simp

section \<open>The second pass\<close>

definition relocate_operand :: "abs_program \<Rightarrow> nat \<Rightarrow> operand \<Rightarrow> operand" where
  "relocate_operand p k x = (case x of
     Imm32 d \<Rightarrow>
       if d = NO_HANDLER_OFFSET then x
       else Imm32 (word_of_int (int (byte_pc p (nat (int k + 1 + sint d))) - (int (byte_pc p k) + 1)))
   | _ \<Rightarrow> x)"

definition relocate_entry :: "abs_program \<Rightarrow> nat \<Rightarrow> op \<times> operand list" where
  "relocate_entry p k = (fst (p ! k),
     map (\<lambda>j. if j \<in> set (branch_imm32_operand_slots (fst (p ! k))) then relocate_operand p k (snd (p ! k) ! j) else snd (p ! k) ! j)
       [0..<length (snd (p ! k))])"

definition relocate :: "abs_program \<Rightarrow> abs_program" where
  "relocate p = map (relocate_entry p) [0..<length p]"

text \<open>A branch operand that names an instruction of the program or its end, or no handler.\<close>

definition target_ok :: "abs_program \<Rightarrow> nat \<Rightarrow> operand \<Rightarrow> bool" where
  "target_ok p k x = (case x of
     Imm32 d \<Rightarrow> d = NO_HANDLER_OFFSET \<or> 0 \<le> int k + 1 + sint d \<and> int k + 1 + sint d \<le> int (length p)
   | _ \<Rightarrow> False)"

lemma resolve_at:
  assumes tgt: "target_ok p k (Imm32 d)" and k: "k < length p" and size: "length (program_bytes p) < 2 ^ 31"
    and start: "length pre = start"
  shows "resolve_jump_fixup (map (byte_pc p) [0..<length p]) (length (program_bytes p)) (length p)
      \<lparr>jf_jump_idx = k, jf_jump_byte_pc = byte_pc p k, jf_imm32_offset = start\<rparr> (pre @ to_le_bytes_u32 d @ post)
    = (case relocate_operand p k (Imm32 d) of Imm32 d' \<Rightarrow> Ok (pre @ to_le_bytes_u32 d' @ post))"
proof (cases "d = NO_HANDLER_OFFSET")
  case True
  then show ?thesis using start by (simp add: resolve_jump_fixup_def relocate_operand_def Let_def)
next
  case False
  let ?t = "int k + 1 + sint d"
  have t: "0 \<le> ?t" "nat ?t \<le> length p" using tgt False by (auto simp: target_ok_def)
  have "byte_pc p (nat ?t) < 2 ^ 31" "byte_pc p k < 2 ^ 31"
    using byte_pc_le_bytes [of p "nat ?t"] byte_pc_le_bytes [of p k] size by linarith+
  then have "- (2 ^ 31) \<le> int (byte_pc p (nat ?t)) - (int (byte_pc p k) + 1)" "int (byte_pc p (nat ?t)) - (int (byte_pc p k) + 1) < 2 ^ 31"
    by simp_all
  moreover have "from_le_bytes_u32 (take 4 (drop start (pre @ to_le_bytes_u32 d @ post))) = d" using start by simp
  moreover have "drop (start + 4) (pre @ to_le_bytes_u32 d @ post) = post" using start by simp
  ultimately show ?thesis
    using False t start
    by (cases "nat ?t = length p") (auto simp: resolve_jump_fixup_def relocate_operand_def byte_pc_all get_at_def Let_def)
qed

lemma slot_fixups_beyond: "\<forall>i \<ge> j. i \<notin> set (branch_imm32_operand_slots op) \<Longrightarrow> slot_fixups op idx pc j start xs = []"
  by (induction xs arbitrary: j start) simp_all

lemma relocate_Imm32:
  obtains d' where "relocate_operand p k (Imm32 d) = Imm32 d'"
  by (cases "d = NO_HANDLER_OFFSET") (auto simp: relocate_operand_def)

lemma resolve_loop_append:
  "resolve_loop pcs t n (fs @ gs) bytes = try_o (resolve_loop pcs t n fs bytes) (resolve_loop pcs t n gs)"
  by (induction fs arbitrary: bytes) (simp_all add: try_o_assoc cong: try_o_cong)

lemma target_ok_Imm32: "target_ok p k x \<Longrightarrow> \<exists>d. x = Imm32 d"
  by (cases x) (simp_all add: target_ok_def)

lemma relocate_entry_one:
  assumes "branch_imm32_operand_slots op = [0]" and "p ! k = (op, x # ys)"
  shows "relocate_entry p k = (op, relocate_operand p k x # ys)"
proof -
  have "[0..<length (x # ys)] = 0 # map Suc [0..<length ys]" by (simp add: upt_conv_Cons map_Suc_upt del: upt_Suc)
  then show ?thesis using assms by (simp add: relocate_entry_def comp_def map_nth del: upt_Suc)
qed

lemma relocate_entry_two:
  assumes "branch_imm32_operand_slots op = [0, 1]" and "p ! k = (op, x # y # ys)"
  shows "relocate_entry p k = (op, relocate_operand p k x # relocate_operand p k y # ys)"
proof -
  have "[0..<length (x # y # ys)] = 0 # 1 # map (\<lambda>i. Suc (Suc i)) [0..<length ys]"
    by (simp add: upt_conv_Cons map_Suc_upt [symmetric] comp_def del: upt_Suc)
  then show ?thesis using assms by (simp add: relocate_entry_def comp_def map_nth del: upt_Suc)
qed

lemma resolve_instr:
  assumes k: "k < length p" and e: "p ! k = (op, xs)" and pre: "length pre = byte_pc p k"
    and slots: "\<forall>j \<in> set (branch_imm32_operand_slots op). j < length xs \<and> target_ok p k (xs ! j)"
    and size: "length (program_bytes p) < 2 ^ 31"
  shows "resolve_loop (map (byte_pc p) [0..<length p]) (length (program_bytes p)) (length p)
      (slot_fixups op k (byte_pc p k) 0 (byte_pc p k + 2) xs) (pre @ instr_bytes (op, xs) @ post)
    = Ok (pre @ instr_bytes (relocate_entry p k) @ post)"
proof -
  let ?resolve = "resolve_loop (map (byte_pc p) [0..<length p]) (length (program_bytes p)) (length p)"
  let ?fixups = "slot_fixups op k (byte_pc p k) 0 (byte_pc p k + 2) xs" and ?bytes = "pre @ instr_bytes (op, xs) @ post"
  show ?thesis
  proof (cases rule: slots_cases [of op])
    case 1
    then have "relocate_entry p k = (op, xs)" using e by (simp add: relocate_entry_def map_nth)
    then show ?thesis using 1 by (simp add: slot_fixups_beyond)
  next
    case 2
    then obtain x ys where xs: "xs = x # ys" and x: "target_ok p k x" using slots by (cases xs) auto
    obtain d where d: "x = Imm32 d" using target_ok_Imm32 [OF x] ..
    obtain d' where d': "relocate_operand p k (Imm32 d) = Imm32 d'" by (rule relocate_Imm32)
    have "relocate_entry p k = (op, Imm32 d' # ys)"
      using relocate_entry_one [OF 2] e xs d d' by simp
    moreover have "?fixups = [\<lparr>jf_jump_idx = k, jf_jump_byte_pc = byte_pc p k, jf_imm32_offset = byte_pc p k + 3\<rparr>]"
      using 2 xs by (simp add: slot_fixups_beyond)
    moreover have "?resolve [\<lparr>jf_jump_idx = k, jf_jump_byte_pc = byte_pc p k, jf_imm32_offset = byte_pc p k + 3\<rparr>] ?bytes
        = Ok (pre @ instr_bytes (op, Imm32 d' # ys) @ post)"
      using resolve_at [OF x [unfolded d] k size, of "pre @ [opcode_byte op, of_nat (length xs), OPERAND_KIND_IMM32]" "byte_pc p k + 3"
          "operands_bytes ys @ post"] pre xs d d' by (simp add: instr_bytes_def)
    ultimately show ?thesis by simp
  next
    case 3
    then obtain x y ys where xs: "xs = x # y # ys" and xy: "target_ok p k x" "target_ok p k y"
      using slots by (cases xs; cases "tl xs") auto
    obtain d c where d: "x = Imm32 d" "y = Imm32 c" using target_ok_Imm32 xy by metis
    obtain d' where d': "relocate_operand p k (Imm32 d) = Imm32 d'" by (rule relocate_Imm32)
    obtain c' where c': "relocate_operand p k (Imm32 c) = Imm32 c'" by (rule relocate_Imm32)
    let ?f = "\<lambda>off. \<lparr>jf_jump_idx = k, jf_jump_byte_pc = byte_pc p k, jf_imm32_offset = byte_pc p k + off\<rparr>"
    have "relocate_entry p k = (op, Imm32 d' # Imm32 c' # ys)"
      using relocate_entry_two [OF 3] e xs d d' c' by simp
    moreover have "?fixups = [?f 3, ?f 8]" using 3 xs d by (simp add: slot_fixups_beyond)
    moreover have "?resolve [?f 3] ?bytes = Ok (pre @ instr_bytes (op, Imm32 d' # Imm32 c # ys) @ post)"
      using resolve_at [OF xy(1) [unfolded d] k size, of "pre @ [opcode_byte op, of_nat (length xs), OPERAND_KIND_IMM32]" "byte_pc p k + 3"
          "operands_bytes (Imm32 c # ys) @ post"] pre xs d d' by (simp add: instr_bytes_def)
    moreover have "?resolve [?f 8] (pre @ instr_bytes (op, Imm32 d' # Imm32 c # ys) @ post)
        = Ok (pre @ instr_bytes (op, Imm32 d' # Imm32 c' # ys) @ post)"
      using resolve_at [OF xy(2) [unfolded d] k size, of "pre @ [opcode_byte op, of_nat (length xs)] @ write_operand (Imm32 d') @ [OPERAND_KIND_IMM32]"
          "byte_pc p k + 8" "operands_bytes ys @ post"] pre xs d c' by (simp add: instr_bytes_def)
    ultimately show ?thesis by simp
  qed
qed

lemma relocate_operand_len: "operand_len (relocate_operand p k x) = operand_len x"
  by (cases x) (simp_all add: relocate_operand_def)

lemma relocate_entry_size: "instr_size (relocate_entry p k) = instr_size (p ! k)"
proof -
  have "map operand_len (snd (relocate_entry p k)) = map operand_len (snd (p ! k))"
    by (rule nth_equalityI) (auto simp: relocate_entry_def relocate_operand_len)
  then show ?thesis by (simp add: instr_size_def)
qed

lemma relocate_length [simp]: "length (relocate p) = length p"
  by (simp add: relocate_def)

lemma relocate_nth: "k < length p \<Longrightarrow> relocate p ! k = relocate_entry p k"
  by (simp add: relocate_def)

lemma relocate_sizes: "map instr_size (relocate p) = map instr_size p"
  by (rule nth_equalityI) (simp_all add: relocate_nth relocate_entry_size)

lemma relocate_byte_pc: "byte_pc (relocate p) k = byte_pc p k"
  by (simp add: byte_pc_def take_map [symmetric] relocate_sizes)

definition targets_ok :: "abs_program \<Rightarrow> bool" where
  "targets_ok p \<longleftrightarrow> (\<forall>k < length p. \<forall>j \<in> set (branch_imm32_operand_slots (fst (p ! k))).
     j < length (snd (p ! k)) \<and> target_ok p k (snd (p ! k) ! j))"

lemma resolve_program:
  assumes "targets_ok p" and "length (program_bytes p) < 2 ^ 31" and "m \<le> length p"
  shows "resolve_loop (map (byte_pc p) [0..<length p]) (length (program_bytes p)) (length p) (all_fixups p 0 m) (program_bytes p)
    = Ok (program_bytes (take m (relocate p) @ drop m p))"
  using assms(3)
proof (induction m)
  case 0
  then show ?case by (simp add: all_fixups_def)
next
  case (Suc m)
  then have m: "m < length p" by simp
  obtain op xs where e: "p ! m = (op, xs)" by force
  let ?pre = "program_bytes (take m (relocate p))" and ?post = "program_bytes (drop (Suc m) p)"
  have pre: "length ?pre = byte_pc p m"
    using program_bytes_take_length [of m "relocate p"] by (simp add: relocate_byte_pc)
  have slots: "\<forall>j \<in> set (branch_imm32_operand_slots op). j < length xs \<and> target_ok p m (xs ! j)"
    using assms(1) m e by (auto simp: targets_ok_def)
  have "program_bytes (take m (relocate p) @ drop m p) = ?pre @ instr_bytes (op, xs) @ ?post"
    using m e by (simp add: Cons_nth_drop_Suc [symmetric])
  moreover have "program_bytes (take (Suc m) (relocate p) @ drop (Suc m) p) = ?pre @ instr_bytes (relocate_entry p m) @ ?post"
    using m by (simp add: take_Suc_conv_app_nth relocate_nth)
  moreover have "all_fixups p 0 (Suc m) = all_fixups p 0 m @ slot_fixups op m (byte_pc p m) 0 (byte_pc p m + 2) xs"
    using e by (simp add: all_fixups_def)
  ultimately show ?case
    using Suc.IH m resolve_instr [OF m e pre slots assms(2), of ?post] by (simp add: resolve_loop_append)
qed

end
