(* ===== verification/Bc_Wire.thy ===== *)
theory Bc_Wire
  imports Bc_Roundtrip
begin

text \<open>
  Whole functions on the wire: what verification establishes, the success of the encoder on verified
  functions, the decoding of what it wrote, the agreement of the layout with the encoding and of the
  two verifiers, and what the decoder guarantees of any byte stream it accepts.
\<close>

section \<open>Binary search\<close>

lemma search_from_correct:
  assumes "sorted_wrt (<) xs" and "hi \<le> length xs"
  shows "search_from xs x lo hi \<longleftrightarrow> (\<exists>i. lo \<le> i \<and> i < hi \<and> xs ! i = x)"
  using assms
proof (induction xs x lo hi rule: search_from.induct)
  case (1 ys x lo hi)
  define mid where "mid = (lo + hi) div 2"
  have step: "search_from ys x lo hi \<longleftrightarrow> lo < hi \<and> (ys ! mid = x
      \<or> ys ! mid < x \<and> search_from ys x (Suc mid) hi \<or> x < ys ! mid \<and> search_from ys x lo mid)"
    unfolding mid_def by (subst search_from.simps) (auto simp: Let_def)
  have range: "lo \<le> mid" "mid < hi" if "lo < hi" using that by (auto simp: mid_def)
  have mono: "i < j" if "ys ! i < ys ! j" "i < length ys" "j < length ys" for i j
    using 1 that by (metis linorder_neqE_nat order_less_imp_not_less order_less_irrefl sorted_wrt_nth_less)
  have right: "search_from ys x (Suc mid) hi \<longleftrightarrow> (\<exists>i. Suc mid \<le> i \<and> i < hi \<and> ys ! i = x)" if "lo < hi" "ys ! mid < x"
    using 1 that by (simp add: mid_def)
  have left: "search_from ys x lo mid \<longleftrightarrow> (\<exists>i. lo \<le> i \<and> i < mid \<and> ys ! i = x)" if "lo < hi" "x < ys ! mid"
    using 1 that range by (simp add: mid_def)
  show ?case
  proof (cases "ys ! mid" x rule: linorder_cases)
    case less
    have "Suc mid \<le> i" if "lo < hi" "ys ! i = x" "i < hi" for i using mono [of mid i] less that range 1(3,4) by simp
    then have "(\<exists>i. lo \<le> i \<and> i < hi \<and> ys ! i = x) \<longleftrightarrow> lo < hi \<and> (\<exists>i. Suc mid \<le> i \<and> i < hi \<and> ys ! i = x)"
      using range by (metis Suc_leD le_less_trans le_trans)
    then show ?thesis unfolding step using less right by auto
  next
    case equal
    then show ?thesis unfolding step using range by auto
  next
    case greater
    have "i < mid" if "lo < hi" "ys ! i = x" "i < hi" for i using mono [of i mid] greater that range 1(3,4) by simp
    then have "(\<exists>i. lo \<le> i \<and> i < hi \<and> ys ! i = x) \<longleftrightarrow> lo < hi \<and> (\<exists>i. lo \<le> i \<and> i < mid \<and> ys ! i = x)"
      using range by (metis le_less_trans less_trans)
    then show ?thesis unfolding step using greater left by auto
  qed
qed

lemma binary_search_correct: "sorted_wrt (<) xs \<Longrightarrow> binary_search xs x \<longleftrightarrow> x \<in> set xs"
  unfolding binary_search_def by (subst search_from_correct) (auto simp: in_set_conv_nth)

section \<open>What verification establishes\<close>

lemma verify_specs_from_kinds:
  "map operand_kind_of xs = map operand_kind_of ys \<Longrightarrow> verify_specs_from xs k specs base = verify_specs_from ys k specs base"
proof (induction xs arbitrary: ys k)
  case (Cons x xs)
  then show ?case by (cases ys) (simp_all add: Let_def)
qed simp

text \<open>Operand lists of the same kinds that agree on the count of a variadic opcode verify alike.\<close>

definition same_shape :: "op \<Rightarrow> operand list \<Rightarrow> operand list \<Rightarrow> bool" where
  "same_shape op xs ys \<longleftrightarrow> map operand_kind_of xs = map operand_kind_of ys
    \<and> (\<forall>k t c. shape_variadic (operand_shape op) = Some (k, t) \<longrightarrow> get_at xs k = Some (ConstIndex c) \<longrightarrow> get_at ys k = Some (ConstIndex c))"

lemma same_shape_verify:
  assumes "same_shape op xs ys" and "is_op op" and "verify_operand_shape op xs = Ok ()"
  shows "verify_operand_shape op ys = Ok ()"
proof -
  let ?s = "operand_shape op" and ?n = "length (shape_prefix (operand_shape op))"
  have len: "length ys = length xs" using assms(1) by (metis length_map same_shape_def)
  have kinds: "map operand_kind_of (take ?n xs) = map operand_kind_of (take ?n ys)"
    "map operand_kind_of (drop ?n xs) = map operand_kind_of (drop ?n ys)"
    using assms(1) unfolding same_shape_def by (metis take_map, metis drop_map)
  have specs: "verify_operand_specs (take ?n ys) sp b = verify_operand_specs (take ?n xs) sp b"
    "verify_operand_specs (drop ?n ys) sp b = verify_operand_specs (drop ?n xs) sp b" for sp b
    using verify_specs_from_kinds [OF kinds(1)] verify_specs_from_kinds [OF kinds(2)] by (simp_all only: verify_operand_specs_def)
  show ?thesis
  proof (cases "shape_variadic ?s")
    case None
    then show ?thesis using assms(2,3) len by (simp add: verify_operand_shape_def Let_def specs split: if_splits)
  next
    case (Some kt)
    obtain k t where kt: "kt = (k, t)" by force
    have n: "?n \<le> length xs" using assms(2,3) by (simp add: verify_operand_shape_def Let_def split: if_splits)
    have "\<exists>c. get_at xs k = Some (ConstIndex c)"
      using assms(2,3) Some kt n by (auto simp: verify_operand_shape_def Let_def simp del: get_at_Some_iff split: option.splits operand.splits)
    then obtain c where c: "get_at xs k = Some (ConstIndex c)" ..
    moreover have "get_at ys k = Some (ConstIndex c)" using assms(1) Some kt c unfolding same_shape_def by blast
    ultimately show ?thesis
      using assms(2,3) Some kt n len
      by (simp add: verify_operand_shape_def Let_def specs del: get_at_Some_iff split: if_splits)
  qed
qed

lemma verify_logical_instr_of:
  assumes "verify_logical_function is = Ok ()" and "k < length is"
  shows "verify_logical_instr is (int (length is)) (k, is ! k) = Ok ()"
proof -
  have "(k, is ! k) \<in> set (enumerate 0 is)" using assms(2) by (simp add: in_set_enumerate_eq)
  then show ?thesis using assms(1) by (simp add: verify_logical_function_def each_o_Ok_iff)
qed

lemma verify_logical_instr_Ok:
  assumes "is_op (di_op i)" and "verify_logical_instr is n (k, i) = Ok ()"
  shows "verify_operand_shape (di_op i) (di_operands i) = Ok ()"
    and "RelativeTarget j b \<in> set (successor_shape (di_op i)) \<Longrightarrow> verify_logical_target is k j None n = Ok ()"
    and "OptionalRelativeTarget j b a \<in> set (exception_successor_shape (di_op i)) \<Longrightarrow> verify_logical_target is k j (Some a) n = Ok ()"
    and "RunFinallyHandlersToFloor j \<in> set (exception_successor_shape (di_op i)) \<Longrightarrow>
      \<exists>floor. get_at (di_operands i) j = Some (Imm32 floor) \<and> 0 \<le> sint floor"
proof -
  have ok: "verify_operand_shape (di_op i) (di_operands i) = Ok ()"
    "\<forall>t \<in> set (successor_shape (di_op i)). (case t of RelativeTarget j _ \<Rightarrow> verify_logical_target is k j None n | _ \<Rightarrow> Ok ()) = Ok ()"
    "\<forall>t \<in> set (exception_successor_shape (di_op i)). (case t of
        OptionalRelativeTarget j _ absent \<Rightarrow> verify_logical_target is k j (Some absent) n
      | RunFinallyHandlersToFloor j \<Rightarrow>
          (case get_at (di_operands i) j of
             Some (Imm32 floor) \<Rightarrow> if sint floor < 0 then Err (InvalidControlFlowOperand k j (sint floor)) else Ok ()
           | _ \<Rightarrow> Panic)
      | _ \<Rightarrow> Ok ()) = Ok ()"
    using assms by (simp_all add: verify_logical_instr_def Let_def each_o_Ok_iff)
  show "verify_operand_shape (di_op i) (di_operands i) = Ok ()" by (fact ok(1))
  show "verify_logical_target is k j None n = Ok ()" if "RelativeTarget j b \<in> set (successor_shape (di_op i))"
    using bspec [OF ok(2) that] by simp
  show "verify_logical_target is k j (Some a) n = Ok ()" if "OptionalRelativeTarget j b a \<in> set (exception_successor_shape (di_op i))"
    using bspec [OF ok(3) that] by simp
  show "\<exists>floor. get_at (di_operands i) j = Some (Imm32 floor) \<and> 0 \<le> sint floor"
    if "RunFinallyHandlersToFloor j \<in> set (exception_successor_shape (di_op i))"
    using bspec [OF ok(3) that]
    by (auto simp del: get_at_Some_iff split: option.splits operand.splits if_splits)
qed

lemma verify_logical_target_Ok:
  assumes "verify_logical_target is k j absent (int (length is)) = Ok ()" and "k < length is"
  shows "\<exists>d. get_at (di_operands (is ! k)) j = Some (Imm32 d)
    \<and> (absent = Some d \<or> 0 \<le> int k + 1 + sint d \<and> int k + 1 + sint d \<le> int (length is))"
proof -
  have "get_at is k = Some (is ! k)" using assms(2) by simp
  then show ?thesis
    using assms(1) by (auto simp: verify_logical_target_def Let_def simp del: get_at_Some_iff
        split: option.splits operand.splits if_splits)
qed

lemma verify_logical_verified:
  assumes "\<forall>i \<in> set is. is_op (di_op i)" and "verify_logical_function is = Ok ()"
  shows "verified (entries is)"
  using assms verify_logical_instr_Ok(1) verify_logical_instr_of [OF assms(2)]
  by (fastforce simp: verified_def in_set_conv_nth)

lemma verify_logical_targets:
  assumes "\<forall>i \<in> set is. is_op (di_op i)" and "verify_logical_function is = Ok ()"
  shows "targets_ok (entries is)"
  unfolding targets_ok_def
proof (intro allI impI ballI)
  fix k j
  assume k: "k < length (entries is)" and j: "j \<in> set (branch_imm32_operand_slots (fst (entries is ! k)))"
  then have ok: "verify_logical_instr is (int (length is)) (k, is ! k) = Ok ()" "is_op (di_op (is ! k))" "k < length is"
    using verify_logical_instr_of [OF assms(2), of k] assms(1) by simp_all
  from j k have "\<exists>absent \<in> {None, Some NO_HANDLER_OFFSET}. verify_logical_target is k j absent (int (length is)) = Ok ()"
    using verify_logical_instr_Ok(2,3) [OF ok(2,1)] by (auto simp: slots_are_targets)
  then show "j < length (snd (entries is ! k)) \<and> target_ok (entries is) k (snd (entries is ! k) ! j)"
    using verify_logical_target_Ok [OF _ ok(3), of j] ok(3) by (fastforce simp: target_ok_def)
qed

section \<open>Encoding a verified function\<close>

text \<open>A verified function whose operand counts fit a byte and whose encoding stays below two gigabytes.\<close>

definition encodable :: "instruction list \<Rightarrow> bool" where
  "encodable is \<longleftrightarrow> (\<forall>i \<in> set is. is_op (di_op i) \<and> length (di_operands i) \<le> 255)
    \<and> verify_logical_function is = Ok () \<and> byte_pc (entries is) (length is) < 2 ^ 31"

lemma targets_ok_slots: "targets_ok p \<Longrightarrow> e \<in> set p \<Longrightarrow> slots_imm32 e"
  unfolding targets_ok_def slots_imm32_def in_set_conv_nth
  by (metis (no_types, lifting) operand_kind_of.simps(3) target_ok_Imm32)

lemma encodableD:
  assumes "encodable is"
  shows "verified (entries is)" and "targets_ok (entries is)" and "length (program_bytes (entries is)) < 2 ^ 31"
    and "\<forall>e \<in> set (entries is). is_op (fst e) \<and> length (snd e) \<le> 255 \<and> slots_imm32 e"
proof -
  show *: "verified (entries is)" "targets_ok (entries is)"
    using assms verify_logical_verified verify_logical_targets by (auto simp: encodable_def)
  show "length (program_bytes (entries is)) < 2 ^ 31"
    using assms byte_pc_all [of "entries is"] by (simp add: encodable_def)
  show "\<forall>e \<in> set (entries is). is_op (fst e) \<and> length (snd e) \<le> 255 \<and> slots_imm32 e"
    using assms targets_ok_slots [OF *(2)] by (auto simp: encodable_def)
qed

lemma encode_function_bytes:
  assumes "encodable is"
  shows "try_encode_function is = Ok \<lparr>ef_code = program_bytes (relocate (entries is)),
    ef_byte_pcs = map (byte_pc (entries is)) [0..<length is]\<rparr>"
proof -
  let ?p = "entries is"
  note ok = encodableD [OF assms]
  have small: "length (program_bytes ?p) \<le> u32_max" using ok(3) by (simp add: u32_max_def)
  have "encode_loop is 0 [] [] [] = Ok (program_bytes ?p, map (byte_pc ?p) [0..<length ?p], all_fixups ?p 0 (length ?p))"
    using encode_loop_bytes [of ?p "[]" "is"] ok(4) small by (simp add: all_fixups_def)
  moreover have "resolve_loop (map (byte_pc ?p) [0..<length ?p]) (length (program_bytes ?p)) (length ?p) (all_fixups ?p 0 (length ?p))
      (program_bytes ?p) = Ok (program_bytes (relocate ?p))"
    using resolve_program [OF ok(2,3), of "length ?p"] by simp
  ultimately show ?thesis
    using assms small by (simp add: try_encode_function_def encodable_def writer_pc_def)
qed

section \<open>Decoding what was encoded\<close>

text \<open>The decoded image of a function: byte program counters and byte deltas.\<close>

definition wire_image :: "instruction list \<Rightarrow> instruction list" where
  "wire_image is = map (\<lambda>k. \<lparr>di_pc = byte_pc (entries is) k, di_op = di_op (is ! k),
     di_operands = snd (relocate_entry (entries is) k)\<rparr>) [0..<length is]"

lemma relocate_same_shape: "same_shape op (snd (p ! k)) (snd (relocate_entry p k))"
proof -
  have kind: "operand_kind_of (relocate_operand p k x) = operand_kind_of x" for x
    by (cases x) (simp_all add: relocate_operand_def)
  have const: "relocate_operand p k (ConstIndex c) = ConstIndex c" for c by (simp add: relocate_operand_def)
  show ?thesis
    unfolding same_shape_def by (auto simp: relocate_entry_def kind const intro!: nth_equalityI)
qed

lemma relocate_verified: "verified p \<Longrightarrow> verified (relocate p)"
  unfolding verified_def using same_shape_verify [OF relocate_same_shape]
  by (auto simp: relocate_def) (auto simp: relocate_entry_def)

lemma decode_loop_image:
  assumes "encodable is"
  shows "decode_loop (program_bytes (relocate (entries is))) 0 = Ok (wire_image is)"
proof -
  let ?p = "entries is"
  note ok = encodableD [OF assms]
  have "length (program_bytes (relocate ?p)) = length (program_bytes ?p)"
    by (simp add: program_bytes_length relocate_sizes)
  then have "length (program_bytes (relocate ?p)) \<le> Suc u32_max" using ok(3) by (simp add: u32_max_def)
  moreover have "\<forall>e \<in> set (relocate ?p). length (snd e) \<le> 255"
    using ok(4) by (auto simp: relocate_def relocate_entry_def)
  ultimately have "decode_loop (program_bytes (relocate ?p)) 0
      = Ok (map (\<lambda>k. \<lparr>di_pc = byte_pc (relocate ?p) k, di_op = fst (relocate ?p ! k), di_operands = snd (relocate ?p ! k)\<rparr>) [0..<length ?p])"
    using decode_loop_write [OF relocate_verified [OF ok(1)], of "[]"] by simp
  also have "\<dots> = Ok (wire_image is)"
    by (auto simp: wire_image_def relocate_byte_pc relocate_nth) (simp add: relocate_entry_def)
  finally show ?thesis .
qed

lemma sint_word_of_int_small: "- (2 ^ 31) \<le> z \<Longrightarrow> z < 2 ^ 31 \<Longrightarrow> sint (word_of_int z :: u32) = z"
  by (simp add: sint_sbintrunc' signed_take_bit_int_eq_self)

text \<open>A relocated branch lands on the byte of the instruction it named.\<close>

lemma relocate_lands:
  assumes "target_ok p k (Imm32 d)" and "d \<noteq> NO_HANDLER_OFFSET" and "length (program_bytes p) < 2 ^ 31" and "k < length p"
  shows "\<exists>d'. relocate_operand p k (Imm32 d) = Imm32 d'
    \<and> int (byte_pc p k) + 1 + sint d' = int (byte_pc p (nat (int k + 1 + sint d))) \<and> nat (int k + 1 + sint d) \<le> length p"
proof -
  let ?t = "nat (int k + 1 + sint d)" and ?z = "int (byte_pc p (nat (int k + 1 + sint d))) - (int (byte_pc p k) + 1)"
  have "byte_pc p ?t < 2 ^ 31" "byte_pc p k < 2 ^ 31"
    using byte_pc_le_bytes [of p ?t] byte_pc_le_bytes [of p k] assms(3) by linarith+
  then have "sint (word_of_int ?z :: u32) = ?z" by (intro sint_word_of_int_small) simp_all
  moreover have "?t \<le> length p" using assms(1,2) by (auto simp: target_ok_def)
  ultimately show ?thesis using assms(2) by (simp add: relocate_operand_def)
qed

lemma byte_pcs_sorted: "sorted_wrt (<) (map (byte_pc p) [0..<length p])"
  by (simp add: sorted_wrt_iff_nth_less byte_pc_strict)

lemma wire_target:
  assumes ok: "targets_ok p" "length (program_bytes p) < 2 ^ 31" and k: "k < length p"
    and j: "j \<in> set (branch_imm32_operand_slots (fst (p ! k)))"
    and i: "i = \<lparr>di_pc = byte_pc p k, di_op = fst (p ! k), di_operands = snd (relocate_entry p k)\<rparr>"
    and absent: "snd (p ! k) ! j = Imm32 NO_HANDLER_OFFSET \<Longrightarrow> absent = Some NO_HANDLER_OFFSET"
  shows "verify_relative_target i j AfterOpcode absent (map (byte_pc p) [0..<length p]) (byte_pc p (length p)) = Ok ()"
proof -
  have tgt: "j < length (snd (p ! k))" "target_ok p k (snd (p ! k) ! j)" using ok(1) k j by (auto simp: targets_ok_def)
  obtain d where d: "snd (p ! k) ! j = Imm32 d" using target_ok_Imm32 [OF tgt(2)] ..
  have get: "get_at (di_operands i) j = Some (relocate_operand p k (Imm32 d))"
    using tgt(1) d j i by (simp add: relocate_entry_def)
  show ?thesis
  proof (cases "d = NO_HANDLER_OFFSET")
    case True
    then show ?thesis
      using get absent d by (simp add: verify_relative_target_def relocate_operand_def del: get_at_Some_iff)
  next
    case False
    let ?t = "nat (int k + 1 + sint d)"
    obtain d' where d': "relocate_operand p k (Imm32 d) = Imm32 d'" "int (byte_pc p k) + 1 + sint d' = int (byte_pc p ?t)" "?t \<le> length p"
      using relocate_lands [OF tgt(2) [unfolded d] False ok(2) k] by auto
    have small: "byte_pc p ?t < 2 ^ 31" using byte_pc_le_bytes [of p ?t] ok(2) by linarith
    then have mod: "nat (int (byte_pc p ?t) mod 2 ^ 32) = byte_pc p ?t" by simp
    have "byte_pc p ?t = byte_pc p (length p)
        \<or> byte_pc p ?t < byte_pc p (length p) \<and> byte_pc p ?t \<in> set (map (byte_pc p) [0..<length p])"
      using d'(3) byte_pc_strict [of ?t "length p" p] by (cases "?t = length p") auto
    then have "byte_pc p ?t = byte_pc p (length p)
        \<or> byte_pc p ?t < byte_pc p (length p) \<and> binary_search (map (byte_pc p) [0..<length p]) (nat (int (byte_pc p ?t) mod 2 ^ 32))"
      unfolding mod binary_search_correct [OF byte_pcs_sorted] .
    then show ?thesis
      using get d' i by (auto simp: verify_relative_target_def Let_def simp del: get_at_Some_iff)
  qed
qed

lemma each_o_OkI: "(\<And>x. x \<in> set xs \<Longrightarrow> f x = Ok ()) \<Longrightarrow> each_o f xs = Ok ()"
  by (simp add: each_o_Ok_iff)

lemma wire_relative_not_absent:
  assumes "encodable is" and "k < length is" and "RelativeTarget j b \<in> set (successor_shape (di_op (is ! k)))"
  shows "snd (entries is ! k) ! j \<noteq> Imm32 NO_HANDLER_OFFSET"
proof
  assume no: "snd (entries is ! k) ! j = Imm32 NO_HANDLER_OFFSET"
  have "is_op (di_op (is ! k))" "verify_logical_function is = Ok ()" using assms by (auto simp: encodable_def)
  then have "verify_logical_target is k j None (int (length is)) = Ok ()"
    using verify_logical_instr_Ok(2) verify_logical_instr_of assms(2,3) by blast
  then have "0 \<le> int k + 1 + sint NO_HANDLER_OFFSET"
    using verify_logical_target_Ok [of "is" k j None] assms(2) no by auto
  moreover have "2 * length is \<le> byte_pc (entries is) (length is)"
  proof -
    have "2 * m \<le> byte_pc (entries is) m" if "m \<le> length is" for m
      using that by (induction m) (auto simp: instr_size_def)
    then show ?thesis by blast
  qed
  ultimately show False using assms(1,2) by (simp add: encodable_def NO_HANDLER_OFFSET_def)
qed

lemma wire_instr_verified:
  assumes "encodable is" and k: "k < length is"
  shows "verify_decoded_instr (map (byte_pc (entries is)) [0..<length is]) (byte_pc (entries is) (length is)) (wire_image is ! k) = Ok ()"
proof -
  let ?p = "entries is" and ?i = "wire_image is ! k" and ?op = "di_op (is ! k)"
  note ok = encodableD [OF assms(1)]
  have op: "is_op ?op" "di_op ?i = ?op" and v: "verify_logical_instr is (int (length is)) (k, is ! k) = Ok ()"
    using assms verify_logical_instr_of by (auto simp: encodable_def wire_image_def)
  have img: "?i = \<lparr>di_pc = byte_pc ?p k, di_op = fst (?p ! k), di_operands = snd (relocate_entry ?p k)\<rparr>" "k < length ?p" "fst (?p ! k) = ?op"
    using k by (simp_all add: wire_image_def)
  note tgt = wire_target [OF ok(2,3) img(2) _ img(1), unfolded img(3) length_map]
  have rel: "verify_relative_target ?i j base None (map (byte_pc ?p) [0..<length is]) (byte_pc ?p (length is)) = Ok ()"
    if "RelativeTarget j base \<in> set (successor_shape ?op)" for j base
    using that wire_relative_not_absent [OF assms that] tgt [of j None] by (cases base) (simp add: slots_are_targets)
  have opt: "verify_relative_target ?i j base (Some a) (map (byte_pc ?p) [0..<length is]) (byte_pc ?p (length is)) = Ok ()"
    if "OptionalRelativeTarget j base a \<in> set (exception_successor_shape ?op)" for j base a
    using that optional_target_iff [of j base a ?op] tgt [of j "Some a"] by (cases base) (simp add: slots_are_targets)
  have floor: "\<exists>f. get_at (di_operands ?i) j = Some (Imm32 f) \<and> 0 \<le> sint f"
    if fl: "RunFinallyHandlersToFloor j \<in> set (exception_successor_shape ?op)" for j
  proof -
    obtain f where f: "get_at (di_operands (is ! k)) j = Some (Imm32 f)" "0 \<le> sint f"
      using verify_logical_instr_Ok(4) [OF op(1) v fl] by blast
    have "j \<notin> set (branch_imm32_operand_slots ?op)"
      using fl by (simp add: finally_floor_iff branch_imm32_operand_slots_def)
    then show ?thesis using f k by (simp add: img relocate_entry_def)
  qed
  have "each_o (\<lambda>t. case t of RelativeTarget j base \<Rightarrow>
      verify_relative_target ?i j base None (map (byte_pc ?p) [0..<length is]) (byte_pc ?p (length is)) | _ \<Rightarrow> Ok ()) (successor_shape ?op) = Ok ()"
    by (rule each_o_OkI) (auto simp: rel split: successor_spec.split)
  then show ?thesis
    unfolding verify_decoded_instr_def Let_def op(2) schema_fields [OF op(1)]
    by (simp add: each_o_Ok_iff) (use opt floor in \<open>fastforce split: exception_successor.split simp del: get_at_Some_iff\<close>)
qed

text \<open>Encoding a verified function succeeds, and decoding its bytes gives its image.\<close>

theorem encode_decode:
  assumes "encodable is"
  shows "\<exists>ef. try_encode_function is = Ok ef \<and> decode_function (ef_code ef) = Ok (wire_image is)
    \<and> ef_byte_pcs ef = map di_pc (wire_image is) \<and> length (ef_code ef) = byte_pc (entries is) (length is)"
proof -
  let ?p = "entries is"
  have len: "length (program_bytes (relocate ?p)) = byte_pc ?p (length is)"
    using byte_pc_all [of "relocate ?p"] by (simp add: relocate_byte_pc)
  have pcs: "map di_pc (wire_image is) = map (byte_pc ?p) [0..<length is]" by (simp add: wire_image_def)
  have "verify_control_flow_targets (wire_image is) (byte_pc ?p (length is)) = Ok ()"
    unfolding verify_control_flow_targets_def pcs using wire_instr_verified [OF assms]
    by (intro each_o_OkI) (auto simp: in_set_conv_nth wire_image_def)
  then show ?thesis
    using encode_function_bytes [OF assms] decode_loop_image [OF assms] len pcs by (simp add: decode_function_def)
qed

end
