(* ===== verification/Bc_Accept.thy ===== *)
theory Bc_Accept
  imports Bc_Wire
begin

text \<open>
  The layout, the agreement of the wordcode verifier with the logical one, and what the decoder
  guarantees of any byte stream: it never panics on a stream with 32-bit offsets, and every branch of
  a stream it accepts lands on an instruction of that stream or at its end.
\<close>

section \<open>Layout\<close>

lemma operands_len_exact:
  "operands_len xs b = (if b + sum_list (map operand_len xs) \<le> u32_max then Ok (b + sum_list (map operand_len xs)) else Err FunctionTooLarge)"
  if "b \<le> u32_max"
  using that by (induction xs arbitrary: b) (auto simp: checked_add_u32_def add.assoc)

lemma layout_loop_exact:
  assumes "start + sum_list (map instr_size q) \<le> u32_max"
  shows "layout_loop (map snd q) start pcs
    = Ok \<lparr>total_bytes = start + sum_list (map instr_size q), layout_byte_pcs = pcs @ map (\<lambda>k. start + byte_pc q k) [0..<length q]\<rparr>"
  using assms
proof (induction q arbitrary: start pcs)
  case (Cons e q)
  let ?f = "\<lambda>k. start + byte_pc (e # q) k"
  have "operands_len (snd e) 2 = Ok (instr_size e)"
    using Cons.prems by (subst operands_len_exact) (auto simp: u32_max_def instr_size_def)
  moreover have "checked_add_u32 start (instr_size e) = Ok (start + instr_size e)"
    using Cons.prems by (simp add: checked_add_u32_def)
  moreover have "map ?f [0..<length (e # q)] = start # map (\<lambda>k. start + instr_size e + byte_pc q k) [0..<length q]"
    by (simp add: upt_conv_Cons map_Suc_upt [symmetric] byte_pc_def add.assoc del: upt_Suc)
  ultimately show ?case using Cons.IH [of "start + instr_size e" "pcs @ [start]"] Cons.prems by (simp add: add.assoc del: upt_Suc)
qed simp

lemma layout_loop_too_large:
  assumes "u32_max < start + sum_list (map instr_size q)" and "start \<le> u32_max"
  shows "layout_loop (map snd q) start pcs = Err FunctionTooLarge"
  using assms
proof (induction q arbitrary: start pcs)
  case (Cons e q)
  have len: "operands_len (snd e) 2 = (if instr_size e \<le> u32_max then Ok (instr_size e) else Err FunctionTooLarge)"
    by (subst operands_len_exact) (auto simp: u32_max_def instr_size_def)
  show ?case
  proof (cases "start + instr_size e \<le> u32_max")
    case True
    then show ?thesis
      using len Cons.IH [of "start + instr_size e" "pcs @ [start]"] Cons.prems by (simp add: checked_add_u32_def add.assoc)
  qed (use len in \<open>simp add: checked_add_u32_def\<close>)
qed simp

theorem layout_function_exact:
  assumes "verify_logical_function is = Ok ()"
  shows "layout_function is = (if byte_pc (entries is) (length is) \<le> u32_max
    then Ok \<lparr>total_bytes = byte_pc (entries is) (length is), layout_byte_pcs = map (byte_pc (entries is)) [0..<length is]\<rparr>
    else Err FunctionTooLarge)"
proof -
  have ops: "map di_operands is = map snd (entries is)" by simp
  have size: "byte_pc (entries is) (length is) = sum_list (map instr_size (entries is))" by (simp add: byte_pc_def)
  show ?thesis
    unfolding layout_function_def assms try_o.simps ops size
    using layout_loop_exact [of 0 "entries is" "[]"] layout_loop_too_large [of 0 "entries is" "[]"] by auto
qed

section \<open>The two verifiers\<close>

lemma measure_loop_layout:
  assumes "\<And>k. k < length is \<Longrightarrow> operand_view code (ws ! k) = (Ok (di_operands (is ! k)) :: (verify_error, operand list) outcome)" and "length ws = length is"
  shows "measure_loop code ws b pcs = layout_loop (map di_operands is) b pcs"
  using assms
proof (induction ws arbitrary: "is" b pcs)
  case (Cons w ws)
  then obtain i js where i: "is = i # js" by (cases "is") auto
  then have "operand_view code w = (Ok (di_operands i) :: (verify_error, operand list) outcome)" using Cons.prems(1) [of 0] by simp
  moreover have "measure_loop code ws c qs = layout_loop (map di_operands js) c qs" for c qs
    using Cons.IH [of js c qs] Cons.prems i by (metis Suc_less_eq length_Cons nat.inject nth_Cons_Suc)
  ultimately show ?case using i by simp
qed simp

lemma code_of_entries:
  assumes "code_of code (entries is)" and "k < length is"
  shows "operand_view code (fc_instructions code ! k) = (Ok (di_operands (is ! k)) :: (verify_error, operand list) outcome)"
    and "wi_op (fc_instructions code ! k) = di_op (is ! k)"
    and "fc_operand code (fc_instructions code ! k) j = get_at (di_operands (is ! k)) j"
  using code_of_view [OF assms(1), of k j, where ?'a = verify_error] assms(2) by simp_all

lemma verify_targets_agree:
  assumes "code_of code (entries is)" and "k < length is"
  shows "verify_wordcode_target code k j absent n = verify_logical_target is k j absent n"
proof -
  have "get_at (fc_instructions code) k = Some (fc_instructions code ! k)" "get_at is k = Some (is ! k)"
    using code_of_length [OF assms(1)] assms(2) by simp_all
  then show ?thesis
    by (simp add: verify_wordcode_target_def verify_logical_target_def code_of_entries [OF assms] del: get_at_Some_iff)
qed

lemma verify_instrs_agree:
  assumes "code_of code (entries is)" and "k < length is"
  shows "verify_wordcode_instr code n (k, fc_instructions code ! k) = verify_logical_instr is n (k, is ! k)"
  by (simp add: verify_wordcode_instr_def verify_logical_instr_def code_of_entries [OF assms] verify_targets_agree [OF assms])

lemma each_o_map: "each_o f (map g xs) = each_o (\<lambda>x. f (g x)) xs"
  by (induction xs) simp_all

theorem verifiers_agree:
  assumes "code_of code (entries is)"
  shows "verify_wordcode_function code = verify_logical_function is"
proof -
  have len: "length (fc_instructions code) = length is" using code_of_length [OF assms] by simp
  have enum: "enumerate 0 xs = map (\<lambda>k. (k, xs ! k)) [0..<length xs]" for xs :: "'z list"
    by (rule nth_equalityI) (simp_all add: nth_enumerate_eq)
  show ?thesis
    unfolding verify_wordcode_function_def verify_logical_function_def enum each_o_map len
    by (rule each_o_cong) (simp_all add: verify_instrs_agree [OF assms])
qed

theorem layouts_agree:
  assumes "code_of code (entries is)"
  shows "layout_wordcode_function code = layout_function is"
  using verifiers_agree [OF assms] code_of_length [OF assms] measure_loop_layout [of "is" code "fc_instructions code" 0 "[]"]
    code_of_entries(1) [OF assms]
  by (simp add: layout_wordcode_function_def layout_function_def measure_wordcode_function_def)

section \<open>Accepted streams\<close>

lemma branch_shapes:
  "operand_shape ''Jump'' = Fixed JUMP" "operand_shape ''JumpIfTrue'' = Fixed BRANCH" "operand_shape ''JumpIfFalse'' = Fixed BRANCH"
  "operand_shape ''JumpIfNullish'' = Fixed BRANCH" "operand_shape ''JumpViaFinally'' = Fixed JUMP_VIA_FINALLY"
  "operand_shape ''EnterTry'' = Fixed ENTER_TRY"
  by (simp_all add: operand_shape_def)

text \<open>The target and floor operands of a verified instruction exist and are immediates.\<close>

lemma prefix_kind:
  assumes "is_op op" and "verify_operand_shape op xs = Ok ()" and "operand_shape op = Fixed specs" and "j < length specs"
    and "sp_kind (specs ! j) = KImm32"
  shows "\<exists>d. get_at xs j = Some (Imm32 d)"
proof -
  have "kinds_ok op xs" "j < length xs"
    using verify_operand_shape_kinds [OF assms(1,2)] assms(3,4) by auto
  then have "operand_kind_at op j = Some (operand_kind_of (xs ! j))" by (simp add: kinds_ok_def)
  moreover have "operand_kind_at op j = Some KImm32" using assms(1,3,4,5) by (simp add: operand_kind_at_def Let_def)
  ultimately have "operand_kind_of (xs ! j) = KImm32" by simp
  then show ?thesis using \<open>j < length xs\<close> by (cases "xs ! j") simp_all
qed

lemma slot_is_imm32:
  assumes "is_op op" and "verify_operand_shape op xs = Ok ()" and "j \<in> set (branch_imm32_operand_slots op)"
  shows "\<exists>d. get_at xs j = Some (Imm32 d)"
proof -
  have "\<exists>specs. operand_shape op = Fixed specs \<and> j < length specs \<and> sp_kind (specs ! j) = KImm32"
    using assms(3) by (auto simp: branch_imm32_operand_slots_def branch_shapes spec_defs split: if_splits)
  then show ?thesis using prefix_kind [OF assms(1,2)] by blast
qed

lemma floor_is_imm32:
  assumes "is_op op" and "verify_operand_shape op xs = Ok ()" and "RunFinallyHandlersToFloor j \<in> set (exception_successor_shape op)"
  shows "\<exists>d. get_at xs j = Some (Imm32 d)"
  using prefix_kind [OF assms(1,2), of JUMP_VIA_FINALLY j] assms(3) by (simp add: finally_floor_iff branch_shapes spec_defs)

lemma decode_instruction_Ok:
  assumes "decode_instruction code pc = Ok (i, next)"
  shows "di_pc i = pc" "is_op (di_op i)" "verify_operand_shape (di_op i) (di_operands i) = Ok ()" "pc < length code" "pc < next"
  using assms decode_instruction_advances [OF assms]
  by (auto simp: decode_instruction_def op_from_byte_is_op split: if_splits)

lemma decode_loop_Ok:
  assumes "decode_loop code pc = Ok is"
  shows "sorted_wrt (<) (map di_pc is) \<and> (\<forall>i \<in> set is. pc \<le> di_pc i \<and> di_pc i < length code \<and> is_op (di_op i)
    \<and> verify_operand_shape (di_op i) (di_operands i) = Ok ())"
  using assms
proof (induction code pc arbitrary: "is" rule: decode_loop.induct)
  case (1 code pc)
  show ?case
  proof (cases "pc < length code")
    case True
    with 1(2) obtain i js nxt where i: "decode_instruction code pc = Ok (i, nxt)" "decode_loop code nxt = Ok js" "is = i # js"
      by (auto simp: decode_loop.simps [of code pc])
    from 1(1) [OF True i(1) refl i(2)] decode_instruction_Ok [OF i(1)] i(3) show ?thesis by fastforce
  qed (use 1(2) in \<open>simp add: decode_loop.simps [of code pc]\<close>)
qed

definition branch_target :: "instruction \<Rightarrow> u32 \<Rightarrow> int" where
  "branch_target i d = int (di_pc i) + 1 + sint d"

text \<open>Every branch of a decoded function goes to an instruction of the function or to its end, or is an
  absent handler.\<close>

definition branches_land :: "instruction list \<Rightarrow> nat \<Rightarrow> bool" where
  "branches_land is code_len \<longleftrightarrow> (\<forall>i \<in> set is. \<forall>j \<in> set (branch_imm32_operand_slots (di_op i)). \<exists>d.
     get_at (di_operands i) j = Some (Imm32 d)
     \<and> (di_op i = ''EnterTry'' \<and> d = NO_HANDLER_OFFSET
        \<or> branch_target i d \<in> insert (int code_len) ((\<lambda>k. int (di_pc k)) ` set is)))"

lemma verify_relative_target_lands:
  assumes "verify_relative_target i j base absent (map di_pc is) code_len = Ok ()" and "sorted_wrt (<) (map di_pc is)"
    and "code_len \<le> 2 ^ 32"
  shows "\<exists>d. get_at (di_operands i) j = Some (Imm32 d)
    \<and> (absent = Some d \<or> branch_target i d \<in> insert (int code_len) ((\<lambda>k. int (di_pc k)) ` set is))"
proof -
  obtain d where d: "get_at (di_operands i) j = Some (Imm32 d)"
    using assms(1) by (auto simp: verify_relative_target_def simp del: get_at_Some_iff split: option.splits operand.splits)
  have "absent = Some d \<or> branch_target i d = int code_len
      \<or> 0 \<le> branch_target i d \<and> branch_target i d < int code_len \<and> nat (branch_target i d mod 2 ^ 32) \<in> di_pc ` set is"
    using assms(1) d binary_search_correct [OF assms(2)]
    by (cases base) (auto simp: verify_relative_target_def Let_def branch_target_def simp del: get_at_Some_iff split: if_splits)
  moreover have "t \<in> (\<lambda>k. int (di_pc k)) ` set is" if "0 \<le> t" "t < int code_len" "nat (t mod 2 ^ 32) \<in> di_pc ` set is" for t
  proof -
    have "t mod 2 ^ 32 = t" using that(1,2) assms(3) by (intro mod_pos_pos_trivial) auto
    then have "nat t \<in> di_pc ` set is" using that(3) by simp
    then show ?thesis using that(1) by force
  qed
  ultimately show ?thesis using d by blast
qed

lemma verify_decoded_instr_Ok:
  assumes "is_op (di_op i)" and "verify_decoded_instr bs n i = Ok ()"
  shows "RelativeTarget j b \<in> set (successor_shape (di_op i)) \<Longrightarrow> verify_relative_target i j b None bs n = Ok ()"
    and "OptionalRelativeTarget j b a \<in> set (exception_successor_shape (di_op i)) \<Longrightarrow> verify_relative_target i j b (Some a) bs n = Ok ()"
proof -
  have ok: "\<forall>t \<in> set (successor_shape (di_op i)). (case t of RelativeTarget j base \<Rightarrow> verify_relative_target i j base None bs n | _ \<Rightarrow> Ok ()) = Ok ()"
    "\<forall>t \<in> set (exception_successor_shape (di_op i)). (case t of
        OptionalRelativeTarget j base absent \<Rightarrow> verify_relative_target i j base (Some absent) bs n
      | RunFinallyHandlersToFloor j \<Rightarrow>
          (case get_at (di_operands i) j of
             Some (Imm32 floor) \<Rightarrow> if sint floor < 0 then Err (DecodedControlFlowOperand (di_pc i) j (sint floor)) else Ok ()
           | _ \<Rightarrow> Panic)
      | _ \<Rightarrow> Ok ()) = Ok ()"
    using assms by (simp_all add: verify_decoded_instr_def Let_def each_o_Ok_iff)
  show "verify_relative_target i j b None bs n = Ok ()" if "RelativeTarget j b \<in> set (successor_shape (di_op i))"
    using bspec [OF ok(1) that] by simp
  show "verify_relative_target i j b (Some a) bs n = Ok ()" if "OptionalRelativeTarget j b a \<in> set (exception_successor_shape (di_op i))"
    using bspec [OF ok(2) that] by simp
qed

theorem accepted_branches_land:
  assumes "decode_function code = Ok is" and "length code \<le> 2 ^ 32"
  shows "branches_land is (length code)"
  unfolding branches_land_def
proof (intro ballI)
  fix i j
  assume i: "i \<in> set is" and j: "j \<in> set (branch_imm32_operand_slots (di_op i))"
  have dec: "decode_loop code 0 = Ok is" "verify_control_flow_targets is (length code) = Ok ()"
    using assms(1) by (auto simp: decode_function_def)
  then have op: "is_op (di_op i)" and sorted: "sorted_wrt (<) (map di_pc is)" and v: "verify_decoded_instr (map di_pc is) (length code) i = Ok ()"
    using decode_loop_Ok [OF dec(1)] i by (simp_all add: verify_control_flow_targets_def each_o_Ok_iff)
  have "\<exists>absent. verify_relative_target i j AfterOpcode absent (map di_pc is) (length code) = Ok ()
      \<and> (\<forall>d. absent = Some d \<longrightarrow> di_op i = ''EnterTry'' \<and> d = NO_HANDLER_OFFSET)"
    using j verify_decoded_instr_Ok [OF op v] optional_target_iff [of j AfterOpcode NO_HANDLER_OFFSET "di_op i"]
    unfolding slots_are_targets by blast
  then show "\<exists>d. get_at (di_operands i) j = Some (Imm32 d) \<and> (di_op i = ''EnterTry'' \<and> d = NO_HANDLER_OFFSET
      \<or> branch_target i d \<in> insert (int (length code)) ((\<lambda>k. int (di_pc k)) ` set is))"
    using verify_relative_target_lands [OF _ sorted assms(2)] by blast
qed

section \<open>The decoder does not panic\<close>

lemma try_o_not_panic: "m \<noteq> Panic \<Longrightarrow> (\<And>x. m = Ok x \<Longrightarrow> f x \<noteq> Panic) \<Longrightarrow> try_o m f \<noteq> Panic"
  by (cases m) auto

lemma try_o_Panic_iff [simp]: "try_o m f = Panic \<longleftrightarrow> m = Panic \<or> (\<exists>x. m = Ok x \<and> f x = Panic)"
  by (cases m) auto

lemma ok_or_o_not_panic [simp]: "ok_or_o m e \<noteq> Panic"
  by (cases m) auto

lemma map_err_o_panic_iff [simp]: "map_err_o f m = Panic \<longleftrightarrow> m = Panic"
  by (cases m) auto

lemma take_n_not_panic [simp]: "take_n n code pc \<noteq> Panic"
  by (simp add: take_n_def)

lemma decode_operand_not_panic: "decode_operand code pc \<noteq> Panic"
  by (simp add: decode_operand_def)

lemma decode_operands_not_panic: "decode_operands code n pc \<noteq> Panic"
  by (induction n arbitrary: pc) (auto simp: decode_operand_not_panic)

lemma decode_instruction_not_panic:
  assumes "pc \<le> u32_max"
  shows "decode_instruction code pc \<noteq> Panic"
  using assms by (auto simp: decode_instruction_def decode_operands_not_panic verify_operand_shape_not_panic op_from_byte_is_op)

lemma decode_loop_not_panic:
  assumes "length code \<le> Suc u32_max"
  shows "decode_loop code pc \<noteq> Panic"
  using assms
proof (induction code pc rule: decode_loop.induct)
  case (1 code pc)
  show ?case
  proof (cases "pc < length code")
    case True
    have "decode_instruction code pc \<noteq> Panic" using True 1(2) by (intro decode_instruction_not_panic) simp
    moreover have "decode_loop code nxt \<noteq> Panic" if "decode_instruction code pc = Ok (i, nxt)" for i nxt
      using 1(1) [OF True that refl 1(2)] .
    ultimately show ?thesis
      using True by (subst decode_loop.simps) auto
  qed (simp add: decode_loop.simps [of code pc])
qed

lemma each_o_not_panic: "(\<And>x. x \<in> set xs \<Longrightarrow> f x \<noteq> Panic) \<Longrightarrow> each_o f xs \<noteq> Panic"
  by (induction xs) auto

lemma verify_relative_target_not_panic:
  "get_at (di_operands i) j = Some (Imm32 d) \<Longrightarrow> verify_relative_target i j base absent bs n \<noteq> Panic"
  by (simp add: verify_relative_target_def Let_def del: get_at_Some_iff)

lemma verify_decoded_instr_not_panic:
  assumes op: "is_op (di_op i)" and v: "verify_operand_shape (di_op i) (di_operands i) = Ok ()"
  shows "verify_decoded_instr bs n i \<noteq> Panic"
proof -
  have rel: "verify_relative_target i j base None bs n \<noteq> Panic" if "RelativeTarget j base \<in> set (successor_shape (di_op i))" for j base
    using that slot_is_imm32 [OF op v, of j] verify_relative_target_not_panic by (cases base) (auto simp: slots_are_targets)
  have opt: "verify_relative_target i j base (Some a) bs n \<noteq> Panic"
    if "OptionalRelativeTarget j base a \<in> set (exception_successor_shape (di_op i))" for j base a
    using that optional_target_iff [of j base a "di_op i"] slot_is_imm32 [OF op v, of j] verify_relative_target_not_panic
    by (auto simp: slots_are_targets)
  have floor: "\<exists>d. get_at (di_operands i) j = Some (Imm32 d)" if "RunFinallyHandlersToFloor j \<in> set (exception_successor_shape (di_op i))" for j
    using floor_is_imm32 [OF op v that] .
  show ?thesis
    unfolding verify_decoded_instr_def Let_def schema_fields [OF op]
  proof (intro try_o_not_panic each_o_not_panic)
    fix t
    assume t: "t \<in> set (successor_shape (di_op i))"
    show "(case t of RelativeTarget j base \<Rightarrow> verify_relative_target i j base None bs n | _ \<Rightarrow> Ok ()) \<noteq> Panic"
      by (cases t) (use t rel in auto)
  next
    fix t
    assume t: "t \<in> set (exception_successor_shape (di_op i))"
    show "(case t of
        OptionalRelativeTarget j base absent \<Rightarrow> verify_relative_target i j base (Some absent) bs n
      | RunFinallyHandlersToFloor j \<Rightarrow>
          (case get_at (di_operands i) j of
             Some (Imm32 floor) \<Rightarrow> if sint floor < 0 then Err (DecodedControlFlowOperand (di_pc i) j (sint floor)) else Ok ()
           | _ \<Rightarrow> Panic)
      | _ \<Rightarrow> Ok ()) \<noteq> Panic"
    proof (cases t)
      case (RunFinallyHandlersToFloor j)
      then obtain d where "get_at (di_operands i) j = Some (Imm32 d)" using floor t by blast
      then show ?thesis using RunFinallyHandlersToFloor by (simp del: get_at_Some_iff)
    qed (use t opt in auto)
  qed
qed

theorem decode_function_not_panic:
  assumes "length code \<le> Suc u32_max"
  shows "decode_function code \<noteq> Panic"
  unfolding decode_function_def
proof (intro try_o_not_panic)
  show "decode_loop code 0 \<noteq> Panic" using assms by (rule decode_loop_not_panic)
  show "verify_control_flow_targets is (length code) \<noteq> Panic" if "decode_loop code 0 = Ok is" for "is"
    unfolding verify_control_flow_targets_def
    using decode_loop_Ok [OF that] by (intro each_o_not_panic verify_decoded_instr_not_panic) auto
qed simp

section \<open>The decoded program\<close>

text \<open>Operand \<open>j\<close> of instruction \<open>k\<close> means the same in a function and in its decoded image: branch operands
  name the same instruction, by its byte offset, and all other operands are equal.\<close>

definition same_operand :: "instruction list \<Rightarrow> instruction list \<Rightarrow> nat \<Rightarrow> nat \<Rightarrow> nat \<Rightarrow> bool" where
  "same_operand is js code_len k j \<longleftrightarrow>
    (let x = di_operands (is ! k) ! j; y = di_operands (js ! k) ! j in
     if j \<in> set (branch_imm32_operand_slots (di_op (is ! k))) \<and> x \<noteq> Imm32 NO_HANDLER_OFFSET
     then \<exists>d d' t. x = Imm32 d \<and> y = Imm32 d' \<and> int t = int k + 1 + sint d
       \<and> (t < length is \<and> branch_target (js ! k) d' = int (di_pc (js ! t)) \<or> t = length is \<and> branch_target (js ! k) d' = int code_len)
     else y = x)"

definition same_program :: "instruction list \<Rightarrow> instruction list \<Rightarrow> nat \<Rightarrow> bool" where
  "same_program is js code_len \<longleftrightarrow> length js = length is \<and> (\<forall>k < length is. di_op (js ! k) = di_op (is ! k)
     \<and> length (di_operands (js ! k)) = length (di_operands (is ! k))
     \<and> (\<forall>j < length (di_operands (is ! k)). same_operand is js code_len k j))"

lemma wire_image_nth:
  assumes "k < length is"
  shows "wire_image is ! k = \<lparr>di_pc = byte_pc (entries is) k, di_op = di_op (is ! k), di_operands = snd (relocate_entry (entries is) k)\<rparr>"
  using assms by (simp add: wire_image_def)

lemma wire_image_operand:
  assumes "k < length is" and "j < length (di_operands (is ! k))"
  shows "di_operands (wire_image is ! k) ! j = (if j \<in> set (branch_imm32_operand_slots (di_op (is ! k)))
    then relocate_operand (entries is) k (di_operands (is ! k) ! j) else di_operands (is ! k) ! j)"
  using assms by (simp add: wire_image_nth relocate_entry_def)

lemma wire_image_same_operand:
  assumes ok: "encodable is" and k: "k < length is" and j: "j < length (di_operands (is ! k))"
  shows "same_operand is (wire_image is) (byte_pc (entries is) (length is)) k j"
proof (cases "j \<in> set (branch_imm32_operand_slots (di_op (is ! k)))")
  case True
  let ?p = "entries is"
  have "target_ok ?p k (di_operands (is ! k) ! j)"
    using encodableD(2) [OF ok] True k by (auto simp: targets_ok_def)
  moreover from this obtain d where d: "di_operands (is ! k) ! j = Imm32 d" using target_ok_Imm32 by blast
  ultimately have tgt: "target_ok ?p k (Imm32 d)" by simp
  show ?thesis
  proof (cases "d = NO_HANDLER_OFFSET")
    case no: True
    then show ?thesis using True d k j by (simp add: same_operand_def wire_image_operand relocate_operand_def)
  next
    case some: False
    let ?t = "nat (int k + 1 + sint d)"
    obtain d' where d': "relocate_operand ?p k (Imm32 d) = Imm32 d'"
      "int (byte_pc ?p k) + 1 + sint d' = int (byte_pc ?p ?t)" "?t \<le> length ?p"
      using relocate_lands [OF tgt some encodableD(3) [OF ok]] k by auto
    have "int ?t = int k + 1 + sint d" using tgt some by (auto simp: target_ok_def)
    moreover have "branch_target (wire_image is ! k) d' = int (byte_pc ?p ?t)"
      using d'(2) k by (simp add: branch_target_def wire_image_nth)
    moreover have "di_pc (wire_image is ! ?t) = byte_pc ?p ?t" if "?t < length is" using that by (simp add: wire_image_nth)
    moreover have "?t < length is \<or> ?t = length is" using d'(3) by auto
    ultimately have "\<exists>e e' t. Imm32 d = Imm32 e \<and> Imm32 d' = Imm32 e' \<and> int t = int k + 1 + sint e
        \<and> (t < length is \<and> branch_target (wire_image is ! k) e' = int (di_pc (wire_image is ! t))
          \<or> t = length is \<and> branch_target (wire_image is ! k) e' = int (byte_pc ?p (length is)))"
      by (intro exI [of _ d] exI [of _ d'] exI [of _ ?t]) auto
    then show ?thesis
      unfolding same_operand_def Let_def wire_image_operand [OF k j] using True some d d'(1) by simp
  qed
qed (use k j in \<open>simp add: same_operand_def wire_image_operand\<close>)

lemma wire_image_same_program: "encodable is \<Longrightarrow> same_program is (wire_image is) (byte_pc (entries is) (length is))"
  using wire_image_same_operand unfolding same_program_def
  by (auto simp: wire_image_nth) (simp_all add: wire_image_def relocate_entry_def)

section \<open>Limits of encodable functions\<close>

lemma operand_len_pos: "1 \<le> operand_len x"
  by (cases x) simp_all

lemma abs_words_le_size: "abs_words e \<le> instr_size e"
proof -
  have "length xs \<le> sum_list (map operand_len xs)" for xs
  proof (induction xs)
    case (Cons x xs)
    then show ?case using operand_len_pos [of x] by simp
  qed simp
  from this [of "snd e"] show ?thesis by (simp add: abs_words_def instr_size_def)
qed

lemma encodable_fits:
  assumes "encodable is"
  shows "fits (entries is)"
proof -
  have "sum_list (map abs_words p) \<le> sum_list (map instr_size p)" "length p \<le> sum_list (map instr_size p)" for p
  proof (induction p)
    case (Cons e p)
    case 1
    then show ?case using Cons(1) abs_words_le_size [of e] by simp
    case 2
    then show ?case using Cons(2) by (simp add: instr_size_def)
  qed simp_all
  from this [of "entries is"] have "sum_list (map abs_words (entries is)) < 2 ^ 31" "length (entries is) < 2 ^ 31"
    using encodableD(3) [OF assms] by (simp_all add: program_bytes_length)
  then show ?thesis using encodableD(4) [OF assms] by (auto simp: fits_def u32_max_def)
qed

lemma encodable_layout:
  assumes "encodable is"
  shows "layout_function is = Ok \<lparr>total_bytes = byte_pc (entries is) (length is), layout_byte_pcs = map (byte_pc (entries is)) [0..<length is]\<rparr>"
proof -
  have "verify_logical_function is = Ok ()" "byte_pc (entries is) (length is) \<le> u32_max"
    using assms by (simp_all add: encodable_def u32_max_def)
  then show ?thesis by (simp add: layout_function_exact)
qed

lemma encodable_wordcode:
  assumes "encodable is"
  shows "\<exists>code. from_decoded is = Ok code \<and> code_of code (entries is) \<and> verify_wordcode_function code = Ok ()
    \<and> layout_wordcode_function code = layout_function is"
proof -
  obtain code where "from_decoded is = Ok code" "code_of code (entries is)"
    using from_decoded_code [OF encodableD(1) [OF assms] encodable_fits [OF assms]] by blast
  then show ?thesis using verifiers_agree layouts_agree assms by (auto simp: encodable_def)
qed

end
