(* ===== verification/Bc_Linker.thy ===== *)
theory Bc_Linker
  imports Bc_Wire
begin

text \<open>
  Merging compiled module fragments into one program: the first pass of \<open>link\<close> in
  \<open>otter-runtime/src/module_graph.rs\<close>, which appends the constants and functions of every fragment and
  shifts function ids and constant-pool operands, and the classification of pool operands in
  \<open>otter-bytecode/src/lib.rs\<close>. Arithmetic on \<open>u32\<close> wraps, as in a release build. Fields of a function
  that the pass only clones are left out.
\<close>

section \<open>Pool operands\<close>

definition is_const_pool_operand :: "op \<Rightarrow> nat \<Rightarrow> bool" where
  "is_const_pool_operand op pos =
    (if op \<in>
        {''LoadString'', ''LoadNumber'', ''LoadBigInt'', ''LoadRegExp'', ''MakeFunction'', ''MathLoad'',
        ''ImportNamespace'', ''ImportNamespaceDeferred'', ''ModuleNamespaceObject'', ''SymbolLoad'',
        ''TemporalLoad'', ''LoadBuiltinError'', ''LoadGlobalOrThrow'', ''LoadGlobalOrUndefined'', ''LoadDynamic'',
        ''StoreDynamic'', ''TypeofDynamic'', ''DeleteDynamic'', ''NewPrivateName''} then pos = 1
     else if op = ''DefineGlobalVar'' then pos = 0
     else if op = ''DeclareGlobalVar'' then pos = 0
     else if op = ''DefineGlobalFunction'' then pos = 0
     else if op \<in> {''DeclareGlobalLex'', ''ValidateGlobalDecl''} then pos = 0
     else if op \<in> {''StoreGlobalBinding'', ''InitGlobalLex''} then pos = 1
     else if op = ''MarkModuleEvaluated'' then pos = 0
     else if op = ''EvaluateModule'' then pos = 1
     else if op \<in> {''LoadProperty'', ''DeleteProperty'', ''ToPrimitive''} then pos = 2
     else if op = ''LoadImportBinding'' then pos = 1 \<or> pos = 2
     else if op \<in> {''NewCollection'', ''NewBuiltinError''} then pos = 1
     else if op = ''SetFunctionName'' then pos = 2
     else if op = ''StoreProperty'' then pos = 1
     else if op = ''MakeClosure'' then pos = 1
     else if op = ''CallMethodValue'' then pos = 2
     else if op \<in>
        {''PromiseCall'', ''BigIntCall'', ''ArrayBufferCall'', ''DataViewCall'',
        ''SharedArrayBufferCall''} then False
     else False)"

text \<open>The count of a variadic opcode is never taken for a pool reference.\<close>

definition raw_count :: "op \<Rightarrow> shape_spec \<Rightarrow> bool" where
  "raw_count op shape = (case shape_variadic shape of None \<Rightarrow> True | Some (k, _) \<Rightarrow> \<not> is_const_pool_operand op k)"

lemma raw_count_if: "(c \<Longrightarrow> raw_count op a) \<Longrightarrow> raw_count op b \<Longrightarrow> raw_count op (if c then a else b)"
  by simp

lemma raw_count_Fixed: "raw_count op (Fixed specs)"
  by (simp add: raw_count_def)

lemma raw_count_operand_shape: "raw_count op (operand_shape op)"
  unfolding operand_shape_def
  by (intro raw_count_if raw_count_Fixed; (elim insertE emptyE)?; hypsubst; simp add: raw_count_def is_const_pool_operand_def)

section \<open>Modules\<close>

datatype pool_constant =
    CString "nat list"
  | CNumber "64 word"
  | CFunctionId u32
  | CBigInt string
  | CRegExp "nat list" string

record class_hint_site =
  chs_pc :: u32
  chs_class_function_id :: u32

record bc_function =
  bf_id :: u32
  bf_module_url :: string
  bf_class_hint_sites :: "class_hint_site list"
  bf_code :: function_code

record module_resolution =
  mr_referrer :: string
  mr_specifier :: string
  mr_target :: string
  mr_deferred :: bool
  mr_dynamic :: bool
  mr_synthetic :: bool

record module_init =
  mi_url :: string
  mi_function_id :: u32

record fragment =
  fr_functions :: "bc_function list"
  fr_constants :: "pool_constant list"
  fr_resolutions :: "module_resolution list"

record link_state =
  ls_functions :: "bc_function list"
  ls_constants :: "pool_constant list"
  ls_offsets :: "string \<rightharpoonup> u32"
  ls_inits :: "module_init list"
  ls_resolutions :: "module_resolution list"

section \<open>Rewriting\<close>

definition rewrite_operand :: "op \<Rightarrow> u32 \<Rightarrow> nat \<times> operand \<Rightarrow> operand" where
  "rewrite_operand op offset = (\<lambda>(pos, x).
    case x of ConstIndex k \<Rightarrow> if is_const_pool_operand op pos then ConstIndex (k + offset) else x | _ \<Rightarrow> x)"

fun rewrite_loop :: "function_code \<Rightarrow> u32 \<Rightarrow> winstr list \<Rightarrow> code_builder \<Rightarrow> (unit, code_builder) outcome" where
  "rewrite_loop body offset [] rewritten = Ok rewritten"
| "rewrite_loop body offset (i # is) rewritten =
    try_o (operand_view body i) (\<lambda>xs.
    try_o (push (wi_op i) (map (rewrite_operand (wi_op i) offset) (enumerate 0 xs)) rewritten) (\<lambda>(_, rewritten).
    rewrite_loop body offset is rewritten))"

definition rewrite_const_indices :: "function_code \<Rightarrow> u32 \<Rightarrow> (unit, function_code) outcome" where
  "rewrite_const_indices body offset =
    try_o (rewrite_loop body offset (fc_instructions body) builder_new) (\<lambda>b. Ok (finish b))"

fun shift_constant :: "u32 \<Rightarrow> pool_constant \<Rightarrow> pool_constant" where
  "shift_constant offset (CFunctionId i) = CFunctionId (i + offset)"
| "shift_constant offset c = c"

definition link_function :: "string \<Rightarrow> u32 \<Rightarrow> u32 \<Rightarrow> bc_function \<Rightarrow> (unit, bc_function) outcome" where
  "link_function url fn_offset const_offset f =
    try_o (rewrite_const_indices (bf_code f) const_offset) (\<lambda>body. Ok
      \<lparr>bf_id = fn_offset + bf_id f,
       bf_module_url = (if bf_module_url f = [] then url else bf_module_url f),
       bf_class_hint_sites = map (\<lambda>site. site\<lparr>chs_class_function_id := chs_class_function_id site + fn_offset\<rparr>) (bf_class_hint_sites f),
       bf_code = body\<rparr>)"

definition link_fragment :: "string \<Rightarrow> fragment \<Rightarrow> link_state \<Rightarrow> (unit, link_state) outcome" where
  "link_fragment url fr s =
    (let fn_offset = of_nat (length (ls_functions s)); const_offset = of_nat (length (ls_constants s)) in
     try_o (collect_o (link_function url fn_offset const_offset) (fr_functions fr)) (\<lambda>fs. Ok
       \<lparr>ls_functions = ls_functions s @ fs,
        ls_constants = ls_constants s @ map (shift_constant fn_offset) (fr_constants fr),
        ls_offsets = (ls_offsets s)(url \<mapsto> fn_offset),
        ls_inits = ls_inits s @ [\<lparr>mi_url = url, mi_function_id = fn_offset\<rparr>],
        ls_resolutions = ls_resolutions s @ fr_resolutions fr\<rparr>))"

fun link_loop :: "(string \<rightharpoonup> fragment) \<Rightarrow> string list \<Rightarrow> link_state \<Rightarrow> (unit, link_state) outcome" where
  "link_loop nodes [] s = Ok s"
| "link_loop nodes (url # urls) s =
    (case nodes url of
       None \<Rightarrow> link_loop nodes urls s
     | Some fr \<Rightarrow> try_o (link_fragment url fr s) (link_loop nodes urls))"

definition link_start :: link_state where
  "link_start = \<lparr>ls_functions = [\<lparr>bf_id = 0, bf_module_url = [], bf_class_hint_sites = [], bf_code = finish builder_new\<rparr>],
     ls_constants = [], ls_offsets = Map.empty, ls_inits = [], ls_resolutions = []\<rparr>"

section \<open>Rewriting shifts the pool operands and nothing else\<close>

definition shift_operands :: "u32 \<Rightarrow> op \<times> operand list \<Rightarrow> op \<times> operand list" where
  "shift_operands offset e = (fst e, map (rewrite_operand (fst e) offset) (enumerate 0 (snd e)))"

lemma shift_operands_simps [simp]:
  "fst (shift_operands offset e) = fst e" "length (snd (shift_operands offset e)) = length (snd e)"
  "j < length (snd e) \<Longrightarrow> snd (shift_operands offset e) ! j = rewrite_operand (fst e) offset (j, snd e ! j)"
  by (simp_all add: shift_operands_def nth_enumerate_eq)

lemma rewrite_operand_kind: "operand_kind_of (rewrite_operand op offset (pos, x)) = operand_kind_of x"
  by (cases x) (simp_all add: rewrite_operand_def)

lemma shift_same_shape: "same_shape (fst e) (snd e) (snd (shift_operands offset e))"
  unfolding same_shape_def
proof (intro conjI allI impI)
  show "map operand_kind_of (snd e) = map operand_kind_of (snd (shift_operands offset e))"
    by (rule nth_equalityI) (simp_all add: rewrite_operand_kind)
  fix k t c
  assume k: "shape_variadic (operand_shape (fst e)) = Some (k, t)" and x: "get_at (snd e) k = Some (ConstIndex c)"
  have "\<not> is_const_pool_operand (fst e) k" using raw_count_operand_shape [of "fst e"] k by (simp add: raw_count_def)
  then show "get_at (snd (shift_operands offset e)) k = Some (ConstIndex c)" using x by (simp add: rewrite_operand_def)
qed

lemma shift_verified: "verified p \<Longrightarrow> verified (map (shift_operands offset) p)"
  using same_shape_verify [OF shift_same_shape] by (auto simp: verified_def)

lemma shift_fits: "fits p \<Longrightarrow> fits (map (shift_operands offset) p)"
proof -
  have "abs_words \<circ> shift_operands offset = abs_words" by (auto simp: abs_words_def)
  then show "fits p \<Longrightarrow> fits (map (shift_operands offset) p)" unfolding fits_def by auto
qed

lemma rewrite_loop_builds:
  assumes p: "code_of body p" and q: "q = map (shift_operands offset) p" "verified q" "fits q"
    and r: "builds r (take m q)" "m \<le> length p"
  shows "\<exists>b. rewrite_loop body offset (drop m (fc_instructions body)) r = Ok b \<and> builds b q"
  using r
proof (induction "length p - m" arbitrary: m r)
  case 0
  then show ?case using q(1) code_of_length [OF p] by simp
next
  case (Suc n)
  let ?i = "fc_instructions body ! m"
  have m: "m < length p" "m < length q" using Suc.hyps(2) q(1) by simp_all
  have view: "operand_view body ?i = (Ok (snd (p ! m)) :: (unit, operand list) outcome)" "wi_op ?i = fst (p ! m)"
    using code_of_view [OF p m(1), where ?'a = unit] by simp_all
  have e: "q ! m = (wi_op ?i, map (rewrite_operand (wi_op ?i) offset) (enumerate 0 (snd (p ! m))))"
    using m(1) q(1) view(2) by (simp add: shift_operands_def)
  obtain r' where r': "push (wi_op ?i) (map (rewrite_operand (wi_op ?i) offset) (enumerate 0 (snd (p ! m)))) r = Ok (m, r')"
    "builds r' (take (Suc m) q)"
    using push_next [OF Suc.prems(1) m(2) q(2,3) e] by auto
  have "drop m (fc_instructions body) = ?i # drop (Suc m) (fc_instructions body)"
    using m(1) code_of_length [OF p] by (simp add: Cons_nth_drop_Suc)
  then have "rewrite_loop body offset (drop m (fc_instructions body)) r = rewrite_loop body offset (drop (Suc m) (fc_instructions body)) r'"
    using view(1) r'(1) by simp
  moreover have "n = length p - Suc m" "Suc m \<le> length p" using Suc.hyps(2) m by simp_all
  ultimately show ?case using Suc.hyps(1) [of "Suc m" r'] r'(2) by simp
qed

theorem rewrite_const_indices_code:
  assumes "code_of body p" and "verified p" and "fits p"
  shows "\<exists>body'. rewrite_const_indices body offset = Ok body' \<and> code_of body' (map (shift_operands offset) p)"
proof -
  have "\<exists>b. rewrite_loop body offset (drop 0 (fc_instructions body)) builder_new = Ok b \<and> builds b (map (shift_operands offset) p)"
    by (rule rewrite_loop_builds [OF assms(1) refl shift_verified [OF assms(2)] shift_fits [OF assms(3)]])
      (simp_all add: builder_new_builds)
  then show ?thesis by (auto simp: rewrite_const_indices_def code_of_finish)
qed

section \<open>Linked fragments\<close>

text \<open>A compiled fragment: its code is well formed, and every pool operand names a constant of its pool.\<close>

definition pool_in_range :: "abs_program \<Rightarrow> nat \<Rightarrow> bool" where
  "pool_in_range p n \<longleftrightarrow> (\<forall>e \<in> set p. \<forall>j < length (snd e). \<forall>k.
     is_const_pool_operand (fst e) j \<and> snd e ! j = ConstIndex k \<longrightarrow> unat k < n)"

definition good_function :: "nat \<Rightarrow> bc_function \<Rightarrow> bool" where
  "good_function n f \<longleftrightarrow> (\<exists>p. code_of (bf_code f) p \<and> verified p \<and> fits p \<and> pool_in_range p n)"

definition good_fragment :: "fragment \<Rightarrow> bool" where
  "good_fragment fr \<longleftrightarrow> (\<forall>f \<in> set (fr_functions fr). good_function (length (fr_constants fr)) f)"

text \<open>A function and its linked copy: in the copy each pool operand names the shifted constant, every
  other operand is unchanged.\<close>

definition same_references :: "pool_constant list \<Rightarrow> pool_constant list \<Rightarrow> u32 \<Rightarrow> abs_program \<Rightarrow> abs_program \<Rightarrow> bool" where
  "same_references cs cs' fn_offset p q \<longleftrightarrow> length q = length p \<and> (\<forall>i < length p. fst (q ! i) = fst (p ! i)
     \<and> length (snd (q ! i)) = length (snd (p ! i))
     \<and> (\<forall>j < length (snd (p ! i)). case snd (p ! i) ! j of
          ConstIndex k \<Rightarrow>
            if is_const_pool_operand (fst (p ! i)) j
            then \<exists>k'. snd (q ! i) ! j = ConstIndex k' \<and> unat k' < length cs' \<and> cs' ! unat k' = shift_constant fn_offset (cs ! unat k)
            else snd (q ! i) ! j = ConstIndex k
        | x \<Rightarrow> snd (q ! i) ! j = x))"

definition linked_function :: "pool_constant list \<Rightarrow> pool_constant list \<Rightarrow> nat \<Rightarrow> bc_function \<Rightarrow> bc_function \<Rightarrow> bool" where
  "linked_function cs cs' fo f g \<longleftrightarrow> bf_id g = of_nat fo + bf_id f
     \<and> (\<exists>p q. code_of (bf_code f) p \<and> code_of (bf_code g) q \<and> same_references cs cs' (of_nat fo) p q)"

definition linked :: "fragment \<Rightarrow> string \<Rightarrow> link_state \<Rightarrow> bool" where
  "linked fr url s \<longleftrightarrow> (\<exists>fo. \<lparr>mi_url = url, mi_function_id = of_nat fo\<rparr> \<in> set (ls_inits s)
     \<and> fo + length (fr_functions fr) \<le> length (ls_functions s) \<and> set (fr_resolutions fr) \<subseteq> set (ls_resolutions s)
     \<and> (\<forall>i < length (fr_functions fr).
          linked_function (fr_constants fr) (ls_constants s) fo (fr_functions fr ! i) (ls_functions s ! (fo + i))))"

text \<open>States that differ by what later fragments append.\<close>

definition extends :: "link_state \<Rightarrow> link_state \<Rightarrow> bool" where
  "extends s s' \<longleftrightarrow> (\<exists>fs cs is rs. ls_functions s' = ls_functions s @ fs \<and> ls_constants s' = ls_constants s @ cs
     \<and> ls_inits s' = ls_inits s @ is \<and> ls_resolutions s' = ls_resolutions s @ rs)"

lemma extends_refl: "extends s s"
  unfolding extends_def by (intro exI [of _ "[]"]) simp

lemma extends_trans: "extends s t \<Longrightarrow> extends t u \<Longrightarrow> extends s u"
  unfolding extends_def by (metis append.assoc)

lemma same_references_extend: "same_references cs cs' fo p q \<Longrightarrow> same_references cs (cs' @ more_cs) fo p q"
  unfolding same_references_def by (fastforce simp: nth_append split: operand.splits if_splits)

lemma linked_extend:
  assumes "linked fr url s" and "extends s s'"
  shows "linked fr url s'"
proof -
  obtain fs cs ins rs where s': "ls_functions s' = ls_functions s @ fs" "ls_constants s' = ls_constants s @ cs"
    "ls_inits s' = ls_inits s @ ins" "ls_resolutions s' = ls_resolutions s @ rs"
    using assms(2) by (auto simp: extends_def)
  obtain fo where fo: "\<lparr>mi_url = url, mi_function_id = of_nat fo\<rparr> \<in> set (ls_inits s)"
    "fo + length (fr_functions fr) \<le> length (ls_functions s)" "set (fr_resolutions fr) \<subseteq> set (ls_resolutions s)"
    "\<And>i. i < length (fr_functions fr) \<Longrightarrow>
      linked_function (fr_constants fr) (ls_constants s) fo (fr_functions fr ! i) (ls_functions s ! (fo + i))"
    using assms(1) by (auto simp: linked_def)
  have "linked_function (fr_constants fr) (ls_constants s') fo (fr_functions fr ! i) (ls_functions s' ! (fo + i))"
    if "i < length (fr_functions fr)" for i
    using fo(4) [OF that] fo(2) that same_references_extend by (fastforce simp: linked_function_def s' nth_append)
  then show ?thesis unfolding linked_def using fo(1-3) s' by (intro exI [of _ fo]) auto
qed

lemma shift_references:
  assumes "pool_in_range p (length cs)" and "length pre + length cs \<le> 2 ^ 32"
  shows "same_references cs (pre @ map (shift_constant fo) cs) fo p (map (shift_operands (of_nat (length pre))) p)"
  unfolding same_references_def
proof (intro conjI allI impI)
  fix i j
  assume i: "i < length p" and j: "j < length (snd (p ! i))"
  let ?x = "snd (p ! i) ! j" and ?off = "of_nat (length pre) :: u32"
  have y: "snd (map (shift_operands ?off) p ! i) ! j = rewrite_operand (fst (p ! i)) ?off (j, ?x)" using i j by simp
  have pool: "unat (k + ?off) = length pre + unat k \<and> unat k < length cs"
    if "?x = ConstIndex k" "is_const_pool_operand (fst (p ! i)) j" for k
  proof -
    have k: "unat k < length cs" using assms(1) nth_mem [OF i] j that unfolding pool_in_range_def by blast
    then have "unat ?off = length pre" using assms(2) by (simp add: unsigned_of_nat take_bit_nat_eq_self)
    then have "unat k + unat ?off < 2 ^ 32" using k assms(2) by simp
    then show ?thesis using k \<open>unat ?off = length pre\<close> by (simp add: unat_plus_if' unat_word_ariths(1) take_bit_nat_eq_self)
  qed
  show "case ?x of
      ConstIndex k \<Rightarrow>
        if is_const_pool_operand (fst (p ! i)) j
        then \<exists>k'. snd (map (shift_operands ?off) p ! i) ! j = ConstIndex k' \<and> unat k' < length (pre @ map (shift_constant fo) cs)
          \<and> (pre @ map (shift_constant fo) cs) ! unat k' = shift_constant fo (cs ! unat k)
        else snd (map (shift_operands ?off) p ! i) ! j = ConstIndex k
    | x \<Rightarrow> snd (map (shift_operands ?off) p ! i) ! j = x"
    unfolding y using pool by (cases ?x) (auto simp: rewrite_operand_def nth_append)
qed simp_all

lemma collect_o_pointwise:
  assumes "\<And>x. x \<in> set xs \<Longrightarrow> \<exists>y. f x = Ok y \<and> R x y"
  shows "\<exists>ys. collect_o f xs = Ok ys \<and> list_all2 R xs ys"
  using assms by (induction xs) fastforce+

lemma link_function_ok:
  assumes "good_function (length cs) f" and "length pre + length cs \<le> 2 ^ 32"
  shows "\<exists>g. link_function url (of_nat fo) (of_nat (length pre)) f = Ok g
    \<and> linked_function cs (pre @ map (shift_constant (of_nat fo)) cs) fo f g"
proof -
  obtain p where p: "code_of (bf_code f) p" "verified p" "fits p" "pool_in_range p (length cs)"
    using assms(1) by (auto simp: good_function_def)
  obtain body where "rewrite_const_indices (bf_code f) (of_nat (length pre)) = Ok body"
    "code_of body (map (shift_operands (of_nat (length pre))) p)"
    using rewrite_const_indices_code [OF p(1-3)] by blast
  then show ?thesis
    using p(1) shift_references [OF p(4) assms(2), of "of_nat fo"] by (auto simp: link_function_def linked_function_def)
qed

lemma link_fragment_ok:
  assumes "good_fragment fr" and "length (ls_constants s) + length (fr_constants fr) \<le> 2 ^ 32"
  shows "\<exists>s'. link_fragment url fr s = Ok s' \<and> extends s s' \<and> linked fr url s'
    \<and> length (ls_constants s') = length (ls_constants s) + length (fr_constants fr)"
proof -
  let ?fo = "length (ls_functions s)" and ?cs = "ls_constants s @ map (shift_constant (of_nat (length (ls_functions s)))) (fr_constants fr)"
  obtain fs where fs: "collect_o (link_function url (of_nat ?fo) (of_nat (length (ls_constants s)))) (fr_functions fr) = Ok fs"
    "list_all2 (linked_function (fr_constants fr) ?cs ?fo) (fr_functions fr) fs"
    using collect_o_pointwise [of "fr_functions fr" "link_function url (of_nat ?fo) (of_nat (length (ls_constants s)))"
        "linked_function (fr_constants fr) ?cs ?fo"] link_function_ok [OF _ assms(2)] assms(1)
    by (auto simp: good_fragment_def)
  let ?s = "\<lparr>ls_functions = ls_functions s @ fs, ls_constants = ?cs, ls_offsets = (ls_offsets s)(url \<mapsto> of_nat ?fo),
    ls_inits = ls_inits s @ [\<lparr>mi_url = url, mi_function_id = of_nat ?fo\<rparr>], ls_resolutions = ls_resolutions s @ fr_resolutions fr\<rparr>"
  have "link_fragment url fr s = Ok ?s" using fs(1) by (simp add: link_fragment_def Let_def)
  moreover have "linked fr url ?s"
    unfolding linked_def using fs(2) by (intro exI [of _ ?fo]) (auto simp: list_all2_conv_all_nth)
  ultimately show ?thesis by (auto simp: extends_def)
qed

definition pool_size :: "(string \<rightharpoonup> fragment) \<Rightarrow> string list \<Rightarrow> nat" where
  "pool_size nodes urls = sum_list (map (\<lambda>u. case nodes u of None \<Rightarrow> 0 | Some fr \<Rightarrow> length (fr_constants fr)) urls)"

lemma link_loop_ok:
  assumes "\<And>url fr. url \<in> set urls \<Longrightarrow> nodes url = Some fr \<Longrightarrow> good_fragment fr"
    and "length (ls_constants s) + pool_size nodes urls \<le> 2 ^ 32"
  shows "\<exists>s'. link_loop nodes urls s = Ok s' \<and> extends s s'
    \<and> (\<forall>url \<in> set urls. \<forall>fr. nodes url = Some fr \<longrightarrow> linked fr url s')"
  using assms
proof (induction urls arbitrary: s)
  case (Cons u urls)
  show ?case
  proof (cases "nodes u")
    case None
    then have "length (ls_constants s) + pool_size nodes urls \<le> 2 ^ 32" using Cons.prems(2) by (simp add: pool_size_def)
    then show ?thesis using Cons.IH [of s] Cons.prems(1) None by auto
  next
    case (Some fr)
    then have size: "length (ls_constants s) + length (fr_constants fr) + pool_size nodes urls \<le> 2 ^ 32" "good_fragment fr"
      using Cons.prems(2) Cons.prems(1) [OF _ Some] by (simp_all add: pool_size_def add.assoc)
    obtain t where t: "link_fragment u fr s = Ok t" "extends s t" "linked fr u t"
      "length (ls_constants t) = length (ls_constants s) + length (fr_constants fr)"
      using link_fragment_ok [OF size(2), of s u] size(1) by auto
    obtain s' where s': "link_loop nodes urls t = Ok s'" "extends t s'"
      "\<forall>url \<in> set urls. \<forall>fr. nodes url = Some fr \<longrightarrow> linked fr url s'"
      using Cons.IH [of t] Cons.prems(1) t(4) size(1) by auto
    then show ?thesis
      using t Some extends_trans [OF t(2) s'(2)] linked_extend [OF t(3) s'(2)] by auto
  qed
qed (simp add: extends_refl)

section \<open>Names the linker misses\<close>

text \<open>The name of a \<open>super\<close> property and of a checked global store is a constant of the pool, but is not
  classified as one: linking leaves it unshifted.\<close>

lemma unshifted_names:
  "rewrite_operand ''LoadSuperProperty'' offset (2, ConstIndex k) = ConstIndex k"
  "rewrite_operand ''SetSuperProperty'' offset (1, ConstIndex k) = ConstIndex k"
  "rewrite_operand ''GlobalBindingExists'' offset (1, ConstIndex k) = ConstIndex k"
  "rewrite_operand ''StoreGlobalChecked'' offset (1, ConstIndex k) = ConstIndex k"
  "rewrite_operand ''LoadShadowedUpvalue'' offset (1, ConstIndex k) = ConstIndex k"
  by (simp_all add: rewrite_operand_def is_const_pool_operand_def)

end
