(* ===== verification/Bc_Example.thy ===== *)
theory Bc_Example
  imports Bc_Accept Bc_Linker
begin

text \<open>
  A sample function with a forward branch, and what the model computes for it: a conditional jump
  over one instruction, which occupies bytes 0 to 9, the skipped load, bytes 10 to 14, and a return.
\<close>

definition sample :: "instruction list" where
  "sample = [\<lparr>di_pc = 0, di_op = ''JumpIfTrue'', di_operands = [Imm32 1, Register 0]\<rparr>,
     \<lparr>di_pc = 1, di_op = ''LoadUndefined'', di_operands = [Register 0]\<rparr>,
     \<lparr>di_pc = 2, di_op = ''ReturnUndefined'', di_operands = []\<rparr>]"

lemma sample_ops: "is_op ''JumpIfTrue''" "is_op ''LoadUndefined''" "is_op ''ReturnUndefined''" "is_op ''MakeClass''" "is_op ''Jump''"
  by (simp_all add: is_op_def OP_BYTE_TABLE_def)

lemma sample_shapes:
  "operand_shape ''JumpIfTrue'' = Fixed BRANCH" "operand_shape ''LoadUndefined'' = Fixed WRITE"
  "operand_shape ''ReturnUndefined'' = Fixed EMPTY" "operand_shape ''Jump'' = Fixed JUMP"
  "operand_shape ''MakeClass'' = Fixed WRITE_FOUR_READS"
  by (simp_all add: operand_shape_def)

lemma sample_successors:
  "successor_shape ''JumpIfTrue'' = [RELATIVE_TARGET, Fallthrough]" "successor_shape ''LoadUndefined'' = [Fallthrough]"
  "successor_shape ''ReturnUndefined'' = [FrameReturn]"
  "exception_successor_shape ''JumpIfTrue'' = []" "exception_successor_shape ''LoadUndefined'' = []"
  "exception_successor_shape ''ReturnUndefined'' = []"
  by (simp_all add: successor_shape_def control_flow_def exception_successor_shape_def effects_def)

lemma sample_verified_ops:
  "verify_operand_shape ''JumpIfTrue'' [Imm32 1, Register 0] = Ok ()" "verify_operand_shape ''LoadUndefined'' [Register 0] = Ok ()"
  "verify_operand_shape ''ReturnUndefined'' [] = Ok ()" "verify_operand_shape ''Jump'' [Imm32 d] = Ok ()"
  by (simp_all add: verify_operand_shape_def sample_ops sample_shapes verify_operand_specs_def spec_defs Let_def)

lemma sample_encodable: "encodable sample"
proof -
  have "verify_logical_function sample = Ok ()"
    by (simp add: verify_logical_function_def verify_logical_instr_def sample_def sample_ops sample_successors sample_verified_ops
        verify_logical_target_def get_at_def Let_def)
  then show ?thesis
    by (simp add: encodable_def) (simp add: sample_def sample_ops byte_pc_def instr_size_def)
qed

lemma sample_size: "byte_pc (entries sample) (length sample) = 17"
  by (simp add: sample_def byte_pc_def instr_size_def)

definition sample_bytes :: "u8 list" where
  "sample_bytes = program_bytes (relocate (entries sample))"

lemma sample_decodes: "decode_function sample_bytes = Ok (wire_image sample)" "length sample_bytes = 17"
  using encode_decode [OF sample_encodable] encode_function_bytes [OF sample_encodable] sample_size
  by (auto simp: sample_bytes_def)

text \<open>A builder that holds one jump.\<close>

definition jump_builder :: code_builder where
  "jump_builder = \<lparr>b_instructions = [\<lparr>wi_op = ''Jump'', wi_operand_count = 1, wi_inline_words = [0, 0, 0, 0],
     wi_overflow_offset = NO_OVERFLOW_OPERANDS\<rparr>], b_overflow = []\<rparr>"

lemma jump_builder_builds: "builds jump_builder [(''Jump'', [Imm32 0])]"
proof -
  have "kinds_ok ''Jump'' [Imm32 0]" using verify_operand_shape_kinds(1) [OF sample_ops(5) sample_verified_ops(4)] .
  then show ?thesis
    by (simp add: jump_builder_def builds_def holds_def sample_ops operands_are_inline_def INLINE_OPERAND_WORDS_def abs_words_def)
qed

lemma jump_verified: "verified [(''Jump'', [Imm32 d])]"
  by (simp add: verified_def sample_ops sample_verified_ops)

text \<open>A fragment whose only function loads the only constant of its pool, under two names.\<close>

definition load_code :: function_code where
  "load_code = \<lparr>fc_instructions = [\<lparr>wi_op = ''LoadString'', wi_operand_count = 2, wi_inline_words = [0, 0, 0, 0],
     wi_overflow_offset = NO_OVERFLOW_OPERANDS\<rparr>], fc_overflow = []\<rparr>"

definition load_fragment :: fragment where
  "load_fragment = \<lparr>fr_functions = [\<lparr>bf_id = 0, bf_module_url = [], bf_class_hint_sites = [], bf_code = load_code\<rparr>],
     fr_constants = [CString [97]], fr_resolutions = []\<rparr>"

definition load_nodes :: "string \<rightharpoonup> fragment" where
  "load_nodes = [''a'' \<mapsto> load_fragment, ''b'' \<mapsto> load_fragment]"

lemma load_fragment_good: "good_fragment load_fragment"
proof -
  let ?p = "[(''LoadString'', [Register 0, ConstIndex 0])]"
  have op: "is_op ''LoadString''" by (simp add: is_op_def OP_BYTE_TABLE_def)
  have shape: "operand_shape ''LoadString'' = Fixed WRITE_CONST" by (simp add: operand_shape_def)
  have ok: "verify_operand_shape ''LoadString'' [Register 0, ConstIndex 0] = Ok ()"
    by (simp add: verify_operand_shape_def op shape verify_operand_specs_def spec_defs Let_def)
  have "code_of load_code ?p"
    using verify_operand_shape_kinds(1) [OF op ok] op
    by (simp add: load_code_def code_of_def to_builder_def builds_def holds_def operands_are_inline_def
        INLINE_OPERAND_WORDS_def abs_words_def numeral_2_eq_2)
  moreover have "verified ?p" "fits ?p" "pool_in_range ?p 1"
    using op ok by (simp_all add: verified_def fits_def u32_max_def abs_words_def INLINE_OPERAND_WORDS_def pool_in_range_def nth_Cons')
  ultimately show ?thesis by (simp add: good_fragment_def load_fragment_def good_function_def) blast
qed

end
