(* ===== verification/Gc_Header.thy ===== *)
theory Gc_Header
  imports Rx_Prelude
begin

text \<open>
  The object header of the garbage collector, \<open>otter-gc/src/header.rs\<close>: a type tag, a flag byte that
  packs the mark colour with six single-bit flags, and the size. The flag byte is an 8-bit word and
  every accessor is the bit operation of the source. The collector runs in a pause, so an atomic
  read-modify-write is one update. The lemmas show that colour and flags do not disturb each other.
\<close>

unbundle bit_operations_syntax

section \<open>The flag byte\<close>

definition MARK_COLOR_MASK :: "8 word" where "MARK_COLOR_MASK = 0x03"
definition FLAG_YOUNG :: "8 word" where "FLAG_YOUNG = 0x04"
definition FLAG_FORWARDED :: "8 word" where "FLAG_FORWARDED = 0x08"
definition FLAG_PINNED :: "8 word" where "FLAG_PINNED = 0x10"
definition FLAG_SWEPT :: "8 word" where "FLAG_SWEPT = 0x20"
definition FLAG_REMEMBERED :: "8 word" where "FLAG_REMEMBERED = 0x40"

lemmas flag_defs = MARK_COLOR_MASK_def FLAG_YOUNG_def FLAG_FORWARDED_def FLAG_PINNED_def FLAG_SWEPT_def FLAG_REMEMBERED_def

datatype mark_color = White | Gray | Black

fun color_byte :: "mark_color \<Rightarrow> 8 word" where
  "color_byte White = 0"
| "color_byte Gray = 1"
| "color_byte Black = 2"

record gc_header =
  h_type_tag :: "8 word"
  h_flags :: "8 word"
  h_size_bytes :: "32 word"

definition FREE_TAG :: "8 word" where "FREE_TAG = 0xFF"

definition HEADER_SIZE :: "32 word" where "HEADER_SIZE = 8"

section \<open>Constructors\<close>

definition header_new_free :: "32 word \<Rightarrow> gc_header" where
  "header_new_free sz = \<lparr>h_type_tag = FREE_TAG, h_flags = 0, h_size_bytes = sz\<rparr>"

definition header_new :: "8 word \<Rightarrow> 32 word \<Rightarrow> gc_header" where
  "header_new tag sz = \<lparr>h_type_tag = tag, h_flags = 0, h_size_bytes = sz\<rparr>"

definition header_new_young :: "8 word \<Rightarrow> 32 word \<Rightarrow> gc_header" where
  "header_new_young tag sz = \<lparr>h_type_tag = tag, h_flags = FLAG_YOUNG, h_size_bytes = sz\<rparr>"

definition header_new_young_black :: "8 word \<Rightarrow> 32 word \<Rightarrow> gc_header" where
  "header_new_young_black tag sz = \<lparr>h_type_tag = tag, h_flags = FLAG_YOUNG OR color_byte Black, h_size_bytes = sz\<rparr>"

section \<open>Accessors\<close>

definition payload_size :: "gc_header \<Rightarrow> 32 word" where
  "payload_size h = (if h_size_bytes h < HEADER_SIZE then 0 else h_size_bytes h - HEADER_SIZE)"

definition header_color :: "gc_header \<Rightarrow> mark_color" where
  "header_color h =
    (let c = h_flags h AND MARK_COLOR_MASK in if c = 0 then White else if c = 1 then Gray else if c = 2 then Black else White)"

definition set_mark_color :: "mark_color \<Rightarrow> gc_header \<Rightarrow> gc_header" where
  "set_mark_color c h = h\<lparr>h_flags := (h_flags h AND NOT MARK_COLOR_MASK) OR color_byte c\<rparr>"

definition is_marked :: "gc_header \<Rightarrow> bool" where
  "is_marked h \<longleftrightarrow> h_flags h AND MARK_COLOR_MASK \<noteq> 0"

definition clear_mark :: "gc_header \<Rightarrow> gc_header" where
  "clear_mark h = h\<lparr>h_flags := h_flags h AND NOT MARK_COLOR_MASK\<rparr>"

definition is_young :: "gc_header \<Rightarrow> bool" where
  "is_young h \<longleftrightarrow> h_flags h AND FLAG_YOUNG \<noteq> 0"

definition is_old :: "gc_header \<Rightarrow> bool" where
  "is_old h \<longleftrightarrow> \<not> is_young h"

definition promote_to_old :: "gc_header \<Rightarrow> gc_header" where
  "promote_to_old h = h\<lparr>h_flags := h_flags h AND NOT FLAG_YOUNG\<rparr>"

definition set_young :: "gc_header \<Rightarrow> gc_header" where
  "set_young h = h\<lparr>h_flags := h_flags h OR FLAG_YOUNG\<rparr>"

definition is_forwarded :: "gc_header \<Rightarrow> bool" where
  "is_forwarded h \<longleftrightarrow> h_flags h AND FLAG_FORWARDED \<noteq> 0"

definition set_forwarded :: "gc_header \<Rightarrow> gc_header" where
  "set_forwarded h = h\<lparr>h_flags := h_flags h OR FLAG_FORWARDED\<rparr>"

definition is_swept :: "gc_header \<Rightarrow> bool" where
  "is_swept h \<longleftrightarrow> h_flags h AND FLAG_SWEPT \<noteq> 0"

definition set_swept :: "gc_header \<Rightarrow> gc_header" where
  "set_swept h = h\<lparr>h_flags := h_flags h OR FLAG_SWEPT\<rparr>"

definition is_remembered :: "gc_header \<Rightarrow> bool" where
  "is_remembered h \<longleftrightarrow> h_flags h AND FLAG_REMEMBERED \<noteq> 0"

definition set_remembered :: "gc_header \<Rightarrow> gc_header" where
  "set_remembered h = h\<lparr>h_flags := h_flags h OR FLAG_REMEMBERED\<rparr>"

definition clear_remembered :: "gc_header \<Rightarrow> gc_header" where
  "clear_remembered h = h\<lparr>h_flags := h_flags h AND NOT FLAG_REMEMBERED\<rparr>"

definition is_pinned :: "gc_header \<Rightarrow> bool" where
  "is_pinned h \<longleftrightarrow> h_flags h AND FLAG_PINNED \<noteq> 0"

section \<open>Colour and flags are independent\<close>

lemma mask_after_color: "((x AND NOT m) OR c) AND m = c AND m" for x m c :: "8 word"
  by (rule bit_word_eqI) (auto simp: bit_simps)

lemma flag_after_color:
  fixes x m c f :: "8 word"
  assumes "f AND m = 0" and "c AND f = 0"
  shows "((x AND NOT m) OR c) AND f = x AND f"
proof (rule bit_word_eqI)
  fix n
  assume "n < LENGTH(8)"
  moreover have "\<not> (bit f n \<and> bit m n)" "\<not> (bit c n \<and> bit f n)"
    using assms by (metis bit_and_iff bit_0_eq bot_apply bot_bool_def)+
  ultimately show "bit (((x AND NOT m) OR c) AND f) n = bit (x AND f) n" by (auto simp: bit_simps)
qed

lemma header_color_set [simp]: "header_color (set_mark_color c h) = c"
proof -
  have "h_flags (set_mark_color c h) AND MARK_COLOR_MASK = color_byte c"
    unfolding set_mark_color_def using mask_after_color [of "h_flags h" MARK_COLOR_MASK "color_byte c"]
    by (cases c) (simp_all add: MARK_COLOR_MASK_def)
  then show ?thesis by (cases c) (simp_all add: header_color_def)
qed

lemma header_color_clear [simp]: "header_color (clear_mark h) = White"
  using mask_after_color [of "h_flags h" MARK_COLOR_MASK 0] by (simp add: header_color_def clear_mark_def)

lemma header_color_remembered [simp]: "header_color (set_remembered h) = header_color h"
proof -
  have "(h_flags h OR FLAG_REMEMBERED) AND MARK_COLOR_MASK = h_flags h AND MARK_COLOR_MASK"
    by (simp add: bit.conj_disj_distrib2 flag_defs)
  then show ?thesis by (simp add: header_color_def set_remembered_def)
qed

lemma header_color_new:
  "header_color (header_new tag sz) = White" "header_color (header_new_young tag sz) = White"
  "header_color (header_new_young_black tag sz) = Black"
  by (simp_all add: header_color_def header_new_def header_new_young_def header_new_young_black_def flag_defs)

lemma flags_off_mask:
  "FLAG_YOUNG AND MARK_COLOR_MASK = 0" "FLAG_REMEMBERED AND MARK_COLOR_MASK = 0" "FLAG_FORWARDED AND MARK_COLOR_MASK = 0"
  "FLAG_SWEPT AND MARK_COLOR_MASK = 0" "FLAG_PINNED AND MARK_COLOR_MASK = 0"
  by (simp_all add: flag_defs)

lemma flags_off_color:
  "color_byte c AND FLAG_YOUNG = 0" "color_byte c AND FLAG_REMEMBERED = 0" "color_byte c AND FLAG_FORWARDED = 0"
  "color_byte c AND FLAG_SWEPT = 0" "color_byte c AND FLAG_PINNED = 0"
  by (cases c; simp add: flag_defs)+

lemma set_mark_color_flags [simp]:
  "is_young (set_mark_color c h) = is_young h" "is_remembered (set_mark_color c h) = is_remembered h"
  "is_forwarded (set_mark_color c h) = is_forwarded h" "is_swept (set_mark_color c h) = is_swept h"
  "is_pinned (set_mark_color c h) = is_pinned h"
  by (simp_all add: is_young_def is_remembered_def is_forwarded_def is_swept_def is_pinned_def set_mark_color_def
      flag_after_color [OF flags_off_mask(1) flags_off_color(1)] flag_after_color [OF flags_off_mask(2) flags_off_color(2)]
      flag_after_color [OF flags_off_mask(3) flags_off_color(3)] flag_after_color [OF flags_off_mask(4) flags_off_color(4)]
      flag_after_color [OF flags_off_mask(5) flags_off_color(5)])

lemma set_mark_color_fields [simp]:
  "h_type_tag (set_mark_color c h) = h_type_tag h" "h_size_bytes (set_mark_color c h) = h_size_bytes h"
  "h_type_tag (clear_mark h) = h_type_tag h" "h_size_bytes (clear_mark h) = h_size_bytes h"
  "h_type_tag (set_remembered h) = h_type_tag h" "h_size_bytes (set_remembered h) = h_size_bytes h"
  by (simp_all add: set_mark_color_def clear_mark_def set_remembered_def)

text \<open>The bits outside the colour mask.\<close>

definition other_flags :: "gc_header \<Rightarrow> 8 word" where
  "other_flags h = h_flags h AND NOT MARK_COLOR_MASK"

lemma other_flags_color [simp]:
  "other_flags (set_mark_color c h) = other_flags h" "other_flags (clear_mark h) = other_flags h"
proof -
  have "color_byte c AND NOT MARK_COLOR_MASK = 0" by (cases c) (simp_all add: MARK_COLOR_MASK_def)
  then show "other_flags (set_mark_color c h) = other_flags h"
    by (simp add: other_flags_def set_mark_color_def bit.conj_disj_distrib2 and.assoc)
qed (simp add: other_flags_def clear_mark_def and.assoc)

end
