(* ===== verification/Gc_Marking.thy ===== *)
theory Gc_Marking
  imports Gc_Header
begin

text \<open>
  The tri-colour marker of the garbage collector: \<open>otter-gc/src/marking.rs\<close>, the write barrier of
  \<open>barrier.rs\<close>, and the mark phase and old-space publication of \<open>heap.rs\<close>. Objects are named by their
  cage offset, a 32-bit word with 0 for null. The heap maps offsets to headers and payloads; the trace
  table maps a type tag to the function that lists the slots of a payload. The payload type and the
  trace functions belong to the embedding engine and are parameters. Byte counters are \<open>usize\<close>, 64-bit
  words. The scavenge that precedes a mark phase is not modelled: the model starts from its result.
\<close>

section \<open>State\<close>

type_synonym raw = "32 word"
type_synonym 'p trace_table = "8 word \<Rightarrow> ('p \<Rightarrow> raw list) option"

record marking_state =
  ms_worklist :: "raw list"
  ms_live_bytes :: "64 word"
  ms_is_marking :: bool

record 'p gc_state =
  g_header :: "raw \<Rightarrow> gc_header"
  g_payload :: "raw \<Rightarrow> 'p"
  g_page_live :: "raw \<Rightarrow> 64 word"
  g_marking :: marking_state
  g_remembered :: "raw list"

definition marking_new :: marking_state where
  "marking_new = \<lparr>ms_worklist = [], ms_live_bytes = 0, ms_is_marking = False\<rparr>"

definition PAGE_SIZE :: "32 word" where "PAGE_SIZE = 0x40000"

definition page_base_of :: "raw \<Rightarrow> raw" where
  "page_base_of a = a AND NOT (PAGE_SIZE - 1)"

abbreviation color :: "'p gc_state \<Rightarrow> raw \<Rightarrow> mark_color" where
  "color s a \<equiv> header_color (g_header s a)"

abbreviation worklist :: "'p gc_state \<Rightarrow> raw list" where
  "worklist s \<equiv> ms_worklist (g_marking s)"

definition update_header :: "raw \<Rightarrow> (gc_header \<Rightarrow> gc_header) \<Rightarrow> 'p gc_state \<Rightarrow> 'p gc_state" where
  "update_header a f s = s\<lparr>g_header := (g_header s)(a := f (g_header s a))\<rparr>"

definition update_marking :: "(marking_state \<Rightarrow> marking_state) \<Rightarrow> 'p gc_state \<Rightarrow> 'p gc_state" where
  "update_marking f s = s\<lparr>g_marking := f (g_marking s)\<rparr>"

text \<open>\<open>TraceTable::trace\<close>: the slots of an object, none when its tag is not registered.\<close>

definition trace :: "'p trace_table \<Rightarrow> 'p gc_state \<Rightarrow> raw \<Rightarrow> raw list" where
  "trace tt s a = (case tt (h_type_tag (g_header s a)) of None \<Rightarrow> [] | Some f \<Rightarrow> f (g_payload s a))"

section \<open>The marker\<close>

definition shade_gray :: "raw \<Rightarrow> 'p gc_state \<Rightarrow> 'p gc_state" where
  "shade_gray a s =
    (if color s a = White
     then update_marking (\<lambda>m. m\<lparr>ms_worklist := ms_worklist m @ [a]\<rparr>) (update_header a (set_mark_color Gray) s)
     else s)"

definition shade_from_slot :: "raw \<Rightarrow> 'p gc_state \<Rightarrow> 'p gc_state" where
  "shade_from_slot r s = (if r = 0 then s else shade_gray r s)"

definition start_cycle :: "marking_state \<Rightarrow> marking_state" where
  "start_cycle m = m\<lparr>ms_is_marking := True, ms_live_bytes := 0\<rparr>"

definition finish_cycle :: "marking_state \<Rightarrow> marking_state" where
  "finish_cycle m = m\<lparr>ms_is_marking := False\<rparr>"

definition count_live :: "raw \<Rightarrow> 'p gc_state \<Rightarrow> 'p gc_state" where
  "count_live a s =
    (let n = ucast (h_size_bytes (g_header s a)); s = update_marking (\<lambda>m. m\<lparr>ms_live_bytes := ms_live_bytes m + n\<rparr>) s
     in s\<lparr>g_page_live := (g_page_live s)(page_base_of a := g_page_live s (page_base_of a) + n)\<rparr>)"

definition process_one :: "'p trace_table \<Rightarrow> raw \<Rightarrow> 'p gc_state \<Rightarrow> 'p gc_state" where
  "process_one tt a s =
    (let s = count_live a s in update_header a (set_mark_color Black) (fold shade_from_slot (trace tt s a) s))"

definition pop_front :: "raw list \<Rightarrow> 'p gc_state \<Rightarrow> 'p gc_state" where
  "pop_front rest = update_marking (\<lambda>m. m\<lparr>ms_worklist := rest\<rparr>)"

fun drain_with_budget :: "'p trace_table \<Rightarrow> nat \<Rightarrow> 'p gc_state \<Rightarrow> nat \<times> 'p gc_state" where
  "drain_with_budget tt 0 s = (0, s)"
| "drain_with_budget tt (Suc budget) s =
    (case worklist s of
       [] \<Rightarrow> (0, s)
     | a # rest \<Rightarrow> let (done_n, s) = drain_with_budget tt budget (process_one tt a (pop_front rest s)) in (Suc done_n, s))"

section \<open>Effect of shading\<close>

lemma update_header_simps [simp]:
  "g_header (update_header a f s) b = (if b = a then f (g_header s a) else g_header s b)"
  "g_payload (update_header a f s) = g_payload s" "g_page_live (update_header a f s) = g_page_live s"
  "g_marking (update_header a f s) = g_marking s" "g_remembered (update_header a f s) = g_remembered s"
  by (simp_all add: update_header_def)

lemma update_marking_simps [simp]:
  "g_header (update_marking f s) = g_header s" "g_payload (update_marking f s) = g_payload s"
  "g_page_live (update_marking f s) = g_page_live s" "g_marking (update_marking f s) = f (g_marking s)"
  "g_remembered (update_marking f s) = g_remembered s"
  by (simp_all add: update_marking_def)

text \<open>What marking leaves alone: everything but colours and the worklist.\<close>

definition same_objects :: "'p gc_state \<Rightarrow> 'p gc_state \<Rightarrow> bool" where
  "same_objects s t \<longleftrightarrow> g_payload t = g_payload s \<and> (\<forall>a. h_type_tag (g_header t a) = h_type_tag (g_header s a)
     \<and> h_size_bytes (g_header t a) = h_size_bytes (g_header s a) \<and> other_flags (g_header t a) = other_flags (g_header s a))"

lemma same_objects_refl [simp]: "same_objects s s"
  by (simp add: same_objects_def)

lemma same_objects_trans: "same_objects s t \<Longrightarrow> same_objects t u \<Longrightarrow> same_objects s u"
  by (simp add: same_objects_def)

lemma same_objects_trace: "same_objects s t \<Longrightarrow> trace tt t = trace tt s"
  by (rule ext) (simp add: same_objects_def trace_def split: option.splits)

definition fresh :: "'p gc_state \<Rightarrow> raw list \<Rightarrow> raw set" where
  "fresh s xs = {a \<in> set xs. a \<noteq> 0 \<and> color s a = White}"

definition shaded :: "raw set \<Rightarrow> 'p gc_state \<Rightarrow> 'p gc_state \<Rightarrow> bool" where
  "shaded A s t \<longleftrightarrow> same_objects s t \<and> g_page_live t = g_page_live s
     \<and> ms_live_bytes (g_marking t) = ms_live_bytes (g_marking s) \<and> ms_is_marking (g_marking t) = ms_is_marking (g_marking s)
     \<and> (\<forall>a. color t a = (if a \<in> A then Gray else color s a))
     \<and> (\<exists>ys. worklist t = worklist s @ ys \<and> set ys = A \<and> distinct ys)"

lemma shade_gray_shaded: "shaded (if color s a = White then {a} else {}) s (shade_gray a s)"
  by (auto simp: shaded_def shade_gray_def same_objects_def)

lemma shade_from_slot_shaded: "shaded (fresh s [a]) s (shade_from_slot a s)"
  using shade_gray_shaded [of s a] by (auto simp: shade_from_slot_def fresh_def shaded_def split: if_splits)

lemma shaded_trans:
  assumes "shaded A s t" and "shaded B t u" and "A \<inter> B = {}"
  shows "shaded (A \<union> B) s u"
  using assms unfolding shaded_def by (auto intro: same_objects_trans)

lemma fold_shade_shaded: "shaded (fresh s xs) s (fold shade_from_slot xs s)"
proof (induction xs arbitrary: s)
  case Nil
  show ?case by (simp add: shaded_def fresh_def)
next
  case (Cons x xs)
  let ?t = "shade_from_slot x s"
  have t: "shaded (fresh s [x]) s ?t" by (rule shade_from_slot_shaded)
  have c: "color ?t a = (if a \<in> fresh s [x] then Gray else color s a)" for a using t by (simp add: shaded_def)
  have "fresh s [x] \<inter> fresh ?t xs = {}" "fresh s (x # xs) = fresh s [x] \<union> fresh ?t xs"
    using c by (auto simp: fresh_def)
  then show ?case using shaded_trans [OF t Cons.IH [of ?t]] by simp
qed

section \<open>Effect of one step\<close>

lemma shaded_simps:
  assumes "shaded A s t"
  shows "same_objects s t" "g_page_live t = g_page_live s" "ms_live_bytes (g_marking t) = ms_live_bytes (g_marking s)"
    "ms_is_marking (g_marking t) = ms_is_marking (g_marking s)" "color t a = (if a \<in> A then Gray else color s a)"
  using assms by (simp_all add: shaded_def)

lemma count_live_simps [simp]:
  "g_header (count_live a s) = g_header s" "g_payload (count_live a s) = g_payload s" "worklist (count_live a s) = worklist s"
  "ms_is_marking (g_marking (count_live a s)) = ms_is_marking (g_marking s)"
  "ms_live_bytes (g_marking (count_live a s)) = ms_live_bytes (g_marking s) + ucast (h_size_bytes (g_header s a))"
  "g_page_live (count_live a s) p =
    g_page_live s p + (if p = page_base_of a then ucast (h_size_bytes (g_header s a)) else 0)"
  by (simp_all add: count_live_def Let_def)

lemma pop_front_simps [simp]:
  "g_header (pop_front rest s) = g_header s" "g_payload (pop_front rest s) = g_payload s" "worklist (pop_front rest s) = rest"
  "ms_is_marking (g_marking (pop_front rest s)) = ms_is_marking (g_marking s)"
  "ms_live_bytes (g_marking (pop_front rest s)) = ms_live_bytes (g_marking s)"
  "g_page_live (pop_front rest s) = g_page_live s"
  by (simp_all add: pop_front_def)

lemma trace_cong: "g_header t = g_header s \<Longrightarrow> g_payload t = g_payload s \<Longrightarrow> trace tt t = trace tt s"
  by (rule ext) (simp add: trace_def split: option.splits)

lemma fresh_cong: "g_header t = g_header s \<Longrightarrow> fresh t xs = fresh s xs"
  by (simp add: fresh_def)

lemma process_one_effect:
  shows "same_objects s (process_one tt a s)"
    and "color (process_one tt a s) b = (if b = a then Black else if b \<in> fresh s (trace tt s a) then Gray else color s b)"
    and "\<exists>ys. worklist (process_one tt a s) = worklist s @ ys \<and> set ys = fresh s (trace tt s a) \<and> distinct ys"
    and "ms_is_marking (g_marking (process_one tt a s)) = ms_is_marking (g_marking s)"
    and "ms_live_bytes (g_marking (process_one tt a s)) = ms_live_bytes (g_marking s) + ucast (h_size_bytes (g_header s a))"
    and "g_page_live (process_one tt a s) p =
      g_page_live s p + (if p = page_base_of a then ucast (h_size_bytes (g_header s a)) else 0)"
proof -
  let ?c = "count_live a s" and ?A = "fresh s (trace tt s a)"
  let ?f = "fold shade_from_slot (trace tt ?c a) ?c"
  have eq: "trace tt ?c = trace tt s" "fresh ?c xs = fresh s xs" for xs by (rule trace_cong; simp) (simp add: fresh_def)
  have f: "shaded ?A ?c ?f" using fold_shade_shaded [of ?c "trace tt ?c a"] by (simp add: eq)
  have p: "process_one tt a s = update_header a (set_mark_color Black) ?f" by (simp add: process_one_def Let_def)
  show "same_objects s (process_one tt a s)" using shaded_simps(1) [OF f] by (auto simp: p same_objects_def)
  show "color (process_one tt a s) b = (if b = a then Black else if b \<in> fresh s (trace tt s a) then Gray else color s b)"
    using shaded_simps(5) [OF f, of b] by (simp add: p)
  show "\<exists>ys. worklist (process_one tt a s) = worklist s @ ys \<and> set ys = fresh s (trace tt s a) \<and> distinct ys"
    using f by (auto simp: p shaded_def)
  show "ms_is_marking (g_marking (process_one tt a s)) = ms_is_marking (g_marking s)"
    "ms_live_bytes (g_marking (process_one tt a s)) = ms_live_bytes (g_marking s) + ucast (h_size_bytes (g_header s a))"
    "g_page_live (process_one tt a s) p =
      g_page_live s p + (if p = page_base_of a then ucast (h_size_bytes (g_header s a)) else 0)"
    using shaded_simps(2-4) [OF f] by (simp_all add: p)
qed

section \<open>Draining terminates\<close>

text \<open>A step takes one object off the worklist, and every object it adds was white before.\<close>

definition drain_work :: "'p gc_state \<Rightarrow> nat" where
  "drain_work s = 2 * card {a. color s a = White} + length (worklist s)"

lemma process_one_work:
  assumes "worklist s = a # rest"
  shows "drain_work (process_one tt a (pop_front rest s)) < drain_work s"
proof -
  let ?p = "pop_front rest s"
  let ?A = "fresh ?p (trace tt ?p a)" and ?W = "{b. color s b = White}" and ?t = "process_one tt a ?p"
  obtain ys where ys: "worklist ?t = rest @ ys" "set ys = ?A" "distinct ys"
    using process_one_effect(3) [of tt a ?p] by auto
  have "{b. color ?t b = White} \<subseteq> ?W - ?A" using process_one_effect(2) [of tt a ?p] by auto
  then have "card {b. color ?t b = White} \<le> card (?W - ?A)" by (intro card_mono) simp_all
  moreover have A: "?A \<subseteq> ?W" by (auto simp: fresh_def)
  then have "card (?W - ?A) = card ?W - card ?A" "card ?A \<le> card ?W" by (simp_all add: card_Diff_subset card_mono)
  moreover have "length ys = card ?A" using ys(2,3) distinct_card by fastforce
  ultimately show ?thesis using assms ys(1) by (simp add: drain_work_def)
qed

function drain_full :: "'p trace_table \<Rightarrow> 'p gc_state \<Rightarrow> 'p gc_state" where
  "drain_full tt s = (case worklist s of [] \<Rightarrow> s | a # rest \<Rightarrow> drain_full tt (process_one tt a (pop_front rest s)))"
  by pat_completeness auto
termination
  by (relation "measure (\<lambda>(tt, s). drain_work s)") (simp_all add: process_one_work)

declare drain_full.simps [simp del]

lemma drain_full_empties: "worklist (drain_full tt s) = []"
  by (induction tt s rule: drain_full.induct) (subst drain_full.simps, simp split: list.splits)

lemma drain_full_invariant:
  assumes "\<And>s a rest. P s \<Longrightarrow> worklist s = a # rest \<Longrightarrow> P (process_one tt a (pop_front rest s))" and "P s"
  shows "P (drain_full tt s)"
proof -
  have "t = tt \<Longrightarrow> P s \<Longrightarrow> P (drain_full t s)" for t
  proof (induction t s rule: drain_full.induct)
    case (1 t s)
    then show ?case using assms(1) [of s] by (subst drain_full.simps) (simp split: list.splits)
  qed
  then show ?thesis using assms(2) by simp
qed

lemma drain_with_budget_invariant:
  assumes "\<And>s a rest. P s \<Longrightarrow> worklist s = a # rest \<Longrightarrow> P (process_one tt a (pop_front rest s))" and "P s"
  shows "P (snd (drain_with_budget tt n s))"
  using assms(2)
proof (induction n arbitrary: s)
  case (Suc n)
  show ?case
  proof (cases "worklist s")
    case (Cons a rest)
    then show ?thesis using Suc.IH [OF assms(1) [OF Suc.prems Cons]] by (simp add: case_prod_beta)
  qed (simp add: Suc.prems)
qed simp

end
