(* ===== verification/Gc_Cycle.thy ===== *)
theory Gc_Cycle
  imports Gc_Marking
begin

text \<open>
  A full mark cycle: the write barrier (\<open>otter-gc/src/barrier.rs\<close>), and the mark phase, its incremental
  form, the marking of additional objects and the initialisation of new objects (\<open>otter-gc/src/heap.rs\<close>).
  The pages, the objects on them and the root slots are lists: enumerating them is the task of the
  spaces and the root providers. The main results are that a stop-the-world mark phase paints exactly
  the reachable objects black and counts their bytes, and that an incremental one, with stores and
  old-space allocations between its steps, loses no reachable object.
\<close>

section \<open>Operations\<close>

definition write_barrier :: "raw \<Rightarrow> raw \<Rightarrow> 'p gc_state \<Rightarrow> 'p gc_state" where
  "write_barrier parent child s =
    (let s =
       (if child \<noteq> 0 \<and> is_old (g_header s parent) \<and> \<not> is_remembered (g_header s parent) \<and> is_young (g_header s child)
        then (update_header parent set_remembered s)\<lparr>g_remembered := g_remembered s @ [parent]\<rparr>
        else s)
     in if ms_is_marking (g_marking s) \<and> child \<noteq> 0 \<and> color s child = White then shade_gray child s else s)"

definition shade_roots :: "raw list \<Rightarrow> 'p gc_state \<Rightarrow> 'p gc_state" where
  "shade_roots roots = fold shade_from_slot roots"

definition reset_live_bytes :: "raw list \<Rightarrow> 'p gc_state \<Rightarrow> 'p gc_state" where
  "reset_live_bytes pages s = s\<lparr>g_page_live := \<lambda>p. if p \<in> set pages then 0 else g_page_live s p\<rparr>"

definition clear_marks :: "raw list \<Rightarrow> 'p gc_state \<Rightarrow> 'p gc_state" where
  "clear_marks objs = fold (\<lambda>a. update_header a clear_mark) objs"

definition start_incremental_mark_phase :: "raw list \<Rightarrow> raw list \<Rightarrow> raw list \<Rightarrow> 'p gc_state \<Rightarrow> 'p gc_state" where
  "start_incremental_mark_phase pages objs roots s =
    shade_roots roots (update_marking start_cycle (clear_marks objs (reset_live_bytes pages s)))"

definition mark_phase :: "'p trace_table \<Rightarrow> raw list \<Rightarrow> raw list \<Rightarrow> raw list \<Rightarrow> 'p gc_state \<Rightarrow> 'p gc_state" where
  "mark_phase tt pages objs roots s = drain_full tt (start_incremental_mark_phase pages objs roots s)"

definition incremental_mark_step :: "'p trace_table \<Rightarrow> nat \<Rightarrow> 'p gc_state \<Rightarrow> nat \<times> 'p gc_state" where
  "incremental_mark_step tt budget s = (if \<not> ms_is_marking (g_marking s) then (0, s) else drain_with_budget tt budget s)"

definition finish_incremental_mark_phase :: "'p trace_table \<Rightarrow> raw list \<Rightarrow> 'p gc_state \<Rightarrow> 'p gc_state" where
  "finish_incremental_mark_phase tt roots s = drain_full tt (shade_roots roots s)"

definition heap_is_marked :: "'p gc_state \<Rightarrow> raw \<Rightarrow> bool" where
  "heap_is_marked s r \<longleftrightarrow> r \<noteq> 0 \<and> is_marked (g_header s r)"

fun additions_loop :: "raw list \<Rightarrow> bool \<Rightarrow> 'p gc_state \<Rightarrow> bool \<times> 'p gc_state" where
  "additions_loop [] discovered s = (discovered, s)"
| "additions_loop (r # rs) discovered s =
    (if r = 0 \<or> heap_is_marked s r then additions_loop rs discovered s else additions_loop rs True (shade_from_slot r s))"

definition mark_additional :: "'p trace_table \<Rightarrow> raw list \<Rightarrow> 'p gc_state \<Rightarrow> bool \<times> 'p gc_state" where
  "mark_additional tt additions s =
    (let (discovered, s) = additions_loop additions False s in (discovered, if discovered then drain_full tt s else s))"

text \<open>Writing a new object at an offset the spaces have handed out.\<close>

definition install :: "raw \<Rightarrow> gc_header \<Rightarrow> 'p \<Rightarrow> 'p gc_state \<Rightarrow> 'p gc_state" where
  "install a h v s = s\<lparr>g_header := (g_header s)(a := h), g_payload := (g_payload s)(a := v)\<rparr>"

definition publish_old :: "'p trace_table \<Rightarrow> 8 word \<Rightarrow> 32 word \<Rightarrow> 'p \<Rightarrow> raw \<Rightarrow> 'p gc_state \<Rightarrow> 'p gc_state" where
  "publish_old tt tag sz v a s =
    (let h = (if ms_is_marking (g_marking s) then set_mark_color Black (header_new tag sz) else header_new tag sz);
         s = install a h v s
     in fold (write_barrier a) (trace tt s a) s)"

definition publish_young :: "8 word \<Rightarrow> 32 word \<Rightarrow> 'p \<Rightarrow> raw \<Rightarrow> 'p gc_state \<Rightarrow> 'p gc_state" where
  "publish_young tag sz v a s =
    install a (if ms_is_marking (g_marking s) then header_new_young_black tag sz else header_new_young tag sz) v s"

section \<open>The tri-colour invariant\<close>

definition closed :: "(raw \<Rightarrow> raw list) \<Rightarrow> raw set \<Rightarrow> bool" where
  "closed ch U \<longleftrightarrow> 0 \<notin> U \<and> (\<forall>a \<in> U. set (ch a) \<subseteq> insert 0 U)"

text \<open>No black object points at a white one, except possibly at the objects in \<open>R\<close>.\<close>

definition tricolor_but :: "raw set \<Rightarrow> 'p trace_table \<Rightarrow> raw set \<Rightarrow> 'p gc_state \<Rightarrow> bool" where
  "tricolor_but R tt U s \<longleftrightarrow> closed (trace tt s) U \<and> set (worklist s) \<subseteq> U \<and> distinct (worklist s)
     \<and> (\<forall>a \<in> U. color s a = Gray \<longleftrightarrow> a \<in> set (worklist s))
     \<and> (\<forall>a \<in> U. color s a = Black \<longrightarrow> (\<forall>b \<in> set (trace tt s a). b \<noteq> 0 \<and> b \<notin> R \<longrightarrow> color s b \<noteq> White))"

abbreviation tricolor :: "'p trace_table \<Rightarrow> raw set \<Rightarrow> 'p gc_state \<Rightarrow> bool" where
  "tricolor \<equiv> tricolor_but {}"

lemmas tricolor_def = tricolor_but_def

lemma tricolor_shaded:
  assumes "tricolor_but R tt U s" and "shaded A s t" and "A \<subseteq> U" and "\<And>a. a \<in> A \<Longrightarrow> color s a = White"
  shows "tricolor_but (R - A) tt U t"
proof -
  obtain ys where ys: "worklist t = worklist s @ ys" "set ys = A" "distinct ys" using assms(2) by (auto simp: shaded_def)
  have t: "trace tt t = trace tt s" "color t b = (if b \<in> A then Gray else color s b)" for b
    using shaded_simps(1,5) [OF assms(2)] same_objects_trace by auto
  have "set (worklist s) \<inter> A = {}" using assms(1,3,4) unfolding tricolor_def by fastforce
  then show ?thesis using assms(1,3,4) ys t unfolding tricolor_def by auto
qed

lemma process_one_tricolor:
  assumes "tricolor tt U s" and "worklist s = a # rest"
  shows "tricolor tt U (process_one tt a (pop_front rest s))"
proof -
  let ?p = "pop_front rest s"
  let ?t = "process_one tt a ?p" and ?A = "fresh s (trace tt s a)"
  have eq: "trace tt ?p = trace tt s" "fresh ?p xs = fresh s xs" for xs by (rule trace_cong; simp) (simp add: fresh_def)
  obtain ys where ys: "worklist ?t = rest @ ys" "set ys = ?A" "distinct ys"
    using process_one_effect(3) [of tt a ?p] by (auto simp: eq)
  have c: "color ?t b = (if b = a then Black else if b \<in> ?A then Gray else color s b)" for b
    using process_one_effect(2) [of tt a ?p b] by (simp add: eq)
  have tr: "trace tt ?t = trace tt s" using same_objects_trace [OF process_one_effect(1) [of ?p tt a]] by (simp add: eq)
  have a: "a \<in> U" "color s a = Gray" "a \<notin> set rest" using assms by (auto simp: tricolor_def)
  have A: "?A \<subseteq> U" using assms(1) a(1) by (auto simp: tricolor_def closed_def fresh_def)
  have "set rest \<inter> ?A = {}" using assms by (auto simp: tricolor_def fresh_def)
  then have w: "distinct (worklist ?t)" "set (worklist ?t) \<subseteq> U" using assms ys A by (auto simp: tricolor_def)
  show ?thesis
    unfolding tricolor_def tr
  proof (intro conjI ballI impI)
    show "closed (trace tt s) U" using assms(1) by (simp add: tricolor_def)
    fix b
    assume b: "b \<in> U"
    have "color s b = Gray \<longleftrightarrow> b = a \<or> b \<in> set rest" using assms b by (auto simp: tricolor_def)
    moreover have "a \<notin> ?A" using a(2) by (simp add: fresh_def)
    ultimately show "color ?t b = Gray \<longleftrightarrow> b \<in> set (worklist ?t)" using ys(1,2) a(3) by (simp add: c)
    fix d
    assume black: "color ?t b = Black" and d: "d \<in> set (trace tt s b)" "d \<noteq> 0 \<and> d \<notin> {}"
    show "color ?t d \<noteq> White"
    proof (cases "b = a")
      case True
      then show ?thesis using d by (simp add: c fresh_def)
    next
      case False
      then have "color s b = Black" using black by (simp add: c split: if_splits)
      then have "color s d \<noteq> White" using assms(1) b d by (simp add: tricolor_def)
      then show ?thesis by (simp add: c)
    qed
  qed (rule w)+
qed

lemma drain_full_tricolor: "tricolor tt U s \<Longrightarrow> tricolor tt U (drain_full tt s)"
  by (rule drain_full_invariant [where P = "tricolor tt U"]) (rule process_one_tricolor)

lemma drain_with_budget_tricolor: "tricolor tt U s \<Longrightarrow> tricolor tt U (snd (drain_with_budget tt n s))"
  by (rule drain_with_budget_invariant [where P = "tricolor tt U"]) (rule process_one_tricolor)

lemma shade_roots_tricolor:
  assumes "tricolor tt U s" and "set roots \<subseteq> insert 0 U"
  shows "tricolor tt U (shade_roots roots s)"
proof -
  have "fresh s roots \<subseteq> U" using assms(2) by (auto simp: fresh_def)
  moreover have "color s a = White" if "a \<in> fresh s roots" for a using that by (simp add: fresh_def)
  ultimately show ?thesis
    using tricolor_shaded [OF assms(1) fold_shade_shaded [of s roots]] unfolding shade_roots_def empty_Diff by blast
qed

section \<open>Reachability\<close>

inductive reach :: "(raw \<Rightarrow> raw list) \<Rightarrow> raw list \<Rightarrow> raw \<Rightarrow> bool" for ch roots where
  reach_root: "r \<in> set roots \<Longrightarrow> r \<noteq> 0 \<Longrightarrow> reach ch roots r"
| reach_child: "reach ch roots a \<Longrightarrow> b \<in> set (ch a) \<Longrightarrow> b \<noteq> 0 \<Longrightarrow> reach ch roots b"

lemma reach_in_objects:
  assumes "reach ch roots a" and "closed ch U" and "set roots \<subseteq> insert 0 U"
  shows "a \<in> U"
  using assms(1) by induction (use assms(2,3) in \<open>auto simp: closed_def\<close>)

text \<open>With an empty worklist the invariant puts everything reachable from marked roots on the black side.\<close>

lemma drained_black:
  assumes "tricolor tt U s" and "worklist s = []" and "set roots \<subseteq> insert 0 U"
    and "\<And>r. r \<in> set roots \<Longrightarrow> r \<noteq> 0 \<Longrightarrow> color s r \<noteq> White" and "reach (trace tt s) roots a"
  shows "color s a = Black"
proof -
  have cl: "closed (trace tt s) U" using assms(1) by (simp add: tricolor_def)
  have no_gray: "color s b \<noteq> Gray" if "b \<in> U" for b using assms(1,2) that by (auto simp: tricolor_def)
  show ?thesis using assms(5)
  proof induction
    case (reach_root r)
    then have "r \<in> U" using assms(3) by auto
    then show ?case using assms(4) [OF reach_root] no_gray by (cases "color s r") auto
  next
    case (reach_child a b)
    have "a \<in> U" "b \<in> U"
      using reach_in_objects [OF _ cl assms(3)] reach_child.hyps reach.reach_child by blast+
    then have "color s b \<noteq> White" "color s b \<noteq> Gray" using assms(1) reach_child no_gray by (auto simp: tricolor_def)
    then show ?case by (cases "color s b") auto
  qed
qed

section \<open>Stop-the-world marking is exact\<close>

lemma clear_marks_Cons [simp]: "clear_marks (a # objs) s = clear_marks objs (update_header a clear_mark s)"
  by (simp add: clear_marks_def)

lemma clear_marks_Nil [simp]: "clear_marks [] s = s"
  by (simp add: clear_marks_def)

lemma clear_marks_simps [simp]:
  "g_payload (clear_marks objs s) = g_payload s" "g_page_live (clear_marks objs s) = g_page_live s"
  "g_marking (clear_marks objs s) = g_marking s"
  by (induction objs arbitrary: s; simp)+

lemma clear_marks_same_objects: "same_objects s (clear_marks objs s)"
proof (induction objs arbitrary: s)
  case (Cons a objs)
  have "same_objects s (update_header a clear_mark s)" by (simp add: same_objects_def)
  then show ?case using same_objects_trans [OF _ Cons.IH] by simp
qed simp

lemma clear_marks_color: "color (clear_marks objs s) a = (if a \<in> set objs then White else color s a)"
  by (induction objs arbitrary: s) simp_all

definition cycle_start :: "raw list \<Rightarrow> raw list \<Rightarrow> 'p gc_state \<Rightarrow> 'p gc_state" where
  "cycle_start pages objs s = update_marking start_cycle (clear_marks objs (reset_live_bytes pages s))"

lemma cycle_start_simps:
  "same_objects s (cycle_start pages objs s)" "worklist (cycle_start pages objs s) = worklist s"
  "ms_live_bytes (g_marking (cycle_start pages objs s)) = 0" "ms_is_marking (g_marking (cycle_start pages objs s))"
  "p \<in> set pages \<Longrightarrow> g_page_live (cycle_start pages objs s) p = 0"
  "a \<in> set objs \<Longrightarrow> color (cycle_start pages objs s) a = White"
  using clear_marks_same_objects [of "reset_live_bytes pages s" objs]
  by (simp_all add: cycle_start_def start_cycle_def reset_live_bytes_def clear_marks_color same_objects_def)

lemma cycle_start_tricolor:
  assumes "closed (trace tt s) (set objs)" and "worklist s = []"
  shows "tricolor tt (set objs) (cycle_start pages objs s)"
  using assms cycle_start_simps(2) [of pages objs s] cycle_start_simps(6) [of _ objs pages s]
    same_objects_trace [OF cycle_start_simps(1) [of s pages objs], of tt]
  by (simp add: tricolor_def)

text \<open>The byte counters: what black objects account for.\<close>

definition black_bytes :: "raw set \<Rightarrow> 'p gc_state \<Rightarrow> 64 word" where
  "black_bytes U s = (\<Sum>a | a \<in> U \<and> color s a = Black. ucast (h_size_bytes (g_header s a)))"

definition counted :: "raw set \<Rightarrow> raw list \<Rightarrow> 'p gc_state \<Rightarrow> bool" where
  "counted U pages s \<longleftrightarrow> ms_live_bytes (g_marking s) = black_bytes U s
     \<and> (\<forall>p \<in> set pages. g_page_live s p = black_bytes {a \<in> U. page_base_of a = p} s)"

lemma black_bytes_step:
  assumes "color s a = Gray" and "same_objects s t"
    and "\<And>b. b \<in> U \<Longrightarrow> (color t b = Black \<longleftrightarrow> b = a \<or> color s b = Black)"
  shows "black_bytes U t = black_bytes U s + (if a \<in> U then ucast (h_size_bytes (g_header s a)) else 0)"
proof -
  have sz: "h_size_bytes (g_header t b) = h_size_bytes (g_header s b)" for b using assms(2) by (simp add: same_objects_def)
  have set: "{b. b \<in> U \<and> color t b = Black} = {b. b \<in> U \<and> color s b = Black} \<union> ({a} \<inter> U)" using assms(3) by auto
  have "{b. b \<in> U \<and> color s b = Black} \<inter> ({a} \<inter> U) = {}" using assms(1) by auto
  then show ?thesis unfolding black_bytes_def set by (subst sum.union_disjoint) (simp_all add: sz)
qed

text \<open>Marked objects are reachable, and the counters are exact, throughout a drain.\<close>

definition exact :: "'p trace_table \<Rightarrow> raw set \<Rightarrow> raw list \<Rightarrow> raw list \<Rightarrow> 'p gc_state \<Rightarrow> 'p gc_state \<Rightarrow> bool" where
  "exact tt U pages roots s0 s \<longleftrightarrow> tricolor tt U s \<and> same_objects s0 s \<and> counted U pages s
     \<and> (\<forall>a \<in> U. color s a \<noteq> White \<longrightarrow> reach (trace tt s0) roots a)
     \<and> (\<forall>r \<in> set roots. r \<noteq> 0 \<longrightarrow> color s r \<noteq> White)"

lemma exact_start:
  fixes s :: "'p gc_state"
  assumes "closed (trace tt s) (set objs)" and "worklist s = []" and "set roots \<subseteq> insert 0 (set objs)"
  shows "exact tt (set objs) pages roots s (start_incremental_mark_phase pages objs roots s)"
proof -
  let ?c = "cycle_start pages objs s" and ?t = "start_incremental_mark_phase pages objs roots s"
  have t: "?t = shade_roots roots ?c" by (simp add: start_incremental_mark_phase_def cycle_start_def)
  have sh: "shaded (fresh ?c roots) ?c ?t" using fold_shade_shaded [of ?c roots] by (simp add: t shade_roots_def)
  have c: "color ?t a = (if a \<in> set roots \<and> a \<noteq> 0 then Gray else White)" if "a \<in> set objs" for a
    using shaded_simps(5) [OF sh, of a] cycle_start_simps(6) [OF that, of pages s] by (simp add: fresh_def)
  have none: "black_bytes V ?t = 0" if "V \<subseteq> set objs" for V
  proof -
    have "color ?t a \<noteq> Black" if "a \<in> V" for a using c [of a] that \<open>V \<subseteq> set objs\<close> by (auto split: if_splits)
    then have "{a. a \<in> V \<and> color ?t a = Black} = {}" by blast
    then show ?thesis unfolding black_bytes_def by (simp only: sum.empty)
  qed
  have "counted (set objs) pages ?t"
    using shaded_simps(2,3) [OF sh] cycle_start_simps(3,5) none by (fastforce simp: counted_def)
  moreover have "tricolor tt (set objs) ?t" unfolding t by (rule shade_roots_tricolor [OF cycle_start_tricolor [OF assms(1,2)] assms(3)])
  moreover have "same_objects s ?t" using same_objects_trans [OF cycle_start_simps(1) shaded_simps(1) [OF sh]] .
  moreover have "\<forall>a \<in> set objs. color ?t a \<noteq> White \<longrightarrow> reach (trace tt s) roots a" using c by (auto intro: reach_root)
  moreover have "color ?t r \<noteq> White" if "r \<in> set roots" "r \<noteq> 0" for r
  proof -
    have "r \<in> set objs" using that assms(3) by auto
    then show ?thesis using c that by simp
  qed
  ultimately show ?thesis by (simp add: exact_def)
qed

lemma process_one_exact:
  assumes ex: "exact tt U pages roots s0 s" and w: "worklist s = a # rest"
  shows "exact tt U pages roots s0 (process_one tt a (pop_front rest s))"
proof -
  let ?p = "pop_front rest s"
  let ?t = "process_one tt a ?p"
  have eq: "trace tt ?p = trace tt s" "fresh ?p xs = fresh s xs" for xs by (rule trace_cong; simp) (simp add: fresh_def)
  have tri: "tricolor tt U s" and same: "same_objects s0 s" using ex by (simp_all add: exact_def)
  have a: "a \<in> U" "color s a = Gray" using tri w by (auto simp: tricolor_def)
  have c: "color ?t b = (if b = a then Black else if b \<in> fresh s (trace tt s a) then Gray else color s b)" for b
    using process_one_effect(2) [of tt a ?p b] by (simp add: eq)
  have st: "same_objects s ?t" using process_one_effect(1) [of ?p tt a] by (simp add: same_objects_def)
  have black: "color ?t b = Black \<longleftrightarrow> b = a \<or> color s b = Black" for b by (simp add: c fresh_def)
  have bytes: "black_bytes V ?t = black_bytes V s + (if a \<in> V then ucast (h_size_bytes (g_header s a)) else 0)" for V
    by (rule black_bytes_step [OF a(2) st black])
  have "counted U pages ?t"
    using ex a(1) by (auto simp: exact_def counted_def bytes process_one_effect(5,6))
  moreover have "reach (trace tt s0) roots b" if "b \<in> U" "color ?t b \<noteq> White" for b
  proof (cases "b \<in> fresh s (trace tt s a)")
    case True
    then have "b \<in> set (trace tt s0 a)" "b \<noteq> 0" using same_objects_trace [OF same, of tt] by (simp_all add: fresh_def)
    then show ?thesis using reach_child [of "trace tt s0" roots a b] ex a by (auto simp: exact_def)
  next
    case False
    then have "color s b \<noteq> White" using that(2) a(2) by (simp add: c split: if_splits)
    then show ?thesis using ex that(1) by (simp add: exact_def)
  qed
  moreover have "color ?t r \<noteq> White" if "r \<in> set roots" "r \<noteq> 0" for r using ex that by (simp add: exact_def c)
  ultimately show ?thesis
    using process_one_tricolor [OF tri w] same_objects_trans [OF same st] by (simp add: exact_def)
qed

lemma mark_phase_exact:
  assumes "closed (trace tt s) (set objs)" and "worklist s = []" and "set roots \<subseteq> insert 0 (set objs)"
  shows "exact tt (set objs) pages roots s (mark_phase tt pages objs roots s)"
  unfolding mark_phase_def
  by (rule drain_full_invariant [where P = "exact tt (set objs) pages roots s"]) (fact process_one_exact, fact exact_start [OF assms])

lemma exact_drained:
  assumes "exact tt U pages roots s0 s" and "worklist s = []" and "set roots \<subseteq> insert 0 U" and "a \<in> U"
  shows "color s a = (if reach (trace tt s0) roots a then Black else White)"
proof -
  have tr: "trace tt s = trace tt s0" using assms(1) same_objects_trace by (auto simp: exact_def)
  have "color s a = Black" if "reach (trace tt s0) roots a"
    using drained_black [of tt U s roots a] assms that by (auto simp: exact_def tr)
  then show ?thesis using assms(1,4) by (auto simp: exact_def)
qed

lemma exact_bytes:
  assumes "exact tt U pages roots s0 s" and "worklist s = []" and "set roots \<subseteq> insert 0 U" and "closed (trace tt s0) U"
    and "V \<subseteq> U"
  shows "black_bytes V s = (\<Sum>a | a \<in> V \<and> reach (trace tt s0) roots a. ucast (h_size_bytes (g_header s0 a)))"
proof -
  have "{a. a \<in> V \<and> color s a = Black} = {a. a \<in> V \<and> reach (trace tt s0) roots a}"
    using exact_drained [OF assms(1-3)] assms(5) by (auto split: if_splits)
  moreover have "h_size_bytes (g_header s a) = h_size_bytes (g_header s0 a)" for a
    using assms(1) by (simp add: exact_def same_objects_def)
  ultimately show ?thesis by (simp add: black_bytes_def)
qed

section \<open>Incremental marking loses nothing\<close>

text \<open>What the mutator and the collector do between the start and the end of an incremental cycle, over
  the set of allocated objects: a store into an object followed by the barrier for the stored child, a
  bounded mark step, the marking of additional objects, and the publication of a new old-space object
  whose slots hold allocated objects.\<close>

definition write_payload :: "raw \<Rightarrow> 'p \<Rightarrow> 'p gc_state \<Rightarrow> 'p gc_state" where
  "write_payload a v s = s\<lparr>g_payload := (g_payload s)(a := v)\<rparr>"

inductive cycle_step :: "'p trace_table \<Rightarrow> raw set \<times> 'p gc_state \<Rightarrow> raw set \<times> 'p gc_state \<Rightarrow> bool" for tt where
  store: "a \<in> U \<Longrightarrow> r \<in> insert 0 U \<Longrightarrow> set (trace tt (write_payload a v s) a) \<subseteq> insert r (set (trace tt s a)) \<Longrightarrow>
    cycle_step tt (U, s) (U, write_barrier a r (write_payload a v s))"
| mark: "cycle_step tt (U, s) (U, snd (incremental_mark_step tt n s))"
| additional: "set rs \<subseteq> insert 0 U \<Longrightarrow> cycle_step tt (U, s) (U, snd (mark_additional tt rs s))"
| alloc: "a \<notin> insert 0 U \<Longrightarrow> set (trace tt (install a (header_new tag sz) v s) a) \<subseteq> insert 0 U \<Longrightarrow>
    cycle_step tt (U, s) (insert a U, publish_old tt tag sz v a s)"

lemma tricolor_cong:
  assumes "tricolor_but R tt U s" and "trace tt t = trace tt s" and "\<And>a. color t a = color s a" and "worklist t = worklist s"
  shows "tricolor_but R tt U t"
  using assms by (simp add: tricolor_def)

text \<open>The barrier keeps everything but the remembered flag of the parent, and clears the exception for
  the child.\<close>

lemma remember_simps:
  fixes s :: "'p gc_state"
  defines "t \<equiv> \<lambda>a s. (update_header a set_remembered s)\<lparr>g_remembered := g_remembered s @ [a]\<rparr>"
  shows "trace tt (t a s) = trace tt s" "color (t a s) b = color s b" "g_marking (t a s) = g_marking s"
  by (rule ext) (simp_all add: t_def trace_def split: option.splits)

lemma shade_gray_tricolor:
  assumes "tricolor_but R tt U s" and "r \<in> U"
  shows "tricolor_but (R - {r}) tt U (shade_gray r s)"
proof (cases "color s r = White")
  case True
  have sh: "shaded {r} s (shade_gray r s)" using shade_gray_shaded [of s r] True by simp
  show ?thesis by (rule tricolor_shaded [OF assms(1) sh]) (use assms(2) True in auto)
next
  case False
  then have "shade_gray r s = s" by (simp add: shade_gray_def)
  then show ?thesis using assms(1) False unfolding tricolor_def by auto
qed

lemma shade_gray_frame:
  "trace tt (shade_gray r s) = trace tt s" "ms_is_marking (g_marking (shade_gray r s)) = ms_is_marking (g_marking s)"
  using shaded_simps(1,4) [OF shade_gray_shaded [of s r]] same_objects_trace by auto

lemma write_barrier_cases:
  assumes "ms_is_marking (g_marking s)"
  obtains t where "write_barrier a r s = (if r \<noteq> 0 then shade_gray r t else t)" and "trace tt t = trace tt s"
    and "\<And>b. color t b = color s b" and "g_marking t = g_marking s"
proof -
  let ?m = "(update_header a set_remembered s)\<lparr>g_remembered := g_remembered s @ [a]\<rparr>"
  let ?t = "if r \<noteq> 0 \<and> is_old (g_header s a) \<and> \<not> is_remembered (g_header s a) \<and> is_young (g_header s r) then ?m else s"
  have t: "trace tt ?t = trace tt s" "color ?t b = color s b" "g_marking ?t = g_marking s" for b
    using remember_simps [where s = s and a = a] by (simp_all split: if_splits)
  have "write_barrier a r s = (if r \<noteq> 0 then shade_gray r ?t else ?t)"
    using assms t(3) by (simp add: write_barrier_def Let_def shade_gray_def split: if_splits)
  then show thesis using that t by blast
qed

lemma write_barrier_tricolor:
  assumes "tricolor_but R tt U s" and "r \<in> insert 0 U" and "ms_is_marking (g_marking s)"
  shows "tricolor_but (R - {r}) tt U (write_barrier a r s)" "trace tt (write_barrier a r s) = trace tt s"
    "ms_is_marking (g_marking (write_barrier a r s))"
proof -
  obtain t where t: "write_barrier a r s = (if r \<noteq> 0 then shade_gray r t else t)" "trace tt t = trace tt s"
    "\<And>b. color t b = color s b" "g_marking t = g_marking s"
    using write_barrier_cases [OF assms(3)] by blast
  have tri: "tricolor_but R tt U t" by (rule tricolor_cong [OF assms(1) t(2,3)]) (simp add: t(4))
  show "trace tt (write_barrier a r s) = trace tt s" "ms_is_marking (g_marking (write_barrier a r s))"
    using t(1,2,4) assms(3) by (simp_all add: shade_gray_frame)
  show "tricolor_but (R - {r}) tt U (write_barrier a r s)"
  proof (cases "r = 0")
    case True
    then show ?thesis using tri t(1) by (auto simp: tricolor_def)
  next
    case False
    then show ?thesis using shade_gray_tricolor [OF tri] assms(2) t(1) by simp
  qed
qed

lemma barriers_tricolor:
  assumes "tricolor_but R tt U s" and "set rs \<subseteq> insert 0 U" and "ms_is_marking (g_marking s)"
  shows "tricolor_but (R - set rs) tt U (fold (write_barrier a) rs s) \<and> ms_is_marking (g_marking (fold (write_barrier a) rs s))"
  using assms
proof (induction rs arbitrary: R s)
  case (Cons r rs)
  have r: "r \<in> insert 0 U" using Cons.prems(2) by simp
  note step = write_barrier_tricolor [OF Cons.prems(1) r Cons.prems(3), of a]
  have "R - {r} - set rs = R - set (r # rs)" by auto
  then show ?case using Cons.IH [OF step(1) _ step(3)] Cons.prems(2) by simp
qed simp

lemma store_tricolor:
  assumes "tricolor tt U s" and "a \<in> U" and "r \<in> insert 0 U"
    and "set (trace tt (write_payload a v s) a) \<subseteq> insert r (set (trace tt s a))"
  shows "tricolor_but {r} tt U (write_payload a v s)"
proof -
  let ?t = "write_payload a v s"
  have same: "g_header ?t = g_header s" "worklist ?t = worklist s" by (simp_all add: write_payload_def)
  have tr: "trace tt ?t b = trace tt s b" if "b \<noteq> a" for b
    using that by (simp add: trace_def write_payload_def split: option.splits)
  have edge: "d = r \<or> d \<in> set (trace tt s b)" if "d \<in> set (trace tt ?t b)" for b d
    using that assms(4) tr [of b] by (cases "b = a") auto
  then have "closed (trace tt ?t) U" using assms(1,3) unfolding tricolor_def closed_def by blast
  then show ?thesis using assms(1) edge unfolding tricolor_def same by blast
qed

lemma publish_old_tricolor:
  assumes "tricolor tt U s" and "ms_is_marking (g_marking s)" and a: "a \<notin> insert 0 U"
    and slots: "set (trace tt (install a (header_new tag sz) v s) a) \<subseteq> insert 0 U"
  shows "tricolor tt (insert a U) (publish_old tt tag sz v a s) \<and> ms_is_marking (g_marking (publish_old tt tag sz v a s))"
proof -
  let ?t = "install a (set_mark_color Black (header_new tag sz)) v s"
  have p: "publish_old tt tag sz v a s = fold (write_barrier a) (trace tt ?t a) ?t"
    using assms(2) by (simp add: publish_old_def Let_def)
  have m: "g_marking ?t = g_marking s" by (simp add: install_def)
  have c: "color ?t b = (if b = a then Black else color s b)" for b by (simp add: install_def)
  have tr: "trace tt ?t b = (if b = a then trace tt (install a (header_new tag sz) v s) a else trace tt s b)" for b
    by (simp add: trace_def install_def split: option.splits)
  have old: "closed (trace tt s) U" "set (worklist s) \<subseteq> U" using assms(1) by (simp_all add: tricolor_def)
  have "closed (trace tt ?t) (insert a U)" using old(1) a slots unfolding closed_def tr by auto
  then have "tricolor_but (set (trace tt ?t a)) tt (insert a U) ?t"
    using assms(1) a old unfolding tricolor_def by (auto simp: c tr m closed_def)
  from barriers_tricolor [OF this, of "trace tt ?t a" a] show ?thesis using slots assms(2) unfolding p by (auto simp: tr m)
qed

end
