(* ===== verification/Gc_Incremental.thy ===== *)
theory Gc_Incremental
  imports Gc_Cycle
begin

text \<open>
  Runs of an incremental mark cycle (\<open>otter-gc/src/heap.rs\<close>): every step keeps the tri-colour invariant,
  so finishing the cycle marks what is then reachable. A second part shows two places where allocation
  during a cycle is not covered: a young object is published black without a barrier, and the bytes
  of an object published black are not counted on its page. The last part is a small heap on which the
  theorems are applied.
\<close>

section \<open>Every step keeps the invariant\<close>

definition in_cycle :: "'p trace_table \<Rightarrow> raw set \<times> 'p gc_state \<Rightarrow> bool" where
  "in_cycle tt c \<longleftrightarrow> tricolor tt (fst c) (snd c) \<and> ms_is_marking (g_marking (snd c))"

lemma drain_full_marking: "ms_is_marking (g_marking (drain_full tt s)) = ms_is_marking (g_marking s)"
  by (rule drain_full_invariant [where P = "\<lambda>t. ms_is_marking (g_marking t) = ms_is_marking (g_marking s)"])
    (simp_all add: process_one_effect(4))

lemma drain_with_budget_marking: "ms_is_marking (g_marking (snd (drain_with_budget tt n s))) = ms_is_marking (g_marking s)"
  by (rule drain_with_budget_invariant [where P = "\<lambda>t. ms_is_marking (g_marking t) = ms_is_marking (g_marking s)"])
    (simp_all add: process_one_effect(4))

lemma additions_loop_in_cycle:
  assumes "in_cycle tt (U, s)" and "set rs \<subseteq> insert 0 U"
  shows "in_cycle tt (U, snd (additions_loop rs d s))"
  using assms
proof (induction rs arbitrary: d s)
  case (Cons r rs)
  have "in_cycle tt (U, shade_from_slot r s)" if "r \<noteq> 0"
    using Cons.prems that shade_gray_tricolor [of "{}" tt U s r]
    by (simp add: in_cycle_def shade_from_slot_def shade_gray_frame)
  then show ?case using Cons by auto
qed simp

lemma mark_additional_in_cycle:
  assumes "in_cycle tt (U, s)" and "set rs \<subseteq> insert 0 U"
  shows "in_cycle tt (U, snd (mark_additional tt rs s))"
  using additions_loop_in_cycle [OF assms, of False]
  by (simp add: mark_additional_def case_prod_beta in_cycle_def drain_full_marking drain_full_tricolor)

lemma cycle_step_in_cycle:
  assumes "cycle_step tt c d" and "in_cycle tt c"
  shows "in_cycle tt d"
  using assms
proof cases
  case (store a U r v s)
  have m: "ms_is_marking (g_marking (write_payload a v s))" using assms(2) store by (simp add: in_cycle_def write_payload_def)
  have "tricolor_but {r} tt U (write_payload a v s)" using store_tricolor [OF _ store(3-5)] store(1) assms(2) by (simp add: in_cycle_def)
  from write_barrier_tricolor(1,3) [OF this store(4) m, of a] show ?thesis using store by (simp add: in_cycle_def)
next
  case (mark U s n)
  then show ?thesis
    using assms(2) drain_with_budget_tricolor [of tt U s n]
    by (simp add: in_cycle_def incremental_mark_step_def drain_with_budget_marking)
next
  case (additional rs U s)
  then show ?thesis using mark_additional_in_cycle assms(2) by simp
next
  case (alloc a U tag sz v s)
  then show ?thesis using publish_old_tricolor [of tt U s a tag sz v] assms(2) by (simp add: in_cycle_def)
qed

lemma cycle_steps_in_cycle: "(cycle_step tt)\<^sup>*\<^sup>* c d \<Longrightarrow> in_cycle tt c \<Longrightarrow> in_cycle tt d"
  by (induction rule: rtranclp_induct) (auto dest: cycle_step_in_cycle)

lemma start_in_cycle:
  assumes "closed (trace tt s) (set objs)" and "worklist s = []" and "set roots \<subseteq> insert 0 (set objs)"
  shows "in_cycle tt (set objs, start_incremental_mark_phase pages objs roots s)"
proof -
  have "ms_is_marking (g_marking (start_incremental_mark_phase pages objs roots s))"
    using shaded_simps(4) [OF fold_shade_shaded [of "cycle_start pages objs s" roots]] cycle_start_simps(4) [of pages objs s]
    by (simp add: start_incremental_mark_phase_def shade_roots_def cycle_start_def)
  then show ?thesis using exact_start [OF assms, of pages] by (simp add: in_cycle_def exact_def)
qed

section \<open>Finishing a cycle\<close>

lemma finish_effect:
  assumes "tricolor tt U s" and "set roots \<subseteq> insert 0 U"
  defines "t \<equiv> finish_incremental_mark_phase tt roots s"
  shows "tricolor tt U t" "worklist t = []" "trace tt t = trace tt s" "r \<in> set roots \<Longrightarrow> r \<noteq> 0 \<Longrightarrow> color t r \<noteq> White"
proof -
  let ?r = "shade_roots roots s"
  let ?P = "\<lambda>u. same_objects s u \<and> (\<forall>r \<in> set roots. r \<noteq> 0 \<longrightarrow> color u r \<noteq> White)"
  have sh: "shaded (fresh s roots) s ?r" using fold_shade_shaded [of s roots] by (simp add: shade_roots_def)
  have "?P ?r" using shaded_simps(1) [OF sh] shaded_simps(5) [OF sh] by (simp add: fresh_def)
  moreover have "?P (process_one tt a (pop_front rest u))" if "?P u" for u a rest
  proof -
    have "same_objects u (process_one tt a (pop_front rest u))"
      using process_one_effect(1) [of "pop_front rest u" tt a] by (simp add: same_objects_def)
    then show ?thesis using that same_objects_trans [of s u] by (simp add: process_one_effect(2))
  qed
  ultimately have P: "?P t"
    unfolding t_def finish_incremental_mark_phase_def by (intro drain_full_invariant [where P = ?P])
  then show "trace tt t = trace tt s" "r \<in> set roots \<Longrightarrow> r \<noteq> 0 \<Longrightarrow> color t r \<noteq> White"
    using same_objects_trace by auto
  show "worklist t = []" "tricolor tt U t"
    using drain_full_tricolor [OF shade_roots_tricolor [OF assms(1,2)]]
    by (simp_all add: t_def finish_incremental_mark_phase_def drain_full_empties)
qed

lemma finish_marks_reachable:
  assumes "in_cycle tt (U, s)" and "set roots \<subseteq> insert 0 U" and "reach (trace tt s) roots a"
  shows "color (finish_incremental_mark_phase tt roots s) a = Black"
proof -
  have tri: "tricolor tt U s" using assms(1) by (simp add: in_cycle_def)
  note t = finish_effect [OF tri assms(2)]
  show ?thesis by (rule drained_black [OF t(1,2) assms(2) t(4)]) (simp_all add: t(3) assms(3))
qed

section \<open>A small heap\<close>

text \<open>Payloads are the lists of their slots. The object at 8 points at the one at 16, which points back;
  the object at 24 points at 16 and nothing points at it.\<close>

definition slot_table :: "raw list trace_table" where
  "slot_table tag = Some (\<lambda>slots. slots)"

definition small_heap :: "raw list gc_state" where
  "small_heap = \<lparr>g_header = \<lambda>_. header_new 1 32,
     g_payload = \<lambda>a. if a = 8 then [16, 0] else if a = 16 then [8] else if a = 24 then [16] else [],
     g_page_live = \<lambda>_. 0, g_marking = marking_new, g_remembered = []\<rparr>"

lemma small_heap_closed: "closed (trace slot_table small_heap) (set [8, 16, 24])"
  by (simp add: closed_def trace_def slot_table_def small_heap_def)

lemma small_heap_idle: "worklist small_heap = []"
  by (simp add: small_heap_def marking_new_def)

section \<open>Allocation that the cycle does not cover\<close>

text \<open>A young object is published black, and the slots of its payload do not pass through the barrier.
  Here a cycle starts with 8 as the only root; a young object at 40 is filled with the reference to 16
  that 8 holds, and 8 is overwritten before it is scanned. When the cycle finishes, 16 is reachable
  from the root 40 and white.\<close>

definition young_birth_run :: "raw list gc_state" where
  "young_birth_run =
    (let s = start_incremental_mark_phase [] [8, 16, 24] [8] small_heap;
         s = publish_young 1 32 [16] 40 s;
         s = write_barrier 8 0 (write_payload 8 [] s)
     in finish_incremental_mark_phase slot_table [8, 40] s)"

lemma young_birth_colors: "color young_birth_run 16 = White" "color young_birth_run 40 = Black"
  by code_simp+

lemma young_birth_slots: "trace slot_table young_birth_run 40 = [16]"
  by code_simp

text \<open>Only a processed object adds its bytes to its page. An object published black is never processed,
  so a page that holds nothing else keeps the count 0, at which the sweeper drops the whole page.\<close>

lemma shade_gray_page_live: "g_page_live (shade_gray r s) = g_page_live s"
  by (simp add: shade_gray_def)

lemma write_barrier_page_live: "g_page_live (write_barrier a r s) = g_page_live s"
  by (simp add: write_barrier_def Let_def shade_gray_page_live)

lemma publish_old_page_live: "g_page_live (publish_old tt tag sz v a s) = g_page_live s"
proof -
  have "g_page_live (fold (write_barrier a) rs t) = g_page_live t" for rs and t :: "'a gc_state"
    by (induction rs arbitrary: t) (simp_all add: write_barrier_page_live)
  then show ?thesis by (simp add: publish_old_def Let_def install_def)
qed

definition old_birth_run :: "raw list gc_state" where
  "old_birth_run =
    finish_incremental_mark_phase slot_table [0x40040]
      (publish_old slot_table 1 32 [] 0x40040 (start_incremental_mark_phase [0, 0x40000] [8, 16, 24] [] small_heap))"

lemma old_birth_not_counted: "color old_birth_run 0x40040 = Black \<and> g_page_live old_birth_run (page_base_of 0x40040) = 0"
  by code_simp

end
