(* ===== verification/Spec2Isabelle.thy ===== *)
theory Spec2Isabelle
  imports Rx_Pipeline Rx_Departures Bc_Example Gc_Incremental
begin

text \<open>
  Verification library for the Otter JavaScript runtime. Three parts of the repository are modelled:
  the regular-expression engine (\<open>src/crates/otter-regex\<close>, theories \<open>Rx_*\<close>), the bytecode container
  format with the first pass of the module linker (\<open>src/crates/otter-bytecode\<close> and
  \<open>otter-runtime/src/module_graph.rs\<close>, theories \<open>Bc_*\<close>), and the marker of the garbage collector
  (\<open>src/crates/otter-gc\<close>, theories \<open>Gc_*\<close>). This theory imports them all and holds the properties that
  span components. Definitions keep the names of the source functions where HOL allows it.

  \<^bold>\<open>Regular expressions.\<close> A pattern is parsed to a tree, the tree is lowered to an instruction program,
  and the search interface runs a backtracking executor at successive offsets of a UTF-16 subject.
  \<^item> \<open>Rx_Prelude\<close>: types, checked indexing, saturating arithmetic, shared list lemmas.
  \<^item> \<open>Rx_Casefold\<close>, \<open>Rx_Classes\<close>, \<open>Rx_Class_Sets\<close>: \<open>flags.rs\<close>, \<open>casefold.rs\<close>, \<open>classes.rs\<close>. Range sets with
    binary search, union, complement, intersection, difference; the 128-bit ASCII bitmap; class sets
    with string alternatives.
  \<^item> \<open>Rx_Program\<close>, \<open>Rx_Lower\<close>: \<open>parser/ast.rs\<close>, \<open>program.rs\<close>, \<open>ir.rs\<close>. Tree, instructions, emission,
    class folding, possessive marks, first sets, leading possessive run.
  \<^item> \<open>Rx_Exec\<close>: \<open>exec/backtrack.rs\<close>, \<open>exec/mod.rs\<close>, \<open>cursor.rs\<close>. The instruction loop with its frame stack, undo log and
    step budget.
  \<^item> \<open>Rx_Lex\<close>, \<open>Rx_Names\<close>, \<open>Rx_Class_Grammar\<close>, \<open>Rx_Parser\<close>: \<open>parser/mod.rs\<close>, \<open>error.rs\<close>, \<open>unicode/\<close>. A parser
    step returns a value, a syntax error, a panic, or the exhaustion of a loop bound.
  \<^item> \<open>Rx_Api\<close>: \<open>api.rs\<close>. The match iterator with its prefilter scan and run skip, groups and names.

  \<open>Rx_Semantics\<close> is the reference semantics: a function from trees to the list of outcomes in order of
  preference. It has the structure and the order of preference of ECMA-262 22.2.2, but takes three
  decisions from the engine, which are not those of the standard: without \<open>u\<close> and \<open>v\<close> only ASCII letters
  fold (\<open>s_canon\<close>), back references are compared by code units in every mode (\<open>s_backref\<close>), and all strings
  of a \<open>v\<close>-mode class, the empty one included, come before its code points (\<open>s_class\<close>). \<open>Rx_Exec_Correct\<close>, \<open>Rx_Code\<close>, \<open>Rx_Atoms\<close>, \<open>Rx_Emit\<close> and
  \<open>Rx_Lower_Correct\<close> show that the executor on emitted code computes it. \<open>Rx_Possessive\<close>,
  \<open>Rx_Prefilter\<close> and \<open>Rx_Lead\<close> show under which conditions the optimisations change no result. \<open>Rx_Spans\<close> treats group
  spans. \<open>Rx_Lex_Correct\<close>, \<open>Rx_Digits\<close>, \<open>Rx_Class_Grammar_Correct\<close>, \<open>Rx_Parser_Correct\<close> and
  \<open>Rx_Grammar_Correct\<close> show that the parser terminates, where it panics, that its trees are well formed
  and its groups numbered. \<open>Rx_Duplicate_Names\<close>, \<open>Rx_Literal\<close>, \<open>Rx_Limits\<close>, \<open>Rx_Class_Text\<close> and
  \<open>Rx_Pipeline\<close> hold name validation, literal search, limits, printed classes and the whole pipeline.
  \<open>Rx_Examples\<close> has the concrete patterns of the witnesses; \<open>Rx_Departures\<close> the inputs on which the
  engine departs from the language or from its documentation.

  \<^bold>\<open>Bytecode.\<close>
  \<^item> \<open>Bc_Prelude\<close>: outcomes (value, error, panic) and little-endian bytes.
  \<^item> \<open>Bc_Schema\<close>: \<open>opcode_schema.rs\<close>. Byte table, operand shapes, successors and effects of all opcodes,
    which are named by strings.
  \<^item> \<open>Bc_Wordcode\<close>: \<open>wordcode.rs\<close>. Instructions with inline and overflow operands; the builder refines the
    list of instructions it was given.
  \<^item> \<open>Bc_Encoding\<close>: \<open>encoding.rs\<close>. Verifiers, layouts, the two-pass encoder with jump fix-ups, the decoder.
    \<open>Bc_Roundtrip\<close> and \<open>Bc_Wire\<close> show that decoding inverts encoding, \<open>Bc_Accept\<close> that the decoder, on at most
    2^32 bytes, never panics, and that accepted branches land on instructions.
  \<^item> \<open>Bc_Linker\<close>: the merging pass of \<open>link\<close>, \<open>rewrite_const_indices\<close> and \<open>is_const_pool_operand\<close>. Linked
    operands name the constants they named before. \<open>Bc_Example\<close> has the instances for the witnesses.

  \<^bold>\<open>Garbage collection.\<close>
  \<^item> \<open>Gc_Header\<close>: \<open>header.rs\<close>. The flag byte; colour and flags do not disturb each other.
  \<^item> \<open>Gc_Marking\<close>: \<open>marking.rs\<close>. Shading, processing, draining; draining terminates.
  \<^item> \<open>Gc_Cycle\<close>: \<open>barrier.rs\<close> and the mark phases of \<open>heap.rs\<close>. The tri-colour invariant; exact marking.
  \<^item> \<open>Gc_Incremental\<close>: runs of an incremental cycle as a step relation, their safety, and the two kinds of
    allocation that the cycle does not cover.

  \<^bold>\<open>Parameters and conditions.\<close> The ICU and Unicode tables are parameters (\<open>icu\<close>, \<open>ucd\<close>); \<open>icu_laws\<close> and
  the laws next to \<open>ucd\<close> state their documented behaviour, and \<open>Rx_Examples\<close> instantiates them. Payloads
  and trace functions of the collector are parameters. \<open>lowerable\<close> and \<open>within_limits\<close> bound repeat counts by
  \<open>MAX_REPEAT\<close> and class sizes by the folding limit. \<open>direction_safe\<close> excludes,
  without \<open>u\<close> and \<open>v\<close>, a program with a lookbehind in which a repeat is marked possessive before a literal
  sequence. \<open>lead_safe\<close> restricts a program with a leading possessive run: no back reference, and under the
  flag \<open>i\<close> a leading set closed under ASCII case. \<open>compiled_ok\<close> joins these with distinct group numbers.
  \<open>Rx_Departures\<close> shows patterns outside each condition on which the engine loses a match. \<open>encodable\<close> asks for a verified function of fewer than 2^31 bytes with at most 255
  operands per instruction, so that every byte delta fits an \<open>i32\<close>.

  \<^bold>\<open>Bounds.\<close> The executor loop is a partial function whose result is shown to exist. A parser loop has as
  many rounds as the pattern has units, plus one, since each round consumes a unit; recursion has
  \<open>MAX_NESTING_DEPTH\<close> plus one levels, since the depth guard stops deeper ones. Both are shown never to run
  out. Draining the mark worklist is a total function: twice the white objects plus the worklist
  decreases. Offsets and counts in the parser are natural numbers; the width is kept for saturating
  counts, bitmaps, the step counter, bytes, operand words, branch deltas, object headers and addresses.

  \<^bold>\<open>Not modelled.\<close> Buffer reuse, capacity hints and shared ownership in the regular-expression engine, which
  do not affect results, and its build script. The disassembler and dumps of the bytecode crate. In the
  linker, the synthesised entry body and the loading of modules. In the collector, the scavenger, the
  sweep, allocation in pages and root enumeration, which need a byte-level memory model. The
  interpreter, compiler, JIT, runtime, package manager and tools: they rest on a garbage-collected
  object graph, third-party parsers, native code or the operating system.
\<close>

section \<open>Matching\<close>

text \<open>C1: on a UTF-16 subject, at every offset, the executor run without a step budget on the lowered
  program returns (it neither diverges nor panics), and its answer restricted to the capture slots is
  the match the reference semantics \<open>match_at\<close> gives for the pattern tree; with a budget it returns the
  same answer or the step-limit error. The tree must be \<open>lowerable\<close> (well formed, repeat counts at most
  \<open>MAX_REPEAT\<close>, case-insensitive classes within the folding limit) and \<open>direction_safe\<close> (outside
  unicode mode, a program with a lookbehind has no repeat that is marked possessive and followed by a
  literal sequence). The reference semantics follows ECMA-262 22.2.2 except for the three points named
  in \<open>Rx_Semantics\<close>.\<close>

theorem executor_refines_semantics:
  assumes "icu_laws U" and "lowerable p f" and "direction_safe U p f" and "subject_ok f inp" and "at \<le> length (units inp)"
  shows "\<exists>r. attempt (icu_simple_fold U) (lower U p f) inp at \<lparr>step_limit = None\<rparr> = Some (RunOk r)
    \<and> attempt (icu_simple_fold U) (lower U p f) inp at config \<in> {Some (RunOk r), Some (RunErr StepLimitExceeded)}
    \<and> map_option (restr (mark_base p)) r = match_at U p f inp at"
  using attempt_lower [OF assms(1,2,4,5,3)] .

theorem executor_refines_semantics_witness:
  "\<exists>r. attempt (icu_simple_fold ascii_icu) (lower ascii_icu run_pattern default_flags)
      (subject default_flags [97, 97, 98]) 0 \<lparr>step_limit = None\<rparr> = Some (RunOk r)
    \<and> map_option (restr 2) r = Some (3, [Some 0, Some 3])"
proof -
  have ok: "direction_safe ascii_icu run_pattern default_flags"
    "subject_ok default_flags (subject default_flags [97, 97, 98])" "mark_base run_pattern = 2"
    using run_pattern_compiled by (simp_all add: compiled_ok_def subject_ok_def utf16_def mark_base_def run_pattern_def)
  show ?thesis
    using executor_refines_semantics [OF ascii_icu_laws run_pattern_lowerable ok(1,2), of 0 "\<lparr>step_limit = None\<rparr>"]
      run_pattern_match ok(3) by auto
qed

text \<open>C2: for a pattern that satisfies \<open>compiled_ok\<close>, the match iterator yields exactly the leftmost match at
  or after its position: the next item is the match of the reference semantics at the first scan
  position where the pattern matches, the position moves past it, and without such a position the
  iterator is finished; only a step budget can turn the item into the step-limit error. The
  prefilter, the single-literal scan and the run skip are part of the searched code. \<open>compiled_ok\<close> asks
  for a \<open>lowerable\<close>, \<open>direction_safe\<close> tree with distinct group numbers, and for \<open>lead_safe\<close>: if the
  program starts with a possessive run, it has no back reference, its loop marks are apart from the
  run, and under the flag \<open>i\<close> the set of the run is closed under ASCII case.\<close>

theorem search_finds_leftmost_match:
  assumes "compiled_ok U p f" and "utf16 (ms_text ms)" and "rx_program (ms_regex ms) = lower U p f" and "\<not> ms_done ms"
  shows "matches_next (icu_simple_fold U) ms = Some (next_spec U p f ms (ms_next_start ms))
    \<or> ms_config ms \<noteq> \<lparr>step_limit = None\<rparr>
      \<and> matches_next (icu_simple_fold U) ms = Some (Failed StepLimitExceeded, ms\<lparr>ms_done := True\<rparr>)"
  using matches_next_correct [OF assms] .

theorem search_finds_leftmost_match_witness:
  "matches_next canonicalize (find_utf16 run_regex [99, 97, 97, 98] 0 \<lparr>step_limit = None\<rparr>)
    = Some (next_spec ascii_icu run_pattern default_flags (find_utf16 run_regex [99, 97, 97, 98] 0 \<lparr>step_limit = None\<rparr>) 0)"
proof -
  let ?ms = "find_utf16 run_regex [99, 97, 97, 98] 0 \<lparr>step_limit = None\<rparr>"
  have "utf16 (ms_text ?ms)" "rx_program (ms_regex ?ms) = lower ascii_icu run_pattern default_flags" "\<not> ms_done ?ms"
    "ms_config ?ms = \<lparr>step_limit = None\<rparr>" "ms_next_start ?ms = 0"
    by (simp_all add: find_utf16_def utf16_def run_regex_def)
  then show ?thesis
    using search_finds_leftmost_match [OF run_pattern_compiled, of ?ms] by (simp add: ascii_icu_def)
qed

text \<open>C14: for a \<open>lowerable\<close> tree the first-set prefilter never hides a match: where the pattern matches, the code
  point at that offset exists and passes the prefilter of the compiled program.\<close>

theorem prefilter_hides_no_match:
  assumes "icu_laws U" and "lowerable p f" and "subject_ok f inp" and "at \<le> length (units inp)"
    and "p_prefilter (lower U p f) = Some pf" and "match_at U p f inp at \<noteq> None"
  shows "\<exists>cp w. decode inp at = Some (cp, w) \<and> cp_may_start (icu_simple_fold U) pf cp"
  using prefilter_sound [OF assms] .

theorem prefilter_hides_no_match_witness:
  "\<exists>cp w. decode (subject default_flags [97, 97, 98]) 0 = Some (cp, w)
    \<and> cp_may_start (icu_simple_fold ascii_icu) (prefilter_build (cps_insert 97 cps_new) None) cp"
  using prefilter_hides_no_match [OF ascii_icu_laws run_pattern_lowerable _ _ run_pattern_prefilter,
      of "subject default_flags [97, 97, 98]" 0] run_pattern_match
  by (simp add: subject_ok_def utf16_def)



text \<open>C23: every match the iterator returns for a pattern that satisfies \<open>compiled_ok\<close> has the shape the
  host relies on: one capture entry per group of the pattern, a range that starts at or after the
  position of the iterator, and for the whole match and every group that took part an ordered span
  inside the subject.\<close>

theorem match_spans_are_ordered:
  assumes "compiled_ok U p f" and "utf16 (ms_text ms)" and "rx_program (ms_regex ms) = lower U p f" and "\<not> ms_done ms"
    and "matches_next (icu_simple_fold U) ms = Some (Found m, ms')"
  shows "length (m_captures m) = group_count p \<and> ms_next_start ms \<le> fst (m_range m)
    \<and> (\<forall>i b e. group m i = Some (b, e) \<longrightarrow> b \<le> e \<and> e \<le> length (ms_text ms))"
proof -
  have "next_spec U p f ms (ms_next_start ms) = (Found m, ms')" using matches_next_correct [OF assms(1-4)] assms(5) by auto
  then show ?thesis using next_spec_groups [OF assms(1,2)] next_spec_found(1) [OF assms(1,2)] by blast
qed

theorem match_spans_are_ordered_witness:
  "\<exists>m ms'. matches_next canonicalize (find_utf16 run_regex [97, 97, 98] 0 \<lparr>step_limit = None\<rparr>) = Some (Found m, ms')
    \<and> length (m_captures m) = 0 \<and> (\<forall>i b e. group m i = Some (b, e) \<longrightarrow> b \<le> e \<and> e \<le> 3)"
proof -
  let ?ms = "find_utf16 run_regex [97, 97, 98] 0 \<lparr>step_limit = None\<rparr>"
  have ms: "utf16 (ms_text ?ms)" "rx_program (ms_regex ?ms) = lower ascii_icu run_pattern default_flags" "\<not> ms_done ?ms"
    "ms_config ?ms = \<lparr>step_limit = None\<rparr>" "ms_next_start ?ms = 0" "ms_text ?ms = [97, 97, 98]"
    by (simp_all add: find_utf16_def utf16_def run_regex_def)
  have "0 \<in> set (scan_positions (ms_text ?ms) (is_unicode_mode default_flags) (ms_next_start ?ms))"
    using ms(5,6) by (simp add: scan_positions_units del: upt_Suc)
  then obtain m ms' where m: "matches_next (icu_simple_fold ascii_icu) ?ms = Some (Found m, ms')"
    using search_finds_existing [OF run_pattern_compiled ms(1-4), of 0] run_pattern_match ms(6) by auto
  have "group_count run_pattern = 0" by (simp add: run_pattern_def)
  with match_spans_are_ordered [OF run_pattern_compiled ms(1-3) m] m ms(6) show ?thesis by (simp add: ascii_icu_def numeral_3_eq_3)
qed

text \<open>C21: for a pattern that satisfies \<open>compiled_ok\<close>, iterating over all matches of a subject ends: from any
  state, collecting the items of the iterator needs at most as many calls as there are offsets left,
  plus two.\<close>

theorem iteration_terminates:
  assumes "compiled_ok U p f" and "utf16 (ms_text ms)" and "rx_program (ms_regex ms) = lower U p f" and "\<not> ms_done ms"
    and "Suc (length (ms_text ms)) - ms_next_start ms + 2 \<le> n"
  shows "\<exists>items. collect_items n (icu_simple_fold U) ms = Some items"
  using collect_terminates [OF assms(1,2) refl assms(3,4,5)] .

theorem iteration_terminates_witness:
  "\<exists>items. collect_items 7 (icu_simple_fold ascii_icu) (find_utf16 run_regex [99, 97, 97, 98] 0 \<lparr>step_limit = None\<rparr>) = Some items"
  using iteration_terminates [OF run_pattern_compiled, of "find_utf16 run_regex [99, 97, 97, 98] 0 \<lparr>step_limit = None\<rparr>" 7]
  by (simp add: find_utf16_def utf16_def run_regex_def)

text \<open>C22: for a pattern that satisfies \<open>compiled_ok\<close>, the matches an iteration yields are in order, do not
  overlap, and lie in the subject at or after the starting position.\<close>

theorem iteration_is_ordered:
  assumes "compiled_ok U p f" and "utf16 (ms_text ms)" and "rx_program (ms_regex ms) = lower U p f"
    and "collect_items n (icu_simple_fold U) ms = Some items"
  shows "sorted_wrt (\<lambda>a b. snd (m_range a) \<le> fst (m_range b)) (found_matches items)
    \<and> (\<forall>m\<in>set (found_matches items). ms_next_start ms \<le> fst (m_range m) \<and> fst (m_range m) \<le> snd (m_range m)
        \<and> snd (m_range m) \<le> length (ms_text ms))"
  using collect_ordered [OF assms(1,2) refl assms(3,4)] .

theorem iteration_is_ordered_witness:
  "\<exists>items. collect_items 7 (icu_simple_fold ascii_icu) (find_utf16 run_regex [99, 97, 97, 98] 0 \<lparr>step_limit = None\<rparr>) = Some items
    \<and> sorted_wrt (\<lambda>a b. snd (m_range a) \<le> fst (m_range b)) (found_matches items)"
  using collect_terminates [OF run_pattern_compiled, of "[99, 97, 97, 98]"
      "find_utf16 run_regex [99, 97, 97, 98] 0 \<lparr>step_limit = None\<rparr>" 7]
    iteration_is_ordered [OF run_pattern_compiled, of "find_utf16 run_regex [99, 97, 97, 98] 0 \<lparr>step_limit = None\<rparr>" 7]
  by (auto simp: find_utf16_def utf16_def run_regex_def)

text \<open>C16: for a \<open>lowerable\<close> tree in which no repeat that is marked is followed by a literal sequence while the
  program has a lookbehind (\<open>direction_safe\<close>), marking repeats possessive changes nothing: at every
  offset the marked program and the program without the marks give the same match.\<close>

theorem possessive_marking_preserves_matches:
  assumes "icu_laws U" and "lowerable p f" and "direction_safe U p f" and "subject_ok f inp" and "at \<le> length (units inp)"
  shows "\<exists>r r'. attempt (icu_simple_fold U) (lower U p f) inp at \<lparr>step_limit = None\<rparr> = Some (RunOk r)
    \<and> attempt (icu_simple_fold U) (unmarked U p f) inp at \<lparr>step_limit = None\<rparr> = Some (RunOk r')
    \<and> map_option (restr (mark_base p)) r = map_option (restr (mark_base p)) r'"
  using attempt_lower [OF assms(1,2,4,5,3)] attempt_unmarked [OF assms(1,2,4,5)] by metis

theorem possessive_marking_preserves_matches_witness:
  "\<exists>r r'. attempt (icu_simple_fold ascii_icu) (lower ascii_icu run_pattern default_flags)
      (subject default_flags [97, 97, 98]) 0 \<lparr>step_limit = None\<rparr> = Some (RunOk r)
    \<and> attempt (icu_simple_fold ascii_icu) (unmarked ascii_icu run_pattern default_flags)
      (subject default_flags [97, 97, 98]) 0 \<lparr>step_limit = None\<rparr> = Some (RunOk r')
    \<and> map_option (restr 2) r = map_option (restr 2) r'"
proof -
  have ok: "direction_safe ascii_icu run_pattern default_flags"
    "subject_ok default_flags (subject default_flags [97, 97, 98])" "mark_base run_pattern = 2"
    using run_pattern_compiled by (simp_all add: compiled_ok_def subject_ok_def utf16_def mark_base_def run_pattern_def)
  show ?thesis
    using possessive_marking_preserves_matches [OF ascii_icu_laws run_pattern_lowerable ok(1,2), of 0] ok(3) by simp
qed

text \<open>C24: a step budget never changes an answer: for any program, subject and offset, if the
  unlimited executor answers, the limited one gives that answer or the step-limit error.\<close>

theorem step_budget_only_aborts:
  assumes "attempt sf prog inp at \<lparr>step_limit = None\<rparr> = Some r"
  shows "attempt sf prog inp at \<lparr>step_limit = Some l\<rparr> \<in> {Some r, Some (RunErr StepLimitExceeded)}"
  using attempt_limited [OF assms] .

theorem step_budget_only_aborts_witness:
  "\<exists>r. attempt (icu_simple_fold ascii_icu) (lower ascii_icu run_pattern default_flags)
      (subject default_flags [97, 97, 98]) 0 \<lparr>step_limit = None\<rparr> = Some (RunOk r)
    \<and> attempt (icu_simple_fold ascii_icu) (lower ascii_icu run_pattern default_flags)
      (subject default_flags [97, 97, 98]) 0 \<lparr>step_limit = Some 1\<rparr> \<in> {Some (RunOk r), Some (RunErr StepLimitExceeded)}"
proof -
  have "direction_safe ascii_icu run_pattern default_flags" "subject_ok default_flags (subject default_flags [97, 97, 98])"
    using run_pattern_compiled by (simp_all add: compiled_ok_def subject_ok_def utf16_def)
  then obtain r where "attempt (icu_simple_fold ascii_icu) (lower ascii_icu run_pattern default_flags)
      (subject default_flags [97, 97, 98]) 0 \<lparr>step_limit = None\<rparr> = Some (RunOk r)"
    using attempt_lower [OF ascii_icu_laws run_pattern_lowerable, of "subject default_flags [97, 97, 98]" 0] by auto
  with step_budget_only_aborts [OF this, of 1] show ?thesis by blast
qed

section \<open>Parsing\<close>

text \<open>C5: the parser is total: for every pattern and every flag set it returns a tree, an error or the
  panic of an unchecked access; the bounds its loops and its recursion carry are never used up.\<close>

theorem parser_terminates: "parse D us f \<noteq> PFuel"
  by (rule parse_never_out_of_fuel)

text \<open>C6: the parser panics only on patterns that end in a backslash or a dash, where a character class
  runs into the end of the pattern; every other malformed pattern is reported as an error.\<close>

theorem panics_only_at_the_end:
  assumes "parse D us f = PPanic"
  shows "us \<noteq> [] \<and> (last us = c_bslash \<or> last us = c_dash)"
  using parse_panics_dangling [OF assms] by (simp add: dangling_def)

theorem panics_only_at_the_end_witness:
  "parse ascii_ucd [c_lbrack, c_bslash] default_flags = PPanic \<and> last [c_lbrack, c_bslash] = c_bslash"
  using panics_only_at_the_end [of ascii_ucd "[c_lbrack, c_bslash]" default_flags]
    unfinished_class_panics [of ascii_ucd] by simp

text \<open>C4: groups are numbered from 1 in source order, and the pre-scan that runs before the parser counts
  exactly the groups the parser meets and records their names in the same order; without the
  \<open>v\<close> flag.\<close>

theorem group_numbering:
  assumes "parse D us f = POk p" and "ucd_names D" and "\<not> unicode_sets f"
  shows "capture_indices (root p) = [1..<Suc (group_count p)] \<and> capture_names (root p) = group_names p
    \<and> length (group_names p) = group_count p"
  using parse_numbering [OF assms] by blast

theorem group_numbering_witness:
  "capture_indices (root \<lparr>root = tower 0 2, group_count = 2, group_names = [None, None]\<rparr>) = [1, 2]"
proof -
  have "parse ascii_ucd (replicate 2 c_lparen @ replicate 2 c_rparen) default_flags
      = POk \<lparr>root = tower 0 2, group_count = 2, group_names = replicate 2 None\<rparr>"
    by (subst tower_parse) (simp add: MAX_NESTING_DEPTH_def)
  from group_numbering [OF this] ascii_ucd_laws show ?thesis by (simp add: ucd_laws_def replicate_small upt_rec)
qed

text \<open>C7: without the \<open>v\<close> flag, every tree the parser returns has the shape the lowering relies on: code points
  in range, valid class sets, negated classes without strings, non-empty alternations, ordered
  quantifier bounds, back references to existing groups only, distinct group numbers, and groups
  nested less deep than the limit. (With the flag the pre-scan can count too many groups.)\<close>

theorem parsed_trees_are_well_formed:
  assumes "parse D us f = POk p" and "ucd_laws D" and "utf16 us" and "\<not> unicode_sets f"
  shows "well_formed (group_count p) (root p) \<and> wf_node (group_count p) (root p) \<and> bounded_chars (root p)
    \<and> distinct (capture_indices (root p)) \<and> nesting (root p) < MAX_NESTING_DEPTH"
  using parse_wf_node [OF assms] parse_well_formed [OF assms(1) _ assms(3)] assms(2) by (simp add: ucd_laws_def)

theorem parsed_trees_are_well_formed_witness:
  "well_formed 2 (tower 0 2) \<and> nesting (tower 0 2) < MAX_NESTING_DEPTH"
proof -
  have "parse ascii_ucd (replicate 2 c_lparen @ replicate 2 c_rparen) default_flags
      = POk \<lparr>root = tower 0 2, group_count = 2, group_names = replicate 2 None\<rparr>"
    by (subst tower_parse) (simp add: MAX_NESTING_DEPTH_def)
  from parsed_trees_are_well_formed [OF this ascii_ucd_laws] show ?thesis by (simp add: utf16_def replicate_small)
qed

text \<open>C25: escaping and parsing are inverse: a text with a backslash before each syntax character parses to
  the sequence of the text's units, with no groups.\<close>

theorem escaped_text_round_trip:
  assumes "unit_text f w"
  shows "parse D (escape_text w) f = POk \<lparr>root = literal_tree f w, group_count = 0, group_names = []\<rparr>"
  using parse_literal [OF assms] .

theorem escaped_text_round_trip_witness:
  "parse ascii_ucd [c_a, c_bslash, c_star] default_flags
    = POk \<lparr>root = NConcat [NChar c_a False, NChar c_star False], group_count = 0, group_names = []\<rparr>"
  using escaped_text_round_trip [of default_flags "[c_a, c_star]" ascii_ucd]
  by (simp add: unit_text_def literal_tree_def syntax_char_iff)

text \<open>C26: without the flags \<open>u\<close> and \<open>v\<close>, printing a set of code units as a class of escaped ranges and parsing it
  gives back a class node for the same set.\<close>

theorem class_text_round_trip:
  assumes "cps_inv s" and "list_all unit_range (ranges s)" and "\<not> is_unicode_mode f" and "ucd_names D"
  shows "\<exists>cs. parse D (class_text (ranges s)) f = POk \<lparr>root = NClass cs False (ignore_case f), group_count = 0, group_names = []\<rparr>
    \<and> class_inv cs \<and> class_cps cs = cps_set s"
  using class_text_parses [OF assms(2-4)] insert_ranges_correct [of cps_new "ranges s"] assms(2)
  by (auto simp: from_code_points_correct) (simp_all add: from_code_points_def cps_set_def)

theorem class_text_round_trip_witness:
  "\<exists>cs. parse ascii_ucd (class_text (ranges (cps_insert 97 cps_new))) default_flags
      = POk \<lparr>root = NClass cs False False, group_count = 0, group_names = []\<rparr> \<and> class_cps cs = {97}"
proof -
  have "cps_inv (cps_insert 97 cps_new)" "list_all unit_range (ranges (cps_insert 97 cps_new))"
    "cps_set (cps_insert 97 cps_new) = {97}"
    by (simp_all add: cps_insert_correct MAX_CP_def)
      (simp add: cps_insert_def insert_range_def normalize_def cps_new_def unit_range_def)
  then show ?thesis
    using class_text_round_trip [of "cps_insert 97 cps_new" default_flags ascii_ucd] ascii_ucd_laws
    by (auto simp: ucd_laws_def)
qed

text \<open>C27: the check of duplicate group names decides the structural rule: it accepts a tree exactly
  when no two groups of the same name can take part in one match.\<close>

theorem duplicate_names_are_exclusive:
  assumes "well_formed G n"
  shows "validate_duplicate_named_groups_by_path n = (if exclusive_names n then POk () else PErr duplicate_name)"
  using validate_exclusive [OF assms] .

theorem duplicate_names_are_exclusive_witness:
  "validate_duplicate_named_groups_by_path
      (NConcat [NGroup (Capturing 1 (Some [c_a])) NEmpty, NGroup (Capturing 2 (Some [c_a])) NEmpty]) = PErr duplicate_name
    \<and> validate_duplicate_named_groups_by_path
      (NAlternate [NGroup (Capturing 1 (Some [c_a])) NEmpty, NGroup (Capturing 2 (Some [c_a])) NEmpty]) = POk ()"
  using duplicate_names_are_exclusive [of 0 "NConcat [NGroup (Capturing 1 (Some [c_a])) NEmpty, NGroup (Capturing 2 (Some [c_a])) NEmpty]"]
    duplicate_names_are_exclusive [of 0 "NAlternate [NGroup (Capturing 1 (Some [c_a])) NEmpty, NGroup (Capturing 2 (Some [c_a])) NEmpty]"]
  by simp

text \<open>C28: the nesting guard is exact: \<open>k\<close> nested groups parse when \<open>k\<close> is below the limit and are reported
  as too deep otherwise.\<close>

theorem nesting_guard_is_exact:
  "parse D (replicate k c_lparen @ replicate k c_rparen) f =
    (if k < MAX_NESTING_DEPTH then POk \<lparr>root = tower 0 k, group_count = k, group_names = replicate k None\<rparr>
     else PErr (TooDeep MAX_NESTING_DEPTH))"
  by (rule tower_parse)

text \<open>C29: the bounds of a brace quantifier, written as decimal numerals without leading zeros, are read back
  from their digits, capped at the largest 32-bit value, and compared by their exact values, not by
  the capped ones.\<close>

theorem quantifier_bounds_are_exact:
  assumes "drop (ps_pos s) (ps_units s) = c_lbrace # decimal a @ c_comma # decimal b @ c_rbrace # rest"
  shows "\<exists>s'. parse_brace_quantifier s = POk ((min a u32_max, Some (min b u32_max), b < a), s')
    \<and> drop (ps_pos s') (ps_units s') = rest"
  using brace_range [OF assms] .

theorem quantifier_bounds_are_exact_witness:
  "\<exists>s'. parse_brace_quantifier (parser_new (c_lbrace # decimal 3 @ c_comma # decimal 12 @ [c_rbrace]) default_flags)
      = POk ((3, Some 12, False), s')"
  using quantifier_bounds_are_exact [of "parser_new (c_lbrace # decimal 3 @ c_comma # decimal 12 @ [c_rbrace]) default_flags" 3 12 "[]"]
  by (auto simp: parser_new_def u32_max_def)

text \<open>C30: the body of a property escape is read back: for a name, with or without a value, written in
  braces as UTF-16, the reader returns the same name and value and stops after the brace.\<close>

theorem property_name_round_trip:
  assumes "drop (ps_pos s) (ps_units s) = property_text name val @ rest" and "property_word name"
    and "\<forall>v. val = Some v \<longrightarrow> property_word v"
  shows "\<exists>s'. read_property_name_body s = POk ((name, val), s') \<and> drop (ps_pos s') (ps_units s') = rest"
  using property_name_reads_back [OF assms(1,2)] assms(3) by blast

theorem property_name_round_trip_witness:
  "\<exists>s'. read_property_name_body (parser_new (property_text [c_s, c_c] (Some [0x1F600])) default_flags)
      = POk (([c_s, c_c], Some [0x1F600]), s')"
  using property_name_round_trip [of "parser_new (property_text [c_s, c_c] (Some [0x1F600])) default_flags" "[c_s, c_c]" "Some [0x1F600]" "[]"]
  by (auto simp: parser_new_def property_word_def is_scalar_value_def MAX_CP_def)

section \<open>From pattern to match\<close>

text \<open>C3: without the \<open>v\<close> flag, compiling a pattern and searching with it finds the leftmost match of the
  parsed tree: the units of the pattern go through the pre-scan, the parser, the lowering passes, the
  prefilter and the executor, and the first item of the iterator is the one the reference semantics
  gives. The parsed tree must satisfy \<open>within_limits\<close>: repeat counts and case-insensitive classes within
  the engine's limits, and the conditions \<open>direction_safe\<close> and \<open>lead_safe\<close>, which leave out patterns on
  which possessive marking or the run skip is wrong.\<close>

theorem compile_then_search:
  assumes "compile_utf16 U D us f = POk rx" and "icu_laws U" and "ucd_laws D" and "utf16 us" and "\<not> unicode_sets f"
    and "\<forall>p. parse D us f = POk p \<longrightarrow> within_limits U p f" and "utf16 ts"
  shows "\<exists>p. parse D us f = POk p
    \<and> matches_next (icu_simple_fold U) (find_utf16 rx ts start \<lparr>step_limit = None\<rparr>)
        = Some (next_spec U p f (find_utf16 rx ts start \<lparr>step_limit = None\<rparr>) start)"
  using compile_search [OF assms(1-5) _ assms(7), of start] assms(6) by blast

theorem compile_then_search_witness:
  "\<exists>rx. compile_utf16 ascii_icu ascii_ucd [c_a] default_flags = POk rx
    \<and> matches_next canonicalize (find_utf16 rx [c_b, c_a] 0 \<lparr>step_limit = None\<rparr>)
        = Some (next_spec ascii_icu (literal_pattern default_flags [c_a]) default_flags (find_utf16 rx [c_b, c_a] 0 \<lparr>step_limit = None\<rparr>) 0)"
proof -
  have p: "parse ascii_ucd [c_a] default_flags = POk (literal_pattern default_flags [c_a])"
    using parse_literal [of default_flags "[c_a]" ascii_ucd] by (simp add: unit_text_def syntax_char_iff literal_pattern_def)
  have "within_limits ascii_icu (literal_pattern default_flags [c_a]) default_flags"
    using literal_compiled [OF ascii_icu_laws, of "[c_a]" default_flags]
    by (simp add: utf16_def compiled_ok_def lowerable_def within_limits_def)
  then show ?thesis
    using compile_then_search [of ascii_icu ascii_ucd "[c_a]" default_flags _ "[c_b, c_a]" 0] ascii_icu_laws ascii_ucd_laws p
    by (auto simp: compile_utf16_def utf16_def ascii_icu_def)
qed

text \<open>C8: without the flags \<open>i\<close>, \<open>u\<close> and \<open>v\<close>, searching for an escaped text is searching for the text: the first
  item is the first occurrence at or after the start, with its exact span and no groups, or the end
  of the iteration when the text does not occur.\<close>

theorem literal_search_finds_first_occurrence:
  assumes "icu_laws U" and "utf16 w" and "utf16 ts" and "\<not> is_unicode_mode f" and "\<not> ignore_case f"
  shows "\<exists>rx ms. compile_utf16 U D (escape_text w) f = POk rx
    \<and> matches_next (icu_simple_fold U) (find_utf16 rx ts start \<lparr>step_limit = None\<rparr>) = Some (literal_item w ts start, ms)"
  using literal_search [OF assms] .

theorem literal_search_finds_first_occurrence_witness:
  "\<exists>rx ms. compile_utf16 ascii_icu ascii_ucd [c_a, c_b] default_flags = POk rx
    \<and> matches_next canonicalize (find_utf16 rx [c_a, c_a, c_b] 0 \<lparr>step_limit = None\<rparr>)
        = Some (Found \<lparr>m_range = (1, 3), m_captures = [], m_group_names = []\<rparr>, ms)"
  using literal_search_finds_first_occurrence [OF ascii_icu_laws, of "[c_a, c_b]" "[c_a, c_a, c_b]" default_flags ascii_ucd 0]
  by (simp add: utf16_def syntax_char_iff literal_item_def occurs_at_def ascii_icu_def upt_rec numeral_3_eq_3)

text \<open>C17: for a pattern that satisfies \<open>compiled_ok\<close>, a search without a step budget misses no match: if the
  pattern matches at some scan position at or after the current one, the next item is a match that
  starts no later.\<close>

theorem existing_match_is_found:
  assumes "compiled_ok U p f" and "utf16 (ms_text ms)" and "rx_program (ms_regex ms) = lower U p f" and "\<not> ms_done ms"
    and "ms_config ms = \<lparr>step_limit = None\<rparr>" and "k \<in> set (scan_positions (ms_text ms) (is_unicode_mode f) (ms_next_start ms))"
    and "match_at U p f (subject f (ms_text ms)) k \<noteq> None"
  shows "\<exists>m ms'. matches_next (icu_simple_fold U) ms = Some (Found m, ms') \<and> ms_next_start ms \<le> fst (m_range m) \<and> fst (m_range m) \<le> k"
  using search_finds_existing [OF assms] .

theorem existing_match_is_found_witness:
  "\<exists>m ms'. matches_next canonicalize (find_utf16 run_regex [97, 97, 98] 0 \<lparr>step_limit = None\<rparr>) = Some (Found m, ms')
    \<and> fst (m_range m) = 0"
proof -
  let ?ms = "find_utf16 run_regex [97, 97, 98] 0 \<lparr>step_limit = None\<rparr>"
  have "utf16 (ms_text ?ms)" "rx_program (ms_regex ?ms) = lower ascii_icu run_pattern default_flags" "\<not> ms_done ?ms"
    "ms_config ?ms = \<lparr>step_limit = None\<rparr>" "0 \<in> set (scan_positions (ms_text ?ms) (is_unicode_mode default_flags) (ms_next_start ?ms))"
    "match_at ascii_icu run_pattern default_flags (subject default_flags (ms_text ?ms)) 0 \<noteq> None"
    using run_pattern_match by (simp_all add: find_utf16_def utf16_def run_regex_def scan_positions_units del: upt_Suc)
  from existing_match_is_found [OF run_pattern_compiled this] show ?thesis by (auto simp: ascii_icu_def)
qed

section \<open>Case folding\<close>

text \<open>C31: widening a class by its case closure once, at compile time, is case-insensitive membership under
  the engine's own folding: a code point is a member of the widened class exactly when some member of
  the class has the same fold, which is simple case folding with the flags \<open>u\<close> and \<open>v\<close> and the ASCII
  fold without them.\<close>

theorem class_widening_is_case_insensitive:
  assumes "icu_laws U" and "cps_inv (code_points cs)" and "cp \<le> MAX_CP"
  shows "cp \<in> class_cps (if uni then fold_unicode_case (icu_case_closure U) cs else fold_ascii_case cs)
    \<longleftrightarrow> (\<exists>a \<in> class_cps cs. fold_cp (icu_simple_fold U) uni a = fold_cp (icu_simple_fold U) uni cp)"
proof -
  let ?env = "\<lparr>s_input = subject default_flags [], s_unicode = uni, s_fold = icu_simple_fold U\<rparr>"
  have "s_class_test ?env cs False True cp
    \<longleftrightarrow> cp \<in> class_cps (if uni then fold_unicode_case (icu_case_closure U) cs else fold_ascii_case cs)"
    using class_test_unicode [of ?env U cs cp False] class_test_ascii [of ?env cs False cp] assms by simp
  moreover have "s_canon ?env c = fold_cp (icu_simple_fold U) uni c" for c by (simp add: s_canon_def fold_cp_def)
  ultimately show ?thesis by (auto simp: s_class_test_def s_char_test_def) metis+
qed

theorem class_widening_is_case_insensitive_witness:
  "65 \<in> class_cps (fold_ascii_case (from_code_points (cps_insert 97 cps_new)))"
proof -
  have "cps_inv (code_points (from_code_points (cps_insert 97 cps_new)))" "97 \<in> class_cps (from_code_points (cps_insert 97 cps_new))"
    using cps_insert_correct [of cps_new 97] by (simp_all add: from_code_points_def MAX_CP_def)
  moreover have "fold_cp (icu_simple_fold ascii_icu) False 97 = fold_cp (icu_simple_fold ascii_icu) False 65"
    by (simp add: fold_cp_def canonicalize_def)
  ultimately show ?thesis
    using class_widening_is_case_insensitive [OF ascii_icu_laws, of "from_code_points (cps_insert 97 cps_new)" 65 False]
    by (auto simp: MAX_CP_def)
qed

text \<open>C32: the per-unit test of a fused class repeat, which splits the 128-bit bitmap of the class into two
  64-bit halves and falls back to the binary search above ASCII, is membership in the class.\<close>

theorem fused_class_test_is_membership:
  assumes "get_at (p_classes (cx_program cx)) k = Some (finalize_ascii cs)" and "cps_inv (code_points cs)"
  shows "\<exists>t. atom_test cx (AtomClass k negate False) = Some t \<and> (\<forall>u. t u \<longleftrightarrow> (u \<in> class_cps cs) \<noteq> negate)"
  using atom_test_class [OF assms] .

theorem fused_class_test_is_membership_witness:
  "\<exists>t. atom_test \<lparr>cx_fold = canonicalize,
        cx_program = (lower ascii_icu run_pattern default_flags)\<lparr>p_classes := [finalize_ascii (from_code_points (cps_insert 97 cps_new))]\<rparr>,
        cx_input = subject default_flags [], cx_limit = - 1\<rparr> (AtomClass 0 False False) = Some t \<and> t 97 \<and> \<not> t 98"
proof -
  have "cps_inv (code_points (from_code_points (cps_insert 97 cps_new)))" "class_cps (from_code_points (cps_insert 97 cps_new)) = {97}"
    by (simp_all add: from_code_points_def cps_insert_correct MAX_CP_def)
  then show ?thesis
    using fused_class_test_is_membership [of "\<lparr>cx_fold = canonicalize,
        cx_program = (lower ascii_icu run_pattern default_flags)\<lparr>p_classes := [finalize_ascii (from_code_points (cps_insert 97 cps_new))]\<rparr>,
        cx_input = subject default_flags [], cx_limit = - 1\<rparr>" 0 "from_code_points (cps_insert 97 cps_new)" False]
    by (auto simp: get_at_def)
qed

section \<open>Sets of code points and strings\<close>

text \<open>C33: the set operations of \<open>CodePointSet\<close> keep the representation invariant (ranges valid, sorted,
  with a gap between neighbours) and compute union, complement, intersection and difference
  of the represented sets.\<close>

theorem code_point_set_algebra:
  assumes "cps_inv s" and "cps_inv t"
  shows "cps_inv (cps_union s t) \<and> cps_set (cps_union s t) = cps_set s \<union> cps_set t
    \<and> cps_inv (cps_negate s) \<and> cps_set (cps_negate s) = {0..MAX_CP} - cps_set s
    \<and> cps_inv (cps_intersection s t) \<and> cps_set (cps_intersection s t) = cps_set s \<inter> cps_set t
    \<and> cps_inv (cps_difference s t) \<and> cps_set (cps_difference s t) = cps_set s - cps_set t"
  using cps_union_correct [OF assms] cps_negate_correct [OF assms(1)]
    cps_intersection_correct [OF assms] cps_difference_correct [OF assms] by simp

theorem code_point_set_algebra_witness:
  "cps_set (cps_difference (cps_negate (cps_insert 5 cps_new)) (cps_insert 7 cps_new))
    = cps_set (cps_negate (cps_insert 5 cps_new)) - cps_set (cps_insert 7 cps_new)"
proof -
  have "cps_inv (cps_insert 5 cps_new)" and "cps_inv (cps_insert 7 cps_new)"
    by (simp_all add: cps_insert_correct MAX_CP_def)
  then show ?thesis
    using code_point_set_algebra [of "cps_insert 5 cps_new" "cps_insert 5 cps_new"]
      code_point_set_algebra [of "cps_negate (cps_insert 5 cps_new)" "cps_insert 7 cps_new"] by simp
qed

text \<open>C35: the two fast membership tests agree with the set: the binary search of \<open>contains\<close> on every
  code point, and the 128-bit bitmap that \<open>finalize_ascii\<close> precomputes on every ASCII code point.\<close>

theorem membership_tests_agree:
  assumes "cps_inv (code_points c)"
  shows "(contains (code_points c) cp \<longleftrightarrow> cp \<in> class_cps c)
    \<and> (cp < 128 \<longrightarrow> (ascii_contains (finalize_ascii c) cp \<longleftrightarrow> contains (code_points c) cp))"
  using assms by (simp_all add: contains_correct finalize_ascii_correct)

theorem membership_tests_agree_witness:
  "ascii_contains (finalize_ascii (from_code_points (cps_insert 65 cps_new))) 65
    \<longleftrightarrow> contains (code_points (from_code_points (cps_insert 65 cps_new))) 65"
  using membership_tests_agree [of "from_code_points (cps_insert 65 cps_new)" 65]
  by (simp add: from_code_points_def cps_insert_correct MAX_CP_def)

text \<open>C34: the operators of \<open>v\<close>-mode classes compute the set operations on the strings a class denotes,
  code points and string alternatives together, and keep the representation invariant.\<close>

theorem class_set_operators:
  assumes "class_inv c" and "class_inv d"
  shows "class_inv (class_union c d) \<and> class_lang (class_union c d) = class_lang c \<union> class_lang d
    \<and> class_inv (class_intersection c d) \<and> class_lang (class_intersection c d) = class_lang c \<inter> class_lang d
    \<and> class_inv (class_difference c d) \<and> class_lang (class_difference c d) = class_lang c - class_lang d"
  using cls.union_law [OF assms] cls.inter_law [OF assms] cls.diff_law [OF assms] by simp

theorem class_set_operators_witness:
  "class_lang (class_difference (add_alternative [97, 98] class_default) (single_class 97))
    = class_lang (add_alternative [97, 98] class_default) - class_lang (single_class 97)"
proof -
  have "class_inv (add_alternative [97, 98] class_default)" "class_inv (single_class 97)"
    by (simp_all add: add_alternative_correct class_default_correct single_class_def from_code_points_correct
        cps_insert_correct MAX_CP_def)
  then show ?thesis using class_set_operators by blast
qed

text \<open>C36: the prefilter's table, high-range test and canonicalised probe together answer membership of
  the folded code point in the set the prefilter was built from.\<close>

theorem prefilter_is_membership:
  assumes "cps_inv s"
  shows "cp_may_start sf (prefilter_build s c) cp \<longleftrightarrow> prefilter_fold sf c cp \<in> cps_set s"
  using cp_may_start_correct [OF assms] .

theorem prefilter_is_membership_witness:
  "cp_may_start canonicalize (prefilter_build (cps_insert 300 cps_new) (Some False)) 300"
  by (subst prefilter_is_membership) (simp_all add: cps_insert_correct MAX_CP_def prefilter_fold_def canonicalize_def)

section \<open>Named groups\<close>

text \<open>C37: the named-group iterator yields every group name of the pattern exactly once, in source order
  of its first group, each with the range the name lookup gives.\<close>

theorem named_group_iteration:
  "map fst (collect_names (named_groups m))
      = map ((!) (m_group_names m)) (filter (first_name m) [0..<length (m_group_names m)])
    \<and> distinct (map fst (collect_names (named_groups m)))
    \<and> set (map fst (collect_names (named_groups m))) = set (m_group_names m) - {[]}
    \<and> list_all (\<lambda>(name, range). range = named_group m name) (collect_names (named_groups m))"
  using named_groups_correct [of m] by (auto simp: list_all_iff)

text \<open>C38: looking up a name that several groups share gives the span of the first of them that took
  part in the match.\<close>

theorem named_group_lookup:
  assumes "name \<noteq> []"
  shows "named_group m name =
    (case find (\<lambda>i. m_group_names m ! i = name \<and> group m (i + 1) \<noteq> None) [0..<length (m_group_names m)] of
       Some i \<Rightarrow> group m (i + 1)
     | None \<Rightarrow> None)"
  using named_group_first [OF assms] .

theorem named_group_lookup_witness:
  "named_group \<lparr>m_range = (0, 3), m_captures = [None, Some (1, 2)], m_group_names = [[97], [97]]\<rparr> [97] = Some (1, 2)"
  by (subst named_group_lookup) (simp_all add: group_def get_at_def)

section \<open>Bytecode\<close>

text \<open>C9: a verified function of at most 255 operands per instruction and less than 2 GiB encodes without
  error or panic, and decoding the bytes gives back the same program: the same opcodes and operands,
  every branch naming the same instruction by its byte offset, at the offsets the encoder reported.\<close>

theorem bytecode_round_trip:
  assumes "encodable is"
  shows "\<exists>ef js. try_encode_function is = Ok ef \<and> decode_function (ef_code ef) = Ok js
    \<and> same_program is js (length (ef_code ef)) \<and> map di_pc js = ef_byte_pcs ef"
  using encode_decode [OF assms] wire_image_same_program [OF assms] by metis

theorem bytecode_round_trip_witness:
  "encodable sample \<and> (\<exists>ef js. try_encode_function sample = Ok ef \<and> decode_function (ef_code ef) = Ok js
    \<and> same_program sample js (length (ef_code ef)) \<and> map di_pc js = ef_byte_pcs ef)"
  using bytecode_round_trip [OF sample_encodable] sample_encodable by blast

text \<open>C10: on any byte stream of at most 4 GiB the decoder returns a function or an error and never panics,
  and in every function it returns each branch lands on an instruction of the function or at its
  end, or is an absent handler.\<close>

theorem decoder_is_safe:
  assumes "length bytes \<le> 2 ^ 32"
  shows "decode_function bytes \<noteq> Panic \<and> (\<forall>is. decode_function bytes = Ok is \<longrightarrow> branches_land is (length bytes))"
proof -
  have "length bytes \<le> Suc u32_max" using assms by (simp add: u32_max_def)
  then show ?thesis using decode_function_not_panic accepted_branches_land assms by blast
qed

theorem decoder_is_safe_witness:
  "decode_function sample_bytes = Ok (wire_image sample) \<and> branches_land (wire_image sample) 17"
  using decoder_is_safe [of sample_bytes] sample_decodes by simp

text \<open>C11: the builder implements the list of instructions it stands for. Emission appends one
  instruction and returns its position, patching replaces one operand when its position exists and
  the kinds agree and is refused otherwise, replacement exchanges one instruction, and reading gives
  the operand of the list; none of them panics within the limits of the representation.\<close>

theorem builder_refines_program:
  assumes "builds b p"
  shows "(verified [(op, xs)] \<and> fits (p @ [(op, xs)]) \<longrightarrow> (\<exists>b'. push op xs b = Ok (length p, b') \<and> builds b' (p @ [(op, xs)])))
    \<and> (\<exists>b'. set_operand b pc j x = Ok (fst (abs_set_operand p pc j x), b') \<and> builds b' (snd (abs_set_operand p pc j x)))
    \<and> (pc < length p \<and> verified (p[pc := (op, xs)]) \<and> fits (p[pc := (op, xs)])
        \<longrightarrow> (\<exists>b'. replace b pc op xs = Ok (True, b') \<and> builds b' (p[pc := (op, xs)])))
    \<and> builder_operand b pc j = (if pc < length p then get_at (snd (p ! pc)) j else None)"
  using builder.rep_emit [OF assms] builder.rep_patch [OF assms] builder.rep_replace [OF assms] builder.rep_read [OF assms] by blast

theorem builder_refines_program_witness:
  "builds jump_builder [(''Jump'', [Imm32 0])]
    \<and> (\<exists>b'. push ''Jump'' [Imm32 3] jump_builder = Ok (1, b') \<and> builds b' [(''Jump'', [Imm32 0]), (''Jump'', [Imm32 3])])
    \<and> (\<exists>b'. set_operand jump_builder 0 0 (Imm32 7) = Ok (True, b') \<and> builds b' [(''Jump'', [Imm32 7])])
    \<and> builder_operand jump_builder 0 0 = Some (Imm32 0)"
proof -
  have "fits ([(''Jump'', [Imm32 0])] @ [(''Jump'', [Imm32 3])])"
    by (simp add: fits_def u32_max_def abs_words_def INLINE_OPERAND_WORDS_def)
  moreover have "abs_set_operand [(''Jump'', [Imm32 0])] 0 0 (Imm32 7) = (True, [(''Jump'', [Imm32 7])])"
    by (simp add: abs_set_operand_def)
  ultimately show ?thesis
    using builder_refines_program [OF jump_builder_builds, of "''Jump''" "[Imm32 3]" 0 0 "Imm32 7"] jump_verified [of 3] jump_builder_builds
    by (auto simp: get_at_def)
qed

text \<open>C19: a branch emitted with a placeholder and patched once its target is known reads back as
  patched, and the patch changes no other operand of the body.\<close>

theorem forward_branch_patching:
  assumes "verified (entries (is @ i # js))" and "fits (entries (is @ i # js))"
    and "j < length (di_operands i)" and "operand_kind_of x = operand_kind_of (di_operands i ! j)"
  shows "\<exists>b b'. push_all (is @ i # js) builder_new = Ok b \<and> set_operand b (length is) j x = Ok (True, b')
    \<and> builder_operand b' (length is) j = Some x
    \<and> (\<forall>pc k. (pc, k) \<noteq> (length is, j) \<longrightarrow> builder_operand b' pc k = builder_operand b pc k)"
  using builder.forward_patch [of "entries is" "di_op i" "di_operands i" "entries js" j x] assms
  by (simp add: push_all_emit)

theorem forward_branch_patching_witness:
  "\<exists>b b'. push_all sample builder_new = Ok b \<and> set_operand b 0 0 (Imm32 0) = Ok (True, b')
    \<and> builder_operand b' 0 0 = Some (Imm32 0) \<and> builder_operand b' 1 0 = builder_operand b 1 0"
proof -
  let ?i = "\<lparr>di_pc = 0, di_op = ''JumpIfTrue'', di_operands = [Imm32 1, Register 0]\<rparr>" and ?js = "tl sample"
  have s: "[] @ ?i # ?js = sample" by (simp add: sample_def)
  have "verified (entries ([] @ ?i # ?js))" "fits (entries ([] @ ?i # ?js))"
    unfolding s using encodableD(1) [OF sample_encodable] encodable_fits [OF sample_encodable] by simp_all
  from forward_branch_patching [OF this, of 0 "Imm32 0"] show ?thesis unfolding s by auto
qed

text \<open>C18: for an encodable function the wordcode built from it passes the wordcode verifier, the wordcode
  layout and the logical layout agree, and both give the exact length and instruction offsets of
  the encoding.\<close>

theorem layout_predicts_encoding:
  assumes "encodable is"
  shows "\<exists>ef body. try_encode_function is = Ok ef \<and> from_decoded is = Ok body \<and> verify_wordcode_function body = Ok ()
    \<and> layout_wordcode_function body = Ok \<lparr>total_bytes = length (ef_code ef), layout_byte_pcs = ef_byte_pcs ef\<rparr>
    \<and> layout_function is = Ok \<lparr>total_bytes = length (ef_code ef), layout_byte_pcs = ef_byte_pcs ef\<rparr>"
proof -
  obtain ef where ef: "try_encode_function is = Ok ef" "ef_byte_pcs ef = map di_pc (wire_image is)"
    "length (ef_code ef) = byte_pc (entries is) (length is)"
    using encode_decode [OF assms] by blast
  then have "layout_function is = Ok \<lparr>total_bytes = length (ef_code ef), layout_byte_pcs = ef_byte_pcs ef\<rparr>"
    using encodable_layout [OF assms] by (simp add: wire_image_def)
  then show ?thesis using ef(1) encodable_wordcode [OF assms] by auto
qed

theorem layout_predicts_encoding_witness:
  "\<exists>ef body. try_encode_function sample = Ok ef \<and> from_decoded sample = Ok body \<and> verify_wordcode_function body = Ok ()
    \<and> layout_wordcode_function body = Ok \<lparr>total_bytes = length (ef_code ef), layout_byte_pcs = ef_byte_pcs ef\<rparr>
    \<and> layout_function sample = Ok \<lparr>total_bytes = length (ef_code ef), layout_byte_pcs = ef_byte_pcs ef\<rparr>"
  using layout_predicts_encoding [OF sample_encodable] .

section \<open>Linking\<close>

text \<open>C20: linking compiled fragments with at most 2^32 constants in all succeeds without panic, and in the
  linked program every function of every fragment has a copy, at the position its module-init entry
  gives, in which each operand that \<open>is_const_pool_operand\<close> classifies as a pool reference names the
  constant it named before, function ids shifted, and every other operand is unchanged.\<close>

theorem linked_references_resolve:
  assumes "\<And>url fr. url \<in> set order \<Longrightarrow> nodes url = Some fr \<Longrightarrow> good_fragment fr" and "pool_size nodes order \<le> 2 ^ 32"
  shows "\<exists>s. link_loop nodes order link_start = Ok s \<and> (\<forall>url \<in> set order. \<forall>fr. nodes url = Some fr \<longrightarrow> linked fr url s)"
proof -
  have "length (ls_constants link_start) + pool_size nodes order \<le> 2 ^ 32" using assms(2) by (simp add: link_start_def)
  then show ?thesis using link_loop_ok [of order nodes link_start] assms(1) by blast
qed

theorem linked_references_resolve_witness:
  "\<exists>s. link_loop load_nodes [''a'', ''b''] link_start = Ok s \<and> linked load_fragment ''a'' s \<and> linked load_fragment ''b'' s"
proof -
  have "good_fragment fr" if "load_nodes url = Some fr" for url fr
    using that load_fragment_good by (auto simp: load_nodes_def split: if_splits)
  moreover have "pool_size load_nodes [''a'', ''b''] \<le> 2 ^ 32"
    by (simp add: pool_size_def load_nodes_def load_fragment_def)
  moreover have "load_nodes ''a'' = Some load_fragment" "load_nodes ''b'' = Some load_fragment"
    by (simp_all add: load_nodes_def)
  ultimately show ?thesis using linked_references_resolve [of "[''a'', ''b'']" load_nodes] by auto
qed

section \<open>Garbage collection\<close>

text \<open>C12: a stop-the-world mark phase over a heap closed under its trace functions ends with an empty
  worklist and paints exactly the objects reachable from the roots black and all others white. The
  cycle's byte count and the count of every page are the sums of the sizes of the reachable objects,
  modulo 2^64, and no payload, tag, size or other flag changes.\<close>

theorem marking_is_exact:
  assumes "closed (trace tt s) (set objs)" and "worklist s = []" and "set roots \<subseteq> insert 0 (set objs)"
  shows "worklist (mark_phase tt pages objs roots s) = []
    \<and> (\<forall>a \<in> set objs. color (mark_phase tt pages objs roots s) a = (if reach (trace tt s) roots a then Black else White))
    \<and> ms_live_bytes (g_marking (mark_phase tt pages objs roots s))
        = (\<Sum>a | a \<in> set objs \<and> reach (trace tt s) roots a. ucast (h_size_bytes (g_header s a)))
    \<and> (\<forall>p \<in> set pages. g_page_live (mark_phase tt pages objs roots s) p
        = (\<Sum>a | a \<in> {a \<in> set objs. page_base_of a = p} \<and> reach (trace tt s) roots a. ucast (h_size_bytes (g_header s a))))
    \<and> same_objects s (mark_phase tt pages objs roots s)"
proof -
  let ?t = "mark_phase tt pages objs roots s"
  have ex: "exact tt (set objs) pages roots s ?t" by (rule mark_phase_exact [OF assms])
  have w: "worklist ?t = []" by (simp add: mark_phase_def drain_full_empties)
  have cnt: "counted (set objs) pages ?t" "same_objects s ?t" using ex by (simp_all add: exact_def)
  note bytes = exact_bytes [OF ex w assms(3,1)]
  show ?thesis
    using w cnt exact_drained [OF ex w assms(3)] bytes [of "set objs"] bytes [of "{a \<in> set objs. page_base_of a = p}" for p]
    unfolding counted_def by auto
qed

theorem marking_is_exact_witness:
  "color (mark_phase slot_table [0] [8, 16, 24] [8, 0] small_heap) 16 = Black
    \<and> worklist (mark_phase slot_table [0] [8, 16, 24] [8, 0] small_heap) = []"
proof -
  have "16 \<in> set (trace slot_table small_heap 8)" by (simp add: trace_def slot_table_def small_heap_def)
  then have "reach (trace slot_table small_heap) [8, 0] 16" by (intro reach_child [OF reach_root]) simp_all
  then show ?thesis
    using marking_is_exact [OF small_heap_closed small_heap_idle, of "[8, 0]" "[0]"] by simp
qed

text \<open>C13: an incremental mark cycle loses no reachable object. After any sequence of stores followed by
  the write barrier, bounded mark steps, additional marks and old-space allocations, finishing the
  cycle paints every object black that is then reachable from the roots, whatever the roots are.\<close>

theorem incremental_marking_is_safe:
  assumes "closed (trace tt s) (set objs)" and "worklist s = []" and "set roots \<subseteq> insert 0 (set objs)"
    and "(cycle_step tt)\<^sup>*\<^sup>* (set objs, start_incremental_mark_phase pages objs roots s) (U, t)"
    and "set roots' \<subseteq> insert 0 U" and "reach (trace tt t) roots' a"
  shows "color (finish_incremental_mark_phase tt roots' t) a = Black"
  by (rule finish_marks_reachable [OF cycle_steps_in_cycle [OF assms(4) start_in_cycle [OF assms(1-3)]] assms(5,6)])

theorem incremental_marking_is_safe_witness:
  "color (finish_incremental_mark_phase slot_table [8]
     (write_barrier 8 24 (write_payload 8 [24] (start_incremental_mark_phase [] [8, 16, 24] [8] small_heap)))) 24 = Black"
proof -
  let ?s = "start_incremental_mark_phase [] [8, 16, 24] [8] small_heap"
  let ?t = "write_barrier 8 24 (write_payload 8 [24] ?s)"
  have "cycle_step slot_table (set [8, 16, 24], ?s) (set [8, 16, 24], ?t)"
    by (rule store) (simp_all add: trace_def slot_table_def write_payload_def)
  then have "(cycle_step slot_table)\<^sup>*\<^sup>* (set [8, 16, 24], ?s) (set [8, 16, 24], ?t)" by (rule r_into_rtranclp)
  moreover have "24 \<in> set (trace slot_table ?t 8)" by code_simp
  then have "reach (trace slot_table ?t) [8] 24" by (intro reach_child [OF reach_root]) simp_all
  ultimately show ?thesis
    using incremental_marking_is_safe [OF small_heap_closed small_heap_idle, of "[8]" "[]" "set [8, 16, 24]" ?t "[8]" 24] by simp
qed

text \<open>A young object allocated during an incremental cycle is published black and its slots pass no
  barrier: in this run the object at 16 is reachable from the root 40 when the cycle has finished, and
  white.\<close>

theorem young_allocation_loses_object:
  "reach (trace slot_table young_birth_run) [8, 40] 16 \<and> color young_birth_run 16 = White"
  using reach_child [OF reach_root, of 40 "[8, 40]" 16 "trace slot_table young_birth_run"]
  by (simp add: young_birth_slots young_birth_colors)

end
